(* ===== verification/Prelude.thy ===== *)
theory Prelude
  imports Main "HOL-Library.Word" "HOL-Library.Monad_Syntax" "HOL-Library.AList"
begin

unbundle bit_operations_syntax

text \<open>
  Shared vocabulary of the development.  Fixed-width C++ integers are words of the same
  width; \<open>std::int64_t\<close> is the type \<open>int64\<close>, a 64-bit pattern ordered by its two's
  complement value.  A C++ operation with undefined behaviour on some inputs is modelled by a
  function into \<open>option\<close> whose \<open>None\<close> is undefined behaviour (an out-of-range access, a
  dereference of a null pointer or of an end iterator); the component theories prove that the
  program never gets there.
\<close>

type_synonym byte = "8 word"
type_synonym u8 = "8 word"
type_synonym u16 = "16 word"
type_synonym u32 = "32 word"
type_synonym u64 = "64 word"

named_theorems codec_simps "evaluation rules of the wire codec"
named_theorems rb_simps "abstraction and operation rules of the ring buffer"

subsection \<open>Signed 64-bit integers\<close>

datatype int64 = Int64 (bits64: u64)

definition val64 :: "int64 \<Rightarrow> int" where
  "val64 x = sint (bits64 x)"

lemma val64_inject [simp]: "val64 x = val64 y \<longleftrightarrow> x = y"
  by (cases x; cases y) (auto simp: val64_def intro: signed_word_eqI)

instantiation int64 :: linorder
begin

definition less_eq_int64 :: "int64 \<Rightarrow> int64 \<Rightarrow> bool" where
  "x \<le> y \<longleftrightarrow> val64 x \<le> val64 y"

definition less_int64 :: "int64 \<Rightarrow> int64 \<Rightarrow> bool" where
  "x < y \<longleftrightarrow> val64 x < val64 y"

instance
  by standard (auto simp: less_eq_int64_def less_int64_def)

end

text \<open>Comparison of concrete \<open>int64\<close> values reduces to a signed comparison of words.\<close>

lemma int64_less_code [simp]: "Int64 a < Int64 b \<longleftrightarrow> sint a < sint b"
  by (simp add: less_int64_def val64_def)

lemma int64_less_eq_code [simp]: "Int64 a \<le> Int64 b \<longleftrightarrow> sint a \<le> sint b"
  by (simp add: less_eq_int64_def val64_def)

subsection \<open>Words\<close>

lemma unat_inc: "w \<noteq> -1 \<Longrightarrow> unat (w + 1) = Suc (unat w)" for w :: "'a::len word"
proof -
  assume "w \<noteq> -1"
  then have "w + 1 \<noteq> 0" by (simp add: add_eq_0_iff2)
  then have "unat w = unat (w + 1) - 1" and "unat (w + 1) \<noteq> 0"
    using unat_minus_one [of "w + 1"] by (simp_all add: unat_eq_0)
  then show ?thesis by simp
qed

subsection \<open>Lists\<close>

text \<open>
  \<open>store_at m p bs\<close> is the memory \<open>m\<close> after the bytes \<open>bs\<close> were stored from offset \<open>p\<close> on;
  it is undefined behaviour when the bytes do not fit.
\<close>

definition store_at :: "'a list \<Rightarrow> nat \<Rightarrow> 'a list \<Rightarrow> 'a list option" where
  "store_at m p bs =
     (if p + length bs \<le> length m then Some (take p m @ bs @ drop (p + length bs) m) else None)"

lemma store_at_Nil [simp]: "p \<le> length m \<Longrightarrow> store_at m p [] = Some m"
  by (simp add: store_at_def)

lemma store_at_append:
  "store_at m p (xs @ ys) = do { m' \<leftarrow> store_at m p xs; store_at m' (p + length xs) ys }"
  by (auto simp: store_at_def add.assoc add.commute add.left_commute)

lemma store_at_Cons:
  "store_at m p (x # xs) = do { m' \<leftarrow> store_at m p [x]; store_at m' (Suc p) xs }"
  using store_at_append [of m p "[x]" xs] by simp

lemma store_at_single: "store_at m p [x] = (if p < length m then Some (m[p := x]) else None)"
  by (auto simp: store_at_def upd_conv_take_nth_drop)

lemma length_store_at: "store_at m p bs = Some m' \<Longrightarrow> length m' = length m"
  by (auto simp: store_at_def split: if_splits)

text \<open>The window of \<open>n\<close> elements at offset \<open>p\<close>, \<open>None\<close> when it leaves the list.\<close>

definition window :: "'a list \<Rightarrow> nat \<Rightarrow> nat \<Rightarrow> 'a list option" where
  "window m p n = (if p + n \<le> length m then Some (take n (drop p m)) else None)"

lemma window_0 [simp]: "p \<le> length m \<Longrightarrow> window m p 0 = Some []"
  by (simp add: window_def)

lemma window_Suc:
  "window m p (Suc n) =
     (if p < length m then map_option (Cons (m ! p)) (window m (Suc p) n) else None)"
  by (auto simp: window_def Cons_nth_drop_Suc [symmetric])

text \<open>Removing and replacing the element at an index of a list without duplicates.\<close>

lemma remove_nth:
  assumes "distinct xs" "i < length xs"
  shows "distinct (take i xs @ drop (Suc i) xs)" "set (take i xs @ drop (Suc i) xs) = set xs - {xs ! i}"
proof -
  have "distinct (take i xs @ xs ! i # drop (Suc i) xs)" "set xs = set (take i xs @ xs ! i # drop (Suc i) xs)"
    using assms by (simp_all add: id_take_nth_drop [symmetric])
  then show "distinct (take i xs @ drop (Suc i) xs)" "set (take i xs @ drop (Suc i) xs) = set xs - {xs ! i}"
    by auto
qed

lemma replace_nth:
  assumes "distinct xs" "i < length xs" "y \<notin> set xs"
  shows "distinct (xs[i := y])" "set (xs[i := y]) = insert y (set xs - {xs ! i})"
proof -
  have "distinct (take i xs @ xs ! i # drop (Suc i) xs)" "set xs = set (take i xs @ xs ! i # drop (Suc i) xs)"
    using assms by (simp_all add: id_take_nth_drop [symmetric])
  then show "distinct (xs[i := y])" "set (xs[i := y]) = insert y (set xs - {xs ! i})"
    using assms by (auto simp: upd_conv_take_nth_drop)
qed

end
