(* ===== verification/Object_Pool.thy ===== *)
theory Object_Pool
  imports Prelude
begin

text \<open>
  The per-shard block pools of \<open>orderbook/object_pool.hpp\<close>, and the release of all nodes in
  \<open>~ShardedPipeline\<close> of \<open>io/shard_demux.cpp\<close>.  A block is a pair of the pool whose \<open>storage_\<close> it lies in and its
  index there; memory maps a block to the pointer held in its first bytes, where the free list is
  threaded.  The per-type static array of lazily constructed pools is the state; the \<open>thread_local\<close>
  \<open>current_shard_index\<close> of the calling thread is an argument.  \<open>assert\<close> aborts unless \<open>ndebug\<close>; an
  abort is \<open>None\<close>.
\<close>

datatype block = Block (block_pool: nat) (block_index: nat)

type_synonym memory = "block \<Rightarrow> block option"

record FixedBlockPool =
  free_list :: "block option"
  in_use :: u64

definition kMaxPoolShards :: nat where
  "kMaxPoolShards = 16"

definition write_next :: "block \<Rightarrow> block option \<Rightarrow> memory \<Rightarrow> memory" where
  "write_next b next m = m(b := next)"

definition read_next :: "block \<Rightarrow> memory \<Rightarrow> block option" where
  "read_next b m = m b"

text \<open>\<open>for (i = 0; i + 1 < Capacity; ++i) write_next(slot(i), slot(i + 1));\<close>\<close>

function init_loop :: "nat \<Rightarrow> nat \<Rightarrow> nat \<Rightarrow> memory \<Rightarrow> memory" where
  "init_loop pid cap i m =
     (if i + 1 < cap then init_loop pid cap (i + 1) (write_next (Block pid i) (Some (Block pid (i + 1))) m) else m)"
  by pat_completeness auto
termination
  by (relation "measure (\<lambda>(pid, cap, i, m). cap - i)") auto

declare init_loop.simps [simp del]

definition pool_construct :: "nat \<Rightarrow> nat \<Rightarrow> memory \<Rightarrow> FixedBlockPool \<times> memory" where
  "pool_construct pid cap m =
     (let m = init_loop pid cap 0 m;
          m = write_next (Block pid (cap - 1)) None m
      in (\<lparr>free_list = Some (Block pid 0), in_use = 0\<rparr>, m))"

datatype pool_error = Bad_alloc | Out_of_range

definition pool_allocate :: "FixedBlockPool \<Rightarrow> memory \<Rightarrow> pool_error + (block \<times> FixedBlockPool)" where
  "pool_allocate p m =
     (case free_list p of
        None \<Rightarrow> Inl Bad_alloc
      | Some b \<Rightarrow> Inr (b, p\<lparr>free_list := read_next b m, in_use := in_use p + 1\<rparr>))"

definition in_storage :: "nat \<Rightarrow> nat \<Rightarrow> block \<Rightarrow> bool" where
  "in_storage pid cap b \<longleftrightarrow> block_pool b = pid \<and> block_index b < cap"

definition pool_deallocate :: "bool \<Rightarrow> nat \<Rightarrow> nat \<Rightarrow> block \<Rightarrow> FixedBlockPool \<Rightarrow> memory \<Rightarrow> (FixedBlockPool \<times> memory) option" where
  "pool_deallocate ndebug pid cap b p m =
     (if \<not> ndebug \<and> \<not> in_storage pid cap b then None
      else Some (p\<lparr>free_list := Some b, in_use := in_use p - 1\<rparr>, write_next b (free_list p) m))"

subsection \<open>The allocator\<close>

record pools =
  pool_slots :: "FixedBlockPool option list"
  pool_memory :: memory

definition pools_init :: pools where
  "pools_init = \<lparr>pool_slots = replicate kMaxPoolShards None, pool_memory = \<lambda>_. None\<rparr>"

text \<open>\<open>PoolAllocator::pool()\<close>: \<open>pools.at(current_shard_index)\<close>, constructed on first use.\<close>

definition get_pool :: "nat \<Rightarrow> nat \<Rightarrow> pools \<Rightarrow> pool_error + (FixedBlockPool \<times> pools)" where
  "get_pool cap index ps =
     (if length (pool_slots ps) \<le> index then Inl Out_of_range
      else case pool_slots ps ! index of
        Some p \<Rightarrow> Inr (p, ps)
      | None \<Rightarrow>
          (let (p, m) = pool_construct index cap (pool_memory ps)
           in Inr (p, ps\<lparr>pool_slots := (pool_slots ps)[index := Some p], pool_memory := m\<rparr>)))"

datatype allocation = Pool_node block | Heap_array nat

text \<open>The branch \<open>n == 1\<close> of \<open>allocate\<close>: one node from the pool of the calling thread's shard.\<close>

definition allocate_node :: "nat \<Rightarrow> nat \<Rightarrow> pools \<Rightarrow> (pool_error + block) \<times> pools" where
  "allocate_node cap index ps =
     (case get_pool cap index ps of
        Inl e \<Rightarrow> (Inl e, ps)
      | Inr (p, ps) \<Rightarrow>
          (case pool_allocate p (pool_memory ps) of
             Inl e \<Rightarrow> (Inl e, ps)
           | Inr (b, p) \<Rightarrow> (Inr b, ps\<lparr>pool_slots := (pool_slots ps)[index := Some p]\<rparr>)))"

definition allocate :: "nat \<Rightarrow> nat \<Rightarrow> nat \<Rightarrow> pools \<Rightarrow> (pool_error + allocation) \<times> pools" where
  "allocate cap index n ps =
     (if n = 1 then
        (case allocate_node cap index ps of
           (Inl e, ps) \<Rightarrow> (Inl e, ps)
         | (Inr b, ps) \<Rightarrow> (Inr (Pool_node b), ps))
      else (Inr (Heap_array n), ps))"

text \<open>\<open>deallocate\<close> is \<open>noexcept\<close>: an exception that would leave it terminates the program.\<close>

definition deallocate_node :: "bool \<Rightarrow> nat \<Rightarrow> nat \<Rightarrow> block \<Rightarrow> pools \<Rightarrow> pools option" where
  "deallocate_node ndebug cap index b ps =
     (case get_pool cap index ps of
        Inl e \<Rightarrow> None
      | Inr (p, ps) \<Rightarrow> do {
          (p, m) \<leftarrow> pool_deallocate ndebug index cap b p (pool_memory ps);
          Some (ps\<lparr>pool_slots := (pool_slots ps)[index := Some p], pool_memory := m\<rparr>) })"

definition deallocate :: "bool \<Rightarrow> nat \<Rightarrow> nat \<Rightarrow> allocation \<Rightarrow> pools \<Rightarrow> pools option" where
  "deallocate ndebug cap index a ps =
     (case a of
        Pool_node b \<Rightarrow> deallocate_node ndebug cap index b ps
      | Heap_array n \<Rightarrow> Some ps)"

text \<open>The diagnostic counter of the allocator.\<close>

definition allocator_in_use :: "nat \<Rightarrow> nat \<Rightarrow> pools \<Rightarrow> u64 option" where
  "allocator_in_use cap index ps =
     (case get_pool cap index ps of Inl e \<Rightarrow> None | Inr (p, ps) \<Rightarrow> Some (in_use p))"

subsection \<open>Releasing the nodes of all shards\<close>

fun release_all :: "bool \<Rightarrow> nat \<Rightarrow> nat \<Rightarrow> block list \<Rightarrow> pools \<Rightarrow> pools option" where
  "release_all ndebug cap index [] ps = Some ps"
| "release_all ndebug cap index (b # bs) ps = do {
     ps \<leftarrow> deallocate_node ndebug cap index b ps;
     release_all ndebug cap index bs ps }"

text \<open>
  The destructor: \<open>set_current_shard_index(i); shards_[i].reset();\<close> for every shard, where \<open>nodes ! i\<close> are the
  nodes that the books of shard \<open>i\<close> hold, in the order in which they are released.
\<close>

fun destroy_shards :: "bool \<Rightarrow> nat \<Rightarrow> nat \<Rightarrow> block list list \<Rightarrow> pools \<Rightarrow> pools option" where
  "destroy_shards ndebug cap i [] ps = Some ps"
| "destroy_shards ndebug cap i (bs # rest) ps = do {
     ps \<leftarrow> release_all ndebug cap i bs ps;
     destroy_shards ndebug cap (i + 1) rest ps }"

subsection \<open>Clients\<close>

text \<open>
  What the node-based containers of a shard do with its pool: request a node, or release the \<open>k\<close>-th of the
  nodes they hold.  A failed request throws and leaves the nodes held as they were.
\<close>

datatype request = Get | Put nat

fun client_step :: "('s \<Rightarrow> ('e + 'b) \<times> 's) \<Rightarrow> ('b \<Rightarrow> 's \<Rightarrow> 's option) \<Rightarrow> request \<Rightarrow> 'b list \<Rightarrow> 's \<Rightarrow> ('b list \<times> 's) option" where
  "client_step alloc release Get held s =
     (case alloc s of (Inl e, s) \<Rightarrow> Some (held, s) | (Inr b, s) \<Rightarrow> Some (held @ [b], s))"
| "client_step alloc release (Put k) held s =
     (if k < length held then map_option (\<lambda>s. (take k held @ drop (Suc k) held, s)) (release (held ! k) s)
      else Some (held, s))"

text \<open>An interleaving of the requests of all shards, on the nodes \<open>held ! i\<close> of every shard \<open>i\<close>.\<close>

fun run_requests :: "bool \<Rightarrow> nat \<Rightarrow> (nat \<times> request) list \<Rightarrow> block list list \<Rightarrow> pools \<Rightarrow> (block list list \<times> pools) option" where
  "run_requests ndebug cap [] held ps = Some (held, ps)"
| "run_requests ndebug cap ((i, r) # rs) held ps = do {
     (bs, ps) \<leftarrow> client_step (allocate_node cap i) (deallocate_node ndebug cap i) r (held ! i) ps;
     run_requests ndebug cap rs (held[i := bs]) ps }"

subsection \<open>The free list\<close>

fun chain :: "memory \<Rightarrow> block option \<Rightarrow> block list \<Rightarrow> bool" where
  "chain m p [] \<longleftrightarrow> p = None"
| "chain m p (b # bs) \<longleftrightarrow> p = Some b \<and> chain m (m b) bs"

lemma chain_frame: "b \<notin> set bs \<Longrightarrow> chain (m(b := v)) p bs = chain m p bs"
  by (induction bs arbitrary: p) auto

definition blocks :: "nat \<Rightarrow> nat \<Rightarrow> block set" where
  "blocks pid cap = {b. in_storage pid cap b}"

text \<open>A pool with the given free blocks; the others are in use.\<close>

definition pool_ok :: "nat \<Rightarrow> nat \<Rightarrow> memory \<Rightarrow> FixedBlockPool \<Rightarrow> block list \<Rightarrow> bool" where
  "pool_ok pid cap m p free \<longleftrightarrow>
     chain m (free_list p) free \<and> distinct free \<and> set free \<subseteq> blocks pid cap \<and> unat (in_use p) + length free = cap"

lemma blocks_eq: "blocks pid cap = Block pid ` {..<cap}"
proof (rule set_eqI)
  fix b
  show "b \<in> blocks pid cap \<longleftrightarrow> b \<in> Block pid ` {..<cap}"
    by (cases b) (auto simp: blocks_def in_storage_def)
qed

lemma finite_blocks: "finite (blocks pid cap)" "card (blocks pid cap) = cap"
  by (simp_all add: blocks_eq card_image inj_on_def)

lemma init_loop_eq:
  "init_loop pid cap i m = (\<lambda>b. if block_pool b = pid \<and> i \<le> block_index b \<and> block_index b + 1 < cap
     then Some (Block pid (block_index b + 1)) else m b)"
proof (induction pid cap i m rule: init_loop.induct)
  case (1 pid cap i m)
  show ?case
  proof (cases "i + 1 < cap")
    case True
    then show ?thesis
      unfolding init_loop.simps [of pid cap i] 1 [OF True]
      by (auto simp: write_next_def fun_eq_iff) (metis block.collapse le_antisym not_less_eq_eq)+
  next
    case False
    then show ?thesis by (auto simp: init_loop.simps [of pid cap i] fun_eq_iff)
  qed
qed

lemma construct_chain:
  assumes "\<And>j. i \<le> j \<Longrightarrow> j + 1 < cap \<Longrightarrow> m (Block pid j) = Some (Block pid (j + 1))" "m (Block pid (cap - 1)) = None" "i < cap"
  shows "chain m (Some (Block pid i)) (map (Block pid) [i..<cap])"
  using assms
proof (induction "cap - i" arbitrary: i)
  case (Suc n)
  show ?case
  proof (cases "i + 1 < cap")
    case True
    then have "chain m (Some (Block pid (i + 1))) (map (Block pid) [i + 1..<cap])"
      using Suc.hyps(1) [of "i + 1"] Suc.hyps(2) Suc.prems by simp
    then show ?thesis using True Suc.prems(1) [of i] by (simp add: upt_conv_Cons)
  next
    case False
    then have "cap = Suc i" using Suc.prems(3) by simp
    then show ?thesis using Suc.prems(2) by simp
  qed
qed simp

lemma construct_ok:
  assumes "0 < cap" "pool_construct pid cap m = (p, m')"
  shows "pool_ok pid cap m' p (map (Block pid) [0..<cap])" and "\<And>b. block_pool b \<noteq> pid \<Longrightarrow> m' b = m b"
proof -
  have p: "p = \<lparr>free_list = Some (Block pid 0), in_use = 0\<rparr>"
    and m': "m' = (init_loop pid cap 0 m)(Block pid (cap - 1) := None)"
    using assms(2) by (auto simp: pool_construct_def write_next_def Let_def)
  have "chain m' (Some (Block pid 0)) (map (Block pid) [0..<cap])"
    by (rule construct_chain) (use assms(1) in \<open>auto simp: m' init_loop_eq\<close>)
  then show "pool_ok pid cap m' p (map (Block pid) [0..<cap])"
    by (auto simp: pool_ok_def p distinct_map inj_on_def blocks_eq)
  show "\<And>b. block_pool b \<noteq> pid \<Longrightarrow> m' b = m b" by (auto simp: m' init_loop_eq)
qed


text \<open>The free blocks of a pool, by following the list; it has at most \<open>cap\<close> entries.\<close>

fun follow :: "nat \<Rightarrow> memory \<Rightarrow> block option \<Rightarrow> block list" where
  "follow (Suc n) m (Some b) = b # follow n m (m b)"
| "follow n m p = []"

lemma follow_chain: "chain m p bs \<Longrightarrow> length bs \<le> n \<Longrightarrow> follow n m p = bs"
proof (induction bs arbitrary: n p)
  case Nil
  then show ?case by (cases n) auto
next
  case (Cons b bs)
  then show ?case by (cases n) auto
qed

definition free_blocks :: "nat \<Rightarrow> pools \<Rightarrow> FixedBlockPool \<Rightarrow> block list" where
  "free_blocks cap ps p = follow cap (pool_memory ps) (free_list p)"

definition live_blocks :: "nat \<Rightarrow> nat \<Rightarrow> pools \<Rightarrow> block set" where
  "live_blocks cap i ps =
     (case pool_slots ps ! i of None \<Rightarrow> {} | Some p \<Rightarrow> blocks i cap - set (free_blocks cap ps p))"

definition pools_ok :: "nat \<Rightarrow> pools \<Rightarrow> bool" where
  "pools_ok cap ps \<longleftrightarrow> 0 < cap \<and> cap < 2 ^ 64 \<and> length (pool_slots ps) = kMaxPoolShards \<and>
     (\<forall>i < kMaxPoolShards. case pool_slots ps ! i of
        None \<Rightarrow> True | Some p \<Rightarrow> pool_ok i cap (pool_memory ps) p (free_blocks cap ps p))"

lemma pools_init_ok: "0 < cap \<Longrightarrow> cap < 2 ^ 64 \<Longrightarrow> pools_ok cap pools_init"
  by (simp add: pools_ok_def pools_init_def)

lemma pool_ok_free: "pool_ok i cap (pool_memory ps) p free \<Longrightarrow> free_blocks cap ps p = free"
  by (auto simp: pool_ok_def free_blocks_def intro: follow_chain)

lemma chain_cong: "(\<And>b. b \<in> set bs \<Longrightarrow> m' b = m b) \<Longrightarrow> chain m' p bs = chain m p bs"
  by (induction bs arbitrary: p) auto

text \<open>A change to the memory of other pools or to blocks in use leaves a pool as it is.\<close>

lemma pool_ok_frame:
  assumes "pool_ok i cap m p free" "\<And>b. b \<in> set free \<Longrightarrow> m' b = m b"
  shows "pool_ok i cap m' p free"
  using assms chain_cong [of free m' m] by (simp add: pool_ok_def)

lemma blocks_pool: "b \<in> blocks i cap \<Longrightarrow> block_pool b = i"
  by (simp add: blocks_def in_storage_def)

lemma pools_okD:
  assumes "pools_ok cap ps" "i < kMaxPoolShards" "pool_slots ps ! i = Some p"
  shows "pool_ok i cap (pool_memory ps) p (free_blocks cap ps p)"
  using assms by (auto simp: pools_ok_def)

text \<open>
  Replacing pool \<open>i\<close> and the memory, when the memory of the other pools' blocks stays the same: the other
  pools keep their blocks in use.
\<close>

lemma replace_pool:
  assumes ok: "pools_ok cap ps" and i: "i < kMaxPoolShards"
    and p': "pool_ok i cap m' p' free'"
    and others: "\<And>b. block_pool b \<noteq> i \<Longrightarrow> m' b = pool_memory ps b"
  defines "ps' \<equiv> ps\<lparr>pool_slots := (pool_slots ps)[i := Some p'], pool_memory := m'\<rparr>"
  shows "pools_ok cap ps'" and "live_blocks cap i ps' = blocks i cap - set free'"
    and "\<And>j. j < kMaxPoolShards \<Longrightarrow> j \<noteq> i \<Longrightarrow> pool_slots ps' ! j = pool_slots ps ! j \<and> live_blocks cap j ps' = live_blocks cap j ps"
proof -
  have len: "length (pool_slots ps) = kMaxPoolShards" using ok by (simp add: pools_ok_def)
  have free': "free_blocks cap ps' p' = free'"
    using pool_ok_free [of i cap ps' p' free'] p' by (simp add: ps'_def)
  show "live_blocks cap i ps' = blocks i cap - set free'"
    using free' i len by (simp add: live_blocks_def ps'_def)
  have other: "pool_ok j cap m' p (free_blocks cap ps p) \<and> free_blocks cap ps' p = free_blocks cap ps p"
    if j: "j < kMaxPoolShards" "j \<noteq> i" and p: "pool_slots ps ! j = Some p" for j p
  proof -
    note okj = pools_okD [OF ok j(1) p]
    have "pool_ok j cap m' p (free_blocks cap ps p)"
      by (rule pool_ok_frame [OF okj]) (use okj j(2) others blocks_pool in \<open>auto simp: pool_ok_def\<close>)
    then show ?thesis using pool_ok_free [of j cap ps' p] by (simp add: ps'_def)
  qed
  show "pool_slots ps' ! j = pool_slots ps ! j \<and> live_blocks cap j ps' = live_blocks cap j ps"
    if "j < kMaxPoolShards" "j \<noteq> i" for j
    using other [OF that] that len by (auto simp: live_blocks_def ps'_def split: option.splits)
  show "pools_ok cap ps'"
    unfolding pools_ok_def
  proof (intro conjI allI impI)
    show "0 < cap" "cap < 2 ^ 64" using ok by (simp_all add: pools_ok_def)
    show "length (pool_slots ps') = kMaxPoolShards" using len by (simp add: ps'_def)
    fix j
    assume j: "j < kMaxPoolShards"
    show "case pool_slots ps' ! j of None \<Rightarrow> True | Some p \<Rightarrow> pool_ok j cap (pool_memory ps') p (free_blocks cap ps' p)"
    proof (cases "j = i")
      case True
      then show ?thesis using p' free' len i by (simp add: ps'_def)
    next
      case False
      then show ?thesis using other [OF j False] by (auto simp: ps'_def split: option.splits)
    qed
  qed
qed

subsection \<open>Allocation and release\<close>

lemma get_pool_ok:
  assumes ok: "pools_ok cap ps" and i: "i < kMaxPoolShards"
  obtains p ps1 free where "get_pool cap i ps = Inr (p, ps1)" "pools_ok cap ps1" "pool_slots ps1 ! i = Some p"
    "pool_ok i cap (pool_memory ps1) p free" "live_blocks cap i ps1 = live_blocks cap i ps"
    "\<And>j. j < kMaxPoolShards \<Longrightarrow> j \<noteq> i \<Longrightarrow> pool_slots ps1 ! j = pool_slots ps ! j \<and> live_blocks cap j ps1 = live_blocks cap j ps"
proof (cases "pool_slots ps ! i")
  case (Some p)
  have "length (pool_slots ps) = kMaxPoolShards" using ok by (simp add: pools_ok_def)
  then show thesis using that [of p ps] Some pools_okD [OF ok i Some] ok i by (simp add: get_pool_def)
next
  case None
  have len: "length (pool_slots ps) = kMaxPoolShards" and cap: "0 < cap" using ok by (simp_all add: pools_ok_def)
  obtain p m' where new: "pool_construct i cap (pool_memory ps) = (p, m')" by fastforce
  note p = construct_ok [OF cap new]
  note rp = replace_pool [OF ok i p]
  have "live_blocks cap i (ps\<lparr>pool_slots := (pool_slots ps)[i := Some p], pool_memory := m'\<rparr>) = {}"
    using rp(2) by (auto simp: blocks_eq)
  moreover have "live_blocks cap i ps = {}" using None by (simp add: live_blocks_def)
  moreover have "get_pool cap i ps = Inr (p, ps\<lparr>pool_slots := (pool_slots ps)[i := Some p], pool_memory := m'\<rparr>)"
    using None new i len by (simp add: get_pool_def)
  ultimately show thesis
    using that [of p "ps\<lparr>pool_slots := (pool_slots ps)[i := Some p], pool_memory := m'\<rparr>" "map (Block i) [0..<cap]"]
      i len p(1) rp(1,3) by simp
qed

text \<open>Taking the first free block of a pool, and giving one back.\<close>

lemma pool_take:
  assumes "pool_ok i cap m p (b # free)" "cap < 2 ^ 64"
  shows "pool_ok i cap m (p\<lparr>free_list := m b, in_use := in_use p + 1\<rparr>) free"
proof -
  have "in_use p \<noteq> -1" using assms by (auto simp: pool_ok_def unsigned_minus_1_eq_mask mask_eq_exp_minus_1)
  then show ?thesis using assms(1) unat_inc [of "in_use p"] by (simp add: pool_ok_def)
qed

lemma pool_give:
  assumes p: "pool_ok i cap m p free" and b: "b \<in> blocks i cap" "b \<notin> set free"
  shows "pool_ok i cap (m(b := free_list p)) (p\<lparr>free_list := Some b, in_use := in_use p - 1\<rparr>) (b # free)"
proof -
  have "card (insert b (set free)) \<le> cap"
    using card_mono [of "blocks i cap" "insert b (set free)"] finite_blocks b p by (simp add: pool_ok_def)
  then have "Suc (length free) \<le> cap" using b p by (simp add: pool_ok_def distinct_card)
  then have "in_use p \<noteq> 0" using p by (auto simp: pool_ok_def)
  then have "unat (in_use p - 1) = unat (in_use p) - 1" "unat (in_use p) \<noteq> 0"
    by (simp_all add: unat_minus_one unat_eq_0)
  then show ?thesis using p b chain_frame [of b free] by (auto simp: pool_ok_def)
qed

lemma allocate_ok:
  assumes ok: "pools_ok cap ps" and i: "i < kMaxPoolShards"
  obtains (exhausted) ps' where "allocate_node cap i ps = (Inl Bad_alloc, ps')" "live_blocks cap i ps = blocks i cap"
      "pools_ok cap ps'" "\<And>j. j < kMaxPoolShards \<Longrightarrow> live_blocks cap j ps' = live_blocks cap j ps"
  | (fresh) b ps' where "allocate_node cap i ps = (Inr b, ps')" "b \<in> blocks i cap" "b \<notin> live_blocks cap i ps"
      "live_blocks cap i ps' = insert b (live_blocks cap i ps)" "pools_ok cap ps'"
      "\<And>j. j < kMaxPoolShards \<Longrightarrow> j \<noteq> i \<Longrightarrow> live_blocks cap j ps' = live_blocks cap j ps"
proof -
  obtain p ps1 free where g: "get_pool cap i ps = Inr (p, ps1)" "pools_ok cap ps1" "pool_slots ps1 ! i = Some p"
    and p: "pool_ok i cap (pool_memory ps1) p free" and live: "live_blocks cap i ps1 = live_blocks cap i ps"
    and frame: "\<And>j. j < kMaxPoolShards \<Longrightarrow> j \<noteq> i \<Longrightarrow> live_blocks cap j ps1 = live_blocks cap j ps"
    using get_pool_ok [OF ok i] by metis
  have live1: "live_blocks cap i ps1 = blocks i cap - set free"
    using g(3) pool_ok_free [OF p] by (simp add: live_blocks_def)
  show thesis
  proof (cases free)
    case Nil
    then have "free_list p = None" using p by (simp add: pool_ok_def)
    then have "allocate_node cap i ps = (Inl Bad_alloc, ps1)" using g(1) by (simp add: allocate_node_def pool_allocate_def)
    then show thesis using exhausted [of ps1] live1 live g(2) frame Nil by (metis Diff_empty empty_set)
  next
    case (Cons b free')
    let ?p' = "p\<lparr>free_list := pool_memory ps1 b, in_use := in_use p + 1\<rparr>"
    have p': "pool_ok i cap (pool_memory ps1) ?p' free'" using p Cons ok by (intro pool_take) (simp_all add: pools_ok_def)
    note rp = replace_pool [OF g(2) i p' refl]
    have "allocate_node cap i ps = (Inr b, ps1\<lparr>pool_slots := (pool_slots ps1)[i := Some ?p']\<rparr>)"
      using g(1) p Cons by (simp add: allocate_node_def pool_allocate_def pool_ok_def read_next_def)
    moreover have "b \<in> blocks i cap" "b \<notin> set free'" using p Cons by (auto simp: pool_ok_def)
    ultimately show thesis
      using fresh [of b "ps1\<lparr>pool_slots := (pool_slots ps1)[i := Some ?p']\<rparr>"] rp live live1 Cons frame by auto
  qed
qed

lemma deallocate_ok:
  assumes ok: "pools_ok cap ps" and i: "i < kMaxPoolShards" and b: "b \<in> live_blocks cap i ps"
  obtains ps' where "deallocate_node ndebug cap i b ps = Some ps'" "pools_ok cap ps'"
    "live_blocks cap i ps' = live_blocks cap i ps - {b}"
    "\<And>j. j < kMaxPoolShards \<Longrightarrow> j \<noteq> i \<Longrightarrow> live_blocks cap j ps' = live_blocks cap j ps"
proof -
  obtain p where slot: "pool_slots ps ! i = Some p" using b by (auto simp: live_blocks_def split: option.splits)
  let ?free = "free_blocks cap ps p"
  note p = pools_okD [OF ok i slot]
  have bb: "b \<in> blocks i cap" "b \<notin> set ?free" using b slot by (simp_all add: live_blocks_def)
  have len: "length (pool_slots ps) = kMaxPoolShards" using ok by (simp add: pools_ok_def)
  let ?p' = "p\<lparr>free_list := Some b, in_use := in_use p - 1\<rparr>" and ?m' = "(pool_memory ps)(b := free_list p)"
  note p' = pool_give [OF p bb]
  have others: "\<And>b'. block_pool b' \<noteq> i \<Longrightarrow> ?m' b' = pool_memory ps b'" using blocks_pool [OF bb(1)] by auto
  note rp = replace_pool [OF ok i p' others]
  have "deallocate_node ndebug cap i b ps =
      Some (ps\<lparr>pool_slots := (pool_slots ps)[i := Some ?p'], pool_memory := ?m'\<rparr>)"
    using slot len i bb(1)
    by (simp add: deallocate_node_def get_pool_def pool_deallocate_def write_next_def blocks_def)
  moreover have "live_blocks cap i ps - {b} = blocks i cap - set (b # ?free)"
    using slot by (auto simp: live_blocks_def)
  ultimately show thesis using that rp by metis
qed


subsection \<open>The contract of an allocator\<close>

locale block_allocator =
  fixes ok :: "'s \<Rightarrow> bool"
    and live :: "'s \<Rightarrow> 'b set"
    and universe :: "'b set"
    and alloc :: "'s \<Rightarrow> ('e + 'b) \<times> 's"
    and release :: "'b \<Rightarrow> 's \<Rightarrow> 's option"
  assumes finite_universe: "finite universe"
    and live_universe: "ok s \<Longrightarrow> live s \<subseteq> universe"
    and alloc_fails: "ok s \<Longrightarrow> alloc s = (Inl e, s') \<Longrightarrow> ok s' \<and> live s = universe \<and> live s' = live s"
    and alloc_fresh: "ok s \<Longrightarrow> alloc s = (Inr b, s') \<Longrightarrow> ok s' \<and> b \<in> universe \<and> b \<notin> live s \<and> live s' = insert b (live s)"
    and release_live: "ok s \<Longrightarrow> b \<in> live s \<Longrightarrow> \<exists>s'. release b s = Some s' \<and> ok s' \<and> live s' = live s - {b}"
begin

text \<open>A client that releases only what it holds keeps exactly the live blocks, each once.\<close>

lemma client_step_ok:
  assumes "ok s" "distinct held" "set held = live s"
  shows "\<exists>held' s'. client_step alloc release r held s = Some (held', s') \<and> ok s' \<and> distinct held' \<and> set held' = live s'"
proof (cases r)
  case Get
  obtain x s' where a: "alloc s = (x, s')" by fastforce
  then show ?thesis using alloc_fails [of s] alloc_fresh [of s] assms Get by (cases x) auto
next
  case (Put k)
  show ?thesis
  proof (cases "k < length held")
    case True
    then obtain s' where s': "release (held ! k) s = Some s'" "ok s'" "live s' = live s - {held ! k}"
      using release_live [OF assms(1), of "held ! k"] assms(3) nth_mem [OF True] by metis
    then show ?thesis using Put True remove_nth [OF assms(2) True] assms(3) by simp
  qed (use Put assms in simp)
qed

text \<open>A request fails exactly when the client holds every block there is.\<close>

lemma alloc_fails_iff:
  assumes "ok s" "distinct held" "set held = live s"
  shows "(\<exists>e s'. alloc s = (Inl e, s')) \<longleftrightarrow> length held = card universe"
proof -
  have card: "card (live s) = length held" using assms by (metis distinct_card)
  obtain x s' where a: "alloc s = (x, s')" by fastforce
  show ?thesis
  proof (cases x)
    case (Inl e)
    then show ?thesis using alloc_fails [OF assms(1)] a card by auto
  next
    case (Inr b)
    then have "live s \<subset> universe" using alloc_fresh [OF assms(1)] live_universe [OF assms(1)] a by blast
    then have "card (live s) < card universe" by (rule psubset_card_mono [OF finite_universe])
    then show ?thesis using a Inr card by auto
  qed
qed

end

text \<open>Every shard's pool meets the contract, in debug builds and in others.\<close>

interpretation shard_pool: block_allocator "\<lambda>ps. i < kMaxPoolShards \<and> pools_ok cap ps" "live_blocks cap i" "blocks i cap"
  "allocate_node cap i" "deallocate_node ndebug cap i" for cap i ndebug
proof (unfold_locales, goal_cases)
  case 1
  show ?case by (rule finite_blocks)
next
  case (2 ps)
  show ?case by (auto simp: live_blocks_def split: option.splits)
next
  case (3 ps e ps')
  then show ?case using allocate_ok [of cap ps i] by auto
next
  case (4 ps b ps')
  then show ?case using allocate_ok [of cap ps i] by auto
next
  case (5 ps b)
  then show ?case using deallocate_ok [of cap ps i b ndebug] by metis
qed

subsection \<open>All shards\<close>

text \<open>The nodes held by the shards are exactly the blocks that their pools consider in use.\<close>

definition holds :: "nat \<Rightarrow> block list list \<Rightarrow> pools \<Rightarrow> bool" where
  "holds cap held ps \<longleftrightarrow> pools_ok cap ps \<and> length held \<le> kMaxPoolShards \<and>
     (\<forall>i < length held. distinct (held ! i) \<and> set (held ! i) = live_blocks cap i ps)"

lemma client_step_frame:
  assumes "pools_ok cap ps" "i < kMaxPoolShards" "set bs = live_blocks cap i ps"
    and "client_step (allocate_node cap i) (deallocate_node ndebug cap i) r bs ps = Some (bs', ps')"
    and "j < kMaxPoolShards" "j \<noteq> i"
  shows "live_blocks cap j ps' = live_blocks cap j ps"
proof (cases r)
  case Get
  then show ?thesis using assms(4-6) by (cases rule: allocate_ok [OF assms(1,2)]) simp_all
next
  case (Put k)
  show ?thesis
  proof (cases "k < length bs")
    case True
    then have "bs ! k \<in> live_blocks cap i ps" using assms(3) nth_mem by blast
    then obtain ps1 where "deallocate_node ndebug cap i (bs ! k) ps = Some ps1" "live_blocks cap j ps1 = live_blocks cap j ps"
      using deallocate_ok [OF assms(1,2)] assms(5,6) by metis
    then show ?thesis using Put True assms(4) by simp
  qed (use Put assms(4) in simp)
qed

lemma holds_step:
  assumes "holds cap held ps" "i < length held"
  obtains bs ps' where "client_step (allocate_node cap i) (deallocate_node ndebug cap i) r (held ! i) ps = Some (bs, ps')"
    "holds cap (held[i := bs]) ps'"
proof -
  have ok: "i < kMaxPoolShards \<and> pools_ok cap ps" and h: "distinct (held ! i)" "set (held ! i) = live_blocks cap i ps"
    using assms by (auto simp: holds_def)
  obtain bs ps' where step: "client_step (allocate_node cap i) (deallocate_node ndebug cap i) r (held ! i) ps = Some (bs, ps')"
    and bs: "pools_ok cap ps'" "distinct bs" "set bs = live_blocks cap i ps'"
    using shard_pool.client_step_ok [OF ok h, of ndebug r] by blast
  have "holds cap (held[i := bs]) ps'"
    using assms bs client_step_frame [OF _ _ h(2) step] ok by (auto simp: holds_def nth_list_update)
  with step show thesis by (rule that)
qed

lemma run_requests_ok:
  assumes "holds cap held ps" "fst ` set rs \<subseteq> {..<length held}"
  shows "\<exists>held' ps'. run_requests ndebug cap rs held ps = Some (held', ps') \<and> holds cap held' ps' \<and> length held' = length held"
  using assms
proof (induction rs arbitrary: held ps)
  case (Cons ir rs)
  obtain i r where ir: "ir = (i, r)" by fastforce
  then have i: "i < length held" using Cons.prems(2) by simp
  obtain bs ps' where step: "client_step (allocate_node cap i) (deallocate_node ndebug cap i) r (held ! i) ps = Some (bs, ps')"
    and h: "holds cap (held[i := bs]) ps'"
    by (rule holds_step [OF Cons.prems(1) i])
  show ?case using Cons.IH [OF h] Cons.prems(2) step by (auto simp: ir)
qed simp

lemma holds_init: "0 < cap \<Longrightarrow> cap < 2 ^ 64 \<Longrightarrow> n \<le> kMaxPoolShards \<Longrightarrow> holds cap (replicate n []) pools_init"
  using pools_init_ok [of cap] by (simp add: holds_def live_blocks_def pools_init_def)

text \<open>The counter of a pool is the number of its live blocks.\<close>

lemma pool_ok_live:
  assumes "pool_ok i cap m p free"
  shows "card (blocks i cap - set free) = unat (in_use p)"
proof -
  have "card (blocks i cap - set free) = card (blocks i cap) - card (set free)"
    using assms by (simp add: pool_ok_def card_Diff_subset)
  then show ?thesis using assms distinct_card [of free] finite_blocks(2) [of i cap] by (auto simp: pool_ok_def)
qed

lemma in_use_live:
  assumes "pools_ok cap ps" "i < kMaxPoolShards"
  shows "map_option unat (allocator_in_use cap i ps) = Some (card (live_blocks cap i ps))"
proof -
  obtain p ps1 free where g: "get_pool cap i ps = Inr (p, ps1)" "pool_slots ps1 ! i = Some p"
    and p: "pool_ok i cap (pool_memory ps1) p free" and live: "live_blocks cap i ps1 = live_blocks cap i ps"
    using get_pool_ok [OF assms] by metis
  have "live_blocks cap i ps1 = blocks i cap - set free"
    using g(2) pool_ok_free [OF p] by (simp add: live_blocks_def)
  then show ?thesis using pool_ok_live [OF p] live g(1) by (simp add: allocator_in_use_def)
qed

text \<open>Releasing all nodes of one shard, and of all shards in turn.\<close>

lemma release_all_ok:
  assumes "pools_ok cap ps" "i < kMaxPoolShards" "distinct bs" "set bs = live_blocks cap i ps"
  obtains ps' where "release_all ndebug cap i bs ps = Some ps'" "pools_ok cap ps'" "live_blocks cap i ps' = {}"
    "\<And>j. j < kMaxPoolShards \<Longrightarrow> j \<noteq> i \<Longrightarrow> live_blocks cap j ps' = live_blocks cap j ps"
  using assms
proof (induction bs arbitrary: ps thesis)
  case Nil
  then show ?case by auto
next
  case (Cons b bs)
  then have b: "b \<in> live_blocks cap i ps" by auto
  obtain ps1 where d: "deallocate_node ndebug cap i b ps = Some ps1" "pools_ok cap ps1"
    and l: "live_blocks cap i ps1 = live_blocks cap i ps - {b}"
    and f: "\<And>j. j < kMaxPoolShards \<Longrightarrow> j \<noteq> i \<Longrightarrow> live_blocks cap j ps1 = live_blocks cap j ps"
    using deallocate_ok [OF Cons.prems(2,3) b] by metis
  have "set bs = live_blocks cap i ps1" "distinct bs" using l Cons.prems(4,5) by auto
  then obtain ps' where "release_all ndebug cap i bs ps1 = Some ps'" "pools_ok cap ps'" "live_blocks cap i ps' = {}"
    "\<And>j. j < kMaxPoolShards \<Longrightarrow> j \<noteq> i \<Longrightarrow> live_blocks cap j ps' = live_blocks cap j ps1"
    using Cons.IH [OF _ d(2) Cons.prems(3)] by metis
  then show ?case using Cons.prems(1) d(1) f by simp
qed

lemma destroy_shards_ok:
  assumes "pools_ok cap ps" "i + length held \<le> kMaxPoolShards"
    and "\<forall>k < length held. distinct (held ! k) \<and> set (held ! k) = live_blocks cap (i + k) ps"
  shows "\<exists>ps'. destroy_shards ndebug cap i held ps = Some ps' \<and> pools_ok cap ps' \<and>
    (\<forall>j < kMaxPoolShards. live_blocks cap j ps' = (if i \<le> j \<and> j < i + length held then {} else live_blocks cap j ps))"
  using assms
proof (induction held arbitrary: i ps)
  case (Cons bs held)
  have i: "i < kMaxPoolShards" and bs: "distinct bs" "set bs = live_blocks cap i ps"
    using Cons.prems(2) Cons.prems(3) [rule_format, of 0] by auto
  obtain ps1 where r: "release_all ndebug cap i bs ps = Some ps1" "pools_ok cap ps1" "live_blocks cap i ps1 = {}"
    and f: "\<And>j. j < kMaxPoolShards \<Longrightarrow> j \<noteq> i \<Longrightarrow> live_blocks cap j ps1 = live_blocks cap j ps"
    using release_all_ok [OF Cons.prems(1) i bs] by metis
  have "\<forall>k < length held. distinct (held ! k) \<and> set (held ! k) = live_blocks cap (i + 1 + k) ps1"
    using Cons.prems(2,3) f by (auto dest: spec [of _ "Suc _"])
  then obtain ps' where ps': "destroy_shards ndebug cap (i + 1) held ps1 = Some ps'" "pools_ok cap ps'"
    "\<forall>j < kMaxPoolShards. live_blocks cap j ps' = (if i + 1 \<le> j \<and> j < i + 1 + length held then {} else live_blocks cap j ps1)"
    using Cons.IH [OF r(2), of "i + 1"] Cons.prems(2) by auto
  have "live_blocks cap j ps' = (if i \<le> j \<and> j < i + length (bs # held) then {} else live_blocks cap j ps)"
    if "j < kMaxPoolShards" for j
    using ps'(3) [rule_format, OF that] f [OF that] r(3) by (cases "j = i") auto
  with ps'(1,2) r(1) show ?case by auto
qed auto

subsection \<open>Properties\<close>

lemma run_from_init:
  assumes "0 < cap" "cap < 2 ^ 64" "n \<le> kMaxPoolShards" "fst ` set rs \<subseteq> {..<n}"
  obtains held ps where "run_requests ndebug cap rs (replicate n []) pools_init = Some (held, ps)"
    "holds cap held ps" "length held = n"
  using run_requests_ok [OF holds_init [OF assms(1-3)], of rs ndebug] assms(4) by auto

lemma live_blocks_subset: "live_blocks cap i ps \<subseteq> blocks i cap"
  by (auto simp: live_blocks_def split: option.splits)

lemma holdsD:
  assumes "holds cap held ps" "i < length held"
  shows "i < kMaxPoolShards" "pools_ok cap ps" "distinct (held ! i)" "set (held ! i) = live_blocks cap i ps"
    "set (held ! i) \<subseteq> blocks i cap" "map_option unat (allocator_in_use cap i ps) = Some (length (held ! i))"
proof -
  show *: "i < kMaxPoolShards" "pools_ok cap ps" "distinct (held ! i)" "set (held ! i) = live_blocks cap i ps"
    using assms by (auto simp: holds_def)
  show "set (held ! i) \<subseteq> blocks i cap" using *(4) live_blocks_subset by simp
  show "map_option unat (allocator_in_use cap i ps) = Some (length (held ! i))"
    using in_use_live [OF *(2,1)] distinct_card [OF *(3)] *(4) by simp
qed

lemma distinct_concat_nth:
  assumes "\<And>i. i < length xss \<Longrightarrow> distinct (xss ! i)"
    and "\<And>i j. i < j \<Longrightarrow> j < length xss \<Longrightarrow> set (xss ! i) \<inter> set (xss ! j) = {}"
  shows "distinct (concat xss)"
  using assms
proof (induction xss)
  case (Cons xs xss)
  have "distinct xs" using Cons.prems(1) [of 0] by simp
  moreover have "distinct (concat xss)"
    using Cons.IH Cons.prems(1) [of "Suc _"] Cons.prems(2) [of "Suc _" "Suc _"] by auto
  moreover have "set xs \<inter> set ys = {}" if "ys \<in> set xss" for ys
    using that Cons.prems(2) [of 0 "Suc _"] by (auto simp: in_set_conv_nth)
  ultimately show ?case by auto
qed simp

lemma holds_distinct: "holds cap held ps \<Longrightarrow> distinct (concat held)"
proof (rule distinct_concat_nth)
  fix i j
  assume h: "holds cap held ps" and ij: "i < j" "j < length held"
  have "set (held ! i) \<subseteq> blocks i cap" by (rule holdsD(5) [OF h]) (use ij in simp)
  moreover have "set (held ! j) \<subseteq> blocks j cap" by (rule holdsD(5) [OF h ij(2)])
  ultimately show "set (held ! i) \<inter> set (held ! j) = {}" using ij(1) by (blast dest: blocks_pool)
qed (rule holdsD(3))

text \<open>
  C30. Whatever nodes the shards request and release, in whatever interleaving, no node is handed out twice while it is held,
  every node lies in the storage of the pool of the shard that requested it, no assertion fails, and the
  counter of every pool is the number of nodes that its shard holds.
\<close>

theorem pools_serve_shards:
  assumes "0 < cap" "cap < 2 ^ 64" "n \<le> kMaxPoolShards" "fst ` set rs \<subseteq> {..<n}"
  shows "\<exists>held ps. run_requests ndebug cap rs (replicate n []) pools_init = Some (held, ps) \<and> length held = n \<and>
    distinct (concat held) \<and>
    (\<forall>i < n. set (held ! i) \<subseteq> blocks i cap \<and> map_option unat (allocator_in_use cap i ps) = Some (length (held ! i)))"
  using run_from_init [OF assms, of ndebug] holds_distinct holdsD(5,6) by metis

definition demo_requests :: "(nat \<times> request) list" where
  "demo_requests = [(0, Get), (1, Get), (0, Get), (0, Get), (0, Put 0), (1, Get)]"

lemmas pool_eval = demo_requests_def pools_init_def kMaxPoolShards_def allocate_node_def deallocate_node_def get_pool_def
  pool_construct_def init_loop.simps write_next_def read_next_def pool_allocate_def pool_deallocate_def in_storage_def
  allocate_def deallocate_def allocator_in_use_def numeral_nat Let_def

theorem pools_serve_shards_witness:
  "run_requests False 2 demo_requests (replicate 2 []) pools_init \<noteq> None"
  using pools_serve_shards [of 2 2 demo_requests False] by (auto simp: demo_requests_def kMaxPoolShards_def)

text \<open>
  A request of a shard throws \<open>std::bad_alloc\<close> exactly when that shard holds all \<open>Capacity\<close> nodes of its own pool, however
  many nodes the other shards hold; otherwise it returns a node that nobody holds.
\<close>

theorem bad_alloc_iff_exhausted:
  assumes "0 < cap" "cap < 2 ^ 64" "n \<le> kMaxPoolShards" "fst ` set rs \<subseteq> {..<n}" "i < n"
    and "run_requests ndebug cap rs (replicate n []) pools_init = Some (held, ps)"
  shows "if length (held ! i) = cap then fst (allocate cap i 1 ps) = Inl Bad_alloc
    else \<exists>b. fst (allocate cap i 1 ps) = Inr (Pool_node b) \<and> b \<in> blocks i cap \<and> b \<notin> set (concat held)"
proof -
  have h: "holds cap held ps" and n: "length held = n" using run_from_init [OF assms(1-4), of ndebug] assms(6) by auto
  note hi = holdsD [OF h, of i, unfolded n, OF assms(5)]
  have iff: "(\<exists>e s'. allocate_node cap i ps = (Inl e, s')) \<longleftrightarrow> length (held ! i) = cap"
    using shard_pool.alloc_fails_iff [of i cap ps "held ! i"] hi(1-4) finite_blocks(2) by simp
  show ?thesis
  proof (cases rule: allocate_ok [OF hi(2,1)])
    case (1 ps')
    then show ?thesis using iff by (simp add: allocate_def)
  next
    case (2 b ps')
    have "b \<notin> set (held ! j)" if "j < n" for j
      using 2(2,3) hi(4) blocks_pool [of b i cap] blocks_pool [of b j cap] holdsD(5) [OF h, of j] that n
      by (cases "j = i") blast+
    then have "b \<notin> set bs" if "bs \<in> set held" for bs using that n by (auto simp: in_set_conv_nth [of bs])
    then have "b \<notin> set (concat held)" by auto
    then show ?thesis using 2 iff by (auto simp: allocate_def)
  qed
qed

theorem bad_alloc_iff_exhausted_witness:
  "\<exists>held ps. run_requests False 2 (take 4 demo_requests) (replicate 2 []) pools_init = Some (held, ps) \<and>
     fst (allocate 2 0 1 ps) = Inl Bad_alloc \<and> (\<exists>b. fst (allocate 2 1 1 ps) = Inr (Pool_node b))"
proof -
  obtain held ps where run: "run_requests False 2 (take 4 demo_requests) (replicate 2 []) pools_init = Some (held, ps)"
    and held: "length (held ! 0) = 2" "length (held ! 1) = 1"
    by (simp add: pool_eval)
  show ?thesis
    using bad_alloc_iff_exhausted [OF _ _ _ _ _ run, of 0] bad_alloc_iff_exhausted [OF _ _ _ _ _ run, of 1] run held
    by (auto simp: demo_requests_def kMaxPoolShards_def)
qed

text \<open>
  The destructor of the pipeline, which runs on one thread after the shard threads have ended and sets the index of each
  shard before it releases that shard's nodes, gives every node back to the pool it came from: no assertion
  fails, and every pool is unused again.
\<close>

theorem destructor_returns_all_nodes:
  assumes "0 < cap" "cap < 2 ^ 64" "n \<le> kMaxPoolShards" "fst ` set rs \<subseteq> {..<n}"
    and "run_requests ndebug cap rs (replicate n []) pools_init = Some (held, ps)"
  shows "\<exists>ps'. destroy_shards ndebug cap 0 held ps = Some ps' \<and> (\<forall>i < n. allocator_in_use cap i ps' = Some 0)"
proof -
  have h: "holds cap held ps" and n: "length held = n" using run_from_init [OF assms(1-4), of ndebug] assms(5) by auto
  obtain ps' where d: "destroy_shards ndebug cap 0 held ps = Some ps'" "pools_ok cap ps'"
    and l: "\<forall>j < kMaxPoolShards. live_blocks cap j ps' = (if 0 \<le> j \<and> j < 0 + length held then {} else live_blocks cap j ps)"
    using destroy_shards_ok [of cap ps 0 held ndebug] h by (auto simp: holds_def)
  have "allocator_in_use cap i ps' = Some 0" if "i < n" for i
    using in_use_live [OF d(2), of i] l that n assms(3) by (auto simp: unat_eq_0)
  with d(1) show ?thesis by blast
qed

theorem destructor_returns_all_nodes_witness:
  "\<exists>held ps ps'. run_requests False 2 demo_requests (replicate 2 []) pools_init = Some (held, ps) \<and> map length held = [1, 2] \<and>
     destroy_shards False 2 0 held ps = Some ps' \<and> allocator_in_use 2 1 ps' = Some 0"
proof -
  obtain held ps where run: "run_requests False 2 demo_requests (replicate 2 []) pools_init = Some (held, ps)"
    and held: "map length held = [1, 2]"
    by (simp add: pool_eval)
  show ?thesis
    using destructor_returns_all_nodes [OF _ _ _ _ run] run held by (auto simp: demo_requests_def kMaxPoolShards_def)
qed

text \<open>
  Releasing a node of shard \<open>i\<close> under the index of another shard \<open>j\<close> fails the assertion in a debug build.  With
  \<open>NDEBUG\<close> it goes through: the next request of shard \<open>j\<close> is given that node of the foreign pool, while the
  pool it came from still counts it as in use.
\<close>

theorem wrong_shard_release:
  assumes "0 < cap" "cap < 2 ^ 64" "n \<le> kMaxPoolShards" "fst ` set rs \<subseteq> {..<n}" "i < n" "j < n" "i \<noteq> j"
    and "run_requests ndebug cap rs (replicate n []) pools_init = Some (held, ps)" "b \<in> set (held ! i)"
  shows "deallocate False cap j (Pool_node b) ps = None \<and>
    (\<exists>ps'. deallocate True cap j (Pool_node b) ps = Some ps' \<and> fst (allocate cap j 1 ps') = Inr (Pool_node b) \<and>
      allocator_in_use cap i ps' = allocator_in_use cap i ps)"
proof -
  have h: "holds cap held ps" and n: "length held = n" using run_from_init [OF assms(1-4), of ndebug] assms(8) by auto
  note hi = holdsD [OF h, of i, unfolded n, OF assms(5)]
  have j: "j < kMaxPoolShards" using assms(3,6) by simp
  have len: "length (pool_slots ps) = kMaxPoolShards" using hi(2) by (simp add: pools_ok_def)
  have b: "\<not> in_storage j cap b" using hi(5) assms(7,9) by (auto simp: blocks_def in_storage_def)
  obtain p where p: "pool_slots ps ! i = Some p" using assms(9) hi(4) by (auto simp: live_blocks_def split: option.splits)
  obtain q ps1 where g: "get_pool cap j ps = Inr (q, ps1)" "pool_slots ps1 ! i = pool_slots ps ! i" "length (pool_slots ps1) = kMaxPoolShards"
    using get_pool_ok [OF hi(2) j] hi(1) assms(7) unfolding pools_ok_def by metis
  let ?q = "q\<lparr>free_list := Some b, in_use := in_use q - 1\<rparr>" and ?m = "(pool_memory ps1)(b := free_list q)"
  let ?ps = "ps1\<lparr>pool_slots := (pool_slots ps1)[j := Some ?q], pool_memory := ?m\<rparr>"
  have "deallocate False cap j (Pool_node b) ps = None" using g(1) b
    by (simp add: deallocate_def deallocate_node_def pool_deallocate_def)
  moreover have "deallocate True cap j (Pool_node b) ps = Some ?ps" using g(1)
    by (simp add: deallocate_def deallocate_node_def pool_deallocate_def write_next_def)
  moreover have "fst (allocate cap j 1 ?ps) = Inr (Pool_node b)" using g(3) j
    by (simp add: allocate_def allocate_node_def get_pool_def pool_allocate_def)
  moreover have "allocator_in_use cap i ?ps = allocator_in_use cap i ps"
    using g(2,3) p len hi(1) assms(7) by (simp add: allocator_in_use_def get_pool_def)
  ultimately show ?thesis by blast
qed

theorem wrong_shard_release_witness:
  "\<exists>held ps b. run_requests False 2 demo_requests (replicate 2 []) pools_init = Some (held, ps) \<and> b \<in> set (held ! 1) \<and>
     deallocate False 2 0 (Pool_node b) ps = None"
proof -
  obtain held ps where run: "run_requests False 2 demo_requests (replicate 2 []) pools_init = Some (held, ps)"
    and b: "Block 1 0 \<in> set (held ! 1)"
    by (simp add: pool_eval)
  show ?thesis
    using wrong_shard_release [OF _ _ _ _ _ _ _ run b, of 0] run b by (auto simp: demo_requests_def kMaxPoolShards_def)
qed

end
