(* ===== verification/Byte_Order.thy ===== *)
theory Byte_Order
  imports Prelude
begin

text \<open>
  Explicit little-endian field packing, \<open>protocol/byte_order.hpp\<close>.  A \<open>std::byte*\<close> is an
  offset into the byte list it points into; an access outside the list is \<open>None\<close>.  The
  byte loops of \<open>put_u32\<close>/\<open>put_u64\<close> and \<open>get_u32\<close>/\<open>get_u64\<close> are kept as loops over the
  counter \<open>i\<close>.  The lemmas give each operation its effect on the bytes of one window of the
  buffer (\<open>le_bytes\<close>/\<open>from_le\<close>), and show that the two directions are inverse.
\<close>

subsection \<open>The accessors\<close>

definition put_u8 :: "byte list \<Rightarrow> nat \<Rightarrow> u8 \<Rightarrow> byte list option" where
  "put_u8 m p v = (if p < length m then Some (m[p := v]) else None)"

definition get_u8 :: "byte list \<Rightarrow> nat \<Rightarrow> u8 option" where
  "get_u8 m p = (if p < length m then Some (m ! p) else None)"

definition put_u16 :: "byte list \<Rightarrow> nat \<Rightarrow> u16 \<Rightarrow> byte list option" where
  "put_u16 m p v = do {
     m \<leftarrow> put_u8 m p (ucast (v AND 0xFF));
     put_u8 m (p + 1) (ucast (drop_bit 8 v AND 0xFF)) }"

definition get_u16 :: "byte list \<Rightarrow> nat \<Rightarrow> u16 option" where
  "get_u16 m p = do {
     lo \<leftarrow> get_u8 m p;
     hi \<leftarrow> get_u8 m (p + 1);
     Some (ucast lo OR push_bit 8 (ucast hi)) }"

text \<open>\<open>for (int i = 0; i < n; ++i) p[i] = (v >> (8 * i)) & 0xFF;\<close>\<close>

function put_loop :: "nat \<Rightarrow> nat \<Rightarrow> 'a::len word \<Rightarrow> byte list \<Rightarrow> nat \<Rightarrow> byte list option" where
  "put_loop i n v m p =
     (if i < n then do {
        m \<leftarrow> put_u8 m (p + i) (ucast (drop_bit (8 * i) v AND 0xFF));
        put_loop (i + 1) n v m p }
      else Some m)"
  by pat_completeness auto
termination
  by (relation "measure (\<lambda>(i, n, v, m, p). n - i)") auto

text \<open>\<open>for (int i = 0; i < n; ++i) v |= get_u8(p + i) << (8 * i);\<close>\<close>

function get_loop :: "nat \<Rightarrow> nat \<Rightarrow> 'a::len word \<Rightarrow> byte list \<Rightarrow> nat \<Rightarrow> 'a word option" where
  "get_loop i n v m p =
     (if i < n then do {
        b \<leftarrow> get_u8 m (p + i);
        get_loop (i + 1) n (v OR push_bit (8 * i) (ucast b)) m p }
      else Some v)"
  by pat_completeness auto
termination
  by (relation "measure (\<lambda>(i, n, v, m, p). n - i)") auto

declare put_loop.simps [simp del] get_loop.simps [simp del]

definition put_u32 :: "byte list \<Rightarrow> nat \<Rightarrow> u32 \<Rightarrow> byte list option" where
  "put_u32 m p v = put_loop 0 4 v m p"

definition get_u32 :: "byte list \<Rightarrow> nat \<Rightarrow> u32 option" where
  "get_u32 m p = get_loop 0 4 0 m p"

definition put_u64 :: "byte list \<Rightarrow> nat \<Rightarrow> u64 \<Rightarrow> byte list option" where
  "put_u64 m p v = put_loop 0 8 v m p"

definition get_u64 :: "byte list \<Rightarrow> nat \<Rightarrow> u64 option" where
  "get_u64 m p = get_loop 0 8 0 m p"

definition put_i64 :: "byte list \<Rightarrow> nat \<Rightarrow> int64 \<Rightarrow> byte list option" where
  "put_i64 m p v = put_u64 m p (bits64 v)"

definition get_i64 :: "byte list \<Rightarrow> nat \<Rightarrow> int64 option" where
  "get_i64 m p = map_option Int64 (get_u64 m p)"

subsection \<open>Little-endian byte strings\<close>

fun le_bytes :: "nat \<Rightarrow> 'a::len word \<Rightarrow> byte list" where
  "le_bytes 0 v = []"
| "le_bytes (Suc n) v = ucast v # le_bytes n (drop_bit 8 v)"

fun from_le :: "byte list \<Rightarrow> 'a::len word" where
  "from_le [] = 0"
| "from_le (b # bs) = ucast b OR push_bit 8 (from_le bs)"

lemma length_le_bytes [simp]: "length (le_bytes n v) = n"
  by (induction n v rule: le_bytes.induct) auto

lemma from_le_le_bytes: "from_le (le_bytes n v) = take_bit (8 * n) v"
proof (induction n arbitrary: v)
  case 0
  then show ?case by simp
next
  case (Suc n)
  show ?case
    by (rule bit_word_eqI)
       (auto simp: Suc.IH bit_simps not_less dest: bit_imp_le_length)
qed

text \<open>Only the low \<open>8 * n\<close> bits of a word enter its \<open>n\<close>-byte encoding.\<close>

lemma le_bytes_take_bit: "8 * n \<le> k \<Longrightarrow> le_bytes n (take_bit k v) = le_bytes n v"
proof (induction n arbitrary: k v)
  case 0
  then show ?case by simp
next
  case (Suc n)
  have "ucast (take_bit k v) = (ucast v :: byte)"
    using Suc.prems by (intro bit_word_eqI) (auto simp: bit_simps)
  moreover have "le_bytes n (take_bit (k - 8) (drop_bit 8 v)) = le_bytes n (drop_bit 8 v)"
    using Suc.prems by (intro Suc.IH) simp
  ultimately show ?case by (simp add: drop_bit_take_bit)
qed

lemma le_bytes_from_le:
  "8 * length bs \<le> LENGTH('a) \<Longrightarrow> le_bytes (length bs) (from_le bs :: 'a::len word) = bs"
proof (induction bs)
  case Nil
  then show ?case by simp
next
  case (Cons b bs)
  let ?v = "ucast b OR push_bit 8 (from_le bs) :: 'a word"
  have low: "ucast ?v = b"
    using Cons.prems by (intro bit_word_eqI) (auto simp: bit_simps)
  have "drop_bit 8 ?v = take_bit (LENGTH('a) - 8) (from_le bs)"
    by (rule bit_word_eqI) (auto simp: bit_simps dest: bit_imp_le_length)
  then have "le_bytes (length bs) (drop_bit 8 ?v) = bs"
    using Cons by (simp add: le_bytes_take_bit)
  with low show ?case by simp
qed

lemma from_le_le_bytes_full [simp]:
  "LENGTH('a) \<le> 8 * n \<Longrightarrow> from_le (le_bytes n (v :: 'a::len word)) = v"
  by (simp add: from_le_le_bytes take_bit_word_eq_self)

subsection \<open>Effect of the accessors\<close>

lemma put_u8_eq: "put_u8 m p v = store_at m p [v]"
  by (simp add: put_u8_def store_at_single)

lemma ucast_mask_byte: "ucast (v AND 0xFF :: 'a::len word) = (ucast v :: byte)"
proof -
  have "(0xFF :: 'a word) = mask 8" by (simp add: mask_eq_exp_minus_1)
  then show ?thesis
    unfolding \<open>(0xFF :: 'a word) = mask 8\<close>
    by (intro bit_word_eqI) (auto simp: bit_simps dest: bit_imp_le_length)
qed

lemma put_loop_done [simp]: "n \<le> i \<Longrightarrow> put_loop i n v m p = Some m"
  by (simp add: put_loop.simps)

lemma put_loop_step: "i < n \<Longrightarrow> put_loop i n v m p = do {
    m \<leftarrow> store_at m (p + i) [ucast (drop_bit (8 * i) v)];
    put_loop (Suc i) n v m p }"
  by (simp add: put_loop.simps [of i n] put_u8_eq ucast_mask_byte)

lemma put_loop_eq:
  "put_loop i (i + Suc k) v m p = store_at m (p + i) (le_bytes (Suc k) (drop_bit (8 * i) v))"
proof (induction k arbitrary: i m)
  case 0
  show ?case by (simp add: put_loop_step)
next
  case (Suc k)
  have "put_loop (Suc i) (i + Suc (Suc k)) v m' p
      = store_at m' (Suc (p + i)) (le_bytes (Suc k) (drop_bit (8 * i + 8) v))" for m'
    using Suc.IH [of "Suc i" m'] by (simp add: add.commute)
  then show ?case
    by (simp add: put_loop_step store_at_Cons [of _ _ _ "_ # _"] add.commute)
qed

lemma get_loop_done [simp]: "n \<le> i \<Longrightarrow> get_loop i n v m p = Some v"
  by (simp add: get_loop.simps)

lemma get_loop_step: "i < n \<Longrightarrow> get_loop i n v m p =
    (if p + i < length m
     then get_loop (Suc i) n (v OR push_bit (8 * i) (ucast (m ! (p + i)))) m p else None)"
  by (simp add: get_loop.simps [of i n] get_u8_def)

lemma get_loop_eq:
  fixes v :: "'a::len word"
  shows "get_loop i (i + Suc k) v m p
    = map_option (\<lambda>bs. v OR push_bit (8 * i) (from_le bs)) (window m (p + i) (Suc k))"
proof (induction k arbitrary: i v)
  case 0
  show ?case by (simp add: get_loop_step window_Suc)
next
  case (Suc k)
  have rest: "get_loop (Suc i) (i + Suc (Suc k)) v' m p
      = map_option (\<lambda>bs. v' OR push_bit (8 * i + 8) (from_le bs)) (window m (Suc (p + i)) (Suc k))"
    for v' :: "'a word"
    using Suc.IH [of "Suc i" v'] by (simp add: add.commute)
  have "get_loop i (i + Suc (Suc k)) v m p =
      (if p + i < length m
       then get_loop (Suc i) (i + Suc (Suc k)) (v OR push_bit (8 * i) (ucast (m ! (p + i)))) m p
       else None)"
    by (rule get_loop_step) simp
  then show ?case
    unfolding rest window_Suc [of m "p + i" "Suc k"]
    by (simp add: option.map_comp comp_def or.assoc add.commute)
qed

lemma put_u16_eq [codec_simps]: "put_u16 m p v = store_at m p (le_bytes 2 v)"
  by (simp add: put_u16_def put_u8_eq ucast_mask_byte numeral_2_eq_2 store_at_Cons [of m p _ "[_]"])

lemma put_u32_eq [codec_simps]: "put_u32 m p v = store_at m p (le_bytes 4 v)"
  using put_loop_eq [of 0 3 v m p] by (simp add: put_u32_def numeral_eq_Suc)

lemma put_u64_eq [codec_simps]: "put_u64 m p v = store_at m p (le_bytes 8 v)"
  using put_loop_eq [of 0 7 v m p] by (simp add: put_u64_def numeral_eq_Suc)

lemma put_i64_eq [codec_simps]: "put_i64 m p v = store_at m p (le_bytes 8 (bits64 v))"
  by (simp add: put_i64_def put_u64_eq)

lemma get_u16_eq [codec_simps]: "get_u16 m p = map_option from_le (window m p 2)"
  by (simp add: get_u16_def get_u8_def numeral_2_eq_2 window_Suc)

lemma get_u32_eq [codec_simps]: "get_u32 m p = map_option from_le (window m p 4)"
  using get_loop_eq [of 0 3 0 m p] by (simp add: get_u32_def numeral_eq_Suc)

lemma get_u64_eq [codec_simps]: "get_u64 m p = map_option from_le (window m p 8)"
  using get_loop_eq [of 0 7 0 m p] by (simp add: get_u64_def numeral_eq_Suc)

lemma get_i64_eq [codec_simps]: "get_i64 m p = map_option (Int64 \<circ> from_le) (window m p 8)"
  by (simp add: get_i64_def get_u64_eq option.map_comp)

end
