(* ===== verification/Pool_Bytes.thy ===== *)
theory Pool_Bytes
  imports Object_Pool Byte_Order
begin

text \<open>
  \<open>FixedBlockPool\<close> of \<open>orderbook/object_pool.hpp\<close> down to the bytes of \<open>storage_\<close>: a block is the address of its first byte, the free list is threaded through the
  blocks by copying the bytes of pointers, and a client may write every byte of a node that it holds.  Memory maps every address to
  a byte; the null pointer is 0, and pointers are stored with the least significant byte first.  The pool refines the
  one of \<open>Object_Pool\<close>, in which a block is a name.
\<close>

subsection \<open>Model\<close>

type_synonym ram = "nat \<Rightarrow> byte"

definition kStride :: "nat \<Rightarrow> nat" where
  "kStride BlockSize = (if 8 < BlockSize then BlockSize else 8)"

definition kAlignment :: "nat \<Rightarrow> nat" where
  "kAlignment Alignment = (if 8 < Alignment then Alignment else 8)"

text \<open>\<open>storage_.data() + index * kStride\<close>\<close>

definition slot_address :: "nat \<Rightarrow> nat \<Rightarrow> nat \<Rightarrow> nat" where
  "slot_address base bsize i = base + i * kStride bsize"

text \<open>\<open>std::memcpy\<close> of the eight bytes of a pointer.\<close>

definition store_bytes :: "nat \<Rightarrow> byte list \<Rightarrow> ram \<Rightarrow> ram" where
  "store_bytes p bs m = (\<lambda>a. if p \<le> a \<and> a < p + length bs then bs ! (a - p) else m a)"

definition load_bytes :: "nat \<Rightarrow> nat \<Rightarrow> ram \<Rightarrow> byte list" where
  "load_bytes p n m = map (\<lambda>i. m (p + i)) [0..<n]"

definition write_next_bytes :: "nat \<Rightarrow> nat \<Rightarrow> ram \<Rightarrow> ram" where
  "write_next_bytes p next m = store_bytes p (le_bytes 8 (of_nat next :: u64)) m"

definition read_next_bytes :: "nat \<Rightarrow> ram \<Rightarrow> nat" where
  "read_next_bytes p m = unat (from_le (load_bytes p 8 m) :: u64)"

record byte_pool =
  bp_free_list :: nat
  bp_in_use :: u64

function init_loop_bytes :: "nat \<Rightarrow> nat \<Rightarrow> nat \<Rightarrow> nat \<Rightarrow> ram \<Rightarrow> ram" where
  "init_loop_bytes base bsize cap i m =
     (if i + 1 < cap then
        init_loop_bytes base bsize cap (i + 1) (write_next_bytes (slot_address base bsize i) (slot_address base bsize (i + 1)) m)
      else m)"
  by pat_completeness auto
termination
  by (relation "measure (\<lambda>(base, bsize, cap, i, m). cap - i)") auto

declare init_loop_bytes.simps [simp del]

definition construct_bytes :: "nat \<Rightarrow> nat \<Rightarrow> nat \<Rightarrow> ram \<Rightarrow> byte_pool \<times> ram" where
  "construct_bytes base bsize cap m =
     (let m = init_loop_bytes base bsize cap 0 m;
          m = write_next_bytes (slot_address base bsize (cap - 1)) 0 m
      in (\<lparr>bp_free_list = slot_address base bsize 0, bp_in_use = 0\<rparr>, m))"

definition allocate_bytes :: "byte_pool \<Rightarrow> ram \<Rightarrow> pool_error + nat \<times> byte_pool" where
  "allocate_bytes p m =
     (if bp_free_list p = 0 then Inl Bad_alloc
      else
        let block = bp_free_list p
        in Inr (block, p\<lparr>bp_free_list := read_next_bytes block m, bp_in_use := bp_in_use p + 1\<rparr>))"

definition deallocate_bytes :: "bool \<Rightarrow> nat \<Rightarrow> nat \<Rightarrow> nat \<Rightarrow> nat \<Rightarrow> byte_pool \<Rightarrow> ram \<Rightarrow> (byte_pool \<times> ram) option" where
  "deallocate_bytes ndebug base bsize cap b p m =
     (if \<not> ndebug \<and> \<not> (base \<le> b \<and> b < base + kStride bsize * cap) then None
      else Some (p\<lparr>bp_free_list := b, bp_in_use := bp_in_use p - 1\<rparr>, write_next_bytes b (bp_free_list p) m))"

text \<open>
  A client: it requests nodes, releases the \<open>k\<close>-th of those it holds, and writes the byte at an offset of one.
\<close>

datatype byte_request = Byte_get | Byte_put nat | Byte_write nat nat byte

fun byte_step :: "bool \<Rightarrow> nat \<Rightarrow> nat \<Rightarrow> nat \<Rightarrow> byte_request \<Rightarrow> nat list \<times> byte_pool \<times> ram \<Rightarrow> (nat list \<times> byte_pool \<times> ram) option" where
  "byte_step ndebug base bsize cap Byte_get (held, p, m) =
     (case allocate_bytes p m of Inl e \<Rightarrow> Some (held, p, m) | Inr (b, p) \<Rightarrow> Some (held @ [b], p, m))"
| "byte_step ndebug base bsize cap (Byte_put k) (held, p, m) =
     (if k < length held then
        map_option (\<lambda>(p, m). (take k held @ drop (Suc k) held, p, m)) (deallocate_bytes ndebug base bsize cap (held ! k) p m)
      else Some (held, p, m))"
| "byte_step ndebug base bsize cap (Byte_write k off v) (held, p, m) =
     Some (held, p, if k < length held \<and> off < bsize then m(held ! k + off := v) else m)"

fun byte_run :: "bool \<Rightarrow> nat \<Rightarrow> nat \<Rightarrow> nat \<Rightarrow> byte_request list \<Rightarrow> nat list \<times> byte_pool \<times> ram \<Rightarrow> (nat list \<times> byte_pool \<times> ram) option" where
  "byte_run ndebug base bsize cap [] s = Some s"
| "byte_run ndebug base bsize cap (r # rs) s = do { s \<leftarrow> byte_step ndebug base bsize cap r s; byte_run ndebug base bsize cap rs s }"

subsection \<open>Pointers in memory\<close>

lemma kStride_ge: "bsize \<le> kStride bsize" "8 \<le> kStride bsize"
  by (simp_all add: kStride_def)

lemma load_store: "load_bytes p (length bs) (store_bytes p bs m) = bs"
  by (rule nth_equalityI) (simp_all add: load_bytes_def store_bytes_def)

lemma load_frame: "(\<And>a. q \<le> a \<Longrightarrow> a < q + n \<Longrightarrow> m' a = m a) \<Longrightarrow> load_bytes q n m' = load_bytes q n m"
  by (simp add: load_bytes_def)

lemma read_frame: "(\<And>a. q \<le> a \<Longrightarrow> a < q + 8 \<Longrightarrow> m' a = m a) \<Longrightarrow> read_next_bytes q m' = read_next_bytes q m"
  unfolding read_next_bytes_def by (subst load_frame [of q 8 m' m]) simp_all

lemma read_write_next: "next < 2 ^ 64 \<Longrightarrow> read_next_bytes p (write_next_bytes p next m) = next"
  using load_store [of p "le_bytes 8 (of_nat next :: u64)" m]
  by (simp add: read_next_bytes_def write_next_bytes_def unat_of_nat take_bit_nat_eq_self)

lemma write_next_outside: "\<not> (p \<le> a \<and> a < p + 8) \<Longrightarrow> write_next_bytes p next m a = m a"
  by (auto simp: write_next_bytes_def store_bytes_def)

text \<open>Different slots do not overlap.\<close>

lemma slots_apart: "i \<noteq> j \<Longrightarrow> slot_address base bsize i + kStride bsize \<le> slot_address base bsize j \<or>
    slot_address base bsize j + kStride bsize \<le> slot_address base bsize i"
proof -
  have *: "i + 1 \<le> j \<Longrightarrow> (i + 1) * kStride bsize \<le> j * kStride bsize" for i j by (rule mult_right_mono) simp_all
  assume "i \<noteq> j"
  then show ?thesis using * [of i j] * [of j i] by (simp add: slot_address_def) linarith
qed

lemma slot_in_storage: "i < cap \<Longrightarrow> slot_address base bsize i + kStride bsize \<le> base + kStride bsize * cap"
proof -
  assume "i < cap"
  then have "(i + 1) * kStride bsize \<le> cap * kStride bsize" by (intro mult_right_mono) simp_all
  then show ?thesis by (simp add: slot_address_def mult.commute)
qed

lemma read_other_slot:
  "i \<noteq> j \<Longrightarrow> read_next_bytes (slot_address base bsize i) (write_next_bytes (slot_address base bsize j) next m) =
     read_next_bytes (slot_address base bsize i) m"
  using slots_apart [of i j base bsize] kStride_ge(2) [of bsize] by (intro read_frame write_next_outside) linarith

subsection \<open>Refinement of the pool of named blocks\<close>

definition addr :: "nat \<Rightarrow> nat \<Rightarrow> block \<Rightarrow> nat" where
  "addr base bsize b = slot_address base bsize (block_index b)"

fun ptr :: "nat \<Rightarrow> nat \<Rightarrow> block option \<Rightarrow> nat" where
  "ptr base bsize None = 0"
| "ptr base bsize (Some b) = addr base bsize b"

text \<open>Where the storage lies.\<close>

definition placed :: "nat \<Rightarrow> nat \<Rightarrow> nat \<Rightarrow> bool" where
  "placed base bsize cap \<longleftrightarrow> 0 < base \<and> 0 < cap \<and> base + kStride bsize * cap < 2 ^ 64"

definition byte_sim :: "nat \<Rightarrow> nat \<Rightarrow> nat \<Rightarrow> nat \<Rightarrow> byte_pool \<times> ram \<Rightarrow> FixedBlockPool \<times> memory \<Rightarrow> block list \<Rightarrow> bool" where
  "byte_sim base bsize pid cap c a free \<longleftrightarrow>
     (let (bp, m) = c; (p, am) = a
      in pool_ok pid cap am p free \<and> bp_free_list bp = ptr base bsize (free_list p) \<and> bp_in_use bp = in_use p \<and>
         (\<forall>b \<in> set free. read_next_bytes (addr base bsize b) m = ptr base bsize (am b)))"

lemma addr_bounds:
  assumes "b \<in> blocks pid cap"
  shows "base \<le> addr base bsize b" "addr base bsize b + kStride bsize \<le> base + kStride bsize * cap"
  using assms slot_in_storage [of "block_index b" cap base bsize] by (auto simp: addr_def slot_address_def blocks_def in_storage_def)

lemma addr_apart:
  assumes "b \<in> blocks pid cap" "b' \<in> blocks pid cap" "b \<noteq> b'"
  shows "addr base bsize b + kStride bsize \<le> addr base bsize b' \<or> addr base bsize b' + kStride bsize \<le> addr base bsize b"
  using assms slots_apart [of "block_index b" "block_index b'" base bsize]
  by (cases b; cases b') (auto simp: addr_def blocks_def in_storage_def)

lemma ptr_small: "placed base bsize cap \<Longrightarrow> pred_option (\<lambda>b. b \<in> blocks pid cap) q \<Longrightarrow> ptr base bsize q < 2 ^ 64"
  using addr_bounds(2) [of _ pid cap base bsize] kStride_ge(2) [of bsize] by (cases q) (fastforce simp: placed_def)+

text \<open>The pointer that a free block holds is null or the address of a free block.\<close>

lemma chain_next: "chain m p bs \<Longrightarrow> b \<in> set bs \<Longrightarrow> pred_option (\<lambda>b. b \<in> set bs) (m b)"
proof (induction bs arbitrary: p)
  case (Cons c bs)
  show ?case
  proof (cases "b = c")
    case True
    then show ?thesis using Cons.prems by (cases bs) (auto simp: pred_option_def)
  next
    case False
    then show ?thesis using Cons.IH [of "m c"] Cons.prems by (auto simp: pred_option_def)
  qed
qed simp

lemma free_head: "chain m p bs \<Longrightarrow> pred_option (\<lambda>b. b \<in> set bs) p"
  by (cases bs) (auto simp: pred_option_def)

lemma init_loop_sim:
  assumes "placed base bsize cap"
  shows "(\<forall>j. read_next_bytes (slot_address base bsize j) (init_loop_bytes base bsize cap i m) =
      (if i \<le> j \<and> j + 1 < cap then slot_address base bsize (j + 1) else read_next_bytes (slot_address base bsize j) m)) \<and>
    (\<forall>a. \<not> (base \<le> a \<and> a < base + kStride bsize * cap) \<longrightarrow> init_loop_bytes base bsize cap i m a = m a)"
  using assms
proof (induction base bsize cap i m rule: init_loop_bytes.induct)
  case (1 base bsize cap i m)
  show ?case
  proof (cases "i + 1 < cap")
    case True
    let ?m = "write_next_bytes (slot_address base bsize i) (slot_address base bsize (i + 1)) m"
    have "slot_address base bsize (i + 1) < 2 ^ 64"
      using slot_in_storage [of "i + 1" cap base bsize] True "1.prems" unfolding placed_def by linarith
    then have "read_next_bytes (slot_address base bsize j) ?m =
        (if j = i then slot_address base bsize (i + 1) else read_next_bytes (slot_address base bsize j) m)" for j
      using read_write_next read_other_slot by simp
    moreover have "?m a = m a" if "\<not> (base \<le> a \<and> a < base + kStride bsize * cap)" for a
      using that slot_in_storage [of i cap base bsize] True kStride_ge(2) [of bsize]
      by (intro write_next_outside) (auto simp: slot_address_def)
    ultimately show ?thesis using "1.IH" [OF True "1.prems"] True by (auto simp: init_loop_bytes.simps [of base bsize cap i])
  qed (simp add: init_loop_bytes.simps [of base bsize cap i])
qed

lemma construct_sim:
  assumes placed: "placed base bsize cap" and "construct_bytes base bsize cap m = (bp, m')" "pool_construct pid cap am = (p, am')"
  shows "byte_sim base bsize pid cap (bp, m') (p, am') (map (Block pid) [0..<cap])"
    and "\<not> (base \<le> a \<and> a < base + kStride bsize * cap) \<Longrightarrow> m' a = m a"
proof -
  let ?slot = "slot_address base bsize" and ?m = "init_loop_bytes base bsize cap 0 m"
  have cap: "0 < cap" using placed by (simp add: placed_def)
  have c: "bp = \<lparr>bp_free_list = ?slot 0, bp_in_use = 0\<rparr>" "m' = write_next_bytes (?slot (cap - 1)) 0 ?m"
    using assms(2) by (auto simp: construct_bytes_def Let_def)
  have a: "p = \<lparr>free_list = Some (Block pid 0), in_use = 0\<rparr>" "am' = (init_loop pid cap 0 am)(Block pid (cap - 1) := None)"
    using assms(3) by (auto simp: pool_construct_def write_next_def Let_def)
  note init = init_loop_sim [OF placed, of 0 m]
  have "read_next_bytes (?slot j) m' = ptr base bsize (am' (Block pid j))" if "j < cap" for j
  proof (cases "j = cap - 1")
    case True
    then show ?thesis by (simp add: c(2) a(2) read_write_next)
  next
    case False
    then have "j + 1 < cap" using that by simp
    then show ?thesis using init False read_other_slot [OF False] by (simp add: c(2) a(2) init_loop_eq addr_def)
  qed
  then show "byte_sim base bsize pid cap (bp, m') (p, am') (map (Block pid) [0..<cap])"
    using construct_ok(1) [OF cap assms(3)] by (auto simp: byte_sim_def c(1) a(1) addr_def)
  show "m' a = m a" if "\<not> (base \<le> a \<and> a < base + kStride bsize * cap)" for a
  proof -
    have "m' a = ?m a" unfolding c(2)
      using that slot_in_storage [of "cap - 1" cap base bsize] cap kStride_ge(2) [of bsize]
      by (intro write_next_outside) (auto simp: slot_address_def)
    then show ?thesis using init that by simp
  qed
qed

lemma allocate_sim:
  assumes placed: "placed base bsize cap" and sim: "byte_sim base bsize pid cap (bp, m) (p, am) free"
  shows "case free of
      [] \<Rightarrow> allocate_bytes bp m = Inl Bad_alloc \<and> pool_allocate p am = Inl Bad_alloc
    | b # free' \<Rightarrow> \<exists>bp' p'. allocate_bytes bp m = Inr (addr base bsize b, bp') \<and> pool_allocate p am = Inr (b, p') \<and>
        byte_sim base bsize pid cap (bp', m) (p', am) free'"
proof (cases free)
  case Nil
  then show ?thesis using sim by (simp add: byte_sim_def pool_ok_def allocate_bytes_def pool_allocate_def)
next
  case (Cons b free')
  have ok: "pool_ok pid cap am p (b # free')" using sim Cons by (simp add: byte_sim_def)
  have "cap \<le> kStride bsize * cap" using kStride_ge(2) [of bsize] by simp
  then have "cap < 2 ^ 64" using placed unfolding placed_def by linarith
  note take = pool_take [OF ok this]
  have "addr base bsize b \<noteq> 0" using placed by (simp add: placed_def addr_def slot_address_def)
  then show ?thesis using sim take Cons
    by (auto simp: byte_sim_def pool_ok_def allocate_bytes_def pool_allocate_def read_next_def Let_def)
qed

lemma deallocate_sim:
  assumes placed: "placed base bsize cap" and sim: "byte_sim base bsize pid cap (bp, m) (p, am) free" and b: "b \<in> blocks pid cap" "b \<notin> set free"
  shows "\<exists>bp' p'. deallocate_bytes ndebug base bsize cap (addr base bsize b) bp m =
      Some (bp', write_next_bytes (addr base bsize b) (ptr base bsize (free_list p)) m) \<and>
    pool_deallocate ndebug pid cap b p am = Some (p', write_next b (free_list p) am) \<and>
    byte_sim base bsize pid cap (bp', write_next_bytes (addr base bsize b) (ptr base bsize (free_list p)) m) (p', write_next b (free_list p) am) (b # free)"
proof -
  let ?m = "write_next_bytes (addr base bsize b) (ptr base bsize (free_list p)) m"
  have ok: "pool_ok pid cap am p free" "\<forall>b \<in> set free. read_next_bytes (addr base bsize b) m = ptr base bsize (am b)"
    and eq: "bp_free_list bp = ptr base bsize (free_list p)" "bp_in_use bp = in_use p" using sim by (auto simp: byte_sim_def)
  have sub: "set free \<subseteq> blocks pid cap" "chain am (free_list p) free" using ok(1) by (auto simp: pool_ok_def)
  have "pred_option (\<lambda>b. b \<in> blocks pid cap) (free_list p)" using free_head [OF sub(2)] sub(1) by (auto simp: pred_option_def)
  note small = ptr_small [OF placed this]
  have "read_next_bytes (addr base bsize c) ?m = ptr base bsize ((am(b := free_list p)) c)" if "c \<in> set (b # free)" for c
  proof (cases "c = b")
    case True
    then show ?thesis using small by (simp add: read_write_next)
  next
    case False
    then have c: "c \<in> blocks pid cap" "c \<in> set free" using that sub(1) by auto
    then have "block_index c \<noteq> block_index b" using False b(1) by (cases c; cases b) (auto simp: blocks_def in_storage_def)
    then show ?thesis using ok(2) c(2) False by (simp add: addr_def read_other_slot)
  qed
  moreover have "base \<le> addr base bsize b \<and> addr base bsize b < base + kStride bsize * cap"
    using addr_bounds [OF b(1), of base bsize] kStride_ge(2) [of bsize] by linarith
  moreover have "in_storage pid cap b" using b(1) by (simp add: blocks_def)
  ultimately show ?thesis using pool_give [OF ok(1) b] eq
    by (auto simp: byte_sim_def deallocate_bytes_def pool_deallocate_def write_next_def)
qed

text \<open>A client that writes into a node it holds does not touch the free list.\<close>

lemma write_sim:
  assumes sim: "byte_sim base bsize pid cap (bp, m) (p, am) free" and b: "b \<in> blocks pid cap" "b \<notin> set free" and off: "off < bsize"
  shows "byte_sim base bsize pid cap (bp, m(addr base bsize b + off := v)) (p, am) free"
proof -
  have "read_next_bytes (addr base bsize c) (m(addr base bsize b + off := v)) = read_next_bytes (addr base bsize c) m" if "c \<in> set free" for c
  proof -
    have c: "c \<in> blocks pid cap" "c \<noteq> b" using that sim b(2) by (auto simp: byte_sim_def pool_ok_def)
    show ?thesis
      by (rule read_frame) (use addr_apart [OF c(1) b(1) c(2), of base bsize] kStride_ge [of bsize] off in auto)
  qed
  then show ?thesis using sim by (auto simp: byte_sim_def)
qed

subsection \<open>A client of the pool\<close>

text \<open>
  The state of a run: the client holds the blocks \<open>hs\<close>, each of which is in use, and together with the free ones they are all blocks.
\<close>

definition byte_inv :: "nat \<Rightarrow> nat \<Rightarrow> nat \<Rightarrow> nat list \<times> byte_pool \<times> ram \<Rightarrow> FixedBlockPool \<times> memory \<Rightarrow> block list \<Rightarrow> block list \<Rightarrow> bool" where
  "byte_inv base bsize cap s a free hs \<longleftrightarrow>
     (let (held, c) = s
      in byte_sim base bsize 0 cap c a free \<and> held = map (addr base bsize) hs \<and> distinct hs \<and> set hs = blocks 0 cap - set free)"

text \<open>What a step leaves as it was: all bytes outside the storage, and all bytes of the nodes held before and after, but for the byte that it writes.\<close>

definition keeps :: "nat \<Rightarrow> nat \<Rightarrow> nat \<Rightarrow> byte_request \<Rightarrow> nat list \<times> byte_pool \<times> ram \<Rightarrow> nat list \<times> byte_pool \<times> ram \<Rightarrow> bool" where
  "keeps base bsize cap r s s' \<longleftrightarrow>
     (let (held, _, m) = s; (held', _, m') = s';
          expected = (case r of Byte_write k off v \<Rightarrow> if k < length held \<and> off < bsize then m(held ! k + off := v) else m | _ \<Rightarrow> m)
      in \<forall>a. \<not> (base \<le> a \<and> a < base + kStride bsize * cap) \<or> (\<exists>p \<in> set held \<inter> set held'. p \<le> a \<and> a < p + bsize) \<longrightarrow> m' a = expected a)"

lemma held_blocks: "byte_inv base bsize cap (held, c) a free hs \<Longrightarrow> k < length held \<Longrightarrow>
    hs ! k \<in> blocks 0 cap \<and> hs ! k \<notin> set free \<and> held ! k = addr base bsize (hs ! k) \<and> length held = length hs"
  by (auto simp: byte_inv_def dest: nth_mem)

lemma nth_removed: "k < length xs \<Longrightarrow> distinct xs \<Longrightarrow> set (take k xs @ drop (Suc k) xs) = set xs - {xs ! k} \<and> distinct (take k xs @ drop (Suc k) xs)"
proof -
  assume k: "k < length xs" and d: "distinct xs"
  have "xs = take k xs @ xs ! k # drop (Suc k) xs" using id_take_nth_drop [OF k] .
  then have "distinct (take k xs @ xs ! k # drop (Suc k) xs)" "set xs = set (take k xs @ xs ! k # drop (Suc k) xs)" using d by metis+
  then show ?thesis by auto
qed

text \<open>The three kinds of steps.\<close>

definition steps_to :: "bool \<Rightarrow> nat \<Rightarrow> nat \<Rightarrow> nat \<Rightarrow> byte_request \<Rightarrow> nat list \<times> byte_pool \<times> ram \<Rightarrow> bool" where
  "steps_to ndebug base bsize cap r s \<longleftrightarrow>
     (\<exists>s' a' free' hs'. byte_step ndebug base bsize cap r s = Some s' \<and> byte_inv base bsize cap s' a' free' hs' \<and> keeps base bsize cap r s s')"

lemma steps_toI:
  "byte_step ndebug base bsize cap r s = Some s' \<Longrightarrow> byte_inv base bsize cap s' a' free' hs' \<Longrightarrow> keeps base bsize cap r s s' \<Longrightarrow>
     steps_to ndebug base bsize cap r s"
  unfolding steps_to_def by blast

lemma byte_get_inv:
  assumes placed: "placed base bsize cap" and inv: "byte_inv base bsize cap (held, bp, m) (p, am) free hs"
  shows "steps_to ndebug base bsize cap Byte_get (held, bp, m)"
proof (cases free)
  case Nil
  have sim: "byte_sim base bsize 0 cap (bp, m) (p, am) free" using inv by (simp add: byte_inv_def)
  from Nil have "byte_step ndebug base bsize cap Byte_get (held, bp, m) = Some (held, bp, m)" using allocate_sim [OF placed sim] by simp
  then show ?thesis using inv by (rule steps_toI) (simp add: keeps_def)
next
  case (Cons b free')
  have sim: "byte_sim base bsize 0 cap (bp, m) (p, am) free" and held: "held = map (addr base bsize) hs" "distinct hs" "set hs = blocks 0 cap - set free"
    using inv by (auto simp: byte_inv_def)
  obtain bp' p' where al: "allocate_bytes bp m = Inr (addr base bsize b, bp')" "byte_sim base bsize 0 cap (bp', m) (p', am) free'"
    using allocate_sim [OF placed sim] Cons by auto
  have "set free \<subseteq> blocks 0 cap" "distinct free" using sim by (auto simp: byte_sim_def pool_ok_def)
  then have "byte_inv base bsize cap (held @ [addr base bsize b], bp', m) (p', am) free' (hs @ [b])"
    using al(2) held Cons by (auto simp: byte_inv_def)
  then show ?thesis by (rule steps_toI [rotated]) (simp_all add: al(1) keeps_def)
qed

lemma byte_put_inv:
  assumes placed: "placed base bsize cap" and inv: "byte_inv base bsize cap (held, bp, m) (p, am) free hs" and k: "k < length held"
  shows "steps_to ndebug base bsize cap (Byte_put k) (held, bp, m)"
proof -
  have sim: "byte_sim base bsize 0 cap (bp, m) (p, am) free" and held: "held = map (addr base bsize) hs" "distinct hs" "set hs = blocks 0 cap - set free"
    using inv by (auto simp: byte_inv_def)
  note b = held_blocks [OF inv k]
  let ?b = "hs ! k" and ?m = "write_next_bytes (addr base bsize (hs ! k)) (ptr base bsize (free_list p)) m"
  let ?held = "take k held @ drop (Suc k) held" and ?hs = "take k hs @ drop (Suc k) hs"
  obtain bp' p' where de: "deallocate_bytes ndebug base bsize cap (addr base bsize ?b) bp m = Some (bp', ?m)"
    "byte_sim base bsize 0 cap (bp', ?m) (p', write_next ?b (free_list p) am) (?b # free)"
    using deallocate_sim [OF placed sim, of ?b] b by blast
  note rem = nth_removed [OF k [unfolded held(1), simplified] held(2)]
  have held': "?held = map (addr base bsize) ?hs" by (simp add: held(1) take_map drop_map)
  then have inv': "byte_inv base bsize cap (?held, bp', ?m) (p', write_next ?b (free_list p) am) (?b # free) ?hs"
    using de(2) held rem by (auto simp: byte_inv_def)
  have "?m x = m x" if "\<not> (base \<le> x \<and> x < base + kStride bsize * cap) \<or> (\<exists>q \<in> set held \<inter> set ?held. q \<le> x \<and> x < q + bsize)" for x
    using that
  proof
    assume "\<not> (base \<le> x \<and> x < base + kStride bsize * cap)"
    then show ?thesis using addr_bounds [of ?b 0 cap base bsize] b kStride_ge(2) [of bsize] by (intro write_next_outside) auto
  next
    assume "\<exists>q \<in> set held \<inter> set ?held. q \<le> x \<and> x < q + bsize"
    then obtain q where q: "q \<in> set ?held" "q \<le> x" "x < q + bsize" by blast
    obtain c where c: "c \<in> set ?hs" "q = addr base bsize c" using q(1) unfolding held' by auto
    have "c \<in> blocks 0 cap" "c \<noteq> ?b" using c(1) rem held(3) by auto
    then show ?thesis using addr_apart [of c 0 cap ?b base bsize] b c(2) q(2,3) kStride_ge [of bsize] by (intro write_next_outside) auto
  qed
  then have "keeps base bsize cap (Byte_put k) (held, bp, m) (?held, bp', ?m)" by (simp add: keeps_def)
  then show ?thesis using inv' by (intro steps_toI) (use de(1) k b in simp_all)
qed

lemma byte_write_inv:
  assumes inv: "byte_inv base bsize cap (held, bp, m) (p, am) free hs" and k: "k < length held" "off < bsize"
  shows "steps_to ndebug base bsize cap (Byte_write k off v) (held, bp, m)"
proof -
  note b = held_blocks [OF inv k(1)]
  have "byte_sim base bsize 0 cap (bp, m) (p, am) free" using inv by (simp add: byte_inv_def)
  then have "byte_sim base bsize 0 cap (bp, m(addr base bsize (hs ! k) + off := v)) (p, am) free" using write_sim b k(2) by blast
  then have "byte_inv base bsize cap (held, bp, m(held ! k + off := v)) (p, am) free hs" using inv b by (simp add: byte_inv_def)
  then show ?thesis by (rule steps_toI [rotated]) (simp_all add: k keeps_def)
qed

lemma byte_step_inv:
  assumes placed: "placed base bsize cap" and inv: "byte_inv base bsize cap s a free hs"
  shows "steps_to ndebug base bsize cap r s"
proof -
  obtain held bp m p am where s: "s = (held, bp, m)" "a = (p, am)" by (metis prod_cases3 surj_pair)
  note inv' = inv [unfolded s]
  have idle: "steps_to ndebug base bsize cap r (held, bp, m)" if "byte_step ndebug base bsize cap r (held, bp, m) = Some (held, bp, m)"
    "(case r of Byte_write k off v \<Rightarrow> \<not> (k < length held \<and> off < bsize) | _ \<Rightarrow> True)"
    using that(1) inv' by (rule steps_toI) (use that(2) in \<open>auto simp: keeps_def split: byte_request.splits\<close>)
  show ?thesis
  proof (cases r)
    case Byte_get
    then show ?thesis using byte_get_inv [OF placed inv'] s by simp
  next
    case (Byte_put k)
    then show ?thesis using byte_put_inv [OF placed inv'] idle s by (cases "k < length held") simp_all
  next
    case (Byte_write k off v)
    then show ?thesis using byte_write_inv [OF inv'] idle s by (cases "k < length held \<and> off < bsize") auto
  qed
qed

lemma byte_run_inv:
  assumes "placed base bsize cap" "byte_inv base bsize cap s a free hs"
  shows "\<exists>s' a' free' hs'. byte_run ndebug base bsize cap rs s = Some s' \<and> byte_inv base bsize cap s' a' free' hs'"
  using assms(2)
proof (induction rs arbitrary: s a free hs)
  case Nil
  then show ?case unfolding byte_run.simps by blast
next
  case (Cons r rs)
  then show ?case using byte_step_inv [OF assms(1) Cons.prems, of ndebug r] unfolding steps_to_def by fastforce
qed

subsection \<open>Memory safety\<close>

lemma power_dvd_8: "(2 :: nat) ^ k \<le> 8 \<Longrightarrow> 2 ^ k dvd (8 :: nat)"
proof -
  assume "(2 :: nat) ^ k \<le> 8"
  then have "(2 :: nat) ^ k \<le> 2 ^ 3" by simp
  then have "k \<le> 3" by (rule power_le_imp_le_exp [rotated]) simp
  then have "(2 :: nat) ^ k dvd 2 ^ 3" by (rule le_imp_power_dvd)
  then show ?thesis by simp
qed

lemma slot_aligned:
  assumes "al = 2 ^ k" "al dvd bsize" "0 < bsize" "kAlignment al dvd base"
  shows "al dvd slot_address base bsize i"
proof -
  have "al dvd kAlignment al" using power_dvd_8 [of k] assms(1) by (simp add: kAlignment_def)
  moreover have "al dvd kStride bsize" using power_dvd_8 [of k] assms(1-3) dvd_imp_le [of al bsize] by (auto simp: kStride_def)
  ultimately have "al dvd base" "al dvd i * kStride bsize" using assms(4) dvd_trans by (blast, simp)
  then show ?thesis unfolding slot_address_def by (rule dvd_add)
qed

text \<open>
  C31. The bytes of a pool, for every sequence of requests, releases and writes of a client that writes only into nodes it holds: no assertion fails, the nodes held lie in the
  storage, do not overlap and are aligned for their type; the counter is exact and a request fails exactly when all blocks are held; and a step changes no byte outside the storage
  and no byte of a node held before and after it, other than the byte that the client writes.
\<close>

theorem pool_memory_safe:
  assumes "placed base bsize cap" "0 < bsize" "al = 2 ^ k" "al dvd bsize" "kAlignment al dvd base" "construct_bytes base bsize cap m0 = (bp0, m1)"
  shows "\<exists>held bp m s'. byte_run ndebug base bsize cap rs ([], bp0, m1) = Some (held, bp, m) \<and>
    (\<forall>p \<in> set held. al dvd p \<and> base \<le> p \<and> p + bsize \<le> base + kStride bsize * cap) \<and>
    (\<forall>i < length held. \<forall>j < length held. i \<noteq> j \<longrightarrow> {held ! i..<held ! i + bsize} \<inter> {held ! j..<held ! j + bsize} = {}) \<and>
    unat (bp_in_use bp) = length held \<and> (allocate_bytes bp m = Inl Bad_alloc \<longleftrightarrow> length held = cap) \<and>
    byte_step ndebug base bsize cap r (held, bp, m) = Some s' \<and> keeps base bsize cap r (held, bp, m) s'"
proof -
  obtain p0 am0 where con: "pool_construct 0 cap (\<lambda>_. None) = (p0, am0)" by fastforce
  have "byte_inv base bsize cap ([], bp0, m1) (p0, am0) (map (Block 0) [0..<cap]) []"
    using construct_sim(1) [OF assms(1,6) con] by (auto simp: byte_inv_def blocks_eq)
  then obtain held bp m a free hs where run: "byte_run ndebug base bsize cap rs ([], bp0, m1) = Some (held, bp, m)"
    and inv: "byte_inv base bsize cap (held, bp, m) a free hs"
    using byte_run_inv [OF assms(1), of _ _ _ _ ndebug rs] by (metis prod_cases3)
  obtain p am where a: "a = (p, am)" by fastforce
  have sim: "byte_sim base bsize 0 cap (bp, m) (p, am) free" and held: "held = map (addr base bsize) hs" "distinct hs" "set hs = blocks 0 cap - set free"
    using inv a by (auto simp: byte_inv_def)
  have free: "set free \<subseteq> blocks 0 cap" "distinct free" "unat (bp_in_use bp) + length free = cap"
    using sim by (auto simp: byte_sim_def pool_ok_def)
  have "card (set hs) = card (blocks 0 cap) - card (set free)" unfolding held(3) by (rule card_Diff_subset) (use free in auto)
  then have n: "length held = cap - length free" using distinct_card [OF held(2)] distinct_card [OF free(2)] by (simp add: held(1) finite_blocks)
  have inside: "al dvd q \<and> base \<le> q \<and> q + bsize \<le> base + kStride bsize * cap" if q: "q \<in> set held" for q
  proof -
    obtain b where b: "q = addr base bsize b" "b \<in> blocks 0 cap" using q held by auto
    then show ?thesis using slot_aligned [OF assms(3,4,2,5)] addr_bounds [OF b(2), of base bsize] kStride_ge(1) [of bsize] by (simp add: addr_def)
  qed
  have apart: "{held ! i..<held ! i + bsize} \<inter> {held ! j..<held ! j + bsize} = {}" if "i < length held" "j < length held" "i \<noteq> j" for i j
    using held_blocks [OF inv that(1)] held_blocks [OF inv that(2)] addr_apart [of "hs ! i" 0 cap "hs ! j" base bsize] that kStride_ge(1) [of bsize]
      nth_eq_iff_index_eq [OF held(2), of i j] by auto
  have "allocate_bytes bp m = Inl Bad_alloc \<longleftrightarrow> free = []" using allocate_sim [OF assms(1) sim] by (cases free) auto
  then have exhausted: "allocate_bytes bp m = Inl Bad_alloc \<longleftrightarrow> length held = cap" using n free(3) assms(1) by (cases free) (auto simp: placed_def)
  obtain s' where s': "byte_step ndebug base bsize cap r (held, bp, m) = Some s'" "keeps base bsize cap r (held, bp, m) s'"
    using byte_step_inv [OF assms(1) inv, of ndebug r] unfolding steps_to_def by blast
  have "unat (bp_in_use bp) = length held" using n free(3) by simp
  then show ?thesis using run inside apart exhausted s' by blast
qed

text \<open>Two nodes of 24 bytes: both are taken, written, and the first is released.\<close>

theorem pool_memory_safe_witness:
  "\<exists>bp0 m1 held bp m. construct_bytes 4096 24 2 (\<lambda>_. 0) = (bp0, m1) \<and>
    byte_run False 4096 24 2 [Byte_get, Byte_get, Byte_write 0 23 7, Byte_put 0] ([], bp0, m1) = Some (held, bp, m) \<and>
    unat (bp_in_use bp) = length held \<and> (\<forall>p \<in> set held. 8 dvd p)"
proof -
  obtain bp0 m1 where con: "construct_bytes 4096 24 2 (\<lambda>_. 0) = (bp0, m1)" by fastforce
  have "placed 4096 24 2" "(0 :: nat) < 24" "(8 :: nat) = 2 ^ 3" "(8 :: nat) dvd 24" "kAlignment 8 dvd 4096" by (simp_all add: placed_def kStride_def kAlignment_def)
  from pool_memory_safe [OF this con, of False "[Byte_get, Byte_get, Byte_write 0 23 7, Byte_put 0]" Byte_get] show ?thesis using con by blast
qed

end
