(* ===== verification/Heap_Allocator.thy ===== *)
theory Heap_Allocator
  imports Object_Pool
begin

text \<open>
  The global heap with the counting operators of \<open>orderbook/test_alloc_counter.cpp\<close>, and the two node allocators that \<open>OrderBookT\<close> is instantiated with:
  \<open>std::allocator\<close>, which calls \<open>operator new\<close> for every node, and the \<open>PoolAllocator\<close> of \<open>Object_Pool\<close>, which calls it only to construct a pool
  and for arrays.  What the C++ implementation decides is a record of parameters: which calls of \<open>malloc\<close> succeed, the sizes of
  the nodes and of a pool, and how many buckets a hash table takes.  An address of the heap is the number of the \<open>malloc\<close> call that
  returned it; the heap remembers what an address is used for.
\<close>

datatype node_kind = List_node | Tree_node | Hash_node

datatype heap_object = Node node_kind | Array_object | Pool_object

record env =
  en_malloc :: "nat \<Rightarrow> nat \<Rightarrow> bool"
  en_node_size :: "node_kind \<Rightarrow> nat"
  en_pool_size :: "node_kind \<Rightarrow> nat"
  en_buckets :: "nat \<Rightarrow> nat \<Rightarrow> nat"

record heap =
  hp_live :: "nat \<rightharpoonup> heap_object"
  hp_mallocs :: nat
  g_new_calls :: u64
  g_delete_calls :: u64

definition heap_init :: heap where
  "heap_init = \<lparr>hp_live = Map.empty, hp_mallocs = 0, g_new_calls = 0, g_delete_calls = 0\<rparr>"

subsection \<open>The counting operators\<close>

definition operator_new :: "env \<Rightarrow> heap_object \<Rightarrow> nat \<Rightarrow> heap \<Rightarrow> (pool_error + nat) \<times> heap" where
  "operator_new E obj sz h =
     (let h = h\<lparr>g_new_calls := g_new_calls h + 1\<rparr>;
          p = hp_mallocs h;
          h = h\<lparr>hp_mallocs := p + 1\<rparr>
      in if en_malloc E p (if sz = 0 then 1 else sz) then (Inr p, h\<lparr>hp_live := (hp_live h)(p \<mapsto> obj)\<rparr>)
         else (Inl Bad_alloc, h))"

text \<open>Freeing what is not allocated is undefined.\<close>

definition operator_delete :: "nat \<Rightarrow> heap \<Rightarrow> heap option" where
  "operator_delete ptr h =
     (let h = h\<lparr>g_delete_calls := g_delete_calls h + 1\<rparr>
      in if hp_live h ptr = None then None else Some (h\<lparr>hp_live := (hp_live h)(ptr := None)\<rparr>))"

definition reset_alloc_counters :: "heap \<Rightarrow> heap" where
  "reset_alloc_counters h = h\<lparr>g_new_calls := 0, g_delete_calls := 0\<rparr>"

definition new_call_count :: "heap \<Rightarrow> u64" where
  "new_call_count h = g_new_calls h"

definition delete_call_count :: "heap \<Rightarrow> u64" where
  "delete_call_count h = g_delete_calls h"

subsection \<open>Node allocators\<close>

record 'p mem =
  mem_pools :: 'p
  mem_heap :: heap

record ('p, 'a) node_ops =
  no_allocate :: "node_kind \<Rightarrow> 'p mem \<Rightarrow> (pool_error + 'a) \<times> 'p mem"
  no_deallocate :: "node_kind \<Rightarrow> 'a \<Rightarrow> 'p mem \<Rightarrow> 'p mem option"

text \<open>\<open>std::allocator\<close>\<close>

definition heap_allocate :: "env \<Rightarrow> node_kind \<Rightarrow> 'p mem \<Rightarrow> (pool_error + nat) \<times> 'p mem" where
  "heap_allocate E k m =
     (let (r, h) = operator_new E (Node k) (en_node_size E k) (mem_heap m) in (r, m\<lparr>mem_heap := h\<rparr>))"

definition heap_deallocate :: "node_kind \<Rightarrow> nat \<Rightarrow> 'p mem \<Rightarrow> 'p mem option" where
  "heap_deallocate k p m = map_option (\<lambda>h. m\<lparr>mem_heap := h\<rparr>) (operator_delete p (mem_heap m))"

definition std_allocator :: "env \<Rightarrow> ('p, nat) node_ops" where
  "std_allocator E = \<lparr>no_allocate = heap_allocate E, no_deallocate = heap_deallocate\<rparr>"

text \<open>
  \<open>PoolAllocator\<close>, with one family of pools per kind of node: \<open>make_unique<Pool>\<close> in \<open>pool()\<close> calls \<open>operator new\<close> when the calling shard uses
  its pool for the first time.
\<close>

type_synonym node_pools = "node_kind \<Rightarrow> pools"

definition ensure_pool :: "env \<Rightarrow> nat \<Rightarrow> node_kind \<Rightarrow> node_pools mem \<Rightarrow> (pool_error + unit) \<times> node_pools mem" where
  "ensure_pool E index k m =
     (if index < length (pool_slots (mem_pools m k)) \<and> pool_slots (mem_pools m k) ! index = None then
        (case operator_new E Pool_object (en_pool_size E k) (mem_heap m) of
           (Inl e, h) \<Rightarrow> (Inl e, m\<lparr>mem_heap := h\<rparr>)
         | (Inr _, h) \<Rightarrow> (Inr (), m\<lparr>mem_heap := h\<rparr>))
      else (Inr (), m))"

definition pool_node_allocate :: "env \<Rightarrow> nat \<Rightarrow> nat \<Rightarrow> node_kind \<Rightarrow> node_pools mem \<Rightarrow> (pool_error + block) \<times> node_pools mem" where
  "pool_node_allocate E cap index k m =
     (case ensure_pool E index k m of
        (Inl e, m) \<Rightarrow> (Inl e, m)
      | (Inr _, m) \<Rightarrow>
          (let (r, ps) = allocate_node cap index (mem_pools m k)
           in (r, m\<lparr>mem_pools := (mem_pools m)(k := ps)\<rparr>)))"

definition pool_node_deallocate :: "env \<Rightarrow> bool \<Rightarrow> nat \<Rightarrow> nat \<Rightarrow> node_kind \<Rightarrow> block \<Rightarrow> node_pools mem \<Rightarrow> node_pools mem option" where
  "pool_node_deallocate E ndebug cap index k b m =
     (case ensure_pool E index k m of
        (Inl e, m) \<Rightarrow> None
      | (Inr _, m) \<Rightarrow>
          map_option (\<lambda>ps. m\<lparr>mem_pools := (mem_pools m)(k := ps)\<rparr>) (deallocate_node ndebug cap index b (mem_pools m k)))"

definition pool_allocator :: "env \<Rightarrow> bool \<Rightarrow> nat \<Rightarrow> nat \<Rightarrow> (node_pools, block) node_ops" where
  "pool_allocator E ndebug cap index =
     \<lparr>no_allocate = pool_node_allocate E cap index, no_deallocate = pool_node_deallocate E ndebug cap index\<rparr>"

subsection \<open>The heap\<close>

definition heap_ok :: "heap \<Rightarrow> bool" where
  "heap_ok h \<longleftrightarrow> (\<forall>p obj. hp_live h p = Some obj \<longrightarrow> p < hp_mallocs h)"

definition objects :: "heap_object \<Rightarrow> heap \<Rightarrow> nat set" where
  "objects obj h = {p. hp_live h p = Some obj}"

lemma operator_new_effect:
  assumes "heap_ok h" "operator_new E obj sz h = (r, h')"
  shows "heap_ok h'" "g_new_calls h' = g_new_calls h + 1" "g_delete_calls h' = g_delete_calls h"
    "\<And>obj'. obj' \<noteq> obj \<Longrightarrow> objects obj' h' = objects obj' h"
    "r = Inl e \<Longrightarrow> objects obj h' = objects obj h"
    "r = Inr p \<Longrightarrow> p \<notin> objects obj h \<and> objects obj h' = insert p (objects obj h)"
proof -
  have fresh: "hp_live h (hp_mallocs h) = None" using assms(1) unfolding heap_ok_def by (metis less_irrefl not_Some_eq)
  show "heap_ok h'" using assms by (auto simp: heap_ok_def operator_new_def Let_def less_Suc_eq split: if_splits)
  show "g_new_calls h' = g_new_calls h + 1" "g_delete_calls h' = g_delete_calls h"
    using assms(2) by (auto simp: operator_new_def Let_def split: if_splits)
  show "\<And>obj'. obj' \<noteq> obj \<Longrightarrow> objects obj' h' = objects obj' h" "r = Inl e \<Longrightarrow> objects obj h' = objects obj h"
    "r = Inr p \<Longrightarrow> p \<notin> objects obj h \<and> objects obj h' = insert p (objects obj h)"
    using assms(2) fresh by (auto simp: operator_new_def objects_def Let_def split: if_splits)
qed

lemma operator_delete_effect:
  assumes "heap_ok h" "p \<in> objects obj h"
  obtains h' where "operator_delete p h = Some h'" "heap_ok h'" "g_new_calls h' = g_new_calls h"
    "g_delete_calls h' = g_delete_calls h + 1" "objects obj h' = objects obj h - {p}"
    "\<And>obj'. obj' \<noteq> obj \<Longrightarrow> objects obj' h' = objects obj' h"
proof -
  let ?h = "h\<lparr>g_delete_calls := g_delete_calls h + 1, hp_live := (hp_live h)(p := None)\<rparr>"
  have "operator_delete p h = Some ?h" using assms(2) by (simp add: operator_delete_def objects_def)
  moreover have "heap_ok ?h" using assms(1) by (simp add: heap_ok_def)
  moreover have "objects obj ?h = objects obj h - {p}" "\<And>obj'. obj' \<noteq> obj \<Longrightarrow> objects obj' ?h = objects obj' h"
    using assms(2) by (auto simp: objects_def)
  ultimately show thesis using that [of ?h] by simp
qed

subsection \<open>The contract of a node allocator\<close>

text \<open>
  \<open>ok\<close> is the state of the allocator's memory, \<open>live k\<close> are the nodes of kind \<open>k\<close> in use.  The arrays (the buckets of a hash table, the storage of a vector), which both
  allocators take from the heap, do not interfere with the nodes.
\<close>

locale node_allocator =
  fixes A :: "('p, 'a) node_ops"
    and ok :: "'p mem \<Rightarrow> bool"
    and live :: "node_kind \<Rightarrow> 'p mem \<Rightarrow> 'a set"
  assumes heap: "ok m \<Longrightarrow> heap_ok (mem_heap m)"
    and allocate_fails: "ok m \<Longrightarrow> no_allocate A k m = (Inl e, m') \<Longrightarrow>
      ok m' \<and> (\<forall>k'. live k' m' = live k' m) \<and> objects Array_object (mem_heap m') = objects Array_object (mem_heap m)"
    and allocate_fresh: "ok m \<Longrightarrow> no_allocate A k m = (Inr a, m') \<Longrightarrow>
      ok m' \<and> a \<notin> live k m \<and> live k m' = insert a (live k m) \<and> (\<forall>k'. k' \<noteq> k \<longrightarrow> live k' m' = live k' m) \<and>
      objects Array_object (mem_heap m') = objects Array_object (mem_heap m)"
    and deallocate_live: "ok m \<Longrightarrow> a \<in> live k m \<Longrightarrow>
      \<exists>m'. no_deallocate A k a m = Some m' \<and> ok m' \<and> live k m' = live k m - {a} \<and> (\<forall>k'. k' \<noteq> k \<longrightarrow> live k' m' = live k' m) \<and>
        objects Array_object (mem_heap m') = objects Array_object (mem_heap m)"
    and array_frame: "ok m \<Longrightarrow> heap_ok h \<Longrightarrow> (\<forall>obj. obj \<noteq> Array_object \<longrightarrow> objects obj h = objects obj (mem_heap m)) \<Longrightarrow>
      ok (m\<lparr>mem_heap := h\<rparr>) \<and> live k (m\<lparr>mem_heap := h\<rparr>) = live k m"

text \<open>Both allocators keep the contract.\<close>

definition heap_nodes :: "node_kind \<Rightarrow> 'p mem \<Rightarrow> nat set" where
  "heap_nodes k m = objects (Node k) (mem_heap m)"

interpretation std_nodes: node_allocator "std_allocator E" "\<lambda>m. heap_ok (mem_heap m)" heap_nodes for E
proof (unfold_locales, goal_cases)
  case (2 m k e m')
  obtain h where h: "operator_new E (Node k) (en_node_size E k) (mem_heap m) = (Inl e, h)" "m' = m\<lparr>mem_heap := h\<rparr>"
    using 2(2) by (auto simp: std_allocator_def heap_allocate_def split: prod.splits)
  note eff = operator_new_effect [OF 2(1) h(1)]
  have "objects (Node k') h = objects (Node k') (mem_heap m)" for k' using eff(4,5) by (cases "k' = k") auto
  then show ?case using eff(1,4) h(2) by (simp add: heap_nodes_def)
next
  case (3 m k a m')
  obtain h where h: "operator_new E (Node k) (en_node_size E k) (mem_heap m) = (Inr a, h)" "m' = m\<lparr>mem_heap := h\<rparr>"
    using 3(2) by (auto simp: std_allocator_def heap_allocate_def split: prod.splits)
  note eff = operator_new_effect [OF 3(1) h(1)]
  show ?case using eff(1,4,6) h(2) by (simp add: heap_nodes_def)
next
  case (4 m a k)
  obtain h where h: "operator_delete a (mem_heap m) = Some h" "heap_ok h" "objects (Node k) h = objects (Node k) (mem_heap m) - {a}"
    "\<And>obj'. obj' \<noteq> Node k \<Longrightarrow> objects obj' h = objects obj' (mem_heap m)"
    using operator_delete_effect [OF 4(1) 4(2) [unfolded heap_nodes_def]] by metis
  then show ?case by (simp add: std_allocator_def heap_deallocate_def heap_nodes_def)
qed (auto simp: heap_nodes_def)

text \<open>The pools of shard \<open>index\<close>, for the capacity that all kinds of nodes share.\<close>

definition pool_mem_ok :: "nat \<Rightarrow> nat \<Rightarrow> node_pools mem \<Rightarrow> bool" where
  "pool_mem_ok cap index m \<longleftrightarrow> heap_ok (mem_heap m) \<and> index < kMaxPoolShards \<and> (\<forall>k. pools_ok cap (mem_pools m k))"

definition pool_nodes :: "nat \<Rightarrow> nat \<Rightarrow> node_kind \<Rightarrow> node_pools mem \<Rightarrow> block set" where
  "pool_nodes cap index k m = live_blocks cap index (mem_pools m k)"

lemma ensure_pool_effect:
  assumes "heap_ok (mem_heap m)" "ensure_pool E index k m = (r, m')"
  shows "heap_ok (mem_heap m')" "mem_pools m' = mem_pools m" "objects Array_object (mem_heap m') = objects Array_object (mem_heap m)"
proof -
  have "heap_ok (mem_heap m') \<and> mem_pools m' = mem_pools m \<and> objects Array_object (mem_heap m') = objects Array_object (mem_heap m)"
  proof (cases "operator_new E Pool_object (en_pool_size E k) (mem_heap m)")
    case (Pair x h)
    note eff = operator_new_effect(1,4) [OF assms(1) Pair]
    have "m' = m \<or> m' = m\<lparr>mem_heap := h\<rparr>"
      using assms(2) Pair by (cases x) (simp_all add: ensure_pool_def split: if_splits)
    moreover have "objects Array_object h = objects Array_object (mem_heap m)" by (rule eff(2)) simp
    ultimately show ?thesis using assms(1) eff(1) by (elim disjE) simp_all
  qed
  then show "heap_ok (mem_heap m')" "mem_pools m' = mem_pools m" "objects Array_object (mem_heap m') = objects Array_object (mem_heap m)"
    by auto
qed

lemma ensure_pool_present:
  "pool_slots (mem_pools m k) ! index \<noteq> None \<Longrightarrow> ensure_pool E index k m = (Inr (), m)"
  by (auto simp: ensure_pool_def)

interpretation pool_allocs: node_allocator "pool_allocator E ndebug cap index" "pool_mem_ok cap index" "pool_nodes cap index"
  for E ndebug cap index
proof (unfold_locales, goal_cases)
  case (2 m k e m')
  obtain x m1 where en: "ensure_pool E index k m = (x, m1)" by fastforce
  have h: "heap_ok (mem_heap m)" and ps: "pools_ok cap (mem_pools m k)" and i: "index < kMaxPoolShards"
    using 2(1) by (simp_all add: pool_mem_ok_def)
  note eff = ensure_pool_effect [OF h en]
  show ?case
  proof (cases x)
    case (Inl e')
    then show ?thesis
      using 2 en eff by (simp add: pool_allocator_def pool_node_allocate_def pool_mem_ok_def pool_nodes_def)
  next
    case (Inr u)
    show ?thesis
    proof (cases rule: allocate_ok [OF ps i])
      case (1 ps')
      then have "m' = m1\<lparr>mem_pools := (mem_pools m1)(k := ps')\<rparr>"
        using 2(2) en Inr eff(2) by (simp add: pool_allocator_def pool_node_allocate_def)
      then show ?thesis using 2(1) 1 eff i by (auto simp: pool_mem_ok_def pool_nodes_def)
    next
      case (2 b ps')
      then show ?thesis using 2(1) \<open>no_allocate _ k m = (Inl e, m')\<close> en Inr eff(2) by (simp add: pool_allocator_def pool_node_allocate_def)
    qed
  qed
next
  case (3 m k a m')
  obtain x m1 where en: "ensure_pool E index k m = (x, m1)" by fastforce
  have h: "heap_ok (mem_heap m)" and ps: "pools_ok cap (mem_pools m k)" and i: "index < kMaxPoolShards"
    using 3(1) by (simp_all add: pool_mem_ok_def)
  note eff = ensure_pool_effect [OF h en]
  obtain ps1 where run: "allocate_node cap index (mem_pools m k) = (Inr a, ps1)" "m' = m1\<lparr>mem_pools := (mem_pools m)(k := ps1)\<rparr>"
    using 3(2) en eff(2) by (cases x) (auto simp: pool_allocator_def pool_node_allocate_def split: prod.splits)
  show ?case
  proof (cases rule: allocate_ok [OF ps i])
    case (1 ps')
    then show ?thesis using run(1) by simp
  next
    case (2 b ps')
    then show ?thesis using 3(1) run eff by (simp add: pool_mem_ok_def pool_nodes_def)
  qed
next
  case (4 m a k)
  have ps: "pools_ok cap (mem_pools m k)" and i: "index < kMaxPoolShards" and a: "a \<in> live_blocks cap index (mem_pools m k)"
    using 4 by (simp_all add: pool_mem_ok_def pool_nodes_def)
  have "ensure_pool E index k m = (Inr (), m)"
    using a by (intro ensure_pool_present) (auto simp: live_blocks_def split: option.splits)
  moreover obtain ps' where "deallocate_node ndebug cap index a (mem_pools m k) = Some ps'" "pools_ok cap ps'"
      "live_blocks cap index ps' = live_blocks cap index (mem_pools m k) - {a}"
    using deallocate_ok [OF ps i a] by metis
  ultimately show ?case using 4(1) by (auto simp: pool_allocator_def pool_node_deallocate_def pool_mem_ok_def pool_nodes_def)
qed (auto simp: pool_mem_ok_def pool_nodes_def)

end
