(* ===== verification/Message_Types.thy ===== *)
theory Message_Types
  imports Prelude
begin

text \<open>
  The wire protocol's data model, \<open>protocol/message_types.hpp\<close>.  \<open>Side\<close> and \<open>MessageType\<close>
  are enumerations with the fixed underlying type \<open>uint8_t\<close>: every byte is a value of
  them, so they are bytes here, with the enumerators as constants.  A \<open>Symbol\<close>
  (\<open>std::array<char, 8>\<close>) is a character list of length \<open>kSymbolLen\<close>, which \<open>symbol_ok\<close>
  states.
\<close>

type_synonym MessageType = u8
type_synonym Side = u8
type_synonym SeqNum = u64
type_synonym OrderId = u64
type_synonym Price = int64
type_synonym Quantity = u32
type_synonym Timestamp = u64
type_synonym Symbol = "char list"

definition MT_AddOrder :: MessageType where "MT_AddOrder = 1"
definition MT_CancelOrder :: MessageType where "MT_CancelOrder = 2"
definition MT_ExecuteOrder :: MessageType where "MT_ExecuteOrder = 3"
definition MT_ReplaceOrder :: MessageType where "MT_ReplaceOrder = 4"

definition Buy :: Side where "Buy = 0"
definition Sell :: Side where "Sell = 1"

definition kSymbolLen :: nat where "kSymbolLen = 8"

definition symbol_ok :: "Symbol \<Rightarrow> bool" where
  "symbol_ok s \<longleftrightarrow> length s = kSymbolLen"

text \<open>\<open>make_symbol\<close>: a zero-initialised array, filled while both lengths allow.\<close>

function make_symbol_loop :: "nat \<Rightarrow> string \<Rightarrow> Symbol \<Rightarrow> Symbol" where
  "make_symbol_loop i s arr =
     (if i < length arr \<and> i < length s then make_symbol_loop (i + 1) s (arr[i := s ! i]) else arr)"
  by pat_completeness auto
termination
  by (relation "measure (\<lambda>(i, s, arr). length s - i)") auto

declare make_symbol_loop.simps [simp del]

definition make_symbol :: "string \<Rightarrow> Symbol" where
  "make_symbol s = make_symbol_loop 0 s (replicate kSymbolLen (CHR 0x00))"

text \<open>FNV-1a over the raw bytes of the symbol, on 64-bit unsigned arithmetic.\<close>

definition hash_symbol :: "Symbol \<Rightarrow> u64" where
  "hash_symbol symbol =
     foldl (\<lambda>hash c. (hash XOR of_char c) * 1099511628211) 1469598103934665603 symbol"

definition kHeaderSize :: nat where "kHeaderSize = 3"

record AddOrder =
  add_seq_num :: SeqNum
  add_order_id :: OrderId
  add_symbol :: Symbol
  add_side :: Side
  add_price :: Price
  add_quantity :: Quantity
  add_timestamp :: Timestamp

definition AddOrder_kPayloadSize :: nat where
  "AddOrder_kPayloadSize = 8 + 8 + kSymbolLen + 1 + 8 + 4 + 8"
definition AddOrder_kWireSize :: nat where
  "AddOrder_kWireSize = kHeaderSize + AddOrder_kPayloadSize"

record CancelOrder =
  cxl_seq_num :: SeqNum
  cxl_order_id :: OrderId
  cxl_timestamp :: Timestamp

definition CancelOrder_kPayloadSize :: nat where
  "CancelOrder_kPayloadSize = 8 + 8 + 8"
definition CancelOrder_kWireSize :: nat where
  "CancelOrder_kWireSize = kHeaderSize + CancelOrder_kPayloadSize"

record ExecuteOrder =
  exe_seq_num :: SeqNum
  exe_order_id :: OrderId
  exe_executed_quantity :: Quantity
  exe_timestamp :: Timestamp

definition ExecuteOrder_kPayloadSize :: nat where
  "ExecuteOrder_kPayloadSize = 8 + 8 + 4 + 8"
definition ExecuteOrder_kWireSize :: nat where
  "ExecuteOrder_kWireSize = kHeaderSize + ExecuteOrder_kPayloadSize"

record ReplaceOrder =
  rep_seq_num :: SeqNum
  rep_old_order_id :: OrderId
  rep_new_order_id :: OrderId
  rep_price :: Price
  rep_quantity :: Quantity
  rep_timestamp :: Timestamp

definition ReplaceOrder_kPayloadSize :: nat where
  "ReplaceOrder_kPayloadSize = 8 + 8 + 8 + 8 + 4 + 8"
definition ReplaceOrder_kWireSize :: nat where
  "ReplaceOrder_kWireSize = kHeaderSize + ReplaceOrder_kPayloadSize"

text \<open>\<open>std::variant<AddOrder, CancelOrder, ExecuteOrder, ReplaceOrder>\<close>.\<close>

datatype DecodedMessage =
    AddMsg AddOrder
  | CancelMsg CancelOrder
  | ExecuteMsg ExecuteOrder
  | ReplaceMsg ReplaceOrder

text \<open>The fields that every alternative carries, read by \<open>std::visit\<close>.\<close>

fun msg_seq_num :: "DecodedMessage \<Rightarrow> SeqNum" where
  "msg_seq_num (AddMsg m) = add_seq_num m"
| "msg_seq_num (CancelMsg m) = cxl_seq_num m"
| "msg_seq_num (ExecuteMsg m) = exe_seq_num m"
| "msg_seq_num (ReplaceMsg m) = rep_seq_num m"

fun msg_timestamp :: "DecodedMessage \<Rightarrow> Timestamp" where
  "msg_timestamp (AddMsg m) = add_timestamp m"
| "msg_timestamp (CancelMsg m) = cxl_timestamp m"
| "msg_timestamp (ExecuteMsg m) = exe_timestamp m"
| "msg_timestamp (ReplaceMsg m) = rep_timestamp m"

fun wire_size :: "DecodedMessage \<Rightarrow> nat" where
  "wire_size (AddMsg _) = AddOrder_kWireSize"
| "wire_size (CancelMsg _) = CancelOrder_kWireSize"
| "wire_size (ExecuteMsg _) = ExecuteOrder_kWireSize"
| "wire_size (ReplaceMsg _) = ReplaceOrder_kWireSize"

fun msg_ok :: "DecodedMessage \<Rightarrow> bool" where
  "msg_ok (AddMsg m) = symbol_ok (add_symbol m)"
| "msg_ok _ = True"

lemmas kWireSize_defs =
  kHeaderSize_def kSymbolLen_def
  AddOrder_kPayloadSize_def AddOrder_kWireSize_def
  CancelOrder_kPayloadSize_def CancelOrder_kWireSize_def
  ExecuteOrder_kPayloadSize_def ExecuteOrder_kWireSize_def
  ReplaceOrder_kPayloadSize_def ReplaceOrder_kWireSize_def

lemmas MT_defs = MT_AddOrder_def MT_CancelOrder_def MT_ExecuteOrder_def MT_ReplaceOrder_def

subsection \<open>Symbols\<close>

lemma make_symbol_loop_eq:
  "i \<le> length arr \<Longrightarrow> i \<le> length s \<Longrightarrow>
   make_symbol_loop i s arr =
     take i arr @ take (length arr - i) (drop i s) @ drop (length s) arr"
proof (induction i s arr rule: make_symbol_loop.induct)
  case (1 i s arr)
  show ?case
  proof (cases "i < length arr \<and> i < length s")
    case True
    then have "make_symbol_loop i s arr = make_symbol_loop (i + 1) s (arr[i := s ! i])"
      by (simp add: make_symbol_loop.simps [of i])
    also have "\<dots> = take (i + 1) (arr[i := s ! i]) @ take (length arr - (i + 1)) (drop (i + 1) s)
        @ drop (length s) (arr[i := s ! i])"
      using "1.IH" True by simp
    also have "take (i + 1) (arr[i := s ! i]) = take i arr @ [s ! i]"
      using True by (simp add: take_Suc_conv_app_nth)
    also have "drop (length s) (arr[i := s ! i]) = drop (length s) arr"
      using True by simp
    finally show ?thesis
      using True by (simp add: Cons_nth_drop_Suc [symmetric] take_Cons' Suc_diff_Suc)
  next
    case False
    with "1.prems" have "i = length arr \<or> i = length s" by auto
    with False "1.prems" show ?thesis by (auto simp: make_symbol_loop.simps [of i])
  qed
qed

lemma make_symbol_eq:
  "make_symbol s = take kSymbolLen s @ replicate (kSymbolLen - length s) (CHR 0x00)"
  by (simp add: make_symbol_def make_symbol_loop_eq)

lemma make_symbol_ok [simp]: "symbol_ok (make_symbol s)"
  by (auto simp: symbol_ok_def make_symbol_eq)

end
