(* ===== verification/Codec.thy ===== *)
theory Codec
  imports Message_Types Byte_Order
begin

text \<open>
  The hand-written wire codec, \<open>protocol/encoder.cpp\<close> and \<open>protocol/decoder.cpp\<close>.  The four
  \<open>encode\<close> overloads write through a moving pointer \<open>p\<close> into the caller's buffer, which is
  returned; \<open>decode\<close> validates the header in the order of the source and then reads the payload.
  The outer \<open>option\<close> is undefined behaviour: a read or write outside the span, or
  \<open>std::unreachable()\<close>.  \<open>wire m\<close> is the specification: the exact bytes of a message.  The
  theorems: encoding stores exactly \<open>wire m\<close> and touches nothing else, decoding is total on
  arbitrary bytes and never leaves the span, its three errors are characterised, and both
  round trips hold.
\<close>

datatype EncodeError = BufferTooSmall

datatype DecodeError = TruncatedMessage | InvalidMessageType | LengthMismatch

subsection \<open>Encoder\<close>

definition put_header :: "byte list \<Rightarrow> nat \<Rightarrow> MessageType \<Rightarrow> u16 \<Rightarrow> (byte list \<times> nat) option" where
  "put_header m p type len = do {
     m \<leftarrow> put_u8 m p type;
     m \<leftarrow> put_u16 m (p + 1) len;
     Some (m, p + kHeaderSize) }"

text \<open>\<open>for (char c : msg.symbol) { put_u8(p, c); p += 1; }\<close>\<close>

fun put_symbol :: "byte list \<Rightarrow> nat \<Rightarrow> Symbol \<Rightarrow> (byte list \<times> nat) option" where
  "put_symbol m p [] = Some (m, p)"
| "put_symbol m p (c # cs) = do { m \<leftarrow> put_u8 m p (of_char c); put_symbol m (p + 1) cs }"

definition encode_AddOrder ::
    "AddOrder \<Rightarrow> byte list \<Rightarrow> ((EncodeError + nat) \<times> byte list) option" where
  "encode_AddOrder msg out =
     (if length out < AddOrder_kWireSize then Some (Inl BufferTooSmall, out)
      else do {
        (m, p) \<leftarrow> put_header out 0 MT_AddOrder (of_nat AddOrder_kWireSize);
        m \<leftarrow> put_u64 m p (add_seq_num msg);
        let p = p + 8;
        m \<leftarrow> put_u64 m p (add_order_id msg);
        let p = p + 8;
        (m, p) \<leftarrow> put_symbol m p (add_symbol msg);
        m \<leftarrow> put_u8 m p (add_side msg);
        let p = p + 1;
        m \<leftarrow> put_i64 m p (add_price msg);
        let p = p + 8;
        m \<leftarrow> put_u32 m p (add_quantity msg);
        let p = p + 4;
        m \<leftarrow> put_u64 m p (add_timestamp msg);
        Some (Inr AddOrder_kWireSize, m) })"

definition encode_CancelOrder ::
    "CancelOrder \<Rightarrow> byte list \<Rightarrow> ((EncodeError + nat) \<times> byte list) option" where
  "encode_CancelOrder msg out =
     (if length out < CancelOrder_kWireSize then Some (Inl BufferTooSmall, out)
      else do {
        (m, p) \<leftarrow> put_header out 0 MT_CancelOrder (of_nat CancelOrder_kWireSize);
        m \<leftarrow> put_u64 m p (cxl_seq_num msg);
        let p = p + 8;
        m \<leftarrow> put_u64 m p (cxl_order_id msg);
        let p = p + 8;
        m \<leftarrow> put_u64 m p (cxl_timestamp msg);
        Some (Inr CancelOrder_kWireSize, m) })"

definition encode_ExecuteOrder ::
    "ExecuteOrder \<Rightarrow> byte list \<Rightarrow> ((EncodeError + nat) \<times> byte list) option" where
  "encode_ExecuteOrder msg out =
     (if length out < ExecuteOrder_kWireSize then Some (Inl BufferTooSmall, out)
      else do {
        (m, p) \<leftarrow> put_header out 0 MT_ExecuteOrder (of_nat ExecuteOrder_kWireSize);
        m \<leftarrow> put_u64 m p (exe_seq_num msg);
        let p = p + 8;
        m \<leftarrow> put_u64 m p (exe_order_id msg);
        let p = p + 8;
        m \<leftarrow> put_u32 m p (exe_executed_quantity msg);
        let p = p + 4;
        m \<leftarrow> put_u64 m p (exe_timestamp msg);
        Some (Inr ExecuteOrder_kWireSize, m) })"

definition encode_ReplaceOrder ::
    "ReplaceOrder \<Rightarrow> byte list \<Rightarrow> ((EncodeError + nat) \<times> byte list) option" where
  "encode_ReplaceOrder msg out =
     (if length out < ReplaceOrder_kWireSize then Some (Inl BufferTooSmall, out)
      else do {
        (m, p) \<leftarrow> put_header out 0 MT_ReplaceOrder (of_nat ReplaceOrder_kWireSize);
        m \<leftarrow> put_u64 m p (rep_seq_num msg);
        let p = p + 8;
        m \<leftarrow> put_u64 m p (rep_old_order_id msg);
        let p = p + 8;
        m \<leftarrow> put_u64 m p (rep_new_order_id msg);
        let p = p + 8;
        m \<leftarrow> put_i64 m p (rep_price msg);
        let p = p + 8;
        m \<leftarrow> put_u32 m p (rep_quantity msg);
        let p = p + 4;
        m \<leftarrow> put_u64 m p (rep_timestamp msg);
        Some (Inr ReplaceOrder_kWireSize, m) })"

text \<open>Overload resolution of \<open>encode\<close> on the message's type.\<close>

fun encode :: "DecodedMessage \<Rightarrow> byte list \<Rightarrow> ((EncodeError + nat) \<times> byte list) option" where
  "encode (AddMsg m) out = encode_AddOrder m out"
| "encode (CancelMsg m) out = encode_CancelOrder m out"
| "encode (ExecuteMsg m) out = encode_ExecuteOrder m out"
| "encode (ReplaceMsg m) out = encode_ReplaceOrder m out"

subsection \<open>Decoder\<close>

definition wire_size_for :: "u8 \<Rightarrow> DecodeError + nat" where
  "wire_size_for raw_type =
     (if raw_type = MT_AddOrder then Inr AddOrder_kWireSize
      else if raw_type = MT_CancelOrder then Inr CancelOrder_kWireSize
      else if raw_type = MT_ExecuteOrder then Inr ExecuteOrder_kWireSize
      else if raw_type = MT_ReplaceOrder then Inr ReplaceOrder_kWireSize
      else Inl InvalidMessageType)"

text \<open>\<open>for (char& c : msg.symbol) { c = get_u8(p); p += 1; }\<close>, over \<open>n\<close> characters.\<close>

fun get_symbol :: "nat \<Rightarrow> byte list \<Rightarrow> nat \<Rightarrow> Symbol option" where
  "get_symbol 0 m p = Some []"
| "get_symbol (Suc n) m p = do {
     b \<leftarrow> get_u8 m p;
     cs \<leftarrow> get_symbol n m (p + 1);
     Some (char_of (unat b) # cs) }"

definition decode_add_order :: "byte list \<Rightarrow> nat \<Rightarrow> AddOrder option" where
  "decode_add_order m p = do {
     seq_num \<leftarrow> get_u64 m p;
     let p = p + 8;
     order_id \<leftarrow> get_u64 m p;
     let p = p + 8;
     symbol \<leftarrow> get_symbol kSymbolLen m p;
     let p = p + kSymbolLen;
     side \<leftarrow> get_u8 m p;
     let p = p + 1;
     price \<leftarrow> get_i64 m p;
     let p = p + 8;
     quantity \<leftarrow> get_u32 m p;
     let p = p + 4;
     timestamp \<leftarrow> get_u64 m p;
     Some \<lparr>add_seq_num = seq_num, add_order_id = order_id, add_symbol = symbol, add_side = side,
           add_price = price, add_quantity = quantity, add_timestamp = timestamp\<rparr> }"

definition decode_cancel_order :: "byte list \<Rightarrow> nat \<Rightarrow> CancelOrder option" where
  "decode_cancel_order m p = do {
     seq_num \<leftarrow> get_u64 m p;
     let p = p + 8;
     order_id \<leftarrow> get_u64 m p;
     let p = p + 8;
     timestamp \<leftarrow> get_u64 m p;
     Some \<lparr>cxl_seq_num = seq_num, cxl_order_id = order_id, cxl_timestamp = timestamp\<rparr> }"

definition decode_execute_order :: "byte list \<Rightarrow> nat \<Rightarrow> ExecuteOrder option" where
  "decode_execute_order m p = do {
     seq_num \<leftarrow> get_u64 m p;
     let p = p + 8;
     order_id \<leftarrow> get_u64 m p;
     let p = p + 8;
     executed_quantity \<leftarrow> get_u32 m p;
     let p = p + 4;
     timestamp \<leftarrow> get_u64 m p;
     Some \<lparr>exe_seq_num = seq_num, exe_order_id = order_id,
           exe_executed_quantity = executed_quantity, exe_timestamp = timestamp\<rparr> }"

definition decode_replace_order :: "byte list \<Rightarrow> nat \<Rightarrow> ReplaceOrder option" where
  "decode_replace_order m p = do {
     seq_num \<leftarrow> get_u64 m p;
     let p = p + 8;
     old_order_id \<leftarrow> get_u64 m p;
     let p = p + 8;
     new_order_id \<leftarrow> get_u64 m p;
     let p = p + 8;
     price \<leftarrow> get_i64 m p;
     let p = p + 8;
     quantity \<leftarrow> get_u32 m p;
     let p = p + 4;
     timestamp \<leftarrow> get_u64 m p;
     Some \<lparr>rep_seq_num = seq_num, rep_old_order_id = old_order_id, rep_new_order_id = new_order_id,
           rep_price = price, rep_quantity = quantity, rep_timestamp = timestamp\<rparr> }"

definition decode :: "byte list \<Rightarrow> (DecodeError + DecodedMessage) option" where
  "decode bs =
     (if length bs < kHeaderSize then Some (Inl TruncatedMessage)
      else do {
        raw_type \<leftarrow> get_u8 bs 0;
        len \<leftarrow> get_u16 bs 1;
        (case wire_size_for raw_type of
           Inl e \<Rightarrow> Some (Inl e)
         | Inr expected_size \<Rightarrow>
             if unat len \<noteq> expected_size then Some (Inl LengthMismatch)
             else if length bs < unat len then Some (Inl TruncatedMessage)
             else if raw_type = MT_AddOrder
               then map_option (Inr \<circ> AddMsg) (decode_add_order bs kHeaderSize)
             else if raw_type = MT_CancelOrder
               then map_option (Inr \<circ> CancelMsg) (decode_cancel_order bs kHeaderSize)
             else if raw_type = MT_ExecuteOrder
               then map_option (Inr \<circ> ExecuteMsg) (decode_execute_order bs kHeaderSize)
             else if raw_type = MT_ReplaceOrder
               then map_option (Inr \<circ> ReplaceMsg) (decode_replace_order bs kHeaderSize)
             else None) })"

subsection \<open>Specification: the bytes of a message\<close>

fun wire_type :: "DecodedMessage \<Rightarrow> MessageType" where
  "wire_type (AddMsg _) = MT_AddOrder"
| "wire_type (CancelMsg _) = MT_CancelOrder"
| "wire_type (ExecuteMsg _) = MT_ExecuteOrder"
| "wire_type (ReplaceMsg _) = MT_ReplaceOrder"

fun payload :: "DecodedMessage \<Rightarrow> byte list" where
  "payload (AddMsg m) =
     le_bytes 8 (add_seq_num m) @ le_bytes 8 (add_order_id m) @ map of_char (add_symbol m) @
     [add_side m] @ le_bytes 8 (bits64 (add_price m)) @ le_bytes 4 (add_quantity m) @
     le_bytes 8 (add_timestamp m)"
| "payload (CancelMsg m) =
     le_bytes 8 (cxl_seq_num m) @ le_bytes 8 (cxl_order_id m) @ le_bytes 8 (cxl_timestamp m)"
| "payload (ExecuteMsg m) =
     le_bytes 8 (exe_seq_num m) @ le_bytes 8 (exe_order_id m) @
     le_bytes 4 (exe_executed_quantity m) @ le_bytes 8 (exe_timestamp m)"
| "payload (ReplaceMsg m) =
     le_bytes 8 (rep_seq_num m) @ le_bytes 8 (rep_old_order_id m) @
     le_bytes 8 (rep_new_order_id m) @ le_bytes 8 (bits64 (rep_price m)) @
     le_bytes 4 (rep_quantity m) @ le_bytes 8 (rep_timestamp m)"

definition wire :: "DecodedMessage \<Rightarrow> byte list" where
  "wire m = [wire_type m] @ le_bytes 2 (of_nat (wire_size m) :: u16) @ payload m"

lemma length_wire: "msg_ok m \<Longrightarrow> length (wire m) = wire_size m"
  by (cases m) (auto simp: wire_def kWireSize_defs symbol_ok_def)

subsection \<open>Characters as bytes\<close>

lemma of_char_lt_256: "(of_char c :: nat) < 256"
  using of_char_mod_256 [of c, where 'a = nat] by (metis mod_less_divisor zero_less_numeral)

lemma unat_of_char [simp]: "unat (of_char c :: byte) = of_char c"
proof -
  have "(of_char c :: byte) = of_nat (of_char c)" by (simp add: of_nat_of_char)
  then show ?thesis using of_char_lt_256 [of c] by (simp add: unat_of_nat)
qed

lemma of_char_char_of_unat [simp]: "of_char (char_of (unat (b :: byte))) = b"
proof -
  have "of_char (char_of (unat b)) = (of_nat (of_char (char_of (unat b))) :: byte)"
    by (simp only: of_nat_of_char)
  also have "\<dots> = of_nat (unat b)"
    using unsigned_less [of b, where 'a = nat] by (simp only: of_char_of) simp
  finally show ?thesis by simp
qed

subsection \<open>Encoding stores exactly the bytes of the message\<close>

lemma put_symbol_eq:
  "s \<noteq> [] \<Longrightarrow> put_symbol m p s =
     map_option (\<lambda>m'. (m', p + length s)) (store_at m p (map of_char s))"
proof (induction s arbitrary: m p)
  case Nil
  then show ?case by simp
next
  case (Cons c cs)
  show ?case
  proof (cases "cs = []")
    case True
    then show ?thesis
      by (cases "store_at m p [of_char c]") (simp_all add: put_u8_eq)
  next
    case False
    then show ?thesis
      using Cons.IH
      by (cases "store_at m p [of_char c]")
         (simp_all add: put_u8_eq store_at_Cons [of m p _ "map _ _"])
  qed
qed

lemmas encode_defs =
  encode_AddOrder_def encode_CancelOrder_def encode_ExecuteOrder_def encode_ReplaceOrder_def

lemma map_option_bind: "map_option f (Option.bind x g) = Option.bind x (\<lambda>y. map_option f (g y))"
  by (cases x) auto

lemma bind_map_option: "Option.bind (map_option f x) g = Option.bind x (\<lambda>y. g (f y))"
  by (cases x) auto

lemma bind_Some_map: "Option.bind x (\<lambda>y. Some (f y)) = map_option f x"
  by (cases x) auto

lemmas encode_rules =
  put_header_def put_u8_eq put_symbol_eq codec_simps wire_def store_at_append
  store_at_Cons [of _ _ _ "_ @ _"] map_option_bind bind_map_option bind_Some_map
  kHeaderSize_def not_less numeral_3_eq_3 [symmetric]

lemma encode_store_at:
  assumes "msg_ok m" and "wire_size m \<le> length out"
  shows "encode m out = map_option (Pair (Inr (wire_size m))) (store_at out 0 (wire m))"
proof (cases m)
  case (AddMsg a)
  then have "add_symbol a \<noteq> []" and "length (add_symbol a) = 8"
    using assms(1) by (auto simp: symbol_ok_def kSymbolLen_def)
  then show ?thesis
    using assms(2) AddMsg by (simp add: encode_defs encode_rules)
qed (use assms(2) in \<open>simp_all add: encode_defs encode_rules\<close>)

lemma encode_eq:
  assumes "msg_ok m"
  shows "encode m out =
    Some (if length out < wire_size m then (Inl BufferTooSmall, out)
          else (Inr (wire_size m), wire m @ drop (wire_size m) out))"
proof (cases "length out < wire_size m")
  case True
  then show ?thesis by (cases m) (simp_all add: encode_defs)
next
  case False
  then show ?thesis
    using assms by (simp add: encode_store_at store_at_def length_wire)
qed

subsection \<open>Decoding\<close>

lemma get_symbol_eq:
  "p + n \<le> length m \<Longrightarrow> get_symbol n m p = Some (map (char_of \<circ> unat) (take n (drop p m)))"
proof (induction n arbitrary: p)
  case 0
  then show ?case by simp
next
  case (Suc n)
  then show ?case
    using Suc.IH [of "Suc p"] by (simp add: get_u8_def Cons_nth_drop_Suc [symmetric])
qed

lemmas decode_rules =
  decode_add_order_def decode_cancel_order_def decode_execute_order_def decode_replace_order_def
  codec_simps window_def get_u8_def get_symbol_eq kWireSize_defs MT_defs

lemma decode_wire:
  assumes "msg_ok m"
  shows "decode (wire m @ rest) = Some (Inr m)"
proof (cases m)
  case (AddMsg a)
  then have "length (add_symbol a) = 8"
    using assms(1) by (auto simp: symbol_ok_def kSymbolLen_def)
  then show ?thesis
    using AddMsg
    by (simp add: decode_def decode_rules wire_def wire_size_for_def comp_def nth_append)
qed (simp_all add: decode_def decode_rules wire_def wire_size_for_def)

text \<open>Reading a field and writing it back reproduces the bytes of its window.\<close>

lemma le_bytes_take_drop:
  "q + n \<le> length bs \<Longrightarrow> 8 * n \<le> LENGTH('a) \<Longrightarrow>
   le_bytes n (from_le (take n (drop q bs)) :: 'a::len word) = take n (drop q bs)"
  using le_bytes_from_le [of "take n (drop q bs)", where 'a = 'a] by simp

text \<open>A prefix of a list is the concatenation of its fields.\<close>

fun cuts :: "nat list \<Rightarrow> 'a list \<Rightarrow> 'a list list" where
  "cuts [] xs = []"
| "cuts (n # ns) xs = take n xs # cuts ns (drop n xs)"

lemma take_sum_list_cuts: "take (sum_list ns) xs = concat (cuts ns xs)"
  by (induction ns arbitrary: xs) (simp_all add: take_add)

lemma take_1_drop: "q < length xs \<Longrightarrow> take (Suc 0) (drop q xs) = [xs ! q]"
  by (simp flip: Cons_nth_drop_Suc)

lemmas redecode_rules = decode_rules symbol_ok_def le_bytes_take_drop take_1_drop comp_def

lemma payload_decode_add_order:
  assumes "AddOrder_kWireSize \<le> length bs"
  shows "\<exists>a. decode_add_order bs kHeaderSize = Some a \<and> symbol_ok (add_symbol a) \<and>
    payload (AddMsg a) = take AddOrder_kPayloadSize (drop kHeaderSize bs)"
  using assms take_sum_list_cuts [of "[8, 8, 8, 1, 8, 4, 8]" "drop 3 bs"]
  by (simp add: redecode_rules)

lemma payload_decode_cancel_order:
  assumes "CancelOrder_kWireSize \<le> length bs"
  shows "\<exists>a. decode_cancel_order bs kHeaderSize = Some a \<and>
    payload (CancelMsg a) = take CancelOrder_kPayloadSize (drop kHeaderSize bs)"
  using assms take_sum_list_cuts [of "[8, 8, 8]" "drop 3 bs"]
  by (simp add: redecode_rules)

lemma payload_decode_execute_order:
  assumes "ExecuteOrder_kWireSize \<le> length bs"
  shows "\<exists>a. decode_execute_order bs kHeaderSize = Some a \<and>
    payload (ExecuteMsg a) = take ExecuteOrder_kPayloadSize (drop kHeaderSize bs)"
  using assms take_sum_list_cuts [of "[8, 8, 4, 8]" "drop 3 bs"]
  by (simp add: redecode_rules)

lemma payload_decode_replace_order:
  assumes "ReplaceOrder_kWireSize \<le> length bs"
  shows "\<exists>a. decode_replace_order bs kHeaderSize = Some a \<and>
    payload (ReplaceMsg a) = take ReplaceOrder_kPayloadSize (drop kHeaderSize bs)"
  using assms take_sum_list_cuts [of "[8, 8, 8, 8, 4, 8]" "drop 3 bs"]
  by (simp add: redecode_rules)

definition declared_length :: "byte list \<Rightarrow> nat" where
  "declared_length bs = unat (from_le (take 2 (drop 1 bs)) :: u16)"

lemma decode_header:
  assumes "kHeaderSize \<le> length bs"
  shows "decode bs =
    (case wire_size_for (bs ! 0) of
       Inl e \<Rightarrow> Some (Inl e)
     | Inr n \<Rightarrow>
         if declared_length bs \<noteq> n then Some (Inl LengthMismatch)
         else if length bs < n then Some (Inl TruncatedMessage)
         else if bs ! 0 = MT_AddOrder
           then map_option (Inr \<circ> AddMsg) (decode_add_order bs kHeaderSize)
         else if bs ! 0 = MT_CancelOrder
           then map_option (Inr \<circ> CancelMsg) (decode_cancel_order bs kHeaderSize)
         else if bs ! 0 = MT_ExecuteOrder
           then map_option (Inr \<circ> ExecuteMsg) (decode_execute_order bs kHeaderSize)
         else if bs ! 0 = MT_ReplaceOrder
           then map_option (Inr \<circ> ReplaceMsg) (decode_replace_order bs kHeaderSize)
         else None)"
proof -
  have "get_u8 bs 0 = Some (bs ! 0)"
    using assms by (auto simp: get_u8_def kHeaderSize_def)
  moreover have "get_u16 bs 1 = Some (from_le (take 2 (drop 1 bs)))"
    using assms by (simp add: get_u16_eq window_def kHeaderSize_def)
  ultimately show ?thesis
    using assms unfolding decode_def declared_length_def
    by (cases "wire_size_for (bs ! 0)"; cases "declared_length bs = projr (wire_size_for (bs ! 0))")
       (simp_all add: declared_length_def split del: if_split)
qed

text \<open>A header that passes every check, rebuilt from the type byte and the declared length.\<close>

lemma header_bytes:
  assumes "kHeaderSize \<le> length bs" and "declared_length bs = n"
  shows "take kHeaderSize bs = [bs ! 0] @ le_bytes 2 (of_nat n :: u16)"
proof -
  have "le_bytes 2 (of_nat n :: u16) = take 2 (drop 1 bs)"
    using assms le_bytes_take_drop [of 1 2 bs, where 'a = 16]
    by (simp add: declared_length_def kHeaderSize_def flip: assms(2))
  moreover have "take kHeaderSize bs = take 1 bs @ take 2 (drop 1 bs)"
    using take_add [of 1 2 bs] by (simp add: kHeaderSize_def numeral_3_eq_3)
  moreover have "take 1 bs = [bs ! 0]"
    using assms(1) by (cases bs) (simp_all add: kHeaderSize_def)
  ultimately show ?thesis by simp
qed

lemma wire_from_parts:
  assumes "kHeaderSize \<le> length bs" and "declared_length bs = wire_size m"
    and "bs ! 0 = wire_type m" and "wire_size m \<le> length bs"
    and "payload m = take (wire_size m - kHeaderSize) (drop kHeaderSize bs)"
  shows "bs = wire m @ drop (wire_size m) bs"
proof -
  have "kHeaderSize \<le> wire_size m"
    by (cases m) (simp_all add: kWireSize_defs)
  then have "wire m = take (wire_size m) bs"
    using header_bytes [OF assms(1,2)] assms(3,5) take_add [of kHeaderSize "wire_size m - kHeaderSize" bs]
    by (simp add: wire_def)
  then show ?thesis by simp
qed

lemma decode_valid:
  assumes "kHeaderSize \<le> length bs" and "wire_size_for (bs ! 0) = Inr n"
    and "declared_length bs = n" and "n \<le> length bs"
  shows "\<exists>m. decode bs = Some (Inr m) \<and> msg_ok m \<and> bs = wire m @ drop (wire_size m) bs"
proof -
  consider (add) "bs ! 0 = MT_AddOrder" "n = AddOrder_kWireSize"
    | (cancel) "bs ! 0 = MT_CancelOrder" "n = CancelOrder_kWireSize"
    | (execute) "bs ! 0 = MT_ExecuteOrder" "n = ExecuteOrder_kWireSize"
    | (replace) "bs ! 0 = MT_ReplaceOrder" "n = ReplaceOrder_kWireSize"
    using assms(2) by (auto simp: wire_size_for_def split: if_splits)
  then show ?thesis
  proof cases
    case add
    then obtain a where "decode_add_order bs kHeaderSize = Some a" "symbol_ok (add_symbol a)"
        "payload (AddMsg a) = take AddOrder_kPayloadSize (drop kHeaderSize bs)"
      using payload_decode_add_order assms(4) by blast
    with add assms show ?thesis
      using wire_from_parts [of bs "AddMsg a"]
      by (simp add: decode_header AddOrder_kWireSize_def)
  next
    case cancel
    then obtain a where "decode_cancel_order bs kHeaderSize = Some a"
        "payload (CancelMsg a) = take CancelOrder_kPayloadSize (drop kHeaderSize bs)"
      using payload_decode_cancel_order assms(4) by blast
    with cancel assms show ?thesis
      using wire_from_parts [of bs "CancelMsg a"]
      by (simp add: decode_header CancelOrder_kWireSize_def MT_defs)
  next
    case execute
    then obtain a where "decode_execute_order bs kHeaderSize = Some a"
        "payload (ExecuteMsg a) = take ExecuteOrder_kPayloadSize (drop kHeaderSize bs)"
      using payload_decode_execute_order assms(4) by blast
    with execute assms show ?thesis
      using wire_from_parts [of bs "ExecuteMsg a"]
      by (simp add: decode_header ExecuteOrder_kWireSize_def MT_defs)
  next
    case replace
    then obtain a where "decode_replace_order bs kHeaderSize = Some a"
        "payload (ReplaceMsg a) = take ReplaceOrder_kPayloadSize (drop kHeaderSize bs)"
      using payload_decode_replace_order assms(4) by blast
    with replace assms show ?thesis
      using wire_from_parts [of bs "ReplaceMsg a"]
      by (simp add: decode_header ReplaceOrder_kWireSize_def MT_defs)
  qed
qed

text \<open>Every byte string is either rejected by one of the header checks or decodes.\<close>

lemma decode_cases:
  obtains (short) "length bs < kHeaderSize" "decode bs = Some (Inl TruncatedMessage)"
  | (bad_type) "kHeaderSize \<le> length bs" "wire_size_for (bs ! 0) = Inl InvalidMessageType"
      "decode bs = Some (Inl InvalidMessageType)"
  | (bad_length) n where "kHeaderSize \<le> length bs" "wire_size_for (bs ! 0) = Inr n"
      "declared_length bs \<noteq> n" "decode bs = Some (Inl LengthMismatch)"
  | (truncated) n where "kHeaderSize \<le> length bs" "wire_size_for (bs ! 0) = Inr n"
      "declared_length bs = n" "length bs < n" "decode bs = Some (Inl TruncatedMessage)"
  | (valid) n m where "kHeaderSize \<le> length bs" "wire_size_for (bs ! 0) = Inr n"
      "declared_length bs = n" "n \<le> length bs" "decode bs = Some (Inr m)" "msg_ok m"
      "bs = wire m @ drop (wire_size m) bs"
proof (cases "length bs < kHeaderSize")
  case True
  then show thesis by (intro short) (simp_all add: decode_def)
next
  case False
  then have len: "kHeaderSize \<le> length bs" by simp
  show thesis
  proof (cases "wire_size_for (bs ! 0)")
    case (Inl e)
    then have "e = InvalidMessageType" by (auto simp: wire_size_for_def split: if_splits)
    then show thesis using Inl len by (intro bad_type) (simp_all add: decode_header)
  next
    case (Inr n)
    consider "declared_length bs \<noteq> n" | "declared_length bs = n" "length bs < n"
      | "declared_length bs = n" "n \<le> length bs" by linarith
    then show thesis
    proof cases
      case 1
      then show thesis using Inr len by (intro bad_length) (simp_all add: decode_header)
    next
      case 2
      then show thesis using Inr len by (intro truncated) (simp_all add: decode_header)
    next
      case 3
      then show thesis using decode_valid [OF len Inr] valid [OF len Inr] by blast
    qed
  qed
qed

subsection \<open>Theorems\<close>

text \<open>
  C17. The decoder accepts exactly the encodings: \<open>decode\<close> returns the message \<open>m\<close> on a byte
  string if and only if \<open>m\<close> is a well-formed message and the byte string starts with the wire
  form of \<open>m\<close> (any bytes may follow).  This is both round trips at once: decoding what was
  encoded gives the message back, and re-encoding what was decoded gives the bytes back.
\<close>

theorem decode_iff_wire: "decode bs = Some (Inr m) \<longleftrightarrow> msg_ok m \<and> (\<exists>rest. bs = wire m @ rest)"
proof
  assume dec: "decode bs = Some (Inr m)"
  show "msg_ok m \<and> (\<exists>rest. bs = wire m @ rest)"
    by (rule decode_cases [of bs]) (use dec in auto)
qed (auto simp: decode_wire)

text \<open>
  C18. Each \<open>encode\<close> overload is total on any buffer: a buffer shorter than the message's wire
  size is refused with \<open>BufferTooSmall\<close> and left unchanged; otherwise the first
  \<open>kWireSize\<close> bytes become the wire form of the message, every byte behind them is untouched
  and the number of bytes written is returned.  No write leaves the buffer.
\<close>

theorem encode_spec:
  assumes "msg_ok m"
  shows "encode m out =
    Some (if length out < wire_size m then (Inl BufferTooSmall, out)
          else (Inr (wire_size m), wire m @ drop (wire_size m) out))"
  using assms by (rule encode_eq)

theorem encode_spec_witness:
  "msg_ok (CancelMsg \<lparr>cxl_seq_num = 1, cxl_order_id = 2, cxl_timestamp = 3\<rparr>) \<and>
   encode (CancelMsg \<lparr>cxl_seq_num = 1, cxl_order_id = 2, cxl_timestamp = 3\<rparr>) [7, 7] =
     Some (Inl BufferTooSmall, [7, 7])"
  using encode_spec [of "CancelMsg \<lparr>cxl_seq_num = 1, cxl_order_id = 2, cxl_timestamp = 3\<rparr>" "[7, 7]"]
  by (simp add: kWireSize_defs)

text \<open>
  Encoding into a buffer that is large enough and decoding that buffer gives the message
  back, whatever the buffer held before.
\<close>

theorem encode_decode_roundtrip:
  assumes "msg_ok m" and "wire_size m \<le> length out"
  shows "\<exists>out'. encode m out = Some (Inr (wire_size m), out') \<and> length out' = length out \<and>
    decode out' = Some (Inr m)"
  using assms by (simp add: encode_eq decode_wire length_wire not_less)

theorem encode_decode_roundtrip_witness:
  "\<exists>out'. encode (CancelMsg \<lparr>cxl_seq_num = 1, cxl_order_id = 2, cxl_timestamp = 3\<rparr>) (replicate 30 9)
      = Some (Inr 27, out') \<and> length out' = 30 \<and>
    decode out' = Some (Inr (CancelMsg \<lparr>cxl_seq_num = 1, cxl_order_id = 2, cxl_timestamp = 3\<rparr>))"
  using encode_decode_roundtrip
    [of "CancelMsg \<lparr>cxl_seq_num = 1, cxl_order_id = 2, cxl_timestamp = 3\<rparr>" "replicate 30 9"]
  by (simp add: kWireSize_defs)

text \<open>
  C19. Decoding never reads outside its input and never reaches the code marked unreachable, on
  any byte string whatsoever, and it reports exactly these errors: \<open>TruncatedMessage\<close> when the
  input is shorter than the header or than the (correct) declared length,
  \<open>InvalidMessageType\<close> when the type byte is none of the four, \<open>LengthMismatch\<close> when the
  declared length is not the fixed size of the type.
\<close>

theorem decode_total_and_errors:
  "\<exists>r. decode bs = Some r \<and>
    (r = Inl TruncatedMessage \<longleftrightarrow>
       length bs < kHeaderSize \<or>
       (\<exists>n. wire_size_for (bs ! 0) = Inr n \<and> declared_length bs = n \<and> length bs < n)) \<and>
    (r = Inl InvalidMessageType \<longleftrightarrow>
       kHeaderSize \<le> length bs \<and> bs ! 0 \<notin> {1, 2, 3, 4}) \<and>
    (r = Inl LengthMismatch \<longleftrightarrow>
       kHeaderSize \<le> length bs \<and>
       (\<exists>n. wire_size_for (bs ! 0) = Inr n \<and> declared_length bs \<noteq> n))"
proof -
  have bad: "wire_size_for (bs ! 0) = Inl InvalidMessageType \<longleftrightarrow> bs ! 0 \<notin> {1, 2, 3, 4}"
    by (auto simp: wire_size_for_def MT_defs)
  show ?thesis
    by (rule decode_cases [of bs]) (use bad in \<open>auto simp: not_less\<close>)
qed

end
