(* ===== verification/Gap_Detector.thy ===== *)
theory Gap_Detector
  imports Message_Types
begin

text \<open>
  The per-shard sequence gap detector, \<open>concurrency/gap_detector.hpp\<close>.  The detector's atomics
  are the fields of a record (a shard has one writer thread, so each call is one state
  transition); the line that \<open>log_gap\<close> writes to \<open>std::cerr\<close> is kept in \<open>gap_log\<close> as the triple
  of the numbers it prints.  Sequence numbers are 64-bit words, so \<open>last + 1\<close> wraps.

  The theorems: what one observation returns and stores, for every input; that a detector is
  \<open>Live\<close> after a run exactly when it saw no gap, and that the accepted sequence numbers are then
  consecutive; that only \<open>resync\<close> clears \<open>Stale\<close>; and that the gap lines account for every
  missing message.
\<close>

datatype BookState = Live | Stale

datatype SequenceObservation = InOrder | Gap | Duplicate

record gap_detector =
  has_last_seq_num :: bool
  gd_last_seq_num :: SeqNum
  gd_state :: BookState
  gd_gaps_total :: u64
  gap_log :: "(SeqNum \<times> SeqNum \<times> SeqNum) list"

definition gap_detector_init :: gap_detector where
  "gap_detector_init =
     \<lparr>has_last_seq_num = False, gd_last_seq_num = 0, gd_state = Live, gd_gaps_total = 0, gap_log = []\<rparr>"

definition log_gap :: "SeqNum \<Rightarrow> SeqNum \<Rightarrow> gap_detector \<Rightarrow> gap_detector" where
  "log_gap expected seq_num d = d\<lparr>gap_log := gap_log d @ [(expected, seq_num, seq_num - expected)]\<rparr>"

definition observe :: "SeqNum \<Rightarrow> gap_detector \<Rightarrow> SequenceObservation \<times> gap_detector" where
  "observe seq_num d =
     (if \<not> has_last_seq_num d then
        (InOrder, d\<lparr>gd_last_seq_num := seq_num, has_last_seq_num := True\<rparr>)
      else
        let expected = gd_last_seq_num d + 1 in
        if seq_num = expected then (InOrder, d\<lparr>gd_last_seq_num := seq_num\<rparr>)
        else if seq_num < expected then (Duplicate, d)
        else
          let d = d\<lparr>gd_gaps_total := gd_gaps_total d + 1\<rparr>;
              d = d\<lparr>gd_state := Stale\<rparr>;
              d = log_gap expected seq_num d
          in (Gap, d\<lparr>gd_last_seq_num := seq_num\<rparr>))"

definition resync :: "SeqNum \<Rightarrow> gap_detector \<Rightarrow> gap_detector" where
  "resync resync_seq_num d =
     d\<lparr>gd_last_seq_num := resync_seq_num, has_last_seq_num := True, gd_state := Live\<rparr>"

definition state :: "gap_detector \<Rightarrow> BookState" where
  "state d = gd_state d"

definition is_stale :: "gap_detector \<Rightarrow> bool" where
  "is_stale d \<longleftrightarrow> state d = Stale"

definition sequence_gaps_total :: "gap_detector \<Rightarrow> u64" where
  "sequence_gaps_total d = gd_gaps_total d"

definition last_seq_num :: "gap_detector \<Rightarrow> SeqNum option" where
  "last_seq_num d = (if \<not> has_last_seq_num d then None else Some (gd_last_seq_num d))"

text \<open>A shard's decoder thread observes the sequence numbers of its messages one after another.\<close>

fun observe_all :: "SeqNum list \<Rightarrow> gap_detector \<Rightarrow> SequenceObservation list \<times> gap_detector" where
  "observe_all [] d = ([], d)"
| "observe_all (s # ss) d =
     (let (ob, d) = observe s d; (obs, d) = observe_all ss d in (ob # obs, d))"

text \<open>The sequence numbers of a run that were not reported as duplicates.\<close>

definition accepted :: "SeqNum list \<Rightarrow> gap_detector \<Rightarrow> SeqNum list" where
  "accepted ss d = map fst (filter (\<lambda>(s, ob). ob \<noteq> Duplicate) (zip ss (fst (observe_all ss d))))"

fun consecutive :: "SeqNum list \<Rightarrow> bool" where
  "consecutive (a # b # xs) \<longleftrightarrow> b = a + 1 \<and> consecutive (b # xs)"
| "consecutive _ \<longleftrightarrow> True"

lemmas observer_defs = state_def is_stale_def sequence_gaps_total_def last_seq_num_def

subsection \<open>One observation\<close>

lemma observe_first:
  "\<not> has_last_seq_num d \<Longrightarrow>
   observe s d = (InOrder, d\<lparr>gd_last_seq_num := s, has_last_seq_num := True\<rparr>)"
  by (simp add: observe_def)

lemma observe_next:
  "has_last_seq_num d \<Longrightarrow> s = gd_last_seq_num d + 1 \<Longrightarrow>
   observe s d = (InOrder, d\<lparr>gd_last_seq_num := s\<rparr>)"
  by (simp add: observe_def)

lemma observe_old:
  "has_last_seq_num d \<Longrightarrow> s \<noteq> gd_last_seq_num d + 1 \<Longrightarrow> s < gd_last_seq_num d + 1 \<Longrightarrow>
   observe s d = (Duplicate, d)"
  by (simp add: observe_def)

lemma observe_gap:
  "has_last_seq_num d \<Longrightarrow> s \<noteq> gd_last_seq_num d + 1 \<Longrightarrow> \<not> s < gd_last_seq_num d + 1 \<Longrightarrow>
   observe s d = (Gap, d\<lparr>gd_last_seq_num := s, gd_state := Stale,
     gd_gaps_total := gd_gaps_total d + 1,
     gap_log := gap_log d @ [(gd_last_seq_num d + 1, s, s - (gd_last_seq_num d + 1))]\<rparr>)"
  by (simp add: observe_def log_gap_def Let_def)

lemma observe_cases:
  obtains (first) "\<not> has_last_seq_num d"
      "observe s d = (InOrder, d\<lparr>gd_last_seq_num := s, has_last_seq_num := True\<rparr>)"
  | (in_order) "has_last_seq_num d" "s = gd_last_seq_num d + 1"
      "observe s d = (InOrder, d\<lparr>gd_last_seq_num := s\<rparr>)"
  | (duplicate) "has_last_seq_num d" "s \<noteq> gd_last_seq_num d + 1" "s < gd_last_seq_num d + 1"
      "observe s d = (Duplicate, d)"
  | (gap) "has_last_seq_num d" "s \<noteq> gd_last_seq_num d + 1" "gd_last_seq_num d + 1 \<le> s"
      "observe s d = (Gap, d\<lparr>gd_last_seq_num := s, gd_state := Stale,
         gd_gaps_total := gd_gaps_total d + 1,
         gap_log := gap_log d @ [(gd_last_seq_num d + 1, s, s - (gd_last_seq_num d + 1))]\<rparr>)"
  using observe_first observe_next observe_old observe_gap
  by (metis not_less)

subsection \<open>Runs\<close>

text \<open>The last sequence number a detector tracks, as the start of the accepted sequence.\<close>

definition tracked :: "gap_detector \<Rightarrow> SeqNum list" where
  "tracked d = (if has_last_seq_num d then [gd_last_seq_num d] else [])"

definition missing_logged :: "gap_detector \<Rightarrow> nat" where
  "missing_logged d = (\<Sum>(e, s, n) \<leftarrow> gap_log d. unat n)"

lemma accepted_Nil [simp]: "accepted [] d = []"
  by (simp add: accepted_def)

lemma accepted_Cons:
  "accepted (s # ss) d =
     (if fst (observe s d) = Duplicate then [] else [s]) @ accepted ss (snd (observe s d))"
  by (simp add: accepted_def split: prod.splits)

lemma observe_all_Cons:
  "snd (observe_all (s # ss) d) = snd (observe_all ss (snd (observe s d)))"
  "fst (observe_all (s # ss) d) = fst (observe s d) # fst (observe_all ss (snd (observe s d)))"
  by (simp_all split: prod.splits)

lemma observe_all_append:
  "snd (observe_all (ss @ ts) d) = snd (observe_all ts (snd (observe_all ss d)))"
  by (induction ss arbitrary: d) (simp_all add: observe_all_Cons del: observe_all.simps(2))

lemma consecutive_Cons:
  "consecutive (a # xs) \<longleftrightarrow> (xs = [] \<or> hd xs = a + 1) \<and> consecutive xs"
  by (cases xs) auto

lemma observe_all_live_iff:
  "gd_state (snd (observe_all ss d)) = Live \<longleftrightarrow>
   gd_state d = Live \<and> consecutive (tracked d @ accepted ss d)"
proof (induction ss arbitrary: d)
  case Nil
  then show ?case by (simp add: tracked_def)
next
  case (Cons s ss)
  show ?case
  proof (cases rule: observe_cases [where d = d and s = s])
    case first
    then show ?thesis
      using Cons.IH [of "snd (observe s d)"]
      by (simp add: observe_all_Cons accepted_Cons tracked_def del: observe_all.simps)
  next
    case in_order
    then show ?thesis
      using Cons.IH [of "snd (observe s d)"]
      by (simp add: observe_all_Cons accepted_Cons tracked_def del: observe_all.simps)
  next
    case duplicate
    then show ?thesis
      using Cons.IH [of d]
      by (simp add: observe_all_Cons accepted_Cons tracked_def del: observe_all.simps)
  next
    case gap
    then show ?thesis
      using Cons.IH [of "snd (observe s d)"]
      by (simp add: observe_all_Cons accepted_Cons tracked_def del: observe_all.simps)
  qed
qed

lemma observe_all_gaps_total:
  "gd_gaps_total (snd (observe_all ss d)) =
   gd_gaps_total d + of_nat (count_list (fst (observe_all ss d)) Gap)"
proof (induction ss arbitrary: d)
  case (Cons s ss)
  show ?case
    by (cases rule: observe_cases [where d = d and s = s])
       (simp_all add: observe_all_Cons Cons.IH algebra_simps del: observe_all.simps)
qed simp

lemma observe_all_last:
  "tracked d @ accepted ss d \<noteq> [] \<Longrightarrow>
   last_seq_num (snd (observe_all ss d)) = Some (last (tracked d @ accepted ss d))"
proof (induction ss arbitrary: d)
  case Nil
  then show ?case by (simp add: tracked_def last_seq_num_def split: if_splits)
next
  case (Cons s ss)
  have "tracked (snd (observe s d)) \<noteq> []"
    by (cases rule: observe_cases [where d = d and s = s]) (simp_all add: tracked_def)
  then have "last_seq_num (snd (observe_all (s # ss) d)) =
      Some (last (tracked (snd (observe s d)) @ accepted ss (snd (observe s d))))"
    using Cons.IH by (simp add: observe_all_Cons del: observe_all.simps)
  moreover have "last (tracked (snd (observe s d)) @ accepted ss (snd (observe s d))) =
      last (tracked d @ accepted (s # ss) d)"
    by (cases rule: observe_cases [where d = d and s = s]) (simp_all add: accepted_Cons tracked_def)
  ultimately show ?case by simp
qed

lemma observe_accounts:
  assumes "has_last_seq_num d" and "gd_last_seq_num d \<noteq> -1"
  shows "unat (gd_last_seq_num (snd (observe s d))) + missing_logged d =
    unat (gd_last_seq_num d) + missing_logged (snd (observe s d)) +
    (if fst (observe s d) = Duplicate then 0 else 1)"
proof (cases rule: observe_cases [where d = d and s = s])
  case gap
  then have "unat (s - (gd_last_seq_num d + 1)) = unat s - Suc (unat (gd_last_seq_num d))"
    and "Suc (unat (gd_last_seq_num d)) \<le> unat s"
    using assms by (simp_all add: unat_sub unat_inc word_le_nat_alt)
  with gap show ?thesis by (simp add: missing_logged_def)
qed (use assms in \<open>simp_all add: missing_logged_def unat_inc\<close>)

lemma observe_all_accounts:
  assumes "has_last_seq_num d" and "gd_last_seq_num d \<noteq> -1" and "-1 \<notin> set ss"
  shows "unat (gd_last_seq_num (snd (observe_all ss d))) + missing_logged d =
    unat (gd_last_seq_num d) + missing_logged (snd (observe_all ss d)) + length (accepted ss d)"
  using assms
proof (induction ss arbitrary: d)
  case (Cons s ss)
  have "has_last_seq_num (snd (observe s d))"
    using Cons.prems(1) by (cases rule: observe_cases [where d = d and s = s]) simp_all
  moreover have "gd_last_seq_num (snd (observe s d)) \<in> {s, gd_last_seq_num d}"
    by (cases rule: observe_cases [where d = d and s = s]) simp_all
  ultimately show ?case
    using Cons.IH [of "snd (observe s d)"] Cons.prems observe_accounts [of d s]
    by (auto simp: observe_all_Cons accepted_Cons simp del: observe_all.simps)
qed simp

text \<open>What is accepted is in order or opens a gap, and every gap writes a line.\<close>

lemma accepted_counts:
  "length (accepted ss d) = count_list (fst (observe_all ss d)) InOrder + count_list (fst (observe_all ss d)) Gap"
proof (induction ss arbitrary: d)
  case (Cons s ss)
  show ?case
    by (cases "fst (observe s d)") (simp_all add: observe_all_Cons accepted_Cons Cons.IH del: observe_all.simps)
qed simp

lemma gap_lines: "length (gap_log (snd (observe_all ss d))) = length (gap_log d) + count_list (fst (observe_all ss d)) Gap"
proof (induction ss arbitrary: d)
  case (Cons s ss)
  show ?case
    by (cases rule: observe_cases [where d = d and s = s]) (simp_all add: observe_all_Cons Cons.IH del: observe_all.simps)
qed simp

subsection \<open>Theorems\<close>

text \<open>
  \<open>Live\<close> means complete: a detector that starts \<open>Live\<close> and observes any sequence numbers,
  duplicates and reordered ones included, is \<open>Live\<close> at the end if and only if the sequence
  numbers it accepted (after the one it already tracked) follow each other without a hole.  The
  lifetime counter counts the reported gaps, modulo \<open>2 ^ 64\<close>.
\<close>

theorem live_iff_contiguous:
  assumes "state d = Live"
  shows "(state (snd (observe_all ss d)) = Live \<longleftrightarrow> consecutive (tracked d @ accepted ss d)) \<and>
    sequence_gaps_total (snd (observe_all ss d)) =
      sequence_gaps_total d + of_nat (count_list (fst (observe_all ss d)) Gap)"
  using assms by (simp add: observer_defs observe_all_live_iff observe_all_gaps_total)

theorem live_iff_contiguous_witness:
  "state gap_detector_init = Live \<and>
   state (snd (observe_all [5, 6, 6, 7] gap_detector_init)) = Live \<and>
   state (snd (observe_all [5, 6, 8] gap_detector_init)) = Stale"
proof -
  have live: "state gap_detector_init = Live"
    by (simp add: state_def gap_detector_init_def)
  have "state (snd (observe_all [5, 6, 6, 7] gap_detector_init)) = Live"
    using live_iff_contiguous [OF live, of "[5, 6, 6, 7]"]
    by (simp add: accepted_Cons observe_def tracked_def gap_detector_init_def)
  moreover have "state (snd (observe_all [5, 6, 8] gap_detector_init)) \<noteq> Live"
    using live_iff_contiguous [OF live, of "[5, 6, 8]"]
    by (simp add: accepted_Cons observe_def tracked_def gap_detector_init_def log_gap_def)
  then have "state (snd (observe_all [5, 6, 8] gap_detector_init)) = Stale"
    by (cases "state (snd (observe_all [5, 6, 8] gap_detector_init))") auto
  ultimately show ?thesis using live by simp
qed

text \<open>
  C21. The gap lines account for every missing message: as long as the 64-bit sequence space does
  not wrap, the last sequence number tracked after a run is the one tracked before it plus the
  observations that returned \<open>InOrder\<close>, plus those that returned \<open>Gap\<close> (the message that opens a gap has
  arrived), plus the messages that the lines report missing; duplicates add nothing.  There is one line for
  each \<open>Gap\<close>.
\<close>

theorem missing_messages_accounted:
  assumes "last_seq_num d = Some n" and "n \<noteq> -1" and "-1 \<notin> set ss"
  shows "\<exists>n'. last_seq_num (snd (observe_all ss d)) = Some n' \<and>
    unat n' + missing_logged d =
      unat n + count_list (fst (observe_all ss d)) InOrder + count_list (fst (observe_all ss d)) Gap +
      missing_logged (snd (observe_all ss d)) \<and>
    length (gap_log (snd (observe_all ss d))) = length (gap_log d) + count_list (fst (observe_all ss d)) Gap"
proof -
  have d: "has_last_seq_num d" "gd_last_seq_num d = n"
    using assms(1) by (auto simp: last_seq_num_def split: if_splits)
  then have "last_seq_num (snd (observe_all ss d)) = Some (gd_last_seq_num (snd (observe_all ss d)))"
    using observe_all_last [of d ss] by (auto simp: tracked_def last_seq_num_def split: if_splits)
  then show ?thesis
    using observe_all_accounts [of d ss] assms d by (simp add: accepted_counts gap_lines)
qed

theorem missing_messages_accounted_witness:
  "let r = observe_all [11, 15, 12] (resync 10 gap_detector_init) in
     fst r = [InOrder, Gap, Duplicate] \<and> gap_log (snd r) = [(12, 15, 3)] \<and>
     (\<exists>n'. last_seq_num (snd r) = Some n' \<and> unat n' = 10 + count_list (fst r) InOrder + count_list (fst r) Gap + missing_logged (snd r))"
  using missing_messages_accounted [of "resync 10 gap_detector_init" 10 "[11, 15, 12]"]
  by (simp add: last_seq_num_def resync_def gap_detector_init_def observe_def missing_logged_def log_gap_def)

text \<open>
  A stale shard never becomes live by itself: whatever is observed after a gap, the state
  stays \<open>Stale\<close>; \<open>resync\<close> returns it to \<open>Live\<close>, restarts tracking at the given sequence number
  and keeps the lifetime gap counter.
\<close>

theorem stale_until_resync:
  "(state d = Stale \<longrightarrow> state (snd (observe_all ss d)) = Stale) \<and>
   state (resync n d) = Live \<and> last_seq_num (resync n d) = Some n \<and>
   fst (observe (n + 1) (resync n d)) = InOrder \<and>
   sequence_gaps_total (resync n d) = sequence_gaps_total d"
proof -
  have "state (snd (observe_all ss d)) = Stale" if "state d = Stale"
    using that observe_all_live_iff [of ss d]
    by (cases "gd_state (snd (observe_all ss d))") (auto simp: state_def)
  then show ?thesis by (simp add: observer_defs resync_def observe_next)
qed

theorem stale_until_resync_witness:
  "state (snd (observe 9 (resync 3 gap_detector_init))) = Stale \<and>
   state (snd (observe_all [10, 11] (snd (observe 9 (resync 3 gap_detector_init))))) = Stale"
proof -
  have "state (snd (observe 9 (resync 3 gap_detector_init))) = Stale"
    by (simp add: state_def resync_def gap_detector_init_def observe_def log_gap_def)
  then show ?thesis
    using stale_until_resync [of "snd (observe 9 (resync 3 gap_detector_init))" "[10, 11]"] by blast
qed

end
