(* ===== verification/Queue_Interface.thy ===== *)
theory Queue_Interface
  imports Prelude "HOL-Library.Sublist"
begin

text \<open>
  What the pipeline relies on of its bounded queues: a FIFO of at most \<open>capacity\<close> items whose
  producer is never refused, because a push on a full queue evicts the oldest item and counts
  it.  The locale states the contract over the list of queued items; its lemmas follow whole
  sequences of pushes and pops, and hold for every implementation of the contract.
\<close>

text \<open>The list of queued items after a push on a queue of the given capacity.\<close>

definition drop_oldest_push :: "nat \<Rightarrow> 'a \<Rightarrow> 'a list \<Rightarrow> 'a list" where
  "drop_oldest_push cap x l = (if length l < cap then l else tl l) @ [x]"

text \<open>The last \<open>n\<close> elements of a list.\<close>

definition newest :: "nat \<Rightarrow> 'a list \<Rightarrow> 'a list" where
  "newest n l = drop (length l - n) l"

fun push_all :: "('a \<Rightarrow> 'q \<Rightarrow> 'q option) \<Rightarrow> 'a list \<Rightarrow> 'q \<Rightarrow> 'q option" where
  "push_all push [] q = Some q"
| "push_all push (x # xs) q = do { q \<leftarrow> push x q; push_all push xs q }"

text \<open>
  Arbitrary interleavings of the producer's and the consumer's calls, on an implementation
  (\<open>queue_run\<close>) and on the list of queued items with a count of evictions (\<open>spec_run\<close>).
\<close>

datatype 'a queue_op = Push 'a | Pop

fun pushed :: "'a queue_op list \<Rightarrow> 'a list" where
  "pushed [] = []"
| "pushed (Push x # ops) = x # pushed ops"
| "pushed (Pop # ops) = pushed ops"

fun queue_run :: "('a \<Rightarrow> 'q \<Rightarrow> 'q option) \<Rightarrow> ('q \<Rightarrow> 'a option \<times> 'q) \<Rightarrow> 'a queue_op list \<Rightarrow> 'q \<Rightarrow>
    ('a list \<times> 'q) option" where
  "queue_run push pop [] q = Some ([], q)"
| "queue_run push pop (Push x # ops) q = do { q \<leftarrow> push x q; queue_run push pop ops q }"
| "queue_run push pop (Pop # ops) q =
     (case pop q of
        (None, q) \<Rightarrow> queue_run push pop ops q
      | (Some x, q) \<Rightarrow> map_option (\<lambda>(xs, q). (x # xs, q)) (queue_run push pop ops q))"

fun spec_run :: "nat \<Rightarrow> 'a queue_op list \<Rightarrow> 'a list \<times> nat \<Rightarrow> 'a list \<times> 'a list \<times> nat" where
  "spec_run cap [] (l, n) = ([], l, n)"
| "spec_run cap (Push x # ops) (l, n) =
     spec_run cap ops (drop_oldest_push cap x l, n + of_bool (length l = cap))"
| "spec_run cap (Pop # ops) ([], n) = spec_run cap ops ([], n)"
| "spec_run cap (Pop # ops) (x # l, n) = (let (xs, r) = spec_run cap ops (l, n) in (x # xs, r))"

text \<open>
  Delivery in order and conservation: what was popped, followed by what is still queued, is the
  input with exactly the counted evictions left out.
\<close>

lemma spec_run_fifo:
  assumes "0 < cap" and "length l \<le> cap"
  shows "\<exists>xs l' n'. spec_run cap ops (l, n) = (xs, l', n') \<and> length l' \<le> cap \<and>
    subseq (xs @ l') (l @ pushed ops) \<and>
    length xs + length l' + n' = length l + length (pushed ops) + n"
  using assms(2)
proof (induction ops arbitrary: l n)
  case Nil
  then show ?case by simp
next
  case (Cons op ops)
  show ?case
  proof (cases op)
    case (Push x)
    define l1 n1 where "l1 = drop_oldest_push cap x l" and "n1 = n + of_bool (length l = cap)"
    have l1: "length l1 \<le> cap" "length l1 + n1 = Suc (length l + n)" "subseq l1 (l @ [x])"
      using assms(1) Cons.prems
      by (cases l; auto simp: l1_def n1_def drop_oldest_push_def not_less)+
    obtain xs l' n' where IH: "spec_run cap ops (l1, n1) = (xs, l', n')" "length l' \<le> cap"
        "subseq (xs @ l') (l1 @ pushed ops)"
        "length xs + length l' + n' = length l1 + length (pushed ops) + n1"
      using Cons.IH [OF l1(1)] by blast
    have "subseq (l1 @ pushed ops) (l @ pushed (op # ops))"
      using l1(3) Push by (simp add: list_emb_append_mono [of _ l1 "l @ [x]" "pushed ops" "pushed ops", simplified])
    then show ?thesis
      using IH l1(2) Push by (auto simp flip: l1_def n1_def intro: subseq_order.trans)
  next
    case Pop
    show ?thesis
    proof (cases l)
      case Nil
      then show ?thesis using Cons.IH [of "[]" n] Pop by simp
    next
      case (Cons y ys)
      then obtain xs l' n' where "spec_run cap ops (ys, n) = (xs, l', n')" "length l' \<le> cap"
          "subseq (xs @ l') (ys @ pushed ops)"
          "length xs + length l' + n' = length ys + length (pushed ops) + n"
        using Cons.IH [of ys n] Cons.prems by auto
      then show ?thesis using Pop Cons by simp
    qed
  qed
qed

lemma spec_run_mono: "n \<le> snd (snd (spec_run cap ops (l, n)))"
  by (induction cap ops "(l, n)" arbitrary: l n rule: spec_run.induct)
     (auto split: prod.splits intro: le_trans [rotated])

lemma newest_all [simp]: "length l \<le> n \<Longrightarrow> newest n l = l"
  by (simp add: newest_def)

lemma length_newest [simp]: "length (newest n l) = min n (length l)"
  by (simp add: newest_def)

lemma drop_oldest_push_newest:
  "0 < cap \<Longrightarrow> length l \<le> cap \<Longrightarrow> drop_oldest_push cap x l = newest cap (l @ [x])"
  by (cases l) (auto simp: drop_oldest_push_def newest_def not_less)

lemma newest_newest_append: "newest n (newest n l @ xs) = newest n (l @ xs)"
  by (cases "length l \<le> n") (simp_all add: newest_def not_le add.commute)

lemma length_drop_oldest_push:
  "0 < cap \<Longrightarrow> length l \<le> cap \<Longrightarrow> length (drop_oldest_push cap x l) \<le> cap"
  by (simp add: drop_oldest_push_newest)

text \<open>
  The history of a queue: what was popped so far followed by what is queued is, seen through \<open>f\<close>, the
  sequence of all pushes with exactly the counted evictions left out.
\<close>

definition queue_history :: "('q \<Rightarrow> 'a list) \<Rightarrow> ('q \<Rightarrow> u64) \<Rightarrow> ('a \<Rightarrow> 'b) \<Rightarrow> 'q \<Rightarrow> 'a list \<Rightarrow> 'b list \<Rightarrow> bool" where
  "queue_history contents dropped f q popped input \<longleftrightarrow>
     (\<exists>k. dropped q = of_nat k \<and> length input = length popped + length (contents q) + k) \<and>
     subseq (map f (popped @ contents q)) input"

lemma subseq_tl_append: "subseq (map f (xs @ ys)) zs \<Longrightarrow> subseq (map f (xs @ tl ys @ [z])) (zs @ [f z])"
proof -
  assume "subseq (map f (xs @ ys)) zs"
  moreover have "subseq (map f (xs @ tl ys)) (map f (xs @ ys))"
    by (cases ys) (auto intro: subseq_map list_emb_append_mono)
  ultimately have "subseq (map f (xs @ tl ys)) zs" by (rule subseq_order.trans [rotated])
  then show ?thesis using list_emb_append_mono [of "(=)" "map f (xs @ tl ys)" zs "[f z]" "[f z]"] by simp
qed

lemma queue_history_lossless:
  assumes "queue_history contents dropped f q popped input" "dropped q = 0" "length input < 2 ^ 64"
  shows "map f (popped @ contents q) = input"
proof -
  obtain k where k: "dropped q = of_nat k" "length input = length popped + length (contents q) + k"
    using assms(1) by (auto simp: queue_history_def)
  then have "k mod 2 ^ 64 = 0" using assms(2) unat_of_nat [of k, where 'a = 64] by simp
  then have "k = 0" using k(2) assms(3) by simp
  then show ?thesis
    using assms(1) k(2) subseq_same_length [of "map f (popped @ contents q)" input] by (simp add: queue_history_def)
qed

locale drop_oldest_queue =
  fixes contents :: "'q \<Rightarrow> 'a list"
    and push :: "'a \<Rightarrow> 'q \<Rightarrow> 'q option"
    and try_pop :: "'q \<Rightarrow> 'a option \<times> 'q"
    and dropped :: "'q \<Rightarrow> u64"
    and capacity :: "'q \<Rightarrow> nat"
    and invar :: "'q \<Rightarrow> bool"
  assumes capacity_pos: "invar q \<Longrightarrow> 0 < capacity q"
    and bounded: "invar q \<Longrightarrow> length (contents q) \<le> capacity q"
    and push_contract: "invar q \<Longrightarrow> \<exists>q'. push x q = Some q' \<and> invar q' \<and> capacity q' = capacity q \<and>
          contents q' = drop_oldest_push (capacity q) x (contents q) \<and>
          dropped q' = dropped q + of_bool (length (contents q) = capacity q)"
    and pop_empty: "invar q \<Longrightarrow> contents q = [] \<Longrightarrow> try_pop q = (None, q)"
    and pop_contract: "invar q \<Longrightarrow> contents q = x # xs \<Longrightarrow>
          \<exists>q'. try_pop q = (Some x, q') \<and> invar q' \<and> capacity q' = capacity q \<and>
            contents q' = xs \<and> dropped q' = dropped q"
begin

lemma push_all_contract:
  assumes "invar q"
  shows "\<exists>q'. push_all push xs q = Some q' \<and> invar q' \<and> capacity q' = capacity q \<and>
    contents q' = newest (capacity q) (contents q @ xs) \<and>
    dropped q' = dropped q + of_nat (length (contents q) + length xs - capacity q)"
  using assms
proof (induction xs arbitrary: q)
  case Nil
  then show ?case using bounded [of q] by simp
next
  case (Cons x xs)
  obtain q1 where q1: "push x q = Some q1" "invar q1" "capacity q1 = capacity q"
      "contents q1 = newest (capacity q) (contents q @ [x])"
      "dropped q1 = dropped q + of_bool (length (contents q) = capacity q)"
    using push_contract [OF Cons.prems, of x] capacity_pos [OF Cons.prems] bounded [OF Cons.prems]
    by (auto simp: drop_oldest_push_newest)
  obtain q2 where q2: "push_all push xs q1 = Some q2" "invar q2" "capacity q2 = capacity q1"
      "contents q2 = newest (capacity q1) (contents q1 @ xs)"
      "dropped q2 = dropped q1 + of_nat (length (contents q1) + length xs - capacity q1)"
    using Cons.IH [OF q1(2)] by blast
  have "length (contents q) + length (x # xs) - capacity q =
      of_bool (length (contents q) = capacity q) + (length (contents q1) + length xs - capacity q)"
    using q1(4) bounded [OF Cons.prems] by (auto simp: min_def)
  then have "dropped q2 = dropped q + of_nat (length (contents q) + length (x # xs) - capacity q)"
    using q1(3,5) q2(5) by simp
  then show ?case
    using q1 q2 newest_newest_append [of "capacity q" "contents q @ [x]" xs] by simp
qed

text \<open>Every item that went in is still queued, was popped, or was counted as dropped.\<close>

lemma push_all_conservation:
  assumes "invar q" and "push_all push xs q = Some q'"
  shows "\<exists>lost. contents q @ xs = lost @ contents q' \<and> dropped q' = dropped q + of_nat (length lost)"
proof -
  define l n where "l = contents q @ xs" and "n = length (contents q) + length xs - capacity q"
  have n: "n = length l - capacity q" by (simp add: l_def n_def)
  then have "l = take n l @ newest (capacity q) l" and "length (take n l) = n"
    by (simp_all add: newest_def)
  then show ?thesis
    using push_all_contract [OF assms(1), of xs] assms(2)
    by (intro exI [of _ "take n l"]) (simp flip: l_def n_def)
qed

text \<open>Every interleaving of calls on an implementation is a run of the specification.\<close>

lemma queue_run_refines:
  assumes "invar q" and "dropped q = of_nat n"
  shows "\<exists>xs q' n'. queue_run push try_pop ops q = Some (xs, q') \<and> invar q' \<and>
    capacity q' = capacity q \<and> dropped q' = of_nat n' \<and>
    spec_run (capacity q) ops (contents q, n) = (xs, contents q', n')"
  using assms
proof (induction ops arbitrary: q n)
  case Nil
  then show ?case by simp
next
  case (Cons op ops)
  show ?case
  proof (cases op)
    case (Push x)
    obtain q1 where q1: "push x q = Some q1" "invar q1" "capacity q1 = capacity q"
        "contents q1 = drop_oldest_push (capacity q) x (contents q)"
        "dropped q1 = of_nat (n + of_bool (length (contents q) = capacity q))"
      using push_contract [OF Cons.prems(1), of x] Cons.prems(2) by auto
    then show ?thesis
      using Cons.IH [OF q1(2,5)] Push by simp
  next
    case Pop
    show ?thesis
    proof (cases "contents q")
      case Nil
      then show ?thesis
        using Cons.IH [OF Cons.prems] pop_empty [OF Cons.prems(1) Nil] Pop by simp
    next
      case (Cons y ys)
      obtain q1 where q1: "try_pop q = (Some y, q1)" "invar q1" "capacity q1 = capacity q"
          "contents q1 = ys" "dropped q1 = of_nat n"
        using pop_contract [OF Cons.prems(1) Cons] Cons.prems(2) by auto
      then show ?thesis
        using Cons.IH [OF q1(2,5)] Pop Cons by auto
    qed
  qed
qed

lemma push_history:
  assumes "invar q" "queue_history contents dropped f q popped input" "push x q = Some q'"
  shows "queue_history contents dropped f q' popped (input @ [f x])"
proof -
  have q': "contents q' = drop_oldest_push (capacity q) x (contents q)"
      "dropped q' = dropped q + of_bool (length (contents q) = capacity q)"
    using push_contract [OF assms(1), of x] assms(3) by auto
  obtain k where k: "dropped q = of_nat k" "length input = length popped + length (contents q) + k"
    and sub: "subseq (map f (popped @ contents q)) input"
    using assms(2) by (auto simp: queue_history_def)
  show ?thesis
  proof (cases "length (contents q) < capacity q")
    case True
    then show ?thesis
      using q' k list_emb_append_mono [OF sub, of "[f x]" "[f x]"]
      by (auto simp: queue_history_def drop_oldest_push_def)
  next
    case False
    then have full: "length (contents q) = capacity q" "contents q \<noteq> []"
      using bounded [OF assms(1)] capacity_pos [OF assms(1)] by auto
    then have "dropped q' = of_nat (Suc k)" "length (contents q') = length (contents q)"
      using q' k by (cases "contents q"; auto simp: drop_oldest_push_def)+
    moreover have "contents q' = tl (contents q) @ [x]" using q' full by (simp add: drop_oldest_push_def)
    ultimately show ?thesis
      using k subseq_tl_append [OF sub, of x] unfolding queue_history_def
      by (auto intro!: exI [of _ "Suc k"])
  qed
qed

lemma push_all_history:
  "invar q \<Longrightarrow> queue_history contents dropped f q popped input \<Longrightarrow> push_all push xs q = Some q' \<Longrightarrow>
     queue_history contents dropped f q' popped (input @ map f xs)"
proof (induction xs arbitrary: q input)
  case (Cons x xs)
  obtain q1 where q1: "push x q = Some q1" "invar q1" "push_all push xs q1 = Some q'"
    using push_contract [OF Cons.prems(1), of x] Cons.prems(3) by auto
  then show ?case
    using Cons.IH [OF q1(2) push_history [OF Cons.prems(1,2) q1(1)] q1(3)] by simp
qed simp

lemma pop_history:
  assumes "invar q" "queue_history contents dropped f q popped input" "contents q = x # xs"
    and "contents q' = xs" "dropped q' = dropped q"
  shows "queue_history contents dropped f q' (popped @ [x]) input"
  using assms by (simp add: queue_history_def)

end

end
