(* ===== verification/Ring_Buffer.thy ===== *)
theory Ring_Buffer
  imports Queue_Interface
begin

text \<open>
  The bounded single-producer/single-consumer ring buffer with drop-oldest backpressure,
  \<open>concurrency/spsc_ring_buffer.hpp\<close>, called by one thread at a time (the interleaved executions
  are in the theory \<open>Ring_Concurrent\<close>).  \<open>tail_\<close> and \<open>head_\<close> are the source's free-running
  64-bit counters, reduced modulo \<open>Capacity\<close> at each access; the capacity is the length of the
  slot array.  \<open>push\<close> is partial: \<open>None\<close> is the spin on \<open>reader_active\<close> that no other thread
  ends.  A \<open>try_pop\<close> returns the popped item, \<open>None\<close> for \<open>false\<close>.

  The ring implements the drop-oldest queue contract, for every capacity that divides \<open>2 ^ 64\<close>
  and across the wrap-around of both counters; the pipeline's rings have capacity 4096.
\<close>

record 'a slot =
  slot_value :: 'a
  reader_active :: bool

record 'a ring =
  rb_buffer :: "'a slot list"
  rb_tail :: u64
  rb_head :: u64
  rb_dropped :: u64
  rb_wake_generation :: u64

definition ring_init :: "nat \<Rightarrow> 'a \<Rightarrow> 'a ring" where
  "ring_init cap v =
     \<lparr>rb_buffer = replicate cap \<lparr>slot_value = v, reader_active = False\<rparr>,
      rb_tail = 0, rb_head = 0, rb_dropped = 0, rb_wake_generation = 0\<rparr>"

definition rb_capacity :: "'a ring \<Rightarrow> nat" where
  "rb_capacity r = length (rb_buffer r)"

text \<open>\<open>head_.compare_exchange_strong(expected, desired)\<close>\<close>

definition cas_head :: "u64 \<Rightarrow> u64 \<Rightarrow> 'a ring \<Rightarrow> bool \<times> 'a ring" where
  "cas_head expected desired r =
     (if rb_head r = expected then (True, r\<lparr>rb_head := desired\<rparr>) else (False, r))"

definition set_reader_active :: "nat \<Rightarrow> bool \<Rightarrow> 'a ring \<Rightarrow> 'a ring" where
  "set_reader_active i b r =
     r\<lparr>rb_buffer := (rb_buffer r)[i := (rb_buffer r ! i)\<lparr>reader_active := b\<rparr>]\<rparr>"

definition set_slot_value :: "nat \<Rightarrow> 'a \<Rightarrow> 'a ring \<Rightarrow> 'a ring" where
  "set_slot_value i v r =
     r\<lparr>rb_buffer := (rb_buffer r)[i := (rb_buffer r ! i)\<lparr>slot_value := v\<rparr>]\<rparr>"

definition notify_waiters :: "'a ring \<Rightarrow> 'a ring" where
  "notify_waiters r = r\<lparr>rb_wake_generation := rb_wake_generation r + 1\<rparr>"

definition push :: "'a \<Rightarrow> 'a ring \<Rightarrow> 'a ring option" where
  "push item r =
     (let tail = rb_tail r;
          head = rb_head r;
          r = (if of_nat (rb_capacity r) \<le> tail - head then
                 (case cas_head head (head + 1) r of
                    (True, r) \<Rightarrow> r\<lparr>rb_dropped := rb_dropped r + 1\<rparr>
                  | (False, r) \<Rightarrow> r)
               else r);
          target = unat tail mod rb_capacity r
      in if reader_active (rb_buffer r ! target) then None
         else Some (notify_waiters ((set_slot_value target item r)\<lparr>rb_tail := tail + 1\<rparr>)))"

definition try_pop :: "'a ring \<Rightarrow> 'a option \<times> 'a ring" where
  "try_pop r =
     (let head = rb_head r;
          tail = rb_tail r
      in if tail = head then (None, r)
         else
           let i = unat head mod rb_capacity r;
               r = set_reader_active i True r
           in case cas_head head (head + 1) r of
                (False, r) \<Rightarrow> (None, set_reader_active i False r)
              | (True, r) \<Rightarrow>
                  let out = slot_value (rb_buffer r ! i)
                  in (Some out, set_reader_active i False r))"

definition dropped_updates_total :: "'a ring \<Rightarrow> u64" where
  "dropped_updates_total r = rb_dropped r"

subsection \<open>Abstraction to the list of queued items\<close>

definition rb_count :: "'a ring \<Rightarrow> nat" where
  "rb_count r = unat (rb_tail r - rb_head r)"

definition rb_slot :: "'a ring \<Rightarrow> nat \<Rightarrow> nat" where
  "rb_slot r i = unat (rb_head r + of_nat i) mod rb_capacity r"

definition rb_contents :: "'a ring \<Rightarrow> 'a list" where
  "rb_contents r = map (\<lambda>i. slot_value (rb_buffer r ! rb_slot r i)) [0..<rb_count r]"

definition ring_ok :: "'a ring \<Rightarrow> bool" where
  "ring_ok r \<longleftrightarrow> 0 < rb_capacity r \<and> rb_capacity r < 2 ^ 64 \<and> rb_capacity r dvd 2 ^ 64 \<and>
     rb_count r \<le> rb_capacity r \<and> list_all (\<lambda>s. \<not> reader_active s) (rb_buffer r)"

lemma length_rb_contents [simp]: "length (rb_contents r) = rb_count r"
  by (simp add: rb_contents_def)

lemma ring_okD:
  assumes "ring_ok r"
  shows "0 < rb_capacity r" "rb_capacity r < 2 ^ 64" "rb_capacity r dvd 2 ^ 64"
    "rb_count r \<le> rb_capacity r" "i < rb_capacity r \<Longrightarrow> \<not> reader_active (rb_buffer r ! i)"
  using assms by (auto simp: ring_ok_def list_all_length rb_capacity_def)

text \<open>Because the capacity divides \<open>2 ^ 64\<close>, slots are numbered as if the counters never wrapped.\<close>

lemma rb_slot_eq:
  assumes "rb_capacity r dvd 2 ^ 64"
  shows "rb_slot r i = (unat (rb_head r) + i) mod rb_capacity r"
proof -
  have "unat (rb_head r + of_nat i) = (unat (rb_head r) + i) mod 2 ^ 64"
    by (simp add: unat_word_ariths unat_of_nat mod_simps)
  then show ?thesis
    using assms by (simp add: rb_slot_def mod_mod_cancel)
qed

lemma rb_tail_eq: "rb_tail r = rb_head r + of_nat (rb_count r)"
  by (simp add: rb_count_def)

lemma rb_tail_slot: "unat (rb_tail r) mod rb_capacity r = rb_slot r (rb_count r)"
  by (simp add: rb_slot_def rb_count_def)

lemma rb_slot_less: "ring_ok r \<Longrightarrow> rb_slot r i < rb_capacity r"
  by (simp add: rb_slot_def ring_ok_def)

lemma mod_add_inj:
  fixes h i j c :: nat
  assumes "i < c" and "j < c" and "(h + i) mod c = (h + j) mod c"
  shows "i = j"
proof (rule ccontr)
  assume "i \<noteq> j"
  then consider "i < j" | "j < i" by linarith
  then show False
  proof cases
    case 1
    then have "c dvd j - i"
      using assms(3) mod_eq_dvd_iff_nat [of "h + i" "h + j" c] by simp
    then show False using 1 assms(2) by (auto dest: dvd_imp_le)
  next
    case 2
    then have "c dvd i - j"
      using assms(3) mod_eq_dvd_iff_nat [of "h + j" "h + i" c] by simp
    then show False using 2 assms(1) by (auto dest: dvd_imp_le)
  qed
qed

lemma rb_slot_inj:
  assumes "ring_ok r" and "i < rb_capacity r" and "j < rb_capacity r" and "rb_slot r i = rb_slot r j"
  shows "i = j"
  using assms mod_add_inj ring_okD(3) [OF assms(1)] by (simp add: rb_slot_eq)

subsection \<open>The effect of the index and slot updates\<close>

text \<open>Advancing \<open>head_\<close> by one, by a pop or by an eviction, removes the oldest item.\<close>

lemma advance_head:
  assumes "ring_ok r" and "0 < rb_count r"
  defines "r' \<equiv> r\<lparr>rb_head := rb_head r + 1\<rparr>"
  shows "rb_count r' = rb_count r - 1" and "rb_contents r' = tl (rb_contents r)" and "ring_ok r'"
proof -
  have "rb_tail r - rb_head r \<noteq> 0" using assms(2) by (auto simp: rb_count_def)
  then show count: "rb_count r' = rb_count r - 1"
    using unat_minus_one [of "rb_tail r - rb_head r"]
    by (simp add: r'_def rb_count_def diff_diff_eq)
  have slot: "rb_slot r' i = rb_slot r (Suc i)" for i
    by (simp add: rb_slot_def r'_def rb_capacity_def add.assoc)
  have "tl [0..<rb_count r] = map Suc [0..<rb_count r - 1]"
    using assms(2) by (cases "rb_count r") (simp_all add: map_Suc_upt upt_conv_Cons del: upt_Suc)
  then show "rb_contents r' = tl (rb_contents r)"
    by (simp add: rb_contents_def count slot map_tl [symmetric] comp_def) (simp add: r'_def)
  show "ring_ok r'"
    using assms(1) count by (auto simp: ring_ok_def r'_def rb_capacity_def)
qed

text \<open>Writing the slot at \<open>tail_\<close> and publishing it appends the item, when there is room.\<close>

lemma write_tail:
  fixes x :: 'a and r :: "'a ring"
  assumes "ring_ok r" and "rb_count r < rb_capacity r"
  defines "r' \<equiv> notify_waiters
    ((set_slot_value (unat (rb_tail r) mod rb_capacity r) x r)\<lparr>rb_tail := rb_tail r + 1\<rparr>)"
  shows "rb_contents r' = rb_contents r @ [x]" and "ring_ok r'"
proof -
  note upd_defs = r'_def notify_waiters_def set_slot_value_def rb_capacity_def
  have "rb_tail r - rb_head r \<noteq> -1"
  proof
    assume "rb_tail r - rb_head r = -1"
    then have "rb_count r = unat (-1 :: u64)" by (simp add: rb_count_def)
    then show False
      using ring_okD(2) [OF assms(1)] assms(2) by (simp add: unsigned_minus_1_eq_mask mask_eq_exp_minus_1)
  qed
  then have count: "rb_count r' = Suc (rb_count r)"
    using unat_inc [of "rb_tail r - rb_head r"] by (simp add: upd_defs rb_count_def algebra_simps)
  have cap: "rb_capacity r' = rb_capacity r" by (simp add: upd_defs)
  have slot: "rb_slot r' i = rb_slot r i" for i by (simp add: upd_defs rb_slot_def)
  let ?t = "rb_slot r (rb_count r)"
  have t: "?t < length (rb_buffer r)"
    using rb_slot_less [OF assms(1)] by (simp add: rb_capacity_def)
  have buf: "rb_buffer r' = (rb_buffer r)[?t := (rb_buffer r ! ?t)\<lparr>slot_value := x\<rparr>]"
    by (simp add: upd_defs flip: rb_tail_slot)
  have other: "slot_value (rb_buffer r' ! rb_slot r i) = slot_value (rb_buffer r ! rb_slot r i)"
    if "i < rb_count r" for i
  proof -
    have "rb_slot r i \<noteq> ?t"
      using that rb_slot_inj [OF assms(1), of i "rb_count r"] assms(2) by auto
    then show ?thesis by (simp add: buf)
  qed
  show "rb_contents r' = rb_contents r @ [x]"
    using t by (simp add: rb_contents_def count slot other) (simp add: buf)
  show "ring_ok r'"
    using assms(1,2) t
    by (auto simp: ring_ok_def count cap buf list_all_length rb_capacity_def nth_list_update)
qed

lemma overflow_test:
  assumes "ring_ok r"
  shows "of_nat (rb_capacity r) \<le> rb_tail r - rb_head r \<longleftrightarrow> rb_count r = rb_capacity r"
  using ring_okD(2,4) [OF assms] by (auto simp: word_le_nat_alt unat_of_nat rb_count_def)

subsection \<open>The operations implement the drop-oldest queue\<close>

lemma push_room:
  assumes "ring_ok r" and "rb_count r < rb_capacity r"
  shows "push x r = Some (notify_waiters
    ((set_slot_value (unat (rb_tail r) mod rb_capacity r) x r)\<lparr>rb_tail := rb_tail r + 1\<rparr>))"
  using assms ring_okD(1,5) [OF assms(1)] overflow_test [OF assms(1)]
  by (simp add: push_def Let_def)

lemma rb_capacity_head [simp]: "rb_capacity (r\<lparr>rb_head := h\<rparr>) = rb_capacity r"
  by (simp add: rb_capacity_def)

lemma push_full:
  assumes "ring_ok r" and "rb_count r = rb_capacity r"
  shows "push x r = push x (r\<lparr>rb_head := rb_head r + 1, rb_dropped := rb_dropped r + 1\<rparr>)"
proof -
  let ?r1 = "r\<lparr>rb_head := rb_head r + 1\<rparr>"
  have "0 < rb_count r" using assms ring_okD(1) by metis
  then have r1: "ring_ok ?r1" "rb_count ?r1 \<noteq> rb_capacity ?r1"
    using advance_head [OF assms(1)] assms(2) ring_okD(1) [OF assms(1)] by simp_all
  have "\<not> of_nat (rb_capacity r) \<le> rb_tail r - (rb_head r + 1)"
    using overflow_test [OF r1(1)] r1(2) by (simp add: rb_capacity_def)
  then show ?thesis
    using assms overflow_test [OF assms(1)]
    by (simp add: push_def cas_head_def Let_def rb_capacity_def)
qed

lemma ring_ok_dropped [simp]: "ring_ok (r\<lparr>rb_dropped := n\<rparr>) = ring_ok r"
  "rb_contents (r\<lparr>rb_dropped := n\<rparr>) = rb_contents r" "rb_count (r\<lparr>rb_dropped := n\<rparr>) = rb_count r"
  by (simp_all add: ring_ok_def rb_contents_def rb_count_def rb_capacity_def rb_slot_def)

lemma ring_ok_tail_unfold:
  "rb_dropped (notify_waiters ((set_slot_value i x r)\<lparr>rb_tail := t\<rparr>)) = rb_dropped r"
  "rb_capacity (notify_waiters ((set_slot_value i x r)\<lparr>rb_tail := t\<rparr>)) = rb_capacity r"
  by (simp_all add: notify_waiters_def set_slot_value_def rb_capacity_def)

lemma push_correct:
  assumes "ring_ok r"
  shows "\<exists>r'. push x r = Some r' \<and> ring_ok r' \<and> rb_capacity r' = rb_capacity r \<and>
    rb_contents r' = drop_oldest_push (rb_capacity r) x (rb_contents r) \<and>
    dropped_updates_total r' =
      dropped_updates_total r + of_bool (length (rb_contents r) = rb_capacity r)"
proof (cases "rb_count r < rb_capacity r")
  case True
  then show ?thesis
    using push_room [OF assms True, of x] write_tail [OF assms True, of x]
    by (simp add: ring_ok_tail_unfold drop_oldest_push_def dropped_updates_total_def)
next
  case False
  then have full: "rb_count r = rb_capacity r" using ring_okD(4) [OF assms] by simp
  define r1 where "r1 = r\<lparr>rb_head := rb_head r + 1, rb_dropped := rb_dropped r + 1\<rparr>"
  have "0 < rb_count r" using full ring_okD(1) [OF assms] by simp
  then have r1: "ring_ok r1" "rb_contents r1 = tl (rb_contents r)" "rb_count r1 < rb_capacity r"
      "rb_capacity r1 = rb_capacity r" "rb_dropped r1 = rb_dropped r + 1"
    using advance_head [OF assms] full by (simp_all add: r1_def) (simp add: rb_capacity_def)
  then show ?thesis
    using push_full [OF assms full, of x] push_room [OF r1(1), of x] write_tail [OF r1(1), of x] full
    by (simp add: ring_ok_tail_unfold drop_oldest_push_def dropped_updates_total_def flip: r1_def)
qed

text \<open>Announcing and retracting a reader leaves a ring without readers as it was.\<close>

lemma reader_roundtrip:
  assumes "ring_ok r" and "i < rb_capacity r"
  shows "set_reader_active i False ((set_reader_active i True r)\<lparr>rb_head := h\<rparr>) = r\<lparr>rb_head := h\<rparr>"
proof -
  have "(rb_buffer r ! i)\<lparr>reader_active := False\<rparr> = rb_buffer r ! i"
    using ring_okD(5) [OF assms] by simp
  then show ?thesis
    using assms(2) by (simp add: set_reader_active_def rb_capacity_def)
qed

lemma try_pop_empty: "rb_contents r = [] \<Longrightarrow> try_pop r = (None, r)"
proof -
  assume "rb_contents r = []"
  then have "rb_count r = 0" by (metis length_rb_contents list.size(3))
  then show ?thesis by (simp add: try_pop_def rb_count_def unat_eq_0)
qed

lemma try_pop_correct:
  assumes "ring_ok r" and "rb_contents r = x # xs"
  shows "try_pop r = (Some x, r\<lparr>rb_head := rb_head r + 1\<rparr>)"
proof -
  have count: "0 < rb_count r"
    using assms(2) length_rb_contents [of r] by simp
  then have ne: "rb_tail r \<noteq> rb_head r" by (auto simp: rb_count_def)
  let ?i = "unat (rb_head r) mod rb_capacity r"
  have i: "?i < rb_capacity r" using ring_okD(1) [OF assms(1)] by simp
  have "rb_contents r ! 0 = slot_value (rb_buffer r ! ?i)"
    using count by (simp add: rb_contents_def rb_slot_def)
  then have x: "slot_value (rb_buffer r ! ?i) = x" using assms(2) by simp
  show ?thesis
    using ne i x reader_roundtrip [OF assms(1) i, of "rb_head r + 1"]
    by (simp add: try_pop_def cas_head_def Let_def set_reader_active_def rb_capacity_def)
qed

lemma pop_correct:
  assumes "ring_ok r" and "rb_contents r = x # xs"
  shows "\<exists>r'. try_pop r = (Some x, r') \<and> ring_ok r' \<and> rb_capacity r' = rb_capacity r \<and>
    rb_contents r' = xs \<and> dropped_updates_total r' = dropped_updates_total r"
proof -
  have "0 < rb_count r" using assms(2) length_rb_contents [of r] by simp
  then show ?thesis
    using advance_head [OF assms(1)] try_pop_correct [OF assms] assms(2)
    by (simp add: rb_capacity_def dropped_updates_total_def)
qed

interpretation ring: drop_oldest_queue rb_contents push try_pop dropped_updates_total rb_capacity ring_ok
proof unfold_locales
  fix q :: "'a ring" and x :: 'a and xs :: "'a list"
  assume ok: "ring_ok q"
  show "0 < rb_capacity q" using ok by (rule ring_okD)
  show "length (rb_contents q) \<le> rb_capacity q" using ring_okD(4) [OF ok] by simp
  show "\<exists>q'. push x q = Some q' \<and> ring_ok q' \<and> rb_capacity q' = rb_capacity q \<and>
      rb_contents q' = drop_oldest_push (rb_capacity q) x (rb_contents q) \<and>
      dropped_updates_total q' =
        dropped_updates_total q + of_bool (length (rb_contents q) = rb_capacity q)"
    using ok by (rule push_correct)
  show "try_pop q = (None, q)" if "rb_contents q = []" using that by (rule try_pop_empty)
  show "\<exists>q'. try_pop q = (Some x, q') \<and> ring_ok q' \<and> rb_capacity q' = rb_capacity q \<and>
      rb_contents q' = xs \<and> dropped_updates_total q' = dropped_updates_total q"
    if "rb_contents q = x # xs"
    using ok that by (rule pop_correct)
qed

lemma ring_init_ok:
  "0 < cap \<Longrightarrow> cap < 2 ^ 64 \<Longrightarrow> cap dvd 2 ^ 64 \<Longrightarrow>
   ring_ok (ring_init cap v) \<and> rb_contents (ring_init cap v) = [] \<and> rb_capacity (ring_init cap v) = cap"
  by (simp add: ring_ok_def ring_init_def rb_contents_def rb_count_def rb_capacity_def list_all_length)

subsection \<open>Theorems\<close>

text \<open>
  C20. The ring buffer is a drop-oldest FIFO: on every interleaving of whole \<open>push\<close> and
  \<open>try_pop\<close> calls, from any well-formed ring (both 64-bit counters at any value, so also across
  their wrap-around), every call returns, and what is popped, what stays queued and the drop
  counter are those of the specification that keeps a list of at most \<open>Capacity\<close> items and
  evicts the oldest.
\<close>

theorem ring_refines_drop_oldest:
  assumes "ring_ok r" and "dropped_updates_total r = of_nat n"
  shows "\<exists>xs r' n'. queue_run push try_pop ops r = Some (xs, r') \<and> ring_ok r' \<and>
    dropped_updates_total r' = of_nat n' \<and>
    spec_run (rb_capacity r) ops (rb_contents r, n) = (xs, rb_contents r', n')"
  using ring.queue_run_refines [OF assms, of ops] by blast

theorem ring_refines_drop_oldest_witness:
  "\<exists>xs r' n'. queue_run push try_pop [Push 1, Push 2, Push 3, Pop] (ring_init 2 (0::nat)) = Some (xs, r') \<and>
    ring_ok r' \<and> dropped_updates_total r' = of_nat n' \<and> ([2], [3], 1) = (xs, rb_contents r', n')"
proof -
  have ok: "ring_ok (ring_init 2 (0::nat))" and rest: "rb_contents (ring_init 2 (0::nat)) = []"
      "rb_capacity (ring_init 2 (0::nat)) = 2" "dropped_updates_total (ring_init 2 (0::nat)) = of_nat 0"
    using ring_init_ok [of 2 "0::nat"] by (simp_all add: dropped_updates_total_def ring_init_def)
  show ?thesis
    using ring_refines_drop_oldest [OF ok rest(3), of "[Push 1, Push 2, Push 3, Pop]"]
    by (simp add: rest drop_oldest_push_def)
qed

text \<open>
  Nothing is lost silently and nothing is reordered: over any interleaving of calls on a ring,
  the popped items followed by the queued ones are a subsequence of the items that were queued
  or pushed, and the items left out are exactly as many as the drop counter grew by (modulo
  \<open>2 ^ 64\<close>).  At most \<open>Capacity\<close> items are ever queued.
\<close>

theorem ring_fifo_conservation:
  assumes "ring_ok r"
  shows "\<exists>xs r' k. queue_run push try_pop ops r = Some (xs, r') \<and>
    rb_count r' \<le> rb_capacity r \<and> subseq (xs @ rb_contents r') (rb_contents r @ pushed ops) \<and>
    dropped_updates_total r' = dropped_updates_total r + of_nat k \<and>
    length xs + rb_count r' + k = rb_count r + length (pushed ops)"
proof -
  define n where "n = unat (dropped_updates_total r)"
  obtain xs r' n' where run: "queue_run push try_pop ops r = Some (xs, r')"
      "dropped_updates_total r' = of_nat n'"
      "spec_run (rb_capacity r) ops (rb_contents r, n) = (xs, rb_contents r', n')"
    using ring.queue_run_refines [OF assms, of n ops] by (auto simp: n_def)
  have fifo: "length xs + rb_count r' + n' = rb_count r + length (pushed ops) + n"
      "rb_count r' \<le> rb_capacity r" "subseq (xs @ rb_contents r') (rb_contents r @ pushed ops)"
    using spec_run_fifo [of "rb_capacity r" "rb_contents r" ops n] run(3) ring_okD(1,4) [OF assms]
    by auto
  have "n \<le> n'"
    using spec_run_mono [of n "rb_capacity r" ops "rb_contents r"] run(3) by simp
  then obtain k where "n' = n + k" by (auto simp: le_iff_add)
  with fifo run(1,2) show ?thesis
    by (intro exI [of _ xs] exI [of _ r'] exI [of _ k]) (simp add: n_def)
qed

theorem ring_fifo_conservation_witness:
  "ring_ok (ring_init 4 (0::nat)) \<and>
   (\<exists>xs r' k. queue_run push try_pop [Push 1, Pop, Push 2] (ring_init 4 (0::nat)) = Some (xs, r') \<and>
     subseq (xs @ rb_contents r') [1, 2] \<and> length xs + rb_count r' + k = length [1::nat, 2])"
proof -
  have "ring_ok (ring_init 4 (0::nat))" "rb_contents (ring_init 4 (0::nat)) = []"
    using ring_init_ok [of 4 "0::nat"] by simp_all
  moreover from this have "rb_count (ring_init 4 (0::nat)) = 0"
    by (metis length_rb_contents list.size(3))
  ultimately show ?thesis
    using ring_fifo_conservation [of "ring_init 4 (0::nat)" "[Push 1, Pop, Push 2]"] by auto
qed

end
