(* ===== verification/Publisher.thy ===== *)
theory Publisher
  imports Ring_Buffer Message_Types
begin

text \<open>
  The downstream stage: \<open>concurrency/latency_trace.hpp\<close>, \<open>publisher/book_delta.hpp\<close>,
  \<open>publisher/publisher.hpp\<close> and \<open>publisher/publisher.cpp\<close>.  A time point is an integer number of
  nanoseconds; the steady clock is a parameter, a function \<open>now\<close> from the number of readings taken so
  far to the time read, and the number of readings is part of the state.  The virtual
  class \<open>DeltaSink\<close> is the data type of its implementations, a sink with the data it has collected; the
  file behind a \<open>FileDeltaSink\<close> is the text written to it.
\<close>

type_synonym time_point = int
type_synonym clock = "nat \<Rightarrow> time_point"

record LatencyTrace =
  t_received :: time_point
  t_decoded :: time_point
  t_demuxed :: time_point
  t_dequeued :: time_point
  t_book_updated :: time_point

definition trace_init :: LatencyTrace where
  "trace_init = \<lparr>t_received = 0, t_decoded = 0, t_demuxed = 0, t_dequeued = 0, t_book_updated = 0\<rparr>"

record BookDelta =
  bd_symbol :: Symbol
  bd_side :: Side
  bd_price :: Price
  bd_total_quantity :: Quantity
  bd_seq_num :: SeqNum
  bd_timestamp :: Timestamp
  bd_trace :: LatencyTrace

definition kDeltaQueueCapacity :: nat where
  "kDeltaQueueCapacity = 4096"

definition book_delta_init :: BookDelta where
  "book_delta_init = \<lparr>bd_symbol = replicate kSymbolLen (CHR 0x00), bd_side = 0, bd_price = Int64 0,
     bd_total_quantity = 0, bd_seq_num = 0, bd_timestamp = 0, bd_trace = trace_init\<rparr>"

type_synonym DeltaQueue = "BookDelta ring"

definition delta_queue_init :: DeltaQueue where
  "delta_queue_init = ring_init kDeltaQueueCapacity book_delta_init"

subsection \<open>Formatting\<close>

text \<open>\<open>symbol_view\<close>: the characters before the first \<open>'\0'\<close>.\<close>

function symbol_view_len :: "nat \<Rightarrow> Symbol \<Rightarrow> nat" where
  "symbol_view_len len symbol =
     (if len < length symbol \<and> symbol ! len \<noteq> CHR 0x00 then symbol_view_len (len + 1) symbol else len)"
  by pat_completeness auto
termination
  by (relation "measure (\<lambda>(len, symbol). length symbol - len)") auto

declare symbol_view_len.simps [simp del]

definition symbol_view :: "Symbol \<Rightarrow> string" where
  "symbol_view symbol = take (symbol_view_len 0 symbol) symbol"

text \<open>Decimal output of integers, as by \<open>operator<<\<close> and \<open>std::to_string\<close>.\<close>

fun show_nat :: "nat \<Rightarrow> string" where
  "show_nat n = (if n < 10 then [char_of (48 + n)] else show_nat (n div 10) @ [char_of (48 + n mod 10)])"

declare show_nat.simps [simp del]

definition show_int :: "int \<Rightarrow> string" where
  "show_int z = (if z < 0 then CHR ''-'' # show_nat (nat (- z)) else show_nat (nat z))"

definition format_delta_line :: "BookDelta \<Rightarrow> string" where
  "format_delta_line delta =
     ''seq='' @ show_nat (unat (bd_seq_num delta)) @ '' ts='' @ show_nat (unat (bd_timestamp delta)) @
     '' symbol='' @ symbol_view (bd_symbol delta) @
     '' side='' @ (if bd_side delta = Buy then ''BUY'' else ''SELL'') @
     '' price='' @ show_int (val64 (bd_price delta)) @
     '' qty='' @ (if bd_total_quantity delta = 0 then ''REMOVED'' else show_nat (unat (bd_total_quantity delta)))"

subsection \<open>Sinks\<close>

record LatencySample =
  receive_to_decode :: int
  decode_to_demux :: int
  input_queue_wait :: int
  book_update :: int
  output_queue_wait :: int
  publish_time :: int
  tick_to_book_update :: int
  end_to_end :: int

datatype DeltaSink =
    NullDeltaSink
  | FileDeltaSink string
  | LatencyRecordingSink DeltaSink "LatencySample list"

text \<open>\<open>FileDeltaSink(path)\<close> truncates the file, or throws when it cannot be opened.\<close>

definition open_file_sink :: "bool \<Rightarrow> DeltaSink option" where
  "open_file_sink is_open = (if is_open then Some (FileDeltaSink []) else None)"

definition latency_sample :: "time_point \<Rightarrow> time_point \<Rightarrow> LatencyTrace \<Rightarrow> LatencySample" where
  "latency_sample t_delta_dequeued t_published trace =
     \<lparr>receive_to_decode = t_decoded trace - t_received trace,
      decode_to_demux = t_demuxed trace - t_decoded trace,
      input_queue_wait = t_dequeued trace - t_demuxed trace,
      book_update = t_book_updated trace - t_dequeued trace,
      output_queue_wait = t_delta_dequeued - t_book_updated trace,
      publish_time = t_published - t_delta_dequeued,
      tick_to_book_update = t_book_updated trace - t_received trace,
      end_to_end = t_published - t_received trace\<rparr>"

fun publish :: "clock \<Rightarrow> BookDelta \<Rightarrow> DeltaSink \<times> nat \<Rightarrow> DeltaSink \<times> nat" where
  "publish now delta (NullDeltaSink, k) = (NullDeltaSink, k)"
| "publish now delta (FileDeltaSink out, k) = (FileDeltaSink (out @ format_delta_line delta @ [CHR 0x0A]), k)"
| "publish now delta (LatencyRecordingSink inner samples, k) =
     (let t_delta_dequeued = now k;
          (inner, k) = publish now delta (inner, Suc k);
          t_published = now k
      in (LatencyRecordingSink inner (samples @ [latency_sample t_delta_dequeued t_published (bd_trace delta)]), Suc k))"

subsection \<open>Draining the queue\<close>

lemma try_pop_decreases: "try_pop r = (Some x, r') \<Longrightarrow> rb_count r' < rb_count r"
proof -
  assume pop: "try_pop r = (Some x, r')"
  then have ne: "rb_tail r \<noteq> rb_head r" by (auto simp: try_pop_def Let_def)
  moreover have "rb_head r' = rb_head r + 1" "rb_tail r' = rb_tail r"
    using pop by (auto simp: try_pop_def Let_def cas_head_def set_reader_active_def split: if_splits)
  ultimately show ?thesis
    using unat_minus_one [of "rb_tail r - rb_head r"] by (simp add: rb_count_def diff_diff_eq unat_gt_0)
qed

function drain_publisher_queue :: "clock \<Rightarrow> DeltaQueue \<Rightarrow> DeltaSink \<times> nat \<Rightarrow> bool \<times> DeltaQueue \<times> DeltaSink \<times> nat" where
  "drain_publisher_queue now queue sink =
     (case try_pop queue of
        (None, queue) \<Rightarrow> (False, queue, sink)
      | (Some delta, queue) \<Rightarrow>
          (let (_, queue, sink) = drain_publisher_queue now queue (publish now delta sink) in (True, queue, sink)))"
  by pat_completeness auto
termination
  by (relation "measure (\<lambda>(now, queue, sink). rb_count queue)") (auto dest: try_pop_decreases [OF sym])

declare drain_publisher_queue.simps [simp del]


subsection \<open>Properties of the output format\<close>

definition read_nat :: "string \<Rightarrow> nat" where
  "read_nat s = foldl (\<lambda>n c. 10 * n + (of_char c - 48)) 0 s"

lemma read_show_nat: "read_nat (show_nat n) = n"
proof (induction n rule: show_nat.induct)
  case (1 n)
  show ?case
  proof (cases "n < 10")
    case True
    then show ?thesis by (simp add: show_nat.simps [of n] read_nat_def)
  next
    case False
    then have "read_nat (show_nat n) = 10 * read_nat (show_nat (n div 10)) + n mod 10"
      by (simp add: show_nat.simps [of n] read_nat_def)
    then show ?thesis using 1 False by simp
  qed
qed

definition is_digit :: "char \<Rightarrow> bool" where
  "is_digit c \<longleftrightarrow> 48 \<le> (of_char c :: nat) \<and> (of_char c :: nat) \<le> 57"

lemma show_nat_digits: "c \<in> set (show_nat n) \<Longrightarrow> is_digit c"
proof (induction n rule: show_nat.induct)
  case (1 n)
  show ?case
  proof (cases "n < 10")
    case True
    then show ?thesis using 1(2) by (simp add: show_nat.simps [of n] is_digit_def)
  next
    case False
    then have "c \<in> set (show_nat (n div 10)) \<or> c = char_of (48 + n mod 10)"
      using 1(2) by (auto simp: show_nat.simps [of n])
    moreover have "is_digit (char_of (48 + n mod 10))" by (simp add: is_digit_def)
    ultimately show ?thesis using 1(1) [OF False] by blast
  qed
qed

lemma show_nat_nonempty: "show_nat n \<noteq> []"
  by (simp add: show_nat.simps [of n])

lemma show_nat_inj: "show_nat m = show_nat n \<longleftrightarrow> m = n"
  using read_show_nat by metis

lemma not_digits: "\<not> is_digit (CHR ''-'')" "\<not> is_digit (CHR '' '')" "\<not> is_digit (CHR ''R'')"
  by (simp_all add: is_digit_def)

lemma show_nat_not_Cons: "\<not> is_digit c \<Longrightarrow> c # s \<noteq> show_nat n"
  using show_nat_digits [of c n] by (metis list.set_intros(1))

lemma show_int_inj: "show_int x = show_int y \<longleftrightarrow> x = y"
  using show_nat_not_Cons [OF not_digits(1)]
  by (auto simp: show_int_def show_nat_inj nat_eq_iff dest: sym split: if_splits)

lemma show_nat_no_blank: "CHR '' '' \<notin> set (show_nat n)"
  using show_nat_digits not_digits by blast

lemma show_int_no_blank: "CHR '' '' \<notin> set (show_int z)"
  by (simp add: show_int_def show_nat_no_blank)

text \<open>A field that contains no blank ends at the first blank.\<close>

lemma field_split:
  "x \<notin> set xs \<Longrightarrow> x \<notin> set ys \<Longrightarrow> xs @ x # us = ys @ x # vs \<longleftrightarrow> xs = ys \<and> us = vs"
proof (induction xs arbitrary: ys)
  case Nil
  then show ?case by (cases ys) auto
next
  case (Cons a xs)
  then show ?case by (cases ys) auto
qed

subsection \<open>Properties of draining\<close>

lemma drain_all:
  assumes "ring_ok q"
  shows "\<exists>q'. drain_publisher_queue now q sink = (rb_contents q \<noteq> [], q', fold (publish now) (rb_contents q) sink) \<and>
     ring_ok q' \<and> rb_contents q' = [] \<and> rb_capacity q' = rb_capacity q \<and>
     dropped_updates_total q' = dropped_updates_total q"
  using assms
proof (induction "rb_contents q" arbitrary: q sink)
  case Nil
  then have "try_pop q = (None, q)" using ring.pop_empty [of q] by simp
  then show ?case using Nil by (simp add: drain_publisher_queue.simps [of now q])
next
  case (Cons d ds)
  obtain q1 where q1: "try_pop q = (Some d, q1)" "ring_ok q1" "rb_capacity q1 = rb_capacity q"
      "rb_contents q1 = ds" "dropped_updates_total q1 = dropped_updates_total q"
    using ring.pop_contract [OF Cons.prems Cons.hyps(2) [symmetric]] by blast
  show ?case
    using Cons.hyps(1) [OF q1(4) [symmetric] q1(2), of "publish now d sink"] q1 Cons.hyps(2) [symmetric]
    by (auto simp: drain_publisher_queue.simps [of now q])
qed

lemma publish_file: "fold (publish now) ds (FileDeltaSink out, k) =
    (FileDeltaSink (out @ concat (map (\<lambda>d. format_delta_line d @ [CHR 0x0A]) ds)), k)"
  by (induction ds arbitrary: out) simp_all


subsection \<open>Theorems\<close>

text \<open>
  Draining the output queue terminates, publishes every queued delta exactly once and in order,
  leaves the queue empty and reports whether there was anything; a \<open>FileDeltaSink\<close> then holds one line per
  delta, in queue order, after what it held before.
\<close>

theorem drain_publishes_all:
  assumes "ring_ok q"
  shows "\<exists>q'. drain_publisher_queue now q (FileDeltaSink out, k) =
       (rb_contents q \<noteq> [], q',
        FileDeltaSink (out @ concat (map (\<lambda>d. format_delta_line d @ [CHR 0x0A]) (rb_contents q))), k) \<and>
     ring_ok q' \<and> rb_contents q' = []"
  using drain_all [OF assms, of now "(FileDeltaSink out, k)"] by (auto simp: publish_file)

theorem drain_publishes_all_witness:
  "\<exists>q q'. push book_delta_init delta_queue_init = Some q \<and>
     drain_publisher_queue (\<lambda>_. 0) q (FileDeltaSink [], 0) =
       (True, q', FileDeltaSink (format_delta_line book_delta_init @ [CHR 0x0A]), 0) \<and> rb_contents q' = []"
proof -
  have "ring_ok delta_queue_init" "rb_contents delta_queue_init = []" "rb_capacity delta_queue_init = 4096"
    using ring_init_ok [of 4096 book_delta_init] by (simp_all add: delta_queue_init_def kDeltaQueueCapacity_def)
  then obtain q where q: "push book_delta_init delta_queue_init = Some q" "ring_ok q" "rb_contents q = [book_delta_init]"
    using ring.push_contract [of delta_queue_init book_delta_init] by (auto simp: drop_oldest_push_def)
  show ?thesis using drain_publishes_all [OF q(2), of "\<lambda>_. 0" "[]" 0] q by auto
qed

text \<open>
  A published line determines the delta: two deltas whose tickers contain no blank have the same line
  only if they agree in sequence number, timestamp, ticker, side, price and quantity (so \<open>REMOVED\<close> is
  printed for quantity zero and for no other).
\<close>

theorem format_delta_line_injective:
  assumes "CHR '' '' \<notin> set (symbol_view (bd_symbol d))" "CHR '' '' \<notin> set (symbol_view (bd_symbol d'))"
    and "format_delta_line d = format_delta_line d'"
  shows "bd_seq_num d = bd_seq_num d' \<and> bd_timestamp d = bd_timestamp d' \<and>
     symbol_view (bd_symbol d) = symbol_view (bd_symbol d') \<and> (bd_side d = Buy \<longleftrightarrow> bd_side d' = Buy) \<and>
     bd_price d = bd_price d' \<and> bd_total_quantity d = bd_total_quantity d'"
proof -
  note split = field_split [of "CHR '' ''"]
  have "''REMOVED'' \<noteq> show_nat n" for n using show_nat_not_Cons [OF not_digits(3)] by simp
  then show ?thesis
    using assms
    by (auto simp: format_delta_line_def split show_nat_no_blank show_int_no_blank show_nat_inj show_int_inj
        word_unat_eq_iff split: if_splits dest: sym)
qed

theorem format_delta_line_injective_witness:
  "let d = book_delta_init\<lparr>bd_symbol := make_symbol ''AAPL'', bd_price := Int64 (-5), bd_total_quantity := 3\<rparr>
   in symbol_view (bd_symbol d) = ''AAPL'' \<and> show_int (-5) = ''-5'' \<and>
      format_delta_line d \<noteq> format_delta_line (d\<lparr>bd_total_quantity := 0\<rparr>)"
proof -
  define d where "d = book_delta_init\<lparr>bd_symbol := make_symbol ''AAPL'', bd_price := Int64 (-5), bd_total_quantity := 3\<rparr>"
  have view: "symbol_view (bd_symbol d) = ''AAPL''"
    by (simp add: d_def symbol_view_def make_symbol_def make_symbol_loop.simps symbol_view_len.simps kSymbolLen_def
        numeral_eq_Suc)
  have "format_delta_line d \<noteq> format_delta_line (d\<lparr>bd_total_quantity := 0\<rparr>)"
    using format_delta_line_injective [of d "d\<lparr>bd_total_quantity := 0\<rparr>"] view by (auto simp: d_def)
  moreover have "show_int (-5) = ''-5''"
    by (simp add: show_int_def show_nat.simps char_of_def bit_0)
  ultimately show ?thesis using view by (simp add: d_def Let_def)
qed

text \<open>
  The latency breakdown adds up: in every sample the four input stages sum to the tick-to-book-update
  time and all six stages to the end-to-end time; with a clock that never goes back and a trace taken in
  stage order before, no stage is negative.
\<close>

theorem latency_breakdown:
  assumes "mono now" and "t_received tr \<le> t_decoded tr" "t_decoded tr \<le> t_demuxed tr"
    "t_demuxed tr \<le> t_dequeued tr" "t_dequeued tr \<le> t_book_updated tr" "t_book_updated tr \<le> now k"
    and "publish now (d\<lparr>bd_trace := tr\<rparr>) (LatencyRecordingSink inner samples, k) = (sink, k')"
  shows "\<exists>inner' smp. sink = LatencyRecordingSink inner' (samples @ [smp]) \<and>
     receive_to_decode smp + decode_to_demux smp + input_queue_wait smp + book_update smp = tick_to_book_update smp \<and>
     tick_to_book_update smp + output_queue_wait smp + publish_time smp = end_to_end smp \<and>
     0 \<le> receive_to_decode smp \<and> 0 \<le> decode_to_demux smp \<and> 0 \<le> input_queue_wait smp \<and>
     0 \<le> book_update smp \<and> 0 \<le> output_queue_wait smp \<and> 0 \<le> publish_time smp"
proof -
  have ticks: "j \<le> snd (publish now e (s, j))" for e s j
  proof (induction s arbitrary: j)
    case (LatencyRecordingSink s x)
    have "Suc j \<le> snd (publish now e (s, Suc j))" by (rule LatencyRecordingSink)
    then show ?case by (auto simp: Let_def split: prod.splits)
  qed auto
  obtain inner' k1 where inner: "publish now (d\<lparr>bd_trace := tr\<rparr>) (inner, Suc k) = (inner', k1)" by fastforce
  have "now k \<le> now k1"
    using ticks [of "Suc k" "d\<lparr>bd_trace := tr\<rparr>" inner] inner assms(1) by (auto simp: mono_def)
  then show ?thesis using assms inner by (auto simp: Let_def latency_sample_def)
qed

theorem latency_breakdown_witness:
  "\<exists>inner' smp k'. publish int (book_delta_init\<lparr>bd_trace := trace_init\<lparr>t_decoded := 2, t_demuxed := 3, t_dequeued := 5,
       t_book_updated := 7\<rparr>\<rparr>) (LatencyRecordingSink NullDeltaSink [], 9) = (LatencyRecordingSink inner' [smp], k') \<and>
     tick_to_book_update smp = 7 \<and> 7 + output_queue_wait smp + publish_time smp = end_to_end smp"
proof -
  let ?tr = "trace_init\<lparr>t_decoded := 2, t_demuxed := 3, t_dequeued := 5, t_book_updated := 7\<rparr>"
  let ?d = "book_delta_init\<lparr>bd_trace := ?tr\<rparr>"
  obtain sink k' where run: "publish int ?d (LatencyRecordingSink NullDeltaSink [], 9) = (sink, k')" by fastforce
  have "mono int" by (simp add: mono_def)
  from latency_breakdown [OF this, of ?tr 9 book_delta_init NullDeltaSink "[]" sink k'] run
  obtain inner' smp where "sink = LatencyRecordingSink inner' [smp]"
    "tick_to_book_update smp + output_queue_wait smp + publish_time smp = end_to_end smp"
    by (auto simp: trace_init_def)
  moreover have "tick_to_book_update smp = 7" using run calculation by (auto simp: latency_sample_def trace_init_def)
  ultimately show ?thesis using run by auto
qed

end
