(* ===== verification/Ordered_Map.thy ===== *)
theory Ordered_Map
  imports Prelude
begin

text \<open>
  \<open>std::map\<close> with a comparator: an association list kept in the comparator's order, so that its
  head is \<open>begin()\<close>.  \<open>find\<close> is \<open>map_of\<close>, \<open>erase\<close> is \<open>AList.delete\<close>, and \<open>omap_insert\<close> stores a
  value under a key (the effect of assigning through \<open>operator[]\<close>).  The locale asks for a
  strict total order and derives the map laws; the order book interprets it for
  \<open>std::greater<Price>\<close> and \<open>std::less<Price>\<close>.
\<close>

fun omap_insert :: "('k \<Rightarrow> 'k \<Rightarrow> bool) \<Rightarrow> 'k \<Rightarrow> 'v \<Rightarrow> ('k \<times> 'v) list \<Rightarrow> ('k \<times> 'v) list" where
  "omap_insert lt k v [] = [(k, v)]"
| "omap_insert lt k v ((k', v') # m) =
     (if lt k k' then (k, v) # (k', v') # m
      else if lt k' k then (k', v') # omap_insert lt k v m
      else (k, v) # m)"

locale ordered_map =
  fixes lt :: "'k \<Rightarrow> 'k \<Rightarrow> bool"
  assumes lt_irrefl: "\<not> lt x x"
    and lt_trans: "lt x y \<Longrightarrow> lt y z \<Longrightarrow> lt x z"
    and lt_total: "x \<noteq> y \<Longrightarrow> lt x y \<or> lt y x"
begin

lemma lt_not_eq: "lt x y \<Longrightarrow> x \<noteq> y"
  using lt_irrefl by blast

lemma keys_omap_insert: "fst ` set (omap_insert lt k v m) = insert k (fst ` set m)"
proof (induction m)
  case (Cons kv m)
  then show ?case using lt_total by (cases kv) auto
qed simp

lemma sorted_omap_insert:
  "sorted_wrt lt (map fst m) \<Longrightarrow> sorted_wrt lt (map fst (omap_insert lt k v m))"
proof (induction m)
  case (Cons kv m)
  obtain k' v' where kv: "kv = (k', v')" by (cases kv)
  have below: "\<forall>x \<in> fst ` set m. lt k' x" and m: "sorted_wrt lt (map fst m)"
    using Cons.prems kv by auto
  show ?case
    using Cons.IH [OF m] below kv lt_total [of k k'] lt_trans [of k k'] Cons.prems
    by (auto simp: keys_omap_insert)
qed simp

lemma sorted_keys_distinct: "sorted_wrt lt ks \<Longrightarrow> distinct ks"
  by (induction ks) (auto dest: lt_not_eq)

lemma map_of_omap_insert:
  "sorted_wrt lt (map fst m) \<Longrightarrow> map_of (omap_insert lt k v m) = (map_of m)(k \<mapsto> v)"
proof (induction m)
  case (Cons kv m)
  obtain k' v' where kv: "kv = (k', v')" by (cases kv)
  have IH: "map_of (omap_insert lt k v m) = (map_of m)(k \<mapsto> v)"
    by (rule Cons.IH) (use Cons.prems in simp)
  show ?case
    using kv IH lt_not_eq [of k k'] lt_not_eq [of k' k] lt_total [of k k']
    by (auto simp: fun_eq_iff)
qed simp

lemma sorted_delete:
  assumes "sorted_wrt lt (map fst m)"
  shows "sorted_wrt lt (map fst (AList.delete k m))"
proof -
  have "map fst (AList.delete k m) = filter (\<lambda>x. x \<noteq> k) (map fst m)"
    by (induction m) auto
  then show ?thesis using assms by (simp add: sorted_wrt_filter)
qed

text \<open>The head of the list, \<open>*begin()\<close>, has the first key in the comparator's order.\<close>

lemma begin_first:
  "sorted_wrt lt (map fst ((k, v) # m)) \<Longrightarrow> map_of ((k, v) # m) k' = Some v' \<Longrightarrow> k' = k \<or> lt k k'"
  by (force dest: map_of_SomeD split: if_splits)

end

end
