(* ===== verification/Order_Book.thy ===== *)
theory Order_Book
  imports Message_Types Ordered_Map
begin

text \<open>
  The limit order book of one symbol, \<open>orderbook/order_book.hpp\<close> and \<open>orderbook/order_book.cpp\<close>.

  The two price ladders are \<open>std::map\<close>s from price to level, best price first; a level keeps the
  aggregate quantity (32 bits, wrapping) and its orders in FIFO order.  The orders of a
  \<open>std::list\<close> are nodes of an explicit heap \<open>ob_nodes\<close>: an iterator is a node, the list of a level
  is the list of its nodes, and writing through an iterator changes the heap.  Nodes are numbered in
  the order in which they are allocated (\<open>ob_next\<close> is the next one), so an identity is never
  reused.  \<open>std::unordered_map\<close> is an association list with distinct keys.

  Dereferencing \<open>end()\<close>, a null level or a dangling iterator is \<open>None\<close>.  Node memory is unlimited here;
  \<open>Book_Template\<close> has the book with its allocator.  The specification at the end of the theory is a
  flat list of resting orders in arrival order; the theory \<open>Order_Book_Refinement\<close> proves that the book
  implements it.
\<close>

datatype ApplyError = OrderNotFound | ExecutedQuantityExceedsRemaining | DuplicateOrderId

record RestingOrder =
  ro_order_id :: OrderId
  ro_side :: Side
  ro_price :: Price
  ro_quantity :: Quantity

record PriceLevelView =
  plv_price :: Price
  plv_total_quantity :: Quantity
  plv_order_count :: nat

record BestBidAsk =
  bba_bid :: "PriceLevelView option"
  bba_ask :: "PriceLevelView option"

record LevelDelta =
  ld_side :: Side
  ld_price :: Price
  ld_total_quantity :: Quantity

text \<open>\<open>std::array<LevelDelta, 2>\<close> and the number of entries in use.\<close>

record ApplyResult =
  ar_deltas :: "LevelDelta list"
  ar_count :: nat

definition ar_init :: ApplyResult where
  "ar_init = \<lparr>ar_deltas = replicate 2 \<lparr>ld_side = 0, ld_price = Int64 0, ld_total_quantity = 0\<rparr>, ar_count = 0\<rparr>"

definition ar_add :: "Side \<Rightarrow> Price \<Rightarrow> Quantity \<Rightarrow> ApplyResult \<Rightarrow> ApplyResult option" where
  "ar_add side price total_quantity r =
     (if ar_count r < length (ar_deltas r)
      then Some \<lparr>ar_deltas = (ar_deltas r)[ar_count r :=
                   \<lparr>ld_side = side, ld_price = price, ld_total_quantity = total_quantity\<rparr>],
                 ar_count = ar_count r + 1\<rparr>
      else None)"

record DepthSnapshot =
  ds_bids :: "PriceLevelView list"
  ds_asks :: "PriceLevelView list"

type_synonym node = nat

record Level =
  lv_total_quantity :: Quantity
  lv_orders :: "node list"

definition empty_level :: Level where
  "empty_level = \<lparr>lv_total_quantity = 0, lv_orders = []\<rparr>"

record OrderLocation =
  loc_side :: Side
  loc_price :: Price
  loc_it :: node

record OrderBook =
  ob_bids :: "(Price \<times> Level) list"
  ob_asks :: "(Price \<times> Level) list"
  ob_index :: "(OrderId \<times> OrderLocation) list"
  ob_nodes :: "node \<rightharpoonup> RestingOrder"
  ob_next :: node

definition order_book_init :: OrderBook where
  "order_book_init = \<lparr>ob_bids = [], ob_asks = [], ob_index = [], ob_nodes = Map.empty, ob_next = 0\<rparr>"

subsection \<open>The two ladders\<close>

text \<open>
  Every branch of the source on \<open>side == Side::Buy\<close> does the same to \<open>bids_\<close> as the other branch does
  to \<open>asks_\<close>: the ladder of a side, its comparator and its replacement.
\<close>

definition side_lt :: "Side \<Rightarrow> Price \<Rightarrow> Price \<Rightarrow> bool" where
  "side_lt side = (if side = Buy then (>) else (<))"

definition ladder :: "Side \<Rightarrow> OrderBook \<Rightarrow> (Price \<times> Level) list" where
  "ladder side b = (if side = Buy then ob_bids b else ob_asks b)"

definition set_ladder :: "Side \<Rightarrow> (Price \<times> Level) list \<Rightarrow> OrderBook \<Rightarrow> OrderBook" where
  "set_ladder side m b = (if side = Buy then b\<lparr>ob_bids := m\<rparr> else b\<lparr>ob_asks := m\<rparr>)"

definition level_for :: "Side \<Rightarrow> Price \<Rightarrow> OrderBook \<Rightarrow> Level option" where
  "level_for side price b = map_of (ladder side b) price"

definition has_order :: "OrderId \<Rightarrow> OrderBook \<Rightarrow> bool" where
  "has_order order_id b \<longleftrightarrow> map_of (ob_index b) order_id \<noteq> None"

subsection \<open>Inserting and removing resting orders\<close>

definition insert_resting_order :: "RestingOrder \<Rightarrow> OrderBook \<Rightarrow> Quantity \<times> OrderBook" where
  "insert_resting_order order b =
     (let order_id = ro_order_id order; side = ro_side order; price = ro_price order;
          quantity = ro_quantity order;
          level = (case map_of (ladder side b) price of None \<Rightarrow> empty_level | Some l \<Rightarrow> l);
          it = ob_next b;
          b = b\<lparr>ob_nodes := (ob_nodes b)(it \<mapsto> order), ob_next := it + 1\<rparr>;
          level = level\<lparr>lv_orders := lv_orders level @ [it]\<rparr>;
          level = level\<lparr>lv_total_quantity := lv_total_quantity level + quantity\<rparr>;
          b = set_ladder side (omap_insert (side_lt side) price level (ladder side b)) b;
          b = b\<lparr>ob_index := AList.update order_id
                  \<lparr>loc_side = side, loc_price = price, loc_it = it\<rparr> (ob_index b)\<rparr>
      in (lv_total_quantity level, b))"

definition remove_resting_order :: "OrderId \<Rightarrow> OrderBook \<Rightarrow> (LevelDelta \<times> OrderBook) option" where
  "remove_resting_order order_id b = do {
     loc \<leftarrow> map_of (ob_index b) order_id;
     let side = loc_side loc;
     let price = loc_price loc;
     let it = loc_it loc;
     level \<leftarrow> map_of (ladder side b) price;
     order \<leftarrow> ob_nodes b it;
     let level = level\<lparr>lv_total_quantity := lv_total_quantity level - ro_quantity order\<rparr>;
     if it \<notin> set (lv_orders level) then None else do {
       let level = level\<lparr>lv_orders := remove1 it (lv_orders level)\<rparr>;
       let b = b\<lparr>ob_nodes := (ob_nodes b)(it := None)\<rparr>;
       let (m, remaining_total) =
         (if lv_orders level = [] then (AList.delete price (ladder side b), 0)
          else (omap_insert (side_lt side) price level (ladder side b), lv_total_quantity level));
       let b = set_ladder side m b;
       let b = b\<lparr>ob_index := AList.delete order_id (ob_index b)\<rparr>;
       Some (\<lparr>ld_side = side, ld_price = price, ld_total_quantity = remaining_total\<rparr>, b) } }"

subsection \<open>Applying messages\<close>

type_synonym apply_outcome = "(ApplyError + ApplyResult) \<times> OrderBook"

definition apply_add :: "AddOrder \<Rightarrow> OrderBook \<Rightarrow> apply_outcome option" where
  "apply_add msg b =
     (if has_order (add_order_id msg) b then Some (Inl DuplicateOrderId, b)
      else do {
        let (total, b) = insert_resting_order
          \<lparr>ro_order_id = add_order_id msg, ro_side = add_side msg, ro_price = add_price msg,
           ro_quantity = add_quantity msg\<rparr> b;
        result \<leftarrow> ar_add (add_side msg) (add_price msg) total ar_init;
        Some (Inr result, b) })"

definition apply_cancel :: "CancelOrder \<Rightarrow> OrderBook \<Rightarrow> apply_outcome option" where
  "apply_cancel msg b =
     (if \<not> has_order (cxl_order_id msg) b then Some (Inl OrderNotFound, b)
      else do {
        (touched, b) \<leftarrow> remove_resting_order (cxl_order_id msg) b;
        result \<leftarrow> ar_add (ld_side touched) (ld_price touched) (ld_total_quantity touched) ar_init;
        Some (Inr result, b) })"

definition apply_execute :: "ExecuteOrder \<Rightarrow> OrderBook \<Rightarrow> apply_outcome option" where
  "apply_execute msg b =
     (case map_of (ob_index b) (exe_order_id msg) of
        None \<Rightarrow> Some (Inl OrderNotFound, b)
      | Some loc \<Rightarrow> do {
          order \<leftarrow> ob_nodes b (loc_it loc);
          if ro_quantity order < exe_executed_quantity msg
          then Some (Inl ExecutedQuantityExceedsRemaining, b)
          else do {
            level \<leftarrow> level_for (loc_side loc) (loc_price loc) b;
            let level = level\<lparr>lv_total_quantity := lv_total_quantity level - exe_executed_quantity msg\<rparr>;
            let b = set_ladder (loc_side loc)
              (omap_insert (side_lt (loc_side loc)) (loc_price loc) level (ladder (loc_side loc) b)) b;
            let order = order\<lparr>ro_quantity := ro_quantity order - exe_executed_quantity msg\<rparr>;
            let b = b\<lparr>ob_nodes := (ob_nodes b)(loc_it loc \<mapsto> order)\<rparr>;
            if ro_quantity order = 0
            then do {
              (touched, b) \<leftarrow> remove_resting_order (exe_order_id msg) b;
              result \<leftarrow> ar_add (ld_side touched) (ld_price touched) (ld_total_quantity touched) ar_init;
              Some (Inr result, b) }
            else do {
              result \<leftarrow> ar_add (loc_side loc) (loc_price loc) (lv_total_quantity level) ar_init;
              Some (Inr result, b) } } })"

definition apply_replace :: "ReplaceOrder \<Rightarrow> OrderBook \<Rightarrow> apply_outcome option" where
  "apply_replace msg b =
     (case map_of (ob_index b) (rep_old_order_id msg) of
        None \<Rightarrow> Some (Inl OrderNotFound, b)
      | Some loc \<Rightarrow>
          if has_order (rep_new_order_id msg) b then Some (Inl DuplicateOrderId, b)
          else do {
            let side = loc_side loc;
            (vacated, b) \<leftarrow> remove_resting_order (rep_old_order_id msg) b;
            let (new_total, b) = insert_resting_order
              \<lparr>ro_order_id = rep_new_order_id msg, ro_side = side, ro_price = rep_price msg,
               ro_quantity = rep_quantity msg\<rparr> b;
            result \<leftarrow> ar_add (ld_side vacated) (ld_price vacated) (ld_total_quantity vacated) ar_init;
            result \<leftarrow> ar_add side (rep_price msg) new_total result;
            Some (Inr result, b) })"

text \<open>Overload resolution of \<open>apply\<close> on the message's type.\<close>

fun apply_msg :: "DecodedMessage \<Rightarrow> OrderBook \<Rightarrow> apply_outcome option" where
  "apply_msg (AddMsg m) b = apply_add m b"
| "apply_msg (CancelMsg m) b = apply_cancel m b"
| "apply_msg (ExecuteMsg m) b = apply_execute m b"
| "apply_msg (ReplaceMsg m) b = apply_replace m b"

subsection \<open>Queries\<close>

definition level_view :: "Price \<times> Level \<Rightarrow> PriceLevelView" where
  "level_view kv = (case kv of (price, level) \<Rightarrow>
     \<lparr>plv_price = price, plv_total_quantity = lv_total_quantity level,
      plv_order_count = length (lv_orders level)\<rparr>)"

definition best_bid_ask :: "OrderBook \<Rightarrow> BestBidAsk" where
  "best_bid_ask b =
     \<lparr>bba_bid = (case ob_bids b of [] \<Rightarrow> None | kv # _ \<Rightarrow> Some (level_view kv)),
      bba_ask = (case ob_asks b of [] \<Rightarrow> None | kv # _ \<Rightarrow> Some (level_view kv))\<rparr>"

text \<open>\<open>for (const auto& [price, level] : m) { if (count++ >= levels) break; push_back(...); }\<close>\<close>

fun depth_loop :: "nat \<Rightarrow> nat \<Rightarrow> (Price \<times> Level) list \<Rightarrow> PriceLevelView list" where
  "depth_loop count levels [] = []"
| "depth_loop count levels (kv # m) =
     (if levels \<le> count then [] else level_view kv # depth_loop (count + 1) levels m)"

definition depth_snapshot :: "nat \<Rightarrow> OrderBook \<Rightarrow> DepthSnapshot" where
  "depth_snapshot levels b =
     \<lparr>ds_bids = depth_loop 0 levels (ob_bids b), ds_asks = depth_loop 0 levels (ob_asks b)\<rparr>"

subsection \<open>Specification: a flat list of resting orders\<close>

text \<open>The orders of one price level, in arrival order, and their aggregate quantity.\<close>

definition at_level :: "Side \<Rightarrow> Price \<Rightarrow> RestingOrder \<Rightarrow> bool" where
  "at_level side price ord \<longleftrightarrow> (ro_side ord = Buy \<longleftrightarrow> side = Buy) \<and> ro_price ord = price"

definition spec_total :: "RestingOrder list \<Rightarrow> Side \<Rightarrow> Price \<Rightarrow> Quantity" where
  "spec_total L side price = sum_list (map ro_quantity (filter (at_level side price) L))"

definition spec_delta :: "RestingOrder list \<Rightarrow> Side \<Rightarrow> Price \<Rightarrow> LevelDelta" where
  "spec_delta L side price =
     \<lparr>ld_side = side, ld_price = price, ld_total_quantity = spec_total L side price\<rparr>"

definition spec_find :: "OrderId \<Rightarrow> RestingOrder list \<Rightarrow> RestingOrder option" where
  "spec_find i L = List.find (\<lambda>ord. ro_order_id ord = i) L"

definition spec_remove :: "OrderId \<Rightarrow> RestingOrder list \<Rightarrow> RestingOrder list" where
  "spec_remove i L = filter (\<lambda>ord. ro_order_id ord \<noteq> i) L"

definition spec_reduce :: "OrderId \<Rightarrow> Quantity \<Rightarrow> RestingOrder list \<Rightarrow> RestingOrder list" where
  "spec_reduce i q L =
     map (\<lambda>ord. if ro_order_id ord = i then ord\<lparr>ro_quantity := ro_quantity ord - q\<rparr> else ord) L"

fun spec_apply :: "DecodedMessage \<Rightarrow> RestingOrder list \<Rightarrow> (ApplyError + LevelDelta list) \<times> RestingOrder list" where
  "spec_apply (AddMsg m) L =
     (case spec_find (add_order_id m) L of
        Some _ \<Rightarrow> (Inl DuplicateOrderId, L)
      | None \<Rightarrow>
          let L' = L @ [\<lparr>ro_order_id = add_order_id m, ro_side = add_side m, ro_price = add_price m,
                          ro_quantity = add_quantity m\<rparr>]
          in (Inr [spec_delta L' (add_side m) (add_price m)], L'))"
| "spec_apply (CancelMsg m) L =
     (case spec_find (cxl_order_id m) L of
        None \<Rightarrow> (Inl OrderNotFound, L)
      | Some ord \<Rightarrow>
          let L' = spec_remove (cxl_order_id m) L
          in (Inr [spec_delta L' (ro_side ord) (ro_price ord)], L'))"
| "spec_apply (ExecuteMsg m) L =
     (case spec_find (exe_order_id m) L of
        None \<Rightarrow> (Inl OrderNotFound, L)
      | Some ord \<Rightarrow>
          if ro_quantity ord < exe_executed_quantity m then (Inl ExecutedQuantityExceedsRemaining, L)
          else
            let L' = (if ro_quantity ord = exe_executed_quantity m then spec_remove (exe_order_id m) L
                      else spec_reduce (exe_order_id m) (exe_executed_quantity m) L)
            in (Inr [spec_delta L' (ro_side ord) (ro_price ord)], L'))"
| "spec_apply (ReplaceMsg m) L =
     (case spec_find (rep_old_order_id m) L of
        None \<Rightarrow> (Inl OrderNotFound, L)
      | Some ord \<Rightarrow>
          if spec_find (rep_new_order_id m) L \<noteq> None then (Inl DuplicateOrderId, L)
          else
            let L1 = spec_remove (rep_old_order_id m) L;
                L2 = L1 @ [\<lparr>ro_order_id = rep_new_order_id m, ro_side = ro_side ord,
                            ro_price = rep_price m, ro_quantity = rep_quantity m\<rparr>]
            in (Inr [spec_delta L1 (ro_side ord) (ro_price ord),
                     spec_delta L2 (ro_side ord) (rep_price m)], L2))"

text \<open>The entries of an \<open>ApplyResult\<close> that are in use.\<close>

definition result_deltas :: "ApplyResult \<Rightarrow> LevelDelta list" where
  "result_deltas r = take (ar_count r) (ar_deltas r)"

fun outcome_deltas :: "ApplyError + ApplyResult \<Rightarrow> ApplyError + LevelDelta list" where
  "outcome_deltas (Inl e) = Inl e"
| "outcome_deltas (Inr r) = Inr (result_deltas r)"

subsection \<open>Abstraction and invariant\<close>

text \<open>The live nodes in allocation order, with the orders they hold.\<close>

primrec live :: "(nat \<rightharpoonup> 'a) \<Rightarrow> nat \<Rightarrow> (nat \<times> 'a) list" where
  "live h 0 = []"
| "live h (Suc k) = live h k @ (case h k of None \<Rightarrow> [] | Some x \<Rightarrow> [(k, x)])"

definition book_pairs :: "OrderBook \<Rightarrow> (node \<times> RestingOrder) list" where
  "book_pairs b = live (ob_nodes b) (ob_next b)"

definition book_orders :: "OrderBook \<Rightarrow> RestingOrder list" where
  "book_orders b = map snd (book_pairs b)"

text \<open>What the ladders and the index must hold, given the live nodes.\<close>

definition level_of :: "(node \<times> RestingOrder) list \<Rightarrow> Side \<Rightarrow> Price \<Rightarrow> Level option" where
  "level_of P side price =
     (let Q = filter (\<lambda>a. at_level side price (snd a)) P
      in if Q = [] then None
         else Some \<lparr>lv_total_quantity = sum_list (map (\<lambda>a. ro_quantity (snd a)) Q),
                    lv_orders = map fst Q\<rparr>)"

definition loc_of :: "(node \<times> RestingOrder) list \<Rightarrow> OrderId \<Rightarrow> OrderLocation option" where
  "loc_of P i = map_option (\<lambda>(n, ord). \<lparr>loc_side = ro_side ord, loc_price = ro_price ord, loc_it = n\<rparr>)
     (List.find (\<lambda>a. ro_order_id (snd a) = i) P)"

definition book_ok :: "OrderBook \<Rightarrow> bool" where
  "book_ok b \<longleftrightarrow>
     dom (ob_nodes b) \<subseteq> {..<ob_next b} \<and>
     distinct (map ro_order_id (book_orders b)) \<and>
     distinct (map fst (ob_index b)) \<and>
     (\<forall>i. map_of (ob_index b) i = loc_of (book_pairs b) i) \<and>
     (\<forall>s. sorted_wrt (side_lt s) (map fst (ladder s b))) \<and>
     (\<forall>s p. map_of (ladder s b) p = level_of (book_pairs b) s p)"

end
