(* ===== verification/Order_Book_Refinement.thy ===== *)
theory Order_Book_Refinement
  imports Order_Book
begin

text \<open>
  The order book implements the flat list of resting orders of \<open>Order_Book\<close>: every message leaves a
  well-formed book, has no undefined behaviour, and gives the result, the deltas and the new list of
  orders of \<open>spec_apply\<close>.  The queries are then read off the list, and the deltas of a sequence of
  messages rebuild the level totals of the book.
\<close>

subsection \<open>The price ladders as ordered maps\<close>

interpretation ladder_order: ordered_map "side_lt s" for s
  by unfold_locales (auto simp: side_lt_def split: if_splits)

lemma ladder_set_ladder [simp]:
  "ladder s' (set_ladder s m b) = (if (s' = Buy) = (s = Buy) then m else ladder s' b)"
  by (auto simp: ladder_def set_ladder_def)

lemma set_ladder_other [simp]:
  "ob_index (set_ladder s m b) = ob_index b"
  "ob_nodes (set_ladder s m b) = ob_nodes b"
  "ob_next (set_ladder s m b) = ob_next b"
  by (simp_all add: set_ladder_def)

lemma ladder_other [simp]:
  "ladder s (b\<lparr>ob_index := x\<rparr>) = ladder s b"
  "ladder s (b\<lparr>ob_nodes := h\<rparr>) = ladder s b"
  "ladder s (b\<lparr>ob_next := k\<rparr>) = ladder s b"
  by (simp_all add: ladder_def)

lemma set_ladder_update:
  "set_ladder s m (b\<lparr>ob_index := x\<rparr>) = (set_ladder s m b)\<lparr>ob_index := x\<rparr>"
  "set_ladder s m (b\<lparr>ob_nodes := h\<rparr>) = (set_ladder s m b)\<lparr>ob_nodes := h\<rparr>"
  "set_ladder s m (b\<lparr>ob_next := k\<rparr>) = (set_ladder s m b)\<lparr>ob_next := k\<rparr>"
  by (simp_all add: set_ladder_def)

lemma side_lt_cong: "(s' = Buy) = (s = Buy) \<Longrightarrow> side_lt s' = side_lt s"
  by (simp add: side_lt_def)

lemma at_level_cong: "(s' = Buy) = (s = Buy) \<Longrightarrow> at_level s' = at_level s"
  by (auto simp: at_level_def fun_eq_iff)

lemma ladder_cong: "(s' = Buy) = (s = Buy) \<Longrightarrow> ladder s' b = ladder s b"
  by (simp add: ladder_def)

subsection \<open>The live nodes\<close>

lemma set_live: "(n, x) \<in> set (live h k) \<longleftrightarrow> n < k \<and> h n = Some x"
  by (induction k) (auto simp: less_Suc_eq split: option.splits)

lemma distinct_live: "distinct (map fst (live h k))"
  by (induction k) (auto simp: set_live split: option.splits)

lemma live_beyond: "k \<le> n \<Longrightarrow> live (h(n := v)) k = live h k"
  by (induction k) auto

lemma live_delete: "live (h(n := None)) k = filter (\<lambda>a. fst a \<noteq> n) (live h k)"
  by (induction k) (auto split: option.splits)

lemma live_update:
  "h n \<noteq> None \<Longrightarrow> live (h(n \<mapsto> x)) k = map (\<lambda>a. (fst a, if fst a = n then x else snd a)) (live h k)"
  by (induction k) (auto split: option.splits)

subsection \<open>Levels of a list of nodes\<close>

definition level_nodes :: "(node \<times> RestingOrder) list \<Rightarrow> Side \<Rightarrow> Price \<Rightarrow> (node \<times> RestingOrder) list" where
  "level_nodes P s p = filter (\<lambda>a. at_level s p (snd a)) P"

definition nodes_total :: "(node \<times> RestingOrder) list \<Rightarrow> Quantity" where
  "nodes_total Q = sum_list (map (\<lambda>a. ro_quantity (snd a)) Q)"

lemma level_of_nodes:
  "level_of P s p =
     (let Q = level_nodes P s p
      in if Q = [] then None else Some \<lparr>lv_total_quantity = nodes_total Q, lv_orders = map fst Q\<rparr>)"
  by (simp add: level_of_def level_nodes_def nodes_total_def Let_def)

lemma spec_total_nodes: "spec_total (map snd P) s p = nodes_total (level_nodes P s p)"
  by (simp add: spec_total_def nodes_total_def level_nodes_def filter_map o_def)

lemma spec_total_level: "level_of P s p = Some l \<Longrightarrow> spec_total (map snd P) s p = lv_total_quantity l"
  by (auto simp: spec_total_nodes level_of_nodes Let_def split: if_splits)

lemma spec_total_no_level: "level_of P s p = None \<Longrightarrow> spec_total (map snd P) s p = 0"
  by (auto simp: spec_total_nodes level_of_nodes Let_def nodes_total_def split: if_splits)

lemma nodes_total_append [simp]: "nodes_total (Q @ R) = nodes_total Q + nodes_total R"
  by (simp add: nodes_total_def)

lemma unique_node:
  assumes "distinct (map fst P)" "(n, ord) \<in> set P" "a \<in> set P" "fst a = n"
  shows "a = (n, ord)"
proof -
  have "inj_on fst (set P)" using assms(1) by (simp add: distinct_map)
  then show ?thesis using assms(2-4) by (metis fst_conv inj_onD)
qed

lemma nodes_total_delete:
  "distinct (map fst Q) \<Longrightarrow> (n, ord) \<in> set Q \<Longrightarrow>
     nodes_total (filter (\<lambda>a. fst a \<noteq> n) Q) = nodes_total Q - ro_quantity ord"
proof (induction Q)
  case (Cons a Q)
  show ?case
  proof (cases "a = (n, ord)")
    case True
    then have "filter (\<lambda>a. fst a \<noteq> n) Q = Q"
      using Cons.prems by (force intro!: filter_True)
    then show ?thesis using True by (simp add: nodes_total_def)
  next
    case False
    then have inQ: "(n, ord) \<in> set Q" using Cons.prems(2) by auto
    then have "fst a \<noteq> n" using unique_node [OF Cons.prems(1), of n ord a] False by auto
    then show ?thesis using Cons inQ by (simp add: nodes_total_def algebra_simps)
  qed
qed simp

lemma nodes_total_update:
  "distinct (map fst Q) \<Longrightarrow> (n, ord) \<in> set Q \<Longrightarrow>
     nodes_total (map (\<lambda>a. (fst a, if fst a = n then ord' else snd a)) Q) =
     nodes_total Q - ro_quantity ord + ro_quantity ord'"
proof (induction Q)
  case (Cons a Q)
  show ?case
  proof (cases "a = (n, ord)")
    case True
    then have "map (\<lambda>a. (fst a, if fst a = n then ord' else snd a)) Q = Q"
      using Cons.prems by (force intro!: map_idI)
    then show ?thesis using True by (simp add: nodes_total_def)
  next
    case False
    then have inQ: "(n, ord) \<in> set Q" using Cons.prems(2) by auto
    then have "fst a \<noteq> n" using unique_node [OF Cons.prems(1), of n ord a] False by auto
    then show ?thesis using Cons inQ by (simp add: nodes_total_def algebra_simps)
  qed
qed simp

lemma map_fst_delete: "map fst (filter (\<lambda>a. fst a \<noteq> n) Q) = filter (\<lambda>n'. n' \<noteq> n) (map fst Q)"
  by (induction Q) auto

lemma level_nodes_delete:
  "level_nodes (filter (\<lambda>a. fst a \<noteq> n) P) s p = filter (\<lambda>a. fst a \<noteq> n) (level_nodes P s p)"
  by (simp add: level_nodes_def conj_commute)

lemma level_nodes_update:
  assumes "\<forall>a \<in> set P. fst a = n \<longrightarrow> at_level s p (snd a) = at_level s p ord'"
  shows "level_nodes (map (\<lambda>a. (fst a, if fst a = n then ord' else snd a)) P) s p =
         map (\<lambda>a. (fst a, if fst a = n then ord' else snd a)) (level_nodes P s p)"
  using assms by (induction P) (auto simp: level_nodes_def)

lemma distinct_level_nodes: "distinct (map fst P) \<Longrightarrow> distinct (map fst (level_nodes P s p))"
  unfolding level_nodes_def by (rule distinct_map_filter)


subsection \<open>Orders by identifier\<close>

lemma find_map_snd: "List.find Q (map snd P) = map_option snd (List.find (\<lambda>a. Q (snd a)) P)"
  by (induction P) auto

lemma spec_find_None: "spec_find i L = None \<longleftrightarrow> i \<notin> ro_order_id ` set L"
  by (auto simp: spec_find_def find_None_iff)

lemma spec_find_Some: "spec_find i L = Some ord \<Longrightarrow> ord \<in> set L \<and> ro_order_id ord = i"
  unfolding spec_find_def by (induction L) (auto split: if_splits)

lemma loc_of_find:
  "spec_find i (map snd P) = Some ord \<Longrightarrow>
     \<exists>n. (n, ord) \<in> set P \<and> ro_order_id ord = i \<and>
         loc_of P i = Some \<lparr>loc_side = ro_side ord, loc_price = ro_price ord, loc_it = n\<rparr>"
proof (induction P)
  case (Cons a P)
  then show ?case
    by (cases a) (auto simp: spec_find_def loc_of_def split: if_splits)
qed (simp add: spec_find_def)

lemma loc_of_None: "loc_of P i = None \<longleftrightarrow> spec_find i (map snd P) = None"
  by (simp add: spec_find_def find_map_snd loc_of_def)

text \<open>With distinct nodes and distinct identifiers a node and the identifier it holds determine each other.\<close>

lemma node_iff_id:
  assumes "distinct (map fst P)" "distinct (map ro_order_id (map snd P))" "(n, ord) \<in> set P" "a \<in> set P"
  shows "fst a = n \<longleftrightarrow> ro_order_id (snd a) = ro_order_id ord"
    and "fst a = n \<Longrightarrow> snd a = ord"
proof -
  have "inj_on (\<lambda>a. ro_order_id (snd a)) (set P)"
    using assms(2) by (simp add: distinct_map o_def comp_inj_on_iff)
  then have "ro_order_id (snd a) = ro_order_id ord \<Longrightarrow> a = (n, ord)"
    using assms(3,4) by (metis snd_conv inj_onD)
  then show "fst a = n \<longleftrightarrow> ro_order_id (snd a) = ro_order_id ord"
    using unique_node [OF assms(1,3,4)] by (metis fst_conv snd_conv)
  show "fst a = n \<Longrightarrow> snd a = ord"
    using unique_node [OF assms(1,3,4)] by simp
qed

lemma delete_node_eq:
  assumes "distinct (map fst P)" "distinct (map ro_order_id (map snd P))" "(n, ord) \<in> set P"
  shows "filter (\<lambda>a. fst a \<noteq> n) P = filter (\<lambda>a. ro_order_id (snd a) \<noteq> ro_order_id ord) P"
  by (rule filter_cong) (use node_iff_id(1) [OF assms] in auto)

lemma find_delete_id:
  "List.find (\<lambda>a. f a = j) (filter (\<lambda>a. f a \<noteq> i) P) =
     (if j = i then None else List.find (\<lambda>a. f a = j) P)"
  by (induction P) auto

lemma loc_of_delete:
  assumes "distinct (map fst P)" "distinct (map ro_order_id (map snd P))" "(n, ord) \<in> set P"
  shows "loc_of (filter (\<lambda>a. fst a \<noteq> n) P) j = (if j = ro_order_id ord then None else loc_of P j)"
  by (simp add: delete_node_eq [OF assms] loc_of_def find_delete_id)

lemma orders_delete:
  assumes "distinct (map fst P)" "distinct (map ro_order_id (map snd P))" "(n, ord) \<in> set P"
  shows "map snd (filter (\<lambda>a. fst a \<noteq> n) P) = spec_remove (ro_order_id ord) (map snd P)"
  by (simp add: delete_node_eq [OF assms] spec_remove_def filter_map o_def)

lemma loc_of_append:
  "ro_order_id ord \<notin> ro_order_id ` snd ` set P \<Longrightarrow>
   loc_of (P @ [(n, ord)]) j =
     (if j = ro_order_id ord then Some \<lparr>loc_side = ro_side ord, loc_price = ro_price ord, loc_it = n\<rparr>
      else loc_of P j)"
  unfolding loc_of_def by (induction P) auto

lemma loc_of_update:
  assumes "\<forall>a \<in> set P. fst a = n \<longrightarrow> ro_order_id (snd a) = ro_order_id ord' \<and>
             ro_side (snd a) = ro_side ord' \<and> ro_price (snd a) = ro_price ord'"
  shows "loc_of (map (\<lambda>a. (fst a, if fst a = n then ord' else snd a)) P) j = loc_of P j"
  using assms unfolding loc_of_def by (induction P) auto

lemma orders_update:
  assumes "distinct (map fst P)" "distinct (map ro_order_id (map snd P))" "(n, ord) \<in> set P"
  shows "map snd (map (\<lambda>a. (fst a, if fst a = n then ord\<lparr>ro_quantity := ro_quantity ord - q\<rparr> else snd a)) P) =
         spec_reduce (ro_order_id ord) q (map snd P)"
  using node_iff_id [OF assms] by (auto simp: spec_reduce_def)

subsection \<open>Levels under insertion, removal and update\<close>

lemma level_of_append:
  "level_of (P @ [(n, ord)]) s p =
     (if at_level s p ord
      then Some (let l = (case level_of P s p of None \<Rightarrow> empty_level | Some l \<Rightarrow> l)
                 in l\<lparr>lv_orders := lv_orders l @ [n], lv_total_quantity := lv_total_quantity l + ro_quantity ord\<rparr>)
      else level_of P s p)"
  by (auto simp: level_of_def empty_level_def Let_def)

lemma level_of_at:
  assumes "(n, ord) \<in> set P" "at_level s p ord"
  shows "level_of P s p = Some \<lparr>lv_total_quantity = nodes_total (level_nodes P s p),
                                lv_orders = map fst (level_nodes P s p)\<rparr>"
    and "(n, ord) \<in> set (level_nodes P s p)"
proof -
  show *: "(n, ord) \<in> set (level_nodes P s p)" using assms by (simp add: level_nodes_def)
  then have "level_nodes P s p \<noteq> []" by force
  then show "level_of P s p = Some \<lparr>lv_total_quantity = nodes_total (level_nodes P s p),
                                lv_orders = map fst (level_nodes P s p)\<rparr>"
    by (simp add: level_of_nodes Let_def)
qed

lemma remove1_filter: "distinct xs \<Longrightarrow> filter (\<lambda>x. x \<noteq> n) xs = remove1 n xs"
  by (induction xs) (auto intro!: filter_True)

lemma level_of_delete:
  assumes "distinct (map fst P)" "(n, ord) \<in> set P"
  shows "level_of (filter (\<lambda>a. fst a \<noteq> n) P) s p =
     (if at_level s p ord
      then (let l = the (level_of P s p)
            in if remove1 n (lv_orders l) = [] then None
               else Some \<lparr>lv_total_quantity = lv_total_quantity l - ro_quantity ord,
                          lv_orders = remove1 n (lv_orders l)\<rparr>)
      else level_of P s p)"
proof (cases "at_level s p ord")
  case True
  note d = distinct_level_nodes [OF assms(1), of s p]
  have "map fst (filter (\<lambda>a. fst a \<noteq> n) (level_nodes P s p)) = remove1 n (map fst (level_nodes P s p))"
    using d by (simp add: map_fst_delete remove1_filter)
  moreover from this
  have "filter (\<lambda>a. fst a \<noteq> n) (level_nodes P s p) = [] \<longleftrightarrow> remove1 n (map fst (level_nodes P s p)) = []"
    by (metis map_is_Nil_conv)
  ultimately show ?thesis
    using True level_of_at [OF assms(2) True] nodes_total_delete [OF d]
    by (simp add: level_of_nodes [of "filter _ P"] level_nodes_delete Let_def)
next
  case False
  then have "\<forall>a \<in> set (level_nodes P s p). fst a \<noteq> n"
    using unique_node [OF assms] by (force simp: level_nodes_def)
  then show ?thesis
    using False by (simp add: level_of_nodes level_nodes_delete)
qed

lemma level_of_update:
  assumes "distinct (map fst P)" "(n, ord) \<in> set P"
    and "ro_side ord' = ro_side ord" "ro_price ord' = ro_price ord"
  shows "level_of (map (\<lambda>a. (fst a, if fst a = n then ord' else snd a)) P) s p =
     (if at_level s p ord
      then Some ((the (level_of P s p))\<lparr>lv_total_quantity :=
             lv_total_quantity (the (level_of P s p)) - ro_quantity ord + ro_quantity ord'\<rparr>)
      else level_of P s p)"
proof -
  have eq: "\<forall>a \<in> set P. fst a = n \<longrightarrow> snd a = ord"
    using unique_node [OF assms(1,2)] by force
  then have same: "\<forall>a \<in> set P. fst a = n \<longrightarrow> at_level s p (snd a) = at_level s p ord'"
    using assms(3,4) by (simp add: at_level_def)
  show ?thesis
  proof (cases "at_level s p ord")
    case True
    then show ?thesis
      using level_of_at [OF assms(2) True] nodes_total_update [OF distinct_level_nodes [OF assms(1)]]
      by (auto simp: level_of_nodes [of "map _ P"] level_nodes_update [OF same] Let_def)
  next
    case False
    then have "\<forall>a \<in> set (level_nodes P s p). fst a \<noteq> n"
      using eq by (auto simp: level_nodes_def)
    then have "map (\<lambda>a. (fst a, if fst a = n then ord' else snd a)) (level_nodes P s p) = level_nodes P s p"
      by (intro map_idI) auto
    then show ?thesis using False by (simp add: level_of_nodes level_nodes_update [OF same])
  qed
qed


subsection \<open>The invariant\<close>

lemma book_okD:
  assumes "book_ok b"
  shows "ob_nodes b n = Some ord \<Longrightarrow> n < ob_next b"
    and "distinct (map ro_order_id (map snd (book_pairs b)))"
    and "distinct (map fst (ob_index b))"
    and "map_of (ob_index b) i = loc_of (book_pairs b) i"
    and "sorted_wrt (side_lt s) (map fst (ladder s b))"
    and "map_of (ladder s b) p = level_of (book_pairs b) s p"
  using assms by (auto simp: book_ok_def book_orders_def)

lemma book_pairs_nodes: "(n, ord) \<in> set (book_pairs b) \<Longrightarrow> ob_nodes b n = Some ord"
  by (simp add: book_pairs_def set_live)

lemma distinct_book_pairs: "distinct (map fst (book_pairs b))"
  by (simp add: book_pairs_def distinct_live)

lemma at_level_self [simp]: "at_level (ro_side ord) (ro_price ord) ord"
  by (simp add: at_level_def)

lemma book_ok_init: "book_ok order_book_init"
  by (simp add: book_ok_def order_book_init_def book_orders_def book_pairs_def ladder_def
      loc_of_def level_of_def)

lemma has_order_iff: "book_ok b \<Longrightarrow> has_order i b \<longleftrightarrow> spec_find i (book_orders b) \<noteq> None"
  by (simp add: has_order_def book_okD(4) loc_of_None book_orders_def)

lemma index_None: "book_ok b \<Longrightarrow> spec_find i (book_orders b) = None \<Longrightarrow> map_of (ob_index b) i = None"
  by (simp add: book_okD(4) loc_of_None book_orders_def)

text \<open>
  What \<open>book_ok\<close> asks of a changed ladder: it is sorted and holds the levels of the new pairs at the
  changed price and those of the old pairs elsewhere.
\<close>

lemma ladder_change:
  assumes ok: "book_ok b"
    and sorted: "sorted_wrt (side_lt s) (map fst m)"
    and here: "map_of m p = level_of P s p"
    and elsewhere: "\<And>p'. p' \<noteq> p \<Longrightarrow> map_of m p' = map_of (ladder s b) p'"
    and same: "\<And>s' p'. \<not> at_level s' p' ord \<Longrightarrow> level_of P s' p' = level_of (book_pairs b) s' p'"
    and ord: "at_level s p ord"
  shows "sorted_wrt (side_lt s') (map fst (ladder s' (set_ladder s m b)))"
    and "map_of (ladder s' (set_ladder s m b)) p' = level_of P s' p'"
proof -
  show "sorted_wrt (side_lt s') (map fst (ladder s' (set_ladder s m b)))"
    using sorted book_okD(5) [OF ok] by (simp add: side_lt_cong [of s' s])
  show "map_of (ladder s' (set_ladder s m b)) p' = level_of P s' p'"
  proof (cases "at_level s' p' ord")
    case True
    then have "(s' = Buy) = (s = Buy)" "p' = p" using ord by (auto simp: at_level_def)
    then show ?thesis using here at_level_cong [of s' s] by (simp add: level_of_def)
  next
    case False
    then have "(s' = Buy) = (s = Buy) \<Longrightarrow> p' \<noteq> p" using ord by (auto simp: at_level_def)
    then show ?thesis
      using elsewhere [of p'] same [OF False] book_okD(6) [OF ok, of s' p'] ladder_cong [of s' s b] by auto
  qed
qed

subsection \<open>Insertion\<close>

lemma insert_resting_order_ok:
  assumes ok: "book_ok b" and fresh: "spec_find (ro_order_id ord) (book_orders b) = None"
    and run: "insert_resting_order ord b = (new_total, b')"
  shows "book_ok b' \<and> book_orders b' = book_orders b @ [ord] \<and>
         new_total = spec_total (book_orders b') (ro_side ord) (ro_price ord)"
proof -
  let ?s = "ro_side ord" and ?p = "ro_price ord" and ?P = "book_pairs b" and ?P' = "book_pairs b @ [(ob_next b, ord)]"
  define l where "l = (case level_of ?P ?s ?p of None \<Rightarrow> empty_level | Some l \<Rightarrow> l)"
  define l' where "l' = l\<lparr>lv_orders := lv_orders l @ [ob_next b], lv_total_quantity := lv_total_quantity l + ro_quantity ord\<rparr>"
  let ?m = "omap_insert (side_lt ?s) ?p l' (ladder ?s b)"
  have tot: "new_total = lv_total_quantity l'"
    and b': "b' = (set_ladder ?s ?m b)\<lparr>ob_nodes := (ob_nodes b)(ob_next b \<mapsto> ord), ob_next := ob_next b + 1,
         ob_index := AList.update (ro_order_id ord)
           \<lparr>loc_side = ?s, loc_price = ?p, loc_it = ob_next b\<rparr> (ob_index b)\<rparr>"
    using run by (auto simp: insert_resting_order_def Let_def l_def l'_def book_okD(6) [OF ok] set_ladder_update)
  have pairs: "book_pairs b' = ?P'"
    using b' book_okD(1) [OF ok] by (simp add: book_pairs_def live_beyond)
  have lvl: "level_of ?P' ?s ?p = Some l'"
    unfolding level_of_append l_def l'_def Let_def by simp
  have new: "ro_order_id ord \<notin> ro_order_id ` snd ` set ?P"
    using fresh by (simp add: book_orders_def spec_find_None)
  note map_m = ladder_order.map_of_omap_insert [OF book_okD(5) [OF ok]]
  note ladders = ladder_change [OF ok, of ?s ?m ?p ?P' ord, OF ladder_order.sorted_omap_insert [OF book_okD(5) [OF ok]]]
  have lad: "ladder s' b' = ladder s' (set_ladder ?s ?m b)" for s'
    using b' by simp
  have same: "level_of ?P' s' p' = level_of ?P s' p'" if "\<not> at_level s' p' ord" for s' p'
    using that by (simp add: level_of_append)
  have "\<forall>s'. sorted_wrt (side_lt s') (map fst (ladder s' b'))"
    unfolding lad by (intro allI ladders(1)) (simp_all add: map_m lvl same)
  moreover have "\<forall>s' p'. map_of (ladder s' b') p' = level_of ?P' s' p'"
    unfolding lad by (intro allI ladders(2)) (simp_all add: map_m lvl same)
  moreover have "dom (ob_nodes b') \<subseteq> {..<ob_next b'}"
    using ok b' by (auto simp: book_ok_def)
  moreover have "\<forall>i. map_of (ob_index b') i = loc_of ?P' i"
    using b' by (simp add: loc_of_append [OF new] update_conv book_okD(4) [OF ok])
  moreover have "distinct (map fst (ob_index b'))"
    using b' book_okD(3) [OF ok] by (simp add: distinct_update)
  moreover have orders: "book_orders b' = book_orders b @ [ord]"
    by (simp add: book_orders_def pairs)
  moreover have "distinct (map ro_order_id (book_orders b'))"
    using orders ok new by (auto simp: book_ok_def book_orders_def)
  ultimately have "book_ok b'" by (simp add: book_ok_def pairs)
  moreover have "new_total = spec_total (book_orders b') ?s ?p"
    using spec_total_level [OF lvl] tot by (simp only: book_orders_def pairs)
  ultimately show ?thesis using orders by simp
qed

subsection \<open>Removal\<close>

lemma remove_resting_order_ok:
  assumes ok: "book_ok b" and found: "spec_find i (book_orders b) = Some ord"
  shows "\<exists>b'. remove_resting_order i b =
           Some (spec_delta (spec_remove i (book_orders b)) (ro_side ord) (ro_price ord), b') \<and>
         book_ok b' \<and> book_orders b' = spec_remove i (book_orders b)"
proof -
  let ?s = "ro_side ord" and ?p = "ro_price ord" and ?P = "book_pairs b"
  obtain n where n: "(n, ord) \<in> set ?P" and i: "ro_order_id ord = i"
    and loc: "map_of (ob_index b) i = Some \<lparr>loc_side = ?s, loc_price = ?p, loc_it = n\<rparr>"
    using loc_of_find [OF found [unfolded book_orders_def]] book_okD(4) [OF ok] by auto
  let ?P' = "filter (\<lambda>a. fst a \<noteq> n) ?P" and ?Q = "level_nodes ?P ?s ?p"
  define l' where "l' = \<lparr>lv_total_quantity = nodes_total ?Q - ro_quantity ord, lv_orders = remove1 n (map fst ?Q)\<rparr>"
  define m where "m = (if lv_orders l' = [] then AList.delete ?p (ladder ?s b)
                       else omap_insert (side_lt ?s) ?p l' (ladder ?s b))"
  define b' where "b' = (set_ladder ?s m b)\<lparr>ob_nodes := (ob_nodes b)(n := None), ob_index := AList.delete i (ob_index b)\<rparr>"
  note dP = distinct_book_pairs [of b]
  note level = level_of_at [OF n at_level_self]
  have level': "level_of ?P' ?s ?p = (if lv_orders l' = [] then None else Some l')"
    using level_of_delete [OF dP n, of ?s ?p] level(1) by (simp add: l'_def Let_def)
  have total: "spec_total (spec_remove i (book_orders b)) ?s ?p = (if lv_orders l' = [] then 0 else lv_total_quantity l')"
    using level' spec_total_level [of ?P'] spec_total_no_level [of ?P']
      orders_delete [OF dP book_okD(2) [OF ok] n] by (simp add: book_orders_def i)
  have "n \<in> set (map fst ?Q)" using level(2) by force
  then have run: "remove_resting_order i b = Some (spec_delta (spec_remove i (book_orders b)) ?s ?p, b')"
    using level(1) book_pairs_nodes [OF n]
    by (simp add: remove_resting_order_def loc book_okD(6) [OF ok] Let_def spec_delta_def total
        b'_def m_def l'_def set_ladder_update)
  have pairs: "book_pairs b' = ?P'"
    by (simp add: b'_def book_pairs_def live_delete)
  have sorted: "sorted_wrt (side_lt ?s) (map fst m)"
    using book_okD(5) [OF ok] by (simp add: m_def ladder_order.sorted_delete ladder_order.sorted_omap_insert)
  have map_m: "map_of m = (map_of (ladder ?s b))(?p := level_of ?P' ?s ?p)"
    using ladder_order.map_of_omap_insert [OF book_okD(5) [OF ok, of ?s]] level'
    by (auto simp: m_def delete_conv)
  have lad: "ladder s' b' = ladder s' (set_ladder ?s m b)" for s'
    by (simp add: b'_def)
  note ladders = ladder_change [OF ok sorted, of ?p ?P' ord]
  have "\<forall>s'. sorted_wrt (side_lt s') (map fst (ladder s' b'))"
    unfolding lad by (intro allI ladders(1)) (simp_all add: map_m level_of_delete [OF dP n])
  moreover have "\<forall>s' p'. map_of (ladder s' b') p' = level_of ?P' s' p'"
    unfolding lad by (intro allI ladders(2)) (simp_all add: map_m level_of_delete [OF dP n])
  moreover have orders: "book_orders b' = spec_remove i (book_orders b)"
    using orders_delete [OF dP book_okD(2) [OF ok] n] by (simp add: book_orders_def pairs i)
  moreover have "dom (ob_nodes b') \<subseteq> {..<ob_next b'}"
    using ok by (auto simp: book_ok_def b'_def)
  moreover have "\<forall>j. map_of (ob_index b') j = loc_of ?P' j"
    using loc_of_delete [OF dP book_okD(2) [OF ok] n]
    by (simp add: b'_def delete_conv i book_okD(4) [OF ok])
  moreover have "distinct (map fst (ob_index b'))"
    using book_okD(3) [OF ok] by (simp add: b'_def distinct_delete)
  moreover have "distinct (map ro_order_id (book_orders b'))"
    using orders ok by (simp add: book_ok_def spec_remove_def distinct_map_filter)
  ultimately have "book_ok b'" by (simp add: book_ok_def pairs)
  then show ?thesis using run orders by blast
qed


subsection \<open>Partial execution\<close>

text \<open>The first part of \<open>apply(ExecuteOrder)\<close>: the level and the order lose the executed quantity.\<close>

definition reduce_order :: "OrderLocation \<Rightarrow> RestingOrder \<Rightarrow> Level \<Rightarrow> Quantity \<Rightarrow> OrderBook \<Rightarrow> OrderBook" where
  "reduce_order loc ord level q b =
     (set_ladder (loc_side loc) (omap_insert (side_lt (loc_side loc)) (loc_price loc)
        (level\<lparr>lv_total_quantity := lv_total_quantity level - q\<rparr>) (ladder (loc_side loc) b)) b)
     \<lparr>ob_nodes := (ob_nodes b)(loc_it loc \<mapsto> ord\<lparr>ro_quantity := ro_quantity ord - q\<rparr>)\<rparr>"

lemma reduce_order_ok:
  assumes ok: "book_ok b" and found: "spec_find i (book_orders b) = Some ord"
  obtains loc level where
    "map_of (ob_index b) i = Some loc" "loc_side loc = ro_side ord" "loc_price loc = ro_price ord"
    "ob_nodes b (loc_it loc) = Some ord"
    "level_for (ro_side ord) (ro_price ord) b = Some level"
    "book_ok (reduce_order loc ord level q b)"
    "book_orders (reduce_order loc ord level q b) = spec_reduce i q (book_orders b)"
    "lv_total_quantity level - q = spec_total (spec_reduce i q (book_orders b)) (ro_side ord) (ro_price ord)"
proof -
  let ?s = "ro_side ord" and ?p = "ro_price ord" and ?P = "book_pairs b"
  let ?o = "ord\<lparr>ro_quantity := ro_quantity ord - q\<rparr>"
  obtain n where n: "(n, ord) \<in> set ?P" and i: "ro_order_id ord = i"
    and loc: "map_of (ob_index b) i = Some \<lparr>loc_side = ?s, loc_price = ?p, loc_it = n\<rparr>"
    using loc_of_find [OF found [unfolded book_orders_def]] book_okD(4) [OF ok] by auto
  let ?loc = "\<lparr>loc_side = ?s, loc_price = ?p, loc_it = n\<rparr>"
  let ?P' = "map (\<lambda>a. (fst a, if fst a = n then ?o else snd a)) ?P"
  note dP = distinct_book_pairs [of b]
  obtain level where level: "level_of ?P ?s ?p = Some level"
    using level_of_at(1) [OF n at_level_self] by blast
  let ?m = "omap_insert (side_lt ?s) ?p (level\<lparr>lv_total_quantity := lv_total_quantity level - q\<rparr>) (ladder ?s b)"
  let ?b' = "reduce_order ?loc ord level q b"
  have node: "ob_nodes b n = Some ord" by (rule book_pairs_nodes [OF n])
  have pairs: "book_pairs ?b' = ?P'"
    by (simp add: reduce_order_def book_pairs_def live_update node)
  have lvl: "level_of ?P' ?s ?p = Some (level\<lparr>lv_total_quantity := lv_total_quantity level - q\<rparr>)"
    using level_of_update [OF dP n, of ?o ?s ?p] level by simp
  note map_m = ladder_order.map_of_omap_insert [OF book_okD(5) [OF ok]]
  have lad: "ladder s' ?b' = ladder s' (set_ladder ?s ?m b)" for s'
    by (simp add: reduce_order_def)
  note ladders = ladder_change [OF ok, of ?s ?m ?p ?P' ord, OF ladder_order.sorted_omap_insert [OF book_okD(5) [OF ok]]]
  have same: "level_of ?P' s' p' = level_of ?P s' p'" if "\<not> at_level s' p' ord" for s' p'
    using level_of_update [OF dP n, of ?o s' p'] that by simp
  have "\<forall>s'. sorted_wrt (side_lt s') (map fst (ladder s' ?b'))"
    unfolding lad by (intro allI ladders(1)) (simp_all add: map_m lvl same)
  moreover have "\<forall>s' p'. map_of (ladder s' ?b') p' = level_of ?P' s' p'"
    unfolding lad by (intro allI ladders(2)) (simp_all add: map_m lvl same)
  moreover have orders: "book_orders ?b' = spec_reduce i q (book_orders b)"
    using orders_update [OF dP book_okD(2) [OF ok] n] by (simp add: book_orders_def pairs i)
  moreover have "dom (ob_nodes ?b') \<subseteq> {..<ob_next ?b'}"
    using ok node by (auto simp: book_ok_def reduce_order_def)
  moreover have "\<forall>j. map_of (ob_index ?b') j = loc_of ?P' j"
    using node_iff_id(2) [OF dP book_okD(2) [OF ok] n] book_okD(4) [OF ok]
    by (subst loc_of_update) (auto simp: reduce_order_def)
  moreover have "distinct (map fst (ob_index ?b'))"
    using book_okD(3) [OF ok] by (simp add: reduce_order_def)
  moreover have "map ro_order_id (book_orders ?b') = map ro_order_id (book_orders b)"
    by (simp add: orders spec_reduce_def)
  ultimately have "book_ok ?b'" using ok by (simp add: book_ok_def pairs)
  moreover have "lv_total_quantity level - q = spec_total (spec_reduce i q (book_orders b)) ?s ?p"
    using spec_total_level [OF lvl] orders by (simp add: book_orders_def pairs del: map_map)
  ultimately show ?thesis
    using that [of ?loc level] loc node level orders by (simp add: level_for_def book_okD(6) [OF ok])
qed

lemma spec_remove_reduce: "spec_remove i (spec_reduce i q L) = spec_remove i L"
  by (induction L) (auto simp: spec_remove_def spec_reduce_def)

lemma spec_find_reduce:
  "spec_find i L = Some ord \<Longrightarrow> spec_find i (spec_reduce i q L) = Some (ord\<lparr>ro_quantity := ro_quantity ord - q\<rparr>)"
  by (induction L) (auto simp: spec_find_def spec_reduce_def)

subsection \<open>The refinement\<close>

lemma result_deltas_add:
  "ar_add s p q ar_init = Some r \<Longrightarrow> result_deltas r = [\<lparr>ld_side = s, ld_price = p, ld_total_quantity = q\<rparr>]"
  "ar_add s p q ar_init = Some r \<Longrightarrow> ar_add s' p' q' r = Some r' \<Longrightarrow>
     result_deltas r' = [\<lparr>ld_side = s, ld_price = p, ld_total_quantity = q\<rparr>,
                         \<lparr>ld_side = s', ld_price = p', ld_total_quantity = q'\<rparr>]"
  by (auto simp: ar_add_def ar_init_def result_deltas_def numeral_2_eq_2 split: if_splits)

lemma ar_add_total:
  "\<exists>r. ar_add s p q ar_init = Some r"
  "ar_add s p q ar_init = Some r \<Longrightarrow> \<exists>r'. ar_add s' p' q' r = Some r'"
  by (auto simp: ar_add_def ar_init_def split: if_splits)

text \<open>
  \<open>book_step\<close> is the refinement statement for one message: no undefined behaviour, the invariant is
  kept, and the outcome is that of the specification.
\<close>

definition book_step :: "DecodedMessage \<Rightarrow> OrderBook \<Rightarrow> bool" where
  "book_step m b \<longleftrightarrow>
     (case apply_msg m b of
        None \<Rightarrow> False
      | Some (r, b') \<Rightarrow> book_ok b' \<and> spec_apply m (book_orders b) = (outcome_deltas r, book_orders b'))"

lemma apply_add_step: "book_ok b \<Longrightarrow> book_step (AddMsg m) b"
proof (cases "spec_find (add_order_id m) (book_orders b)")
  case None
  assume ok: "book_ok b"
  let ?o = "\<lparr>ro_order_id = add_order_id m, ro_side = add_side m, ro_price = add_price m, ro_quantity = add_quantity m\<rparr>"
  obtain t b' where run: "insert_resting_order ?o b = (t, b')" by fastforce
  obtain r where r: "ar_add (add_side m) (add_price m) t ar_init = Some r" using ar_add_total(1) by blast
  show ?thesis
    using insert_resting_order_ok [OF ok _ run] None result_deltas_add(1) [OF r] has_order_iff [OF ok] run r
    by (simp add: book_step_def apply_add_def spec_delta_def Let_def)
next
  case (Some ord)
  assume ok: "book_ok b"
  then show ?thesis using Some has_order_iff [OF ok] by (simp add: book_step_def apply_add_def)
qed

lemma apply_cancel_step: "book_ok b \<Longrightarrow> book_step (CancelMsg m) b"
proof (cases "spec_find (cxl_order_id m) (book_orders b)")
  case None
  assume ok: "book_ok b"
  then show ?thesis using None has_order_iff [OF ok] by (simp add: book_step_def apply_cancel_def)
next
  case (Some ord)
  assume ok: "book_ok b"
  obtain b' where run: "remove_resting_order (cxl_order_id m) b =
      Some (spec_delta (spec_remove (cxl_order_id m) (book_orders b)) (ro_side ord) (ro_price ord), b')"
    and b': "book_ok b'" "book_orders b' = spec_remove (cxl_order_id m) (book_orders b)"
    using remove_resting_order_ok [OF ok Some] by blast
  obtain r where r: "ar_add (ro_side ord) (ro_price ord)
      (spec_total (spec_remove (cxl_order_id m) (book_orders b)) (ro_side ord) (ro_price ord)) ar_init = Some r"
    using ar_add_total(1) by blast
  show ?thesis
    using Some run b' r result_deltas_add(1) [OF r] has_order_iff [OF ok]
    by (simp add: book_step_def apply_cancel_def spec_delta_def Let_def)
qed


lemma apply_execute_step: "book_ok b \<Longrightarrow> book_step (ExecuteMsg m) b"
proof (cases "spec_find (exe_order_id m) (book_orders b)")
  case None
  assume ok: "book_ok b"
  then show ?thesis using None index_None [OF ok None] by (simp add: book_step_def apply_execute_def)
next
  case (Some ord)
  assume ok: "book_ok b"
  let ?i = "exe_order_id m" and ?q = "exe_executed_quantity m" and ?L = "book_orders b"
  let ?s = "ro_side ord" and ?p = "ro_price ord"
  obtain loc level where loc: "map_of (ob_index b) ?i = Some loc" "loc_side loc = ?s" "loc_price loc = ?p"
    and node: "ob_nodes b (loc_it loc) = Some ord" and level: "level_for ?s ?p b = Some level"
    and ok': "book_ok (reduce_order loc ord level ?q b)"
    and orders: "book_orders (reduce_order loc ord level ?q b) = spec_reduce ?i ?q ?L"
    and tot: "lv_total_quantity level - ?q = spec_total (spec_reduce ?i ?q ?L) ?s ?p"
    using reduce_order_ok [OF ok Some] by blast
  obtain b' where run: "remove_resting_order ?i (reduce_order loc ord level ?q b) =
      Some (spec_delta (spec_remove ?i ?L) ?s ?p, b')"
    and b': "book_ok b'" "book_orders b' = spec_remove ?i ?L"
    using remove_resting_order_ok [OF ok' spec_find_reduce [OF Some, of ?q, folded orders]]
    by (auto simp: orders spec_remove_reduce)
  obtain r1 where r1: "ar_add ?s ?p (spec_total (spec_remove ?i ?L) ?s ?p) ar_init = Some r1"
    using ar_add_total(1) by blast
  obtain r2 where r2: "ar_add ?s ?p (lv_total_quantity level - ?q) ar_init = Some r2"
    using ar_add_total(1) by blast
  show ?thesis
    using Some loc node level ok ok' orders tot run b' r1 r2 result_deltas_add(1) [OF r1] result_deltas_add(1) [OF r2]
    by (auto simp: book_step_def apply_execute_def spec_delta_def reduce_order_def Let_def)
qed

lemma apply_replace_step: "book_ok b \<Longrightarrow> book_step (ReplaceMsg m) b"
proof (cases "spec_find (rep_old_order_id m) (book_orders b)")
  case None
  assume ok: "book_ok b"
  then show ?thesis using None index_None [OF ok None] by (simp add: book_step_def apply_replace_def)
next
  case (Some ord)
  assume ok: "book_ok b"
  let ?i = "rep_old_order_id m" and ?j = "rep_new_order_id m" and ?L = "book_orders b"
  let ?s = "ro_side ord" and ?p = "ro_price ord"
  let ?o = "\<lparr>ro_order_id = ?j, ro_side = ?s, ro_price = rep_price m, ro_quantity = rep_quantity m\<rparr>"
  obtain loc where loc: "map_of (ob_index b) ?i = Some loc" "loc_side loc = ?s"
    using reduce_order_ok [OF ok Some, where q = 0] by blast
  obtain b1 where run1: "remove_resting_order ?i b = Some (spec_delta (spec_remove ?i ?L) ?s ?p, b1)"
    and b1: "book_ok b1" "book_orders b1 = spec_remove ?i ?L"
    using remove_resting_order_ok [OF ok Some] by blast
  obtain t b2 where run2: "insert_resting_order ?o b1 = (t, b2)" by fastforce
  obtain r1 where r1: "ar_add ?s ?p (spec_total (spec_remove ?i ?L) ?s ?p) ar_init = Some r1"
    using ar_add_total(1) by blast
  obtain r2 where r2: "ar_add ?s (rep_price m) t r1 = Some r2" using ar_add_total(2) [OF r1] by blast
  have b2: "book_ok b2 \<and> book_orders b2 = spec_remove ?i ?L @ [?o] \<and>
      t = spec_total (spec_remove ?i ?L @ [?o]) ?s (rep_price m)" if "spec_find ?j ?L = None"
  proof -
    have "spec_find (ro_order_id ?o) (book_orders b1) = None"
      using that b1(2) by (auto simp: spec_find_None spec_remove_def)
    from insert_resting_order_ok [OF b1(1) this run2] show ?thesis using b1(2) by auto
  qed
  show ?thesis
    using Some loc run1 run2 b2 r1 r2 ok has_order_iff [OF ok, of ?j] result_deltas_add(2) [OF r1 r2]
    by (cases "spec_find ?j ?L") (auto simp: book_step_def apply_replace_def spec_delta_def Let_def)
qed

lemma book_step: "book_ok b \<Longrightarrow> book_step m b"
  by (cases m) (simp_all add: apply_add_step apply_cancel_step apply_execute_step apply_replace_step)

end
