(* ===== verification/Order_Book_Properties.thy ===== *)
theory Order_Book_Properties
  imports Order_Book_Refinement
begin

text \<open>
  What a client of the order book relies on, for every sequence of messages applied to an empty book.
\<close>

subsection \<open>Sequences of messages\<close>

fun apply_all :: "DecodedMessage list \<Rightarrow> OrderBook \<Rightarrow> ((ApplyError + ApplyResult) list \<times> OrderBook) option" where
  "apply_all [] b = Some ([], b)"
| "apply_all (m # ms) b = do {
     (r, b) \<leftarrow> apply_msg m b;
     (rs, b) \<leftarrow> apply_all ms b;
     Some (r # rs, b) }"

fun spec_apply_all :: "DecodedMessage list \<Rightarrow> RestingOrder list \<Rightarrow>
    (ApplyError + LevelDelta list) list \<times> RestingOrder list" where
  "spec_apply_all [] L = ([], L)"
| "spec_apply_all (m # ms) L =
     (let (r, L) = spec_apply m L; (rs, L) = spec_apply_all ms L in (r # rs, L))"

lemma book_stepE:
  assumes "book_ok b"
  obtains r b' where "apply_msg m b = Some (r, b')" "book_ok b'"
    "spec_apply m (book_orders b) = (outcome_deltas r, book_orders b')"
  using book_step [OF assms, of m] by (auto simp: book_step_def split: option.splits)

lemma apply_all_refines:
  "book_ok b \<Longrightarrow> \<exists>rs b'. apply_all ms b = Some (rs, b') \<and> book_ok b' \<and>
     spec_apply_all ms (book_orders b) = (map outcome_deltas rs, book_orders b')"
proof (induction ms arbitrary: b)
  case (Cons m ms)
  obtain r b1 where step: "apply_msg m b = Some (r, b1)" "book_ok b1"
    "spec_apply m (book_orders b) = (outcome_deltas r, book_orders b1)"
    using book_stepE [OF Cons.prems] .
  obtain rs b2 where "apply_all ms b1 = Some (rs, b2)" "book_ok b2"
    "spec_apply_all ms (book_orders b1) = (map outcome_deltas rs, book_orders b2)"
    using Cons.IH [OF step(2)] by blast
  then show ?case using step by simp
qed simp

lemma apply_all_ok:
  assumes "apply_all ms order_book_init = Some (rs, b)"
  shows "book_ok b"
    and "spec_apply_all ms [] = (map outcome_deltas rs, book_orders b)"
proof -
  have "book_orders order_book_init = []"
    by (simp add: book_orders_def book_pairs_def order_book_init_def)
  then show "book_ok b" "spec_apply_all ms [] = (map outcome_deltas rs, book_orders b)"
    using apply_all_refines [OF book_ok_init, of ms] assms by auto
qed

subsection \<open>Ladders and the levels of the orders\<close>

definition same_side :: "Side \<Rightarrow> RestingOrder \<Rightarrow> bool" where
  "same_side s ord \<longleftrightarrow> (ro_side ord = Buy \<longleftrightarrow> s = Buy)"

definition side_prices :: "RestingOrder list \<Rightarrow> Side \<Rightarrow> Price set" where
  "side_prices L s = set (map ro_price (filter (same_side s) L))"

definition spec_view :: "RestingOrder list \<Rightarrow> Side \<Rightarrow> Price \<Rightarrow> PriceLevelView" where
  "spec_view L s p = \<lparr>plv_price = p, plv_total_quantity = spec_total L s p,
                      plv_order_count = length (filter (at_level s p) L)\<rparr>"

lemma finite_side_prices [simp]: "finite (side_prices L s)"
  by (simp add: side_prices_def)

lemma level_of_None_iff: "level_of P s p = None \<longleftrightarrow> p \<notin> side_prices (map snd P) s"
  by (auto simp: level_of_nodes level_nodes_def Let_def filter_empty_conv side_prices_def same_side_def
      at_level_def image_iff)

lemma ladder_keys: "book_ok b \<Longrightarrow> set (map fst (ladder s b)) = side_prices (book_orders b) s"
proof -
  assume ok: "book_ok b"
  have "p \<in> set (map fst (ladder s b)) \<longleftrightarrow> p \<in> side_prices (book_orders b) s" for p
    using book_okD(6) [OF ok, of s p] level_of_None_iff [of "book_pairs b" s p]
    by (metis book_orders_def map_of_eq_None_iff list.set_map)
  then show ?thesis by blast
qed

lemma ladder_view:
  assumes ok: "book_ok b" and kv: "(p, l) \<in> set (ladder s b)"
  shows "level_view (p, l) = spec_view (book_orders b) s p"
proof -
  have "distinct (map fst (ladder s b))"
    by (rule ladder_order.sorted_keys_distinct [OF book_okD(5) [OF ok]])
  then have l: "level_of (book_pairs b) s p = Some l"
    using kv book_okD(6) [OF ok] by (metis map_of_eq_Some_iff)
  then have "length (lv_orders l) = length (filter (at_level s p) (book_orders b))"
    by (auto simp: level_of_def book_orders_def filter_map o_def Let_def split: if_splits)
  then show ?thesis
    using spec_total_level [OF l] by (simp add: level_view_def spec_view_def book_orders_def)
qed

lemma ladder_asks: "book_ok b \<Longrightarrow> s \<noteq> Buy \<Longrightarrow>
    map fst (ladder s b) = sorted_list_of_set (side_prices (book_orders b) s)"
  using book_okD(5) [of b s] ladder_keys [of b s]
  by (intro strict_sorted_equal) (auto simp: side_lt_def)

lemma ladder_bids: "book_ok b \<Longrightarrow>
    map fst (ladder Buy b) = rev (sorted_list_of_set (side_prices (book_orders b) Buy))"
proof -
  assume ok: "book_ok b"
  have "sorted_wrt (<) (rev (map fst (ladder Buy b)))"
    using book_okD(5) [OF ok, of Buy] by (simp add: sorted_wrt_rev side_lt_def)
  then have "rev (map fst (ladder Buy b)) = sorted_list_of_set (side_prices (book_orders b) Buy)"
    using ladder_keys [OF ok, of Buy] by (intro strict_sorted_equal) auto
  then show ?thesis by (metis rev_rev_ident)
qed

lemma depth_loop_take: "depth_loop count levels m = map level_view (take (levels - count) m)"
  by (induction m arbitrary: count) (auto simp: take_Cons' Suc_diff_Suc)

lemma map_level_view:
  assumes "book_ok b" "set m \<subseteq> set (ladder s b)"
  shows "map level_view m = map (spec_view (book_orders b) s) (map fst m)"
  using ladder_view [OF assms(1), where s = s] assms(2) by auto


subsection \<open>Deltas as seen by a downstream consumer\<close>

text \<open>A consumer keeps one total per side and price and overwrites it with each delta.\<close>

fun replay_delta :: "LevelDelta \<Rightarrow> (bool \<times> Price \<Rightarrow> Quantity) \<Rightarrow> bool \<times> Price \<Rightarrow> Quantity" where
  "replay_delta d view = view((ld_side d = Buy, ld_price d) := ld_total_quantity d)"

declare replay_delta.simps [simp del]

fun successful_deltas :: "(ApplyError + ApplyResult) list \<Rightarrow> LevelDelta list" where
  "successful_deltas [] = []"
| "successful_deltas (Inl e # rs) = successful_deltas rs"
| "successful_deltas (Inr r # rs) = result_deltas r @ successful_deltas rs"

definition book_totals :: "RestingOrder list \<Rightarrow> bool \<times> Price \<Rightarrow> Quantity" where
  "book_totals L = (\<lambda>(buy, p). spec_total L (if buy then Buy else Sell) p)"

lemma Buy_neq_Sell [simp]: "Sell \<noteq> Buy"
  by (simp add: Buy_def Sell_def)

lemma spec_total_cong: "(s = Buy) = (s' = Buy) \<Longrightarrow> spec_total L s p = spec_total L s' p"
  by (simp add: spec_total_def at_level_cong [of s s'])

lemma book_totals_at: "book_totals L (s = Buy, p) = spec_total L s p"
  by (simp add: book_totals_def spec_total_cong [of s Sell])

text \<open>A change to one order changes no total but those of its own level.\<close>

lemma book_totals_replay:
  assumes "\<And>s' p'. \<not> ((s' = Buy) = (s = Buy) \<and> p' = p) \<Longrightarrow> filter (at_level s' p') L' = filter (at_level s' p') L"
  shows "replay_delta (spec_delta L' s p) (book_totals L) = book_totals L'"
proof
  fix x :: "bool \<times> Price"
  obtain buy p' where x: "x = (buy, p')" by (cases x)
  show "replay_delta (spec_delta L' s p) (book_totals L) x = book_totals L' x"
    using assms [of "if buy then Buy else Sell" p'] book_totals_at [of L' s p] x
    by (auto simp: replay_delta.simps spec_delta_def book_totals_def spec_total_def split: if_splits)
qed

lemma filter_at_level_append:
  "\<not> ((s' = Buy) = (ro_side ord = Buy) \<and> p' = ro_price ord) \<Longrightarrow>
     filter (at_level s' p') (L @ [ord]) = filter (at_level s' p') L"
  by (auto simp: at_level_def)

lemma filter_at_level_remove:
  assumes "distinct (map ro_order_id L)" "ord \<in> set L"
    and "\<not> ((s' = Buy) = (ro_side ord = Buy) \<and> p' = ro_price ord)"
  shows "filter (at_level s' p') (spec_remove (ro_order_id ord) L) = filter (at_level s' p') L"
proof -
  have "at_level s' p' x \<Longrightarrow> x \<in> set L \<Longrightarrow> ro_order_id x \<noteq> ro_order_id ord" for x
    using assms by (auto simp: distinct_map at_level_def dest: inj_onD)
  then show ?thesis unfolding spec_remove_def filter_filter by (intro filter_cong) auto
qed

lemma filter_at_level_reduce:
  assumes "distinct (map ro_order_id L)" "ord \<in> set L"
    and "\<not> ((s' = Buy) = (ro_side ord = Buy) \<and> p' = ro_price ord)"
  shows "filter (at_level s' p') (spec_reduce (ro_order_id ord) q L) = filter (at_level s' p') L"
proof -
  have "at_level s' p' x \<Longrightarrow> x \<in> set L \<Longrightarrow> ro_order_id x \<noteq> ro_order_id ord" for x
    using assms by (auto simp: distinct_map at_level_def dest: inj_onD)
  moreover have "at_level s' p' (x\<lparr>ro_quantity := z\<rparr>) = at_level s' p' x" for x z
    by (simp add: at_level_def)
  ultimately show ?thesis unfolding spec_reduce_def by (induction L) auto
qed

lemmas filter_at_level = filter_at_level_append filter_at_level_remove filter_at_level_reduce

definition outcome_list :: "ApplyError + LevelDelta list \<Rightarrow> LevelDelta list" where
  "outcome_list r = (case r of Inl e \<Rightarrow> [] | Inr ds \<Rightarrow> ds)"

lemma spec_apply_replay:
  assumes d: "distinct (map ro_order_id L)" and run: "spec_apply m L = (r, L')"
  shows "fold replay_delta (outcome_list r) (book_totals L) = book_totals L'"
proof (cases m)
  case (AddMsg a)
  then show ?thesis
    using run by (auto simp: outcome_list_def Let_def
        intro!: book_totals_replay filter_at_level_append split: option.splits)
next
  case (CancelMsg a)
  then show ?thesis
    using run filter_at_level_remove [OF d] spec_find_Some [of "cxl_order_id a" L]
    by (fastforce simp: outcome_list_def Let_def
        intro!: book_totals_replay split: option.splits)
next
  case (ExecuteMsg a)
  then show ?thesis
    using run filter_at_level_remove [OF d] filter_at_level_reduce [OF d] spec_find_Some [of "exe_order_id a" L]
    by (fastforce simp: outcome_list_def Let_def
        intro!: book_totals_replay split: option.splits if_splits)
next
  case (ReplaceMsg a)
  show ?thesis
  proof (cases "r")
    case (Inr ds)
    obtain ord where ord: "ord \<in> set L" "ro_order_id ord = rep_old_order_id a"
      and ds: "let L1 = spec_remove (rep_old_order_id a) L;
               ord' = \<lparr>ro_order_id = rep_new_order_id a, ro_side = ro_side ord, ro_price = rep_price a, ro_quantity = rep_quantity a\<rparr>
           in ds = [spec_delta L1 (ro_side ord) (ro_price ord), spec_delta (L1 @ [ord']) (ro_side ord) (rep_price a)] \<and> L' = L1 @ [ord']"
      using run ReplaceMsg Inr spec_find_Some [of "rep_old_order_id a" L]
      by (auto simp: Let_def split: option.splits if_splits)
    have "replay_delta (spec_delta (spec_remove (rep_old_order_id a) L) (ro_side ord) (ro_price ord)) (book_totals L) =
          book_totals (spec_remove (rep_old_order_id a) L)"
      using filter_at_level_remove [OF d ord(1)] ord(2) by (intro book_totals_replay) simp
    then show ?thesis
      using ds Inr by (auto simp: outcome_list_def Let_def
          intro!: book_totals_replay filter_at_level_append)
  qed (use run ReplaceMsg in \<open>auto simp: outcome_list_def Let_def split: option.splits if_splits\<close>)
qed


lemma successful_deltas_list: "successful_deltas rs = concat (map (\<lambda>r. outcome_list (outcome_deltas r)) rs)"
  by (induction rs rule: successful_deltas.induct) (simp_all add: outcome_list_def)

lemma apply_all_replay:
  "book_ok b \<Longrightarrow> apply_all ms b = Some (rs, b') \<Longrightarrow>
     fold replay_delta (successful_deltas rs) (book_totals (book_orders b)) = book_totals (book_orders b')"
proof (induction ms arbitrary: b rs)
  case (Cons m ms)
  obtain r b1 where step: "apply_msg m b = Some (r, b1)" "book_ok b1"
    "spec_apply m (book_orders b) = (outcome_deltas r, book_orders b1)"
    using book_stepE [OF Cons.prems(1)] .
  obtain rs' where rs: "rs = r # rs'" and rest: "apply_all ms b1 = Some (rs', b')"
    using Cons.prems(2) step(1) by (auto simp: bind_eq_Some_conv)
  have "distinct (map ro_order_id (book_orders b))" using Cons.prems(1) by (simp add: book_ok_def)
  from spec_apply_replay [OF this step(3)] Cons.IH [OF step(2) rest] show ?case
    by (simp add: rs successful_deltas_list)
qed simp

lemma replay_level:
  assumes "apply_all ms order_book_init = Some (rs, b)"
  shows "fold replay_delta (successful_deltas rs) (\<lambda>_. 0) (s = Buy, p) =
         (case level_for s p b of None \<Rightarrow> 0 | Some l \<Rightarrow> lv_total_quantity l)"
proof -
  have "book_totals (book_orders order_book_init) = (\<lambda>_. 0)"
    by (simp add: book_totals_def spec_total_def book_orders_def book_pairs_def order_book_init_def fun_eq_iff)
  with apply_all_replay [OF book_ok_init assms]
  have "fold replay_delta (successful_deltas rs) (\<lambda>_. 0) (s = Buy, p) = spec_total (book_orders b) s p"
    by (simp add: book_totals_at)
  then show ?thesis
    using spec_total_level [of "book_pairs b" s p] spec_total_no_level [of "book_pairs b" s p]
    by (simp add: level_for_def book_okD(6) [OF apply_all_ok(1) [OF assms]] book_orders_def split: option.splits)
qed

subsection \<open>Aggregate quantities that do not wrap\<close>

lemma unat_sum_list:
  fixes qs :: "'a::len word list"
  shows "sum_list (map unat qs) < 2 ^ LENGTH('a) \<Longrightarrow> unat (sum_list qs) = sum_list (map unat qs)"
proof (induction qs)
  case (Cons q qs)
  then have "unat (sum_list qs) = sum_list (map unat qs)" by simp
  then show ?case using Cons.prems by (simp add: unat_word_ariths)
qed simp

definition level_quantity :: "RestingOrder list \<Rightarrow> Side \<Rightarrow> Price \<Rightarrow> nat" where
  "level_quantity L s p = sum_list (map (\<lambda>ord. unat (ro_quantity ord)) (filter (at_level s p) L))"

lemma spec_total_exact:
  assumes "level_quantity L s p < 2 ^ 32"
  shows "unat (spec_total L s p) = level_quantity L s p"
  using assms unat_sum_list [of "map ro_quantity (filter (at_level s p) L)"]
  by (simp add: spec_total_def level_quantity_def o_def)

lemma no_order_at_level: "filter (at_level s p) L = [] \<longleftrightarrow> p \<notin> side_prices L s"
  by (auto simp: filter_empty_conv side_prices_def same_side_def at_level_def image_iff)

subsection \<open>A small feed\<close>

definition sample_add :: "SeqNum \<Rightarrow> OrderId \<Rightarrow> Side \<Rightarrow> Price \<Rightarrow> Quantity \<Rightarrow> DecodedMessage" where
  "sample_add n i s p q = AddMsg \<lparr>add_seq_num = n, add_order_id = i, add_symbol = make_symbol ''AAPL'',
     add_side = s, add_price = p, add_quantity = q, add_timestamp = 0\<rparr>"

definition sample_feed :: "DecodedMessage list" where
  "sample_feed =
     [sample_add 1 10 Buy (Int64 100) 5, sample_add 2 11 Buy (Int64 101) 7, sample_add 3 12 Sell (Int64 105) 4,
      ExecuteMsg \<lparr>exe_seq_num = 4, exe_order_id = 11, exe_executed_quantity = 2, exe_timestamp = 0\<rparr>]"

lemma ar_init_eval: "ar_init = \<lparr>ar_deltas =
    [\<lparr>ld_side = 0, ld_price = Int64 0, ld_total_quantity = 0\<rparr>, \<lparr>ld_side = 0, ld_price = Int64 0, ld_total_quantity = 0\<rparr>],
    ar_count = 0\<rparr>"
  by (simp add: ar_init_def numeral_2_eq_2)

lemmas book_eval =
  apply_add_def apply_cancel_def apply_execute_def apply_replace_def
  insert_resting_order_def remove_resting_order_def has_order_def level_for_def
  ar_add_def ar_init_eval order_book_init_def empty_level_def ladder_def set_ladder_def side_lt_def
  Buy_def Sell_def Let_def

definition sample_orders :: "RestingOrder list" where
  "sample_orders =
     [\<lparr>ro_order_id = 10, ro_side = Buy, ro_price = Int64 100, ro_quantity = 5\<rparr>,
      \<lparr>ro_order_id = 11, ro_side = Buy, ro_price = Int64 101, ro_quantity = 5\<rparr>,
      \<lparr>ro_order_id = 12, ro_side = Sell, ro_price = Int64 105, ro_quantity = 4\<rparr>]"

lemma sample_run:
  "\<exists>rs b. apply_all sample_feed order_book_init = Some (rs, b) \<and> book_orders b = sample_orders"
  by (simp add: sample_feed_def sample_orders_def sample_add_def book_eval book_orders_def book_pairs_def)


lemma sample_prices:
  "side_prices sample_orders Buy = {Int64 100, Int64 101}" "side_prices sample_orders Sell = {Int64 105}"
  by (auto simp: side_prices_def same_side_def sample_orders_def)

lemma sample_views:
  "spec_view sample_orders Buy (Int64 101) = \<lparr>plv_price = Int64 101, plv_total_quantity = 5, plv_order_count = 1\<rparr>"
  "spec_view sample_orders Sell (Int64 105) = \<lparr>plv_price = Int64 105, plv_total_quantity = 4, plv_order_count = 1\<rparr>"
  by (simp_all add: sample_orders_def spec_view_def spec_total_def at_level_def)

subsection \<open>Properties\<close>

text \<open>
  C8. Refinement: any sequence of messages applied to an empty book runs without undefined
  behaviour, keeps the book's invariant, and gives exactly the results (errors and level deltas) and the
  resting orders of the flat-list specification.
\<close>

theorem order_book_refines_spec:
  "\<exists>rs b. apply_all ms order_book_init = Some (rs, b) \<and> book_ok b \<and>
     spec_apply_all ms [] = (map outcome_deltas rs, book_orders b)"
proof -
  obtain rs b where "apply_all ms order_book_init = Some (rs, b)"
    using apply_all_refines [OF book_ok_init, of ms] by blast
  then show ?thesis using apply_all_ok by blast
qed

text \<open>
  C9. A downstream consumer that starts with empty levels and overwrites one total per published
  delta, in order, ends up with the aggregate quantity of every level of the book.
\<close>

theorem deltas_rebuild_book:
  assumes "apply_all ms order_book_init = Some (rs, b)"
  shows "fold replay_delta (successful_deltas rs) (\<lambda>_. 0) (s = Buy, p) =
         (case level_for s p b of None \<Rightarrow> 0 | Some l \<Rightarrow> lv_total_quantity l)"
  using replay_level [OF assms] .

theorem deltas_rebuild_book_witness:
  "\<exists>rs b. apply_all sample_feed order_book_init = Some (rs, b) \<and>
     fold replay_delta (successful_deltas rs) (\<lambda>_. 0) (Buy = Buy, Int64 101) = 5"
proof -
  obtain rs b where run: "apply_all sample_feed order_book_init = Some (rs, b)"
    and orders: "book_orders b = sample_orders" using sample_run by blast
  have "level_for Buy (Int64 101) b \<noteq> None"
    using orders level_of_None_iff [of "book_pairs b"]
    by (simp add: level_for_def book_okD(6) [OF apply_all_ok(1) [OF run]] book_orders_def side_prices_def same_side_def sample_orders_def)
  then obtain l where l: "level_for Buy (Int64 101) b = Some l" by blast
  then have "lv_total_quantity l = 5"
    using spec_total_level [of "book_pairs b" Buy "Int64 101" l] orders
    by (simp add: level_for_def book_okD(6) [OF apply_all_ok(1) [OF run]] book_orders_def spec_total_def at_level_def sample_orders_def)
  then show ?thesis using deltas_rebuild_book [OF run, of Buy "Int64 101"] run l by auto
qed

text \<open>
  \<open>best_bid_ask\<close> is the highest price of the resting buy orders and the lowest of the others,
  each with the aggregate quantity and number of the orders there, and absent exactly when there is none.
\<close>

lemma best_bid_ask_correct:
  assumes "apply_all ms order_book_init = Some (rs, b)"
  shows "best_bid_ask b =
    (let L = book_orders b; bids = side_prices L Buy; asks = side_prices L Sell
     in \<lparr>bba_bid = (if bids = {} then None else Some (spec_view L Buy (Max bids))),
         bba_ask = (if asks = {} then None else Some (spec_view L Sell (Min asks)))\<rparr>)"
proof -
  note ok = apply_all_ok(1) [OF assms]
  let ?bids = "side_prices (book_orders b) Buy" and ?asks = "side_prices (book_orders b) Sell"
  have bid: "bba_bid (best_bid_ask b) =
      (if ?bids = {} then None else Some (spec_view (book_orders b) Buy (Max ?bids)))"
  proof (cases "ladder Buy b")
    case Nil
    then show ?thesis using ladder_keys [OF ok, of Buy] by (simp add: best_bid_ask_def ladder_def)
  next
    case (Cons kv m)
    then have keys: "?bids = set (map fst (kv # m))" using ladder_keys [OF ok, of Buy] by simp
    have "fst kv = Max ?bids"
      unfolding keys using Cons book_okD(5) [OF ok, of Buy]
      by (intro Max_eqI [symmetric]) (auto simp: side_lt_def intro: less_imp_le)
    moreover have "level_view kv = spec_view (book_orders b) Buy (fst kv)"
      using Cons ladder_view [OF ok, of "fst kv" "snd kv" Buy] by simp
    ultimately show ?thesis using Cons keys by (simp add: best_bid_ask_def ladder_def)
  qed
  have ask: "bba_ask (best_bid_ask b) =
      (if ?asks = {} then None else Some (spec_view (book_orders b) Sell (Min ?asks)))"
  proof (cases "ladder Sell b")
    case Nil
    then show ?thesis using ladder_keys [OF ok, of Sell] by (simp add: best_bid_ask_def ladder_def)
  next
    case (Cons kv m)
    then have keys: "?asks = set (map fst (kv # m))" using ladder_keys [OF ok, of Sell] by simp
    have "fst kv = Min ?asks"
      unfolding keys using Cons book_okD(5) [OF ok, of Sell]
      by (intro Min_eqI [symmetric]) (auto simp: side_lt_def intro: less_imp_le)
    moreover have "level_view kv = spec_view (book_orders b) Sell (fst kv)"
      using Cons ladder_view [OF ok, of "fst kv" "snd kv" Sell] by simp
    ultimately show ?thesis using Cons keys by (simp add: best_bid_ask_def ladder_def)
  qed
  show ?thesis using bid ask by (simp add: Let_def)
qed

text \<open>
  \<open>depth_snapshot(n)\<close> lists the \<open>n\<close> best levels of each side, bids from the highest price down and
  asks from the lowest up, with the aggregate quantity and number of orders of each level.
\<close>

lemma depth_snapshot_correct:
  assumes "apply_all ms order_book_init = Some (rs, b)"
  shows "depth_snapshot n b =
    (let L = book_orders b
     in \<lparr>ds_bids = map (spec_view L Buy) (take n (rev (sorted_list_of_set (side_prices L Buy)))),
         ds_asks = map (spec_view L Sell) (take n (sorted_list_of_set (side_prices L Sell)))\<rparr>)"
proof -
  note ok = apply_all_ok(1) [OF assms]
  have *: "depth_loop 0 n (ladder s b) = map (spec_view (book_orders b) s) (take n (map fst (ladder s b)))" for s
    using map_level_view [OF ok set_take_subset, of n s] by (simp add: depth_loop_take take_map)
  have "ob_bids b = ladder Buy b" "ob_asks b = ladder Sell b" by (simp_all add: ladder_def)
  then show ?thesis
    using * by (simp add: depth_snapshot_def Let_def ladder_bids [OF ok] ladder_asks [OF ok])
qed

text \<open>
  C22. The queries of a book, against its resting orders: \<open>best_bid_ask\<close> is the highest price of the buy orders and the lowest of the others, each with the
  aggregate quantity and number of the orders there, and absent exactly when there is none; \<open>depth_snapshot(n)\<close> lists the \<open>n\<close> best levels of each side,
  bids from the highest price down and asks from the lowest up.
\<close>

theorem book_queries_correct:
  assumes "apply_all ms order_book_init = Some (rs, b)"
  shows "let L = book_orders b; bids = side_prices L Buy; asks = side_prices L Sell
    in best_bid_ask b =
         \<lparr>bba_bid = (if bids = {} then None else Some (spec_view L Buy (Max bids))),
          bba_ask = (if asks = {} then None else Some (spec_view L Sell (Min asks)))\<rparr> \<and>
       depth_snapshot n b =
         \<lparr>ds_bids = map (spec_view L Buy) (take n (rev (sorted_list_of_set bids))),
          ds_asks = map (spec_view L Sell) (take n (sorted_list_of_set asks))\<rparr>"
  using best_bid_ask_correct [OF assms] depth_snapshot_correct [OF assms, of n] by (simp only: Let_def)

theorem book_queries_correct_witness:
  "\<exists>rs b. apply_all sample_feed order_book_init = Some (rs, b) \<and>
     best_bid_ask b =
       \<lparr>bba_bid = Some \<lparr>plv_price = Int64 101, plv_total_quantity = 5, plv_order_count = 1\<rparr>,
        bba_ask = Some \<lparr>plv_price = Int64 105, plv_total_quantity = 4, plv_order_count = 1\<rparr>\<rparr> \<and>
     depth_snapshot 1 b =
       \<lparr>ds_bids = [\<lparr>plv_price = Int64 101, plv_total_quantity = 5, plv_order_count = 1\<rparr>],
        ds_asks = [\<lparr>plv_price = Int64 105, plv_total_quantity = 4, plv_order_count = 1\<rparr>]\<rparr>"
proof -
  obtain rs b where run: "apply_all sample_feed order_book_init = Some (rs, b)"
    and orders: "book_orders b = sample_orders" using sample_run by blast
  have "sorted_list_of_set {Int64 100, Int64 101} = [Int64 100, Int64 101]"
    by (intro strict_sorted_equal) simp_all
  then show ?thesis
    using book_queries_correct [OF run, of 1] orders run
    by (simp add: sample_prices sample_views max_def)
qed

text \<open>
  C23. Price-time priority: the orders in the list of a price level are exactly the resting orders of
  that side and price, in the order in which they arrived (a replaced order arrives at the time of its
  replacement, an executed one keeps its place), and a level exists exactly when it has an order.
\<close>

theorem levels_are_fifo:
  assumes "apply_all ms order_book_init = Some (rs, b)"
  shows "let arrived = filter (at_level s p) (snd (spec_apply_all ms []))
         in case level_for s p b of
              None \<Rightarrow> arrived = []
            | Some l \<Rightarrow> arrived \<noteq> [] \<and> map (\<lambda>n. the (ob_nodes b n)) (lv_orders l) = arrived"
proof -
  note ok = apply_all_ok(1) [OF assms]
  let ?Q = "level_nodes (book_pairs b) s p"
  have arrived: "filter (at_level s p) (snd (spec_apply_all ms [])) = map snd ?Q"
    using apply_all_ok(2) [OF assms] by (simp add: book_orders_def level_nodes_def filter_map o_def)
  have "\<forall>a \<in> set (book_pairs b). the (ob_nodes b (fst a)) = snd a"
    using book_pairs_nodes by fastforce
  then have "map ((\<lambda>n. the (ob_nodes b n)) \<circ> fst) ?Q = map snd ?Q"
    by (intro map_cong) (auto simp: level_nodes_def)
  then show ?thesis
    unfolding arrived by (simp add: level_for_def book_okD(6) [OF ok] level_of_nodes Let_def)
qed

theorem levels_are_fifo_witness:
  "\<exists>rs b l. apply_all [sample_add 1 10 Buy (Int64 100) 5, sample_add 2 11 Buy (Int64 100) 7] order_book_init = Some (rs, b) \<and>
     level_for Buy (Int64 100) b = Some l \<and>
     map (\<lambda>n. ro_order_id (the (ob_nodes b n))) (lv_orders l) = [10, 11]"
proof -
  let ?ms = "[sample_add 1 10 Buy (Int64 100) 5, sample_add 2 11 Buy (Int64 100) 7]"
  obtain rs b where run: "apply_all ?ms order_book_init = Some (rs, b)"
    using apply_all_refines [OF book_ok_init, of ?ms] by blast
  have "map ro_order_id (filter (at_level Buy (Int64 100)) (snd (spec_apply_all ?ms []))) = [10, 11]"
    by (simp add: sample_add_def spec_find_def at_level_def Let_def)
  then show ?thesis
    using levels_are_fifo [OF run, of Buy "Int64 100"] run
    by (auto simp: Let_def split: option.splits dest: arg_cong [where f = "map ro_order_id"])
qed

lemma spec_find_iff: "distinct (map ro_order_id L) \<Longrightarrow> spec_find i L = Some ord \<longleftrightarrow> ord \<in> set L \<and> ro_order_id ord = i"
  by (induction L) (auto simp: spec_find_def)

text \<open>When the specification rejects a message.\<close>

lemma spec_rejects_iff:
  assumes "distinct (map ro_order_id L)"
  shows "fst (spec_apply (AddMsg a) L) = Inl e \<longleftrightarrow> e = DuplicateOrderId \<and> spec_find (add_order_id a) L \<noteq> None"
    "fst (spec_apply (CancelMsg c) L) = Inl e \<longleftrightarrow> e = OrderNotFound \<and> spec_find (cxl_order_id c) L = None"
    "fst (spec_apply (ExecuteMsg x) L) = Inl e \<longleftrightarrow> (e = OrderNotFound \<and> spec_find (exe_order_id x) L = None) \<or>
       (\<exists>ord \<in> set L. e = ExecutedQuantityExceedsRemaining \<and> ro_order_id ord = exe_order_id x \<and> ro_quantity ord < exe_executed_quantity x)"
    "fst (spec_apply (ReplaceMsg r) L) = Inl e \<longleftrightarrow> (e = OrderNotFound \<and> spec_find (rep_old_order_id r) L = None) \<or>
       (e = DuplicateOrderId \<and> spec_find (rep_old_order_id r) L \<noteq> None \<and> spec_find (rep_new_order_id r) L \<noteq> None)"
proof -
  have more: "(\<exists>ord \<in> set L. e = E \<and> ro_order_id ord = i \<and> ro_quantity ord < q) \<longleftrightarrow> (\<exists>ord. spec_find i L = Some ord \<and> e = E \<and> ro_quantity ord < q)" for E i q
    using spec_find_iff [OF assms] by blast
  show "fst (spec_apply (AddMsg a) L) = Inl e \<longleftrightarrow> e = DuplicateOrderId \<and> spec_find (add_order_id a) L \<noteq> None"
    "fst (spec_apply (CancelMsg c) L) = Inl e \<longleftrightarrow> e = OrderNotFound \<and> spec_find (cxl_order_id c) L = None"
    "fst (spec_apply (ReplaceMsg r) L) = Inl e \<longleftrightarrow> (e = OrderNotFound \<and> spec_find (rep_old_order_id r) L = None) \<or>
       (e = DuplicateOrderId \<and> spec_find (rep_old_order_id r) L \<noteq> None \<and> spec_find (rep_new_order_id r) L \<noteq> None)"
    by (auto simp: Let_def split: option.splits)
  show "fst (spec_apply (ExecuteMsg x) L) = Inl e \<longleftrightarrow> (e = OrderNotFound \<and> spec_find (exe_order_id x) L = None) \<or>
       (\<exists>ord \<in> set L. e = ExecutedQuantityExceedsRemaining \<and> ro_order_id ord = exe_order_id x \<and> ro_quantity ord < exe_executed_quantity x)"
    unfolding more by (auto simp: Let_def split: option.splits)
qed

text \<open>
  C24. On a book that any messages have led to, a message is rejected with an error exactly when the condition of
  that error holds: an Add whose identifier is resting, a Cancel, Execute or Replace of one that is not, an Execute of
  more than remains of the order, a Replace whose new identifier is resting.  A rejected message leaves the whole book as
  it was.
\<close>

theorem rejection_has_no_effect:
  assumes "apply_all ms order_book_init = Some (rs, b)"
  shows "apply_msg m b = Some (Inl e, b') \<longleftrightarrow> b' = b \<and>
    (case m of
       AddMsg a \<Rightarrow> e = DuplicateOrderId \<and> has_order (add_order_id a) b
     | CancelMsg a \<Rightarrow> e = OrderNotFound \<and> \<not> has_order (cxl_order_id a) b
     | ExecuteMsg a \<Rightarrow>
         (e = OrderNotFound \<and> \<not> has_order (exe_order_id a) b) \<or>
         (\<exists>ord \<in> set (book_orders b). e = ExecutedQuantityExceedsRemaining \<and>
            ro_order_id ord = exe_order_id a \<and> ro_quantity ord < exe_executed_quantity a)
     | ReplaceMsg a \<Rightarrow>
         (e = OrderNotFound \<and> \<not> has_order (rep_old_order_id a) b) \<or>
         (e = DuplicateOrderId \<and> has_order (rep_old_order_id a) b \<and> has_order (rep_new_order_id a) b))"
    (is "_ \<longleftrightarrow> b' = b \<and> ?C")
proof -
  note ok = apply_all_ok(1) [OF assms(1)]
  have d: "distinct (map ro_order_id (book_orders b))" using ok by (simp add: book_ok_def)
  obtain r b1 where r: "apply_msg m b = Some (r, b1)" "spec_apply m (book_orders b) = (outcome_deltas r, book_orders b1)"
    using book_stepE [OF ok] by metis
  have same: "b1 = b" if "r = Inl e"
    using r(1) that by (cases m) (auto simp: apply_add_def apply_cancel_def apply_execute_def apply_replace_def
        Let_def bind_eq_Some_conv split: if_splits option.splits prod.splits)
  have "r = Inl e \<longleftrightarrow> fst (spec_apply m (book_orders b)) = Inl e" using r(2) by (cases r) auto
  also have "\<dots> \<longleftrightarrow> ?C" by (cases m) (simp_all only: spec_rejects_iff [OF d] has_order_iff [OF ok] DecodedMessage.case not_not)
  finally show ?thesis using r(1) same by auto
qed

theorem rejection_has_no_effect_witness:
  "\<exists>rs b. apply_all sample_feed order_book_init = Some (rs, b) \<and> has_order 10 b \<and>
     apply_msg (sample_add 5 10 Sell (Int64 90) 1) b = Some (Inl DuplicateOrderId, b)"
proof -
  obtain rs b where run: "apply_all sample_feed order_book_init = Some (rs, b)"
    and orders: "book_orders b = sample_orders" using sample_run by blast
  have "has_order 10 b" using has_order_iff [OF apply_all_ok(1) [OF run]] orders by (simp add: sample_orders_def spec_find_def)
  then show ?thesis
    using rejection_has_no_effect [OF run, of "sample_add 5 10 Sell (Int64 90) 1" DuplicateOrderId b] run by (simp add: sample_add_def)
qed

text \<open>
  C25. As long as every resting order has a positive quantity and the exact (unbounded) sum of the
  quantities of a level fits in 32 bits, the published total of the level is that sum, and it is zero
  exactly when the level does not exist.
\<close>

theorem published_total_exact:
  assumes "apply_all ms order_book_init = Some (rs, b)"
    and "\<forall>ord \<in> set (book_orders b). ro_quantity ord \<noteq> 0"
    and "level_quantity (book_orders b) s p < 2 ^ 32"
  shows "let total = fold replay_delta (successful_deltas rs) (\<lambda>_. 0) (s = Buy, p)
         in unat total = level_quantity (book_orders b) s p \<and> (total = 0 \<longleftrightarrow> level_for s p b = None)"
proof -
  note ok = apply_all_ok(1) [OF assms(1)]
  have total: "fold replay_delta (successful_deltas rs) (\<lambda>_. 0) (s = Buy, p) = spec_total (book_orders b) s p"
    using replay_level [OF assms(1), of s p] spec_total_level [of "book_pairs b" s p] spec_total_no_level [of "book_pairs b" s p]
    by (simp add: level_for_def book_okD(6) [OF ok] book_orders_def split: option.splits)
  have "level_quantity (book_orders b) s p = 0 \<longleftrightarrow> filter (at_level s p) (book_orders b) = []"
    using assms(2) by (auto simp: level_quantity_def filter_empty_conv unat_eq_0)
  then have "spec_total (book_orders b) s p = 0 \<longleftrightarrow> level_for s p b = None"
    using spec_total_exact [OF assms(3)] level_of_None_iff [of "book_pairs b" s p]
    by (simp add: unat_eq_0 [symmetric] level_for_def book_okD(6) [OF ok] no_order_at_level book_orders_def)
  then show ?thesis using total spec_total_exact [OF assms(3)] by (simp add: Let_def)
qed

theorem published_total_exact_witness:
  "\<exists>rs b. apply_all sample_feed order_book_init = Some (rs, b) \<and>
     unat (fold replay_delta (successful_deltas rs) (\<lambda>_. 0) (Buy = Buy, Int64 100)) = 5 \<and>
     level_for Buy (Int64 100) b \<noteq> None"
proof -
  obtain rs b where run: "apply_all sample_feed order_book_init = Some (rs, b)"
    and orders: "book_orders b = sample_orders" using sample_run by blast
  have q: "level_quantity (book_orders b) Buy (Int64 100) = 5"
    by (simp add: orders sample_orders_def level_quantity_def at_level_def)
  have pos: "\<forall>ord \<in> set (book_orders b). ro_quantity ord \<noteq> 0"
    by (simp add: orders sample_orders_def)
  show ?thesis
    using published_total_exact [OF run pos, of Buy "Int64 100"] q run by (force simp: Let_def)
qed

text \<open>
  Without those bounds a published total of zero does not mean that the level is gone: an add of
  quantity zero, and two adds whose quantities sum to \<open>2\<^sup>3\<^sup>2\<close>, both leave a level with resting orders and
  publish a delta with total zero for it.
\<close>

theorem zero_total_on_live_level:
  "\<exists>rs b l rs' b' l'.
     apply_all [sample_add 1 10 Buy (Int64 100) 0] order_book_init = Some (rs, b) \<and>
     level_for Buy (Int64 100) b = Some l \<and> lv_orders l \<noteq> [] \<and>
     last (successful_deltas rs) = \<lparr>ld_side = Buy, ld_price = Int64 100, ld_total_quantity = 0\<rparr> \<and>
     apply_all [sample_add 1 10 Buy (Int64 100) 2147483648, sample_add 2 11 Buy (Int64 100) 2147483648]
       order_book_init = Some (rs', b') \<and>
     level_for Buy (Int64 100) b' = Some l' \<and> lv_orders l' \<noteq> [] \<and>
     last (successful_deltas rs') = \<lparr>ld_side = Buy, ld_price = Int64 100, ld_total_quantity = 0\<rparr>"
  by (simp add: sample_add_def book_eval result_deltas_def)

end
