(* ===== verification/Shard_Demux.thy ===== *)
theory Shard_Demux
  imports Codec Gap_Detector Publisher Order_Book_Properties
begin

text \<open>
  Sharding and demultiplexing, \<open>io/shard_demux.hpp\<close> and \<open>io/shard_demux.cpp\<close>.  A shard is its inbound
  queue, its gap detector, its books by symbol and its output queue; the pipeline is the vector of shards and
  the routing table.  The two \<open>std::unordered_map\<close>s are association lists.  \<open>demux\<close> is called by the
  network thread and \<open>process_one\<close>, one iteration of the loop of \<open>process_shard\<close>, by the shard's
  thread; the routing table is accessed under a mutex and the queues are linearisable (theory
  \<open>Ring_Concurrent\<close>), so that executions of the pipeline are sequences of these operations.
  \<open>None\<close> is undefined behaviour or an endless spin; the theory \<open>Shard_Properties\<close> shows that neither occurs.
\<close>

definition kMaxShards :: nat where
  "kMaxShards = 16"

datatype DemuxError = DecodeFailed | UnroutableOrderId

definition kShardQueueCapacity :: nat where
  "kShardQueueCapacity = 4096"

record QueuedMessage =
  qm_symbol :: Symbol
  qm_message :: DecodedMessage
  qm_trace :: LatencyTrace

text \<open>
  The value of a fresh slot, \<open>QueuedMessage{}\<close>: the variant holds its first alternative.
\<close>

definition queued_message_init :: QueuedMessage where
  "queued_message_init =
     (let symbol = replicate kSymbolLen (CHR 0x00)
      in \<lparr>qm_symbol = symbol,
          qm_message = AddMsg \<lparr>add_seq_num = 0, add_order_id = 0, add_symbol = symbol, add_side = 0,
            add_price = Int64 0, add_quantity = 0, add_timestamp = 0\<rparr>,
          qm_trace = trace_init\<rparr>)"

record Shard =
  sh_queue :: "QueuedMessage ring"
  sh_gap_detector :: gap_detector
  sh_books :: "(Symbol \<times> OrderBook) list"
  sh_output_queue :: DeltaQueue

definition shard_init :: Shard where
  "shard_init = \<lparr>sh_queue = ring_init kShardQueueCapacity queued_message_init,
     sh_gap_detector = gap_detector_init, sh_books = [], sh_output_queue = delta_queue_init\<rparr>"

record OrderRoute =
  rt_shard_index :: nat
  rt_symbol :: Symbol

record ShardedPipeline =
  sp_shards :: "Shard list"
  sp_order_route :: "(OrderId \<times> OrderRoute) list"
  sp_ticks :: nat

text \<open>\<open>shard_for_symbol\<close> with an explicit number of shards, and the constructor with its exception.\<close>

definition shard_for_symbol :: "Symbol \<Rightarrow> nat \<Rightarrow> nat" where
  "shard_for_symbol symbol num_shards = unat (hash_symbol symbol) mod num_shards"

datatype invalid_argument = Invalid_num_shards

definition sharded_pipeline :: "nat \<Rightarrow> invalid_argument + ShardedPipeline" where
  "sharded_pipeline num_shards =
     (if num_shards = 0 \<or> num_shards > kMaxShards then Inl Invalid_num_shards
      else Inr \<lparr>sp_shards = replicate num_shards shard_init, sp_order_route = [], sp_ticks = 0\<rparr>)"

definition routing_table_size :: "ShardedPipeline \<Rightarrow> nat" where
  "routing_table_size sp = length (sp_order_route sp)"

text \<open>\<open>LatencyClock::now()\<close>\<close>

definition clock_now :: "clock \<Rightarrow> ShardedPipeline \<Rightarrow> time_point \<times> ShardedPipeline" where
  "clock_now now sp = (now (sp_ticks sp), sp\<lparr>sp_ticks := Suc (sp_ticks sp)\<rparr>)"

subsection \<open>Demultiplexing\<close>

text \<open>The critical section on \<open>order_route_\<close>: the route of the message and the updated table.\<close>

fun route_message :: "nat \<Rightarrow> DecodedMessage \<Rightarrow> (OrderId \<times> OrderRoute) list \<Rightarrow>
    DemuxError + (OrderRoute \<times> (OrderId \<times> OrderRoute) list)" where
  "route_message num_shards (AddMsg m) routes =
     (let route = \<lparr>rt_shard_index = shard_for_symbol (add_symbol m) num_shards, rt_symbol = add_symbol m\<rparr>
      in Inr (route, AList.update (add_order_id m) route routes))"
| "route_message num_shards (ReplaceMsg m) routes =
     (case map_of routes (rep_old_order_id m) of
        None \<Rightarrow> Inl UnroutableOrderId
      | Some route \<Rightarrow>
          Inr (route, AList.update (rep_new_order_id m) route (AList.delete (rep_old_order_id m) routes)))"
| "route_message num_shards (CancelMsg m) routes =
     (case map_of routes (cxl_order_id m) of
        None \<Rightarrow> Inl UnroutableOrderId
      | Some route \<Rightarrow> Inr (route, AList.delete (cxl_order_id m) routes))"
| "route_message num_shards (ExecuteMsg m) routes =
     (case map_of routes (exe_order_id m) of
        None \<Rightarrow> Inl UnroutableOrderId
      | Some route \<Rightarrow> Inr (route, routes))"

definition demux :: "clock \<Rightarrow> byte list \<Rightarrow> time_point \<Rightarrow> ShardedPipeline \<Rightarrow>
    ((DemuxError + nat) \<times> ShardedPipeline) option" where
  "demux now raw received sp = do {
     decoded \<leftarrow> decode raw;
     let (decoded_at, sp) = clock_now now sp;
     case decoded of
       Inl _ \<Rightarrow> Some (Inl DecodeFailed, sp)
     | Inr msg \<Rightarrow>
         (case route_message (length (sp_shards sp)) msg (sp_order_route sp) of
            Inl e \<Rightarrow> Some (Inl e, sp)
          | Inr (route, routes) \<Rightarrow> do {
              let sp = sp\<lparr>sp_order_route := routes\<rparr>;
              let (demuxed_at, sp) = clock_now now sp;
              let trace = trace_init\<lparr>t_received := received, t_decoded := decoded_at, t_demuxed := demuxed_at\<rparr>;
              let i = rt_shard_index route;
              if length (sp_shards sp) \<le> i then None
              else do {
                let s = sp_shards sp ! i;
                queue \<leftarrow> push \<lparr>qm_symbol = rt_symbol route, qm_message = msg, qm_trace = trace\<rparr> (sh_queue s);
                Some (Inr i, sp\<lparr>sp_shards := (sp_shards sp)[i := s\<lparr>sh_queue := queue\<rparr>]\<rparr>) } }) }"

subsection \<open>Processing a shard\<close>

text \<open>\<open>for (i = 0; i < result->count; ++i) output_queue.push(BookDelta{...result->deltas[i]...})\<close>\<close>

definition book_delta :: "QueuedMessage \<Rightarrow> LevelDelta \<Rightarrow> BookDelta" where
  "book_delta qm level =
     \<lparr>bd_symbol = qm_symbol qm, bd_side = ld_side level, bd_price = ld_price level,
      bd_total_quantity = ld_total_quantity level, bd_seq_num = msg_seq_num (qm_message qm),
      bd_timestamp = msg_timestamp (qm_message qm), bd_trace = qm_trace qm\<rparr>"

function push_deltas :: "nat \<Rightarrow> ApplyResult \<Rightarrow> QueuedMessage \<Rightarrow> DeltaQueue \<Rightarrow> DeltaQueue option" where
  "push_deltas i result qm queue =
     (if i < ar_count result then
        (if length (ar_deltas result) \<le> i then None
         else do {
           queue \<leftarrow> push (book_delta qm (ar_deltas result ! i)) queue;
           push_deltas (i + 1) result qm queue })
      else Some queue)"
  by pat_completeness auto
termination
  by (relation "measure (\<lambda>(i, result, qm, queue). ar_count result - i)") auto

declare push_deltas.simps [simp del]

text \<open>The cleanup of the routing table after an execution that removed the order from its book.\<close>

fun cleanup_route :: "DecodedMessage \<Rightarrow> OrderBook \<Rightarrow> (OrderId \<times> OrderRoute) list \<Rightarrow> (OrderId \<times> OrderRoute) list" where
  "cleanup_route (ExecuteMsg m) book routes =
     (if has_order (exe_order_id m) book then routes else AList.delete (exe_order_id m) routes)"
| "cleanup_route _ book routes = routes"

text \<open>The body of the loop of \<open>process_shard\<close>, for a message that was popped.\<close>

definition process_message :: "clock \<Rightarrow> nat \<Rightarrow> QueuedMessage \<Rightarrow> ShardedPipeline \<Rightarrow> ShardedPipeline option" where
  "process_message now i qm sp = do {
     let (dequeued_at, sp) = clock_now now sp;
     let qm = qm\<lparr>qm_trace := (qm_trace qm)\<lparr>t_dequeued := dequeued_at\<rparr>\<rparr>;
     let s = sp_shards sp ! i;
     let s = s\<lparr>sh_gap_detector := snd (observe (msg_seq_num (qm_message qm)) (sh_gap_detector s))\<rparr>;
     let book = (case map_of (sh_books s) (qm_symbol qm) of None \<Rightarrow> order_book_init | Some b \<Rightarrow> b);
     (result, book) \<leftarrow> apply_msg (qm_message qm) book;
     let s = s\<lparr>sh_books := AList.update (qm_symbol qm) book (sh_books s)\<rparr>;
     let (updated_at, sp) = clock_now now sp;
     let qm = qm\<lparr>qm_trace := (qm_trace qm)\<lparr>t_book_updated := updated_at\<rparr>\<rparr>;
     let sp = sp\<lparr>sp_order_route := cleanup_route (qm_message qm) book (sp_order_route sp)\<rparr>;
     output \<leftarrow> (case result of Inl _ \<Rightarrow> Some (sh_output_queue s) | Inr r \<Rightarrow> push_deltas 0 r qm (sh_output_queue s));
     Some (sp\<lparr>sp_shards := (sp_shards sp)[i := s\<lparr>sh_output_queue := output\<rparr>]\<rparr>) }"

definition process_one :: "clock \<Rightarrow> nat \<Rightarrow> ShardedPipeline \<Rightarrow> (bool \<times> ShardedPipeline) option" where
  "process_one now i sp =
     (if length (sp_shards sp) \<le> i then None
      else
        let s = sp_shards sp ! i;
            (popped, queue) = try_pop (sh_queue s);
            sp = sp\<lparr>sp_shards := (sp_shards sp)[i := s\<lparr>sh_queue := queue\<rparr>]\<rparr>
        in case popped of
             None \<Rightarrow> Some (False, sp)
           | Some qm \<Rightarrow> map_option (Pair True) (process_message now i qm sp))"

lemma process_message_queue:
  "process_message now i qm sp = Some sp' \<Longrightarrow>
     length (sp_shards sp') = length (sp_shards sp) \<and>
     (i < length (sp_shards sp) \<longrightarrow> sh_queue (sp_shards sp' ! i) = sh_queue (sp_shards sp ! i))"
  by (auto simp: process_message_def clock_now_def Let_def bind_eq_Some_conv split: prod.splits)

lemma process_one_decreases:
  assumes "process_one now i sp = Some (True, sp')"
  shows "rb_count (sh_queue (sp_shards sp' ! i)) < rb_count (sh_queue (sp_shards sp ! i))"
proof -
  obtain qm queue where pop: "try_pop (sh_queue (sp_shards sp ! i)) = (Some qm, queue)"
    and i: "i < length (sp_shards sp)"
    and run: "process_message now i qm
      (sp\<lparr>sp_shards := (sp_shards sp)[i := (sp_shards sp ! i)\<lparr>sh_queue := queue\<rparr>]\<rparr>) = Some sp'"
    using assms by (auto simp: process_one_def Let_def split: if_splits prod.splits option.splits)
  then show ?thesis
    using try_pop_decreases [OF pop] process_message_queue [OF run] by simp
qed

function process_shard :: "clock \<Rightarrow> nat \<Rightarrow> ShardedPipeline \<Rightarrow> (bool \<times> ShardedPipeline) option" where
  "process_shard now i sp =
     (case process_one now i sp of
        None \<Rightarrow> None
      | Some (False, sp) \<Rightarrow> Some (False, sp)
      | Some (True, sp) \<Rightarrow> map_option (\<lambda>(_, sp). (True, sp)) (process_shard now i sp))"
  by pat_completeness auto
termination
  by (relation "measure (\<lambda>(now, i, sp). rb_count (sh_queue (sp_shards sp ! i)))")
     (auto dest: process_one_decreases)

declare process_shard.simps [simp del]

function process_pending_loop :: "clock \<Rightarrow> nat \<Rightarrow> nat \<Rightarrow> ShardedPipeline \<Rightarrow> ShardedPipeline option" where
  "process_pending_loop now i n sp =
     (if i < n then do { (_, sp) \<leftarrow> process_shard now i sp; process_pending_loop now (i + 1) n sp }
      else Some sp)"
  by pat_completeness auto
termination
  by (relation "measure (\<lambda>(now, i, n, sp). n - i)") auto

declare process_pending_loop.simps [simp del]

definition process_pending :: "clock \<Rightarrow> ShardedPipeline \<Rightarrow> ShardedPipeline option" where
  "process_pending now sp = process_pending_loop now 0 (length (sp_shards sp)) sp"

end
