(* ===== verification/Shard_Invariant.thy ===== *)
theory Shard_Invariant
  imports Shard_Demux
begin

text \<open>
  The invariant of the sharded pipeline and the effect of each operation on it: neither \<open>demux\<close> nor an
  iteration of \<open>process_shard\<close> has undefined behaviour or spins, every order route points to the shard
  of its symbol, and every message, book and delta of a symbol lives in that one shard.
\<close>

definition book_at :: "Shard \<Rightarrow> Symbol \<Rightarrow> OrderBook" where
  "book_at s ticker = (case map_of (sh_books s) ticker of None \<Rightarrow> order_book_init | Some b \<Rightarrow> b)"

definition shard_ok :: "nat \<Rightarrow> nat \<Rightarrow> Shard \<Rightarrow> bool" where
  "shard_ok n i s \<longleftrightarrow>
     ring_ok (sh_queue s) \<and> rb_capacity (sh_queue s) = kShardQueueCapacity \<and>
     ring_ok (sh_output_queue s) \<and> rb_capacity (sh_output_queue s) = kDeltaQueueCapacity \<and>
     (\<forall>ticker. book_ok (book_at s ticker)) \<and>
     distinct (map fst (sh_books s)) \<and>
     (\<forall>ticker \<in> fst ` set (sh_books s). shard_for_symbol ticker n = i) \<and>
     (\<forall>qm \<in> set (rb_contents (sh_queue s)). shard_for_symbol (qm_symbol qm) n = i)"

definition routes_ok :: "nat \<Rightarrow> (OrderId \<times> OrderRoute) list \<Rightarrow> bool" where
  "routes_ok n routes \<longleftrightarrow>
     distinct (map fst routes) \<and>
     (\<forall>r \<in> ran (map_of routes). rt_shard_index r = shard_for_symbol (rt_symbol r) n)"

definition sp_ok :: "ShardedPipeline \<Rightarrow> bool" where
  "sp_ok sp \<longleftrightarrow>
     0 < length (sp_shards sp) \<and> length (sp_shards sp) \<le> kMaxShards \<and>
     (\<forall>i < length (sp_shards sp). shard_ok (length (sp_shards sp)) i (sp_shards sp ! i)) \<and>
     routes_ok (length (sp_shards sp)) (sp_order_route sp)"

subsection \<open>Construction and routing\<close>

lemma sharded_pipeline_ok: "sharded_pipeline n = Inr sp \<Longrightarrow> sp_ok sp \<and> length (sp_shards sp) = n"
  using ring_init_ok [of 4096 queued_message_init] ring_init_ok [of 4096 book_delta_init]
  by (auto simp: sharded_pipeline_def sp_ok_def routes_ok_def shard_ok_def shard_init_def book_at_def book_ok_init
      kShardQueueCapacity_def kDeltaQueueCapacity_def delta_queue_init_def split: if_splits)

lemma ran_delete: "ran (map_of (AList.delete k al)) \<subseteq> ran (map_of al)"
  by (auto simp: delete_conv ran_def split: if_splits)

lemma ran_update: "ran (map_of (AList.update k v al)) \<subseteq> insert v (ran (map_of al))"
  by (auto simp: update_conv ran_def split: if_splits)

lemma routes_delete: "routes_ok n routes \<Longrightarrow> routes_ok n (AList.delete k routes)"
  using ran_delete [of k routes] by (auto simp: routes_ok_def distinct_delete)

lemma routes_update:
  "routes_ok n routes \<Longrightarrow> rt_shard_index r = shard_for_symbol (rt_symbol r) n \<Longrightarrow>
     routes_ok n (AList.update k r routes)"
  using ran_update [of k r routes] by (auto simp: routes_ok_def distinct_update)

lemma routes_lookup:
  "routes_ok n routes \<Longrightarrow> map_of routes k = Some r \<Longrightarrow> rt_shard_index r = shard_for_symbol (rt_symbol r) n"
  unfolding routes_ok_def by (blast intro: ranI)

lemma route_message_ok:
  assumes "routes_ok n routes" "route_message n m routes = Inr (r, routes')"
  shows "routes_ok n routes' \<and> rt_shard_index r = shard_for_symbol (rt_symbol r) n"
  using assms by (cases m) (auto simp: Let_def routes_update routes_delete routes_lookup split: option.splits)

lemma shard_for_symbol_less: "0 < n \<Longrightarrow> shard_for_symbol ticker n < n"
  by (simp add: shard_for_symbol_def)

lemma decode_defined: "decode raw \<noteq> None"
  by (rule decode_cases [of raw]) auto

subsection \<open>Queues\<close>

lemma newest_subset: "set (newest n xs) \<subseteq> set xs"
  by (auto simp: newest_def dest: in_set_dropD)

lemma push_ok:
  assumes "ring_ok q"
  obtains q' where "push x q = Some q'" "ring_ok q'" "rb_capacity q' = rb_capacity q"
    "rb_contents q' = newest (rb_capacity q) (rb_contents q @ [x])"
    "dropped_updates_total q' = dropped_updates_total q + of_bool (rb_count q = rb_capacity q)"
  using ring.push_contract [OF assms, of x] ring.capacity_pos [OF assms] ring.bounded [OF assms]
  by (auto simp: drop_oldest_push_newest)

lemma push_deltas_eq:
  "ar_count r \<le> length (ar_deltas r) \<Longrightarrow>
     push_deltas i r qm q = push_all push (map (book_delta qm) (drop i (result_deltas r))) q"
proof (induction i r qm q rule: push_deltas.induct)
  case (1 i r qm q)
  show ?case
  proof (cases "i < ar_count r")
    case True
    then have "drop i (result_deltas r) = ar_deltas r ! i # drop (i + 1) (result_deltas r)"
      using 1(2) by (simp add: result_deltas_def Cons_nth_drop_Suc [symmetric])
    then show ?thesis using 1 True by (simp add: push_deltas.simps [of i] split: bind_splits)
  next
    case False
    then show ?thesis using 1(2) by (simp add: push_deltas.simps [of i] result_deltas_def)
  qed
qed

lemma apply_result_count: "apply_msg m b = Some (Inr r, b') \<Longrightarrow> ar_count r \<le> length (ar_deltas r)"
proof -
  have add: "ar_add s p q x = Some r \<Longrightarrow> ar_count r \<le> length (ar_deltas r)" for s p q x
    by (auto simp: ar_add_def split: if_splits)
  show "apply_msg m b = Some (Inr r, b') \<Longrightarrow> ar_count r \<le> length (ar_deltas r)"
    by (cases m) (auto simp: apply_add_def apply_cancel_def apply_execute_def apply_replace_def Let_def
        bind_eq_Some_conv split_beta split: if_splits option.splits intro: add)
qed


subsection \<open>Effect of \<open>demux\<close>\<close>

text \<open>
  \<open>demux\<close> always returns.  It rejects what does not decode or cannot be routed, without touching a shard;
  otherwise the message goes to the end of the queue of its symbol's shard.
\<close>

lemma demux_effect:
  assumes ok: "sp_ok sp"
  obtains (rejected) e sp' where "demux now raw t sp = Some (Inl e, sp')" "sp_ok sp'" "sp_shards sp' = sp_shards sp"
      "sp_order_route sp' = sp_order_route sp"
  | (queued) i sp' m qm q' where "demux now raw t sp = Some (Inr i, sp')" "sp_ok sp'" "i < length (sp_shards sp)"
      "decode raw = Some (Inr m)" "qm_message qm = m" "shard_for_symbol (qm_symbol qm) (length (sp_shards sp)) = i"
      "push qm (sh_queue (sp_shards sp ! i)) = Some q'"
      "sp_shards sp' = (sp_shards sp)[i := (sp_shards sp ! i)\<lparr>sh_queue := q'\<rparr>]"
proof -
  let ?n = "length (sp_shards sp)"
  have n: "0 < ?n" and routes: "routes_ok ?n (sp_order_route sp)"
    and shards: "\<And>i. i < ?n \<Longrightarrow> shard_ok ?n i (sp_shards sp ! i)"
    using ok by (auto simp: sp_ok_def)
  have ticks: "sp_ok (sp\<lparr>sp_ticks := k\<rparr>)" for k using ok by (simp add: sp_ok_def)
  obtain d where d: "decode raw = Some d" using decode_defined by blast
  show thesis
  proof (cases d)
    case (Inl e)
    then show thesis
      using rejected [of DecodeFailed "sp\<lparr>sp_ticks := Suc (sp_ticks sp)\<rparr>"] d ticks
      by (simp add: demux_def clock_now_def)
  next
    case (Inr m)
    show thesis
    proof (cases "route_message ?n m (sp_order_route sp)")
      case (Inl e)
      then show thesis
        using rejected [of e "sp\<lparr>sp_ticks := Suc (sp_ticks sp)\<rparr>"] d Inr ticks
        by (simp add: demux_def clock_now_def)
    next
      case R: (Inr x)
      obtain r routes' where x: "x = (r, routes')" by (cases x)
      let ?i = "rt_shard_index r"
      have routes': "routes_ok ?n routes'" and i: "?i = shard_for_symbol (rt_symbol r) ?n" "?i < ?n"
        using route_message_ok [OF routes] R x shard_for_symbol_less [OF n] by auto
      let ?s = "sp_shards sp ! ?i"
      let ?qm = "\<lparr>qm_symbol = rt_symbol r, qm_message = m, qm_trace = trace_init\<lparr>t_received := t,
          t_decoded := now (sp_ticks sp), t_demuxed := now (Suc (sp_ticks sp))\<rparr>\<rparr>"
      have s: "shard_ok ?n ?i ?s" using shards i(2) by blast
      then have "ring_ok (sh_queue ?s)" by (simp add: shard_ok_def)
      then obtain q' where q': "push ?qm (sh_queue ?s) = Some q'" "ring_ok q'" "rb_capacity q' = rb_capacity (sh_queue ?s)"
          "rb_contents q' = newest (rb_capacity (sh_queue ?s)) (rb_contents (sh_queue ?s) @ [?qm])"
        by (rule push_ok)
      let ?sp' = "sp\<lparr>sp_shards := (sp_shards sp)[?i := ?s\<lparr>sh_queue := q'\<rparr>], sp_order_route := routes',
          sp_ticks := Suc (Suc (sp_ticks sp))\<rparr>"
      have "shard_ok ?n ?i (?s\<lparr>sh_queue := q'\<rparr>)"
        using s q' i(1) newest_subset by (fastforce simp: shard_ok_def book_at_def)
      then have "sp_ok ?sp'"
        using ok routes' shards i(2) by (auto simp: sp_ok_def nth_list_update)
      moreover have "demux now raw t sp = Some (Inr ?i, ?sp')"
        using d Inr R x i(2) q'(1) by (simp add: demux_def clock_now_def Let_def)
      ultimately show thesis
        using queued [of ?i ?sp' m ?qm q'] d Inr i q'(1) by simp
    qed
  qed
qed

subsection \<open>Effect of one iteration of \<open>process_shard\<close>\<close>

lemma book_at_update:
  "book_at (s\<lparr>sh_books := AList.update k b (sh_books s)\<rparr>) ticker = (if ticker = k then b else book_at s ticker)"
  by (simp add: book_at_def update_conv)

lemma book_at_frame [simp]:
  "book_at (s\<lparr>sh_queue := q\<rparr>) = book_at s" "book_at (s\<lparr>sh_gap_detector := g\<rparr>) = book_at s"
  "book_at (s\<lparr>sh_output_queue := out\<rparr>) = book_at s"
  by (simp_all add: book_at_def fun_eq_iff)

lemma cleanup_route_ok: "routes_ok n routes \<Longrightarrow> routes_ok n (cleanup_route m b routes)"
  by (cases m) (simp_all add: routes_delete)

lemma process_one_idle:
  assumes "sp_ok sp" "i < length (sp_shards sp)" "rb_contents (sh_queue (sp_shards sp ! i)) = []"
  shows "process_one now i sp = Some (False, sp)"
proof -
  have "ring_ok (sh_queue (sp_shards sp ! i))" using assms by (auto simp: sp_ok_def shard_ok_def)
  then have "try_pop (sh_queue (sp_shards sp ! i)) = (None, sh_queue (sp_shards sp ! i))"
    using ring.pop_empty assms(3) by blast
  then show ?thesis using assms(2) by (simp add: process_one_def)
qed

text \<open>
  A queued message is observed by the gap detector, applied to the book of its symbol, and the deltas
  of a successful application go to the output queue, in order; nothing else of the shard, and no other
  shard, changes.
\<close>

lemma process_one_effect:
  assumes ok: "sp_ok sp" and i: "i < length (sp_shards sp)"
    and queue: "rb_contents (sh_queue (sp_shards sp ! i)) = qm # qs"
  obtains sp' s' r b' qm' where "process_one now i sp = Some (True, sp')" "sp_ok sp'"
    "sp_shards sp' = (sp_shards sp)[i := s']"
    "rb_contents (sh_queue s') = qs"
    "dropped_updates_total (sh_queue s') = dropped_updates_total (sh_queue (sp_shards sp ! i))"
    "sh_gap_detector s' = snd (observe (msg_seq_num (qm_message qm)) (sh_gap_detector (sp_shards sp ! i)))"
    "apply_msg (qm_message qm) (book_at (sp_shards sp ! i) (qm_symbol qm)) = Some (r, b')"
    "book_at s' = (book_at (sp_shards sp ! i))(qm_symbol qm := b')"
    "qm_symbol qm' = qm_symbol qm" "qm_message qm' = qm_message qm"
    "push_all push (map (book_delta qm') (case r of Inl _ \<Rightarrow> [] | Inr x \<Rightarrow> result_deltas x))
       (sh_output_queue (sp_shards sp ! i)) = Some (sh_output_queue s')"
    "sp_order_route sp' = cleanup_route (qm_message qm) b' (sp_order_route sp)"
proof -
  let ?n = "length (sp_shards sp)" and ?s = "sp_shards sp ! i"
  have s: "shard_ok ?n i ?s" using ok i by (simp add: sp_ok_def)
  then have rings: "ring_ok (sh_queue ?s)" "ring_ok (sh_output_queue ?s)" and book: "book_ok (book_at ?s (qm_symbol qm))"
    by (auto simp: shard_ok_def)
  obtain q1 where q1: "try_pop (sh_queue ?s) = (Some qm, q1)" "ring_ok q1" "rb_capacity q1 = rb_capacity (sh_queue ?s)"
      "rb_contents q1 = qs" "dropped_updates_total q1 = dropped_updates_total (sh_queue ?s)"
    using ring.pop_contract [OF rings(1) queue] by blast
  obtain r b' where app: "apply_msg (qm_message qm) (book_at ?s (qm_symbol qm)) = Some (r, b')" and b': "book_ok b'"
    using book_stepE [OF book] by metis
  define qm' where "qm' = qm\<lparr>qm_trace := (qm_trace qm)\<lparr>t_dequeued := now (sp_ticks sp), t_book_updated := now (Suc (sp_ticks sp))\<rparr>\<rparr>"
  let ?ds = "map (book_delta qm') (case r of Inl _ \<Rightarrow> [] | Inr x \<Rightarrow> result_deltas x)"
  obtain out where out: "push_all push ?ds (sh_output_queue ?s) = Some out" "ring_ok out"
      "rb_capacity out = rb_capacity (sh_output_queue ?s)"
    using ring.push_all_contract [OF rings(2)] by blast
  have deltas: "(case r of Inl _ \<Rightarrow> Some (sh_output_queue ?s) | Inr x \<Rightarrow> push_deltas 0 x qm' (sh_output_queue ?s)) = Some out"
    using out(1) app apply_result_count push_deltas_eq by (cases r) auto
  define s' where "s' = ?s\<lparr>sh_queue := q1, sh_gap_detector := snd (observe (msg_seq_num (qm_message qm)) (sh_gap_detector ?s)),
      sh_books := AList.update (qm_symbol qm) b' (sh_books ?s), sh_output_queue := out\<rparr>"
  define sp' where "sp' = sp\<lparr>sp_shards := (sp_shards sp)[i := s'],
      sp_order_route := cleanup_route (qm_message qm) b' (sp_order_route sp), sp_ticks := Suc (Suc (sp_ticks sp))\<rparr>"
  have books: "book_at s' = (book_at ?s)(qm_symbol qm := b')"
    by (auto simp: s'_def book_at_def update_conv fun_eq_iff)
  have home: "shard_for_symbol (qm_symbol qm) ?n = i" using s queue by (simp add: shard_ok_def)
  have "shard_ok ?n i s'"
    using s q1 out b' home queue books by (auto simp: shard_ok_def s'_def distinct_update dom_update)
  then have ok': "sp_ok sp'"
    using ok i cleanup_route_ok by (auto simp: sp_ok_def sp'_def nth_list_update)
  have "process_one now i sp = Some (True, sp')"
    using i q1(1) app deltas
    by (cases r) (simp_all add: process_one_def process_message_def clock_now_def Let_def book_at_def [symmetric] sp'_def s'_def qm'_def)
  then show thesis
    using that [of sp' s' r b' qm'] ok' q1 app books out(1) by (simp add: sp'_def s'_def qm'_def)
qed

end
