(* ===== verification/Shard_Properties.thy ===== *)
theory Shard_Properties
  imports Shard_Invariant
begin

text \<open>
  Executions of the sharded pipeline: any interleaving of \<open>demux\<close> calls, iterations of \<open>process_shard\<close>
  and iterations of \<open>drain_publisher_queue\<close>, on any of the shards.  Ghost histories record, per shard,
  the messages enqueued and processed, the level deltas sent to the output queue and the deltas published.
  The invariant \<open>system_inv\<close> says that the books and the gap detector of a shard are a function of the messages
  it processed, symbol by symbol, and relates the histories through the two queues.
\<close>

subsection \<open>Executions\<close>

record system =
  pipeline :: ShardedPipeline
  enqueued :: "nat \<Rightarrow> QueuedMessage list"
  processed :: "nat \<Rightarrow> QueuedMessage list"
  sent :: "nat \<Rightarrow> (Symbol \<times> LevelDelta) list"
  published :: "nat \<Rightarrow> BookDelta list"

definition system_init :: "ShardedPipeline \<Rightarrow> system" where
  "system_init sp = \<lparr>pipeline = sp, enqueued = \<lambda>_. [], processed = \<lambda>_. [], sent = \<lambda>_. [], published = \<lambda>_. []\<rparr>"

datatype system_event = Demux "byte list" time_point | Process nat | Publish nat

abbreviation shard_at :: "system \<Rightarrow> nat \<Rightarrow> Shard" where
  "shard_at S i \<equiv> sp_shards (pipeline S) ! i"

abbreviation num_shards :: "system \<Rightarrow> nat" where
  "num_shards S \<equiv> length (sp_shards (pipeline S))"

definition new_deltas :: "Shard \<Rightarrow> QueuedMessage \<Rightarrow> (Symbol \<times> LevelDelta) list" where
  "new_deltas s qm =
     (case apply_msg (qm_message qm) (book_at s (qm_symbol qm)) of
        Some (Inr r, _) \<Rightarrow> map (Pair (qm_symbol qm)) (result_deltas r)
      | _ \<Rightarrow> [])"

fun system_step :: "clock \<Rightarrow> system_event \<Rightarrow> system \<Rightarrow> system option" where
  "system_step now (Demux raw t) S =
     (case demux now raw t (pipeline S) of
        None \<Rightarrow> None
      | Some (Inl _, sp) \<Rightarrow> Some (S\<lparr>pipeline := sp\<rparr>)
      | Some (Inr i, sp) \<Rightarrow>
          Some (S\<lparr>pipeline := sp,
            enqueued := (enqueued S)(i := enqueued S i @ [last (rb_contents (sh_queue (sp_shards sp ! i)))])\<rparr>))"
| "system_step now (Process i) S =
     (if num_shards S \<le> i then Some S
      else case process_one now i (pipeline S) of
        None \<Rightarrow> None
      | Some (_, sp) \<Rightarrow>
          (case fst (try_pop (sh_queue (shard_at S i))) of
             None \<Rightarrow> Some (S\<lparr>pipeline := sp\<rparr>)
           | Some qm \<Rightarrow>
               Some (S\<lparr>pipeline := sp, processed := (processed S)(i := processed S i @ [qm]),
                       sent := (sent S)(i := sent S i @ new_deltas (shard_at S i) qm)\<rparr>)))"
| "system_step now (Publish i) S =
     (if num_shards S \<le> i then Some S
      else case try_pop (sh_output_queue (shard_at S i)) of
        (None, _) \<Rightarrow> Some S
      | (Some d, q) \<Rightarrow>
          Some (S\<lparr>pipeline := (pipeline S)\<lparr>sp_shards :=
                    (sp_shards (pipeline S))[i := (shard_at S i)\<lparr>sh_output_queue := q\<rparr>]\<rparr>,
                  published := (published S)(i := published S i @ [d])\<rparr>))"

fun system_run :: "clock \<Rightarrow> system_event list \<Rightarrow> system \<Rightarrow> system option" where
  "system_run now [] S = Some S"
| "system_run now (e # es) S = do { S \<leftarrow> system_step now e S; system_run now es S }"

subsection \<open>Invariant\<close>

fun delta_level :: "BookDelta \<Rightarrow> LevelDelta" where
  "delta_level d = \<lparr>ld_side = bd_side d, ld_price = bd_price d, ld_total_quantity = bd_total_quantity d\<rparr>"

definition delta_key :: "BookDelta \<Rightarrow> Symbol \<times> LevelDelta" where
  "delta_key d = (bd_symbol d, delta_level d)"

definition messages_for :: "Symbol \<Rightarrow> QueuedMessage list \<Rightarrow> DecodedMessage list" where
  "messages_for ticker qms = map qm_message (filter (\<lambda>qm. qm_symbol qm = ticker) qms)"

definition seq_nums :: "QueuedMessage list \<Rightarrow> SeqNum list" where
  "seq_nums qms = map (\<lambda>qm. msg_seq_num (qm_message qm)) qms"

definition shard_history :: "Shard \<Rightarrow> QueuedMessage list \<Rightarrow> QueuedMessage list \<Rightarrow>
    (Symbol \<times> LevelDelta) list \<Rightarrow> BookDelta list \<Rightarrow> bool" where
  "shard_history s enq proc snt pub \<longleftrightarrow>
     sh_gap_detector s = snd (observe_all (seq_nums proc) gap_detector_init) \<and>
     (\<forall>ticker. \<exists>rs. apply_all (messages_for ticker proc) order_book_init = Some (rs, book_at s ticker) \<and>
        map snd (filter (\<lambda>d. fst d = ticker) snt) = successful_deltas rs) \<and>
     queue_history rb_contents dropped_updates_total id (sh_queue s) proc enq \<and>
     queue_history rb_contents dropped_updates_total delta_key (sh_output_queue s) pub snt"

definition system_inv :: "system \<Rightarrow> bool" where
  "system_inv S \<longleftrightarrow> sp_ok (pipeline S) \<and>
     (\<forall>i < num_shards S. shard_history (shard_at S i) (enqueued S i) (processed S i) (sent S i) (published S i))"

lemma system_init_inv:
  assumes "sharded_pipeline n = Inr sp"
  shows "system_inv (system_init sp)"
proof -
  have "shard_history shard_init [] [] [] []"
    by (auto simp: shard_history_def shard_init_def seq_nums_def messages_for_def book_at_def queue_history_def
        ring_init_def dropped_updates_total_def delta_queue_init_def rb_contents_def rb_count_def)
  moreover have "sp_shards sp = replicate n shard_init"
    using assms by (auto simp: sharded_pipeline_def split: if_splits)
  ultimately show ?thesis
    using sharded_pipeline_ok [OF assms] by (simp add: system_inv_def system_init_def)
qed

lemma apply_all_snoc:
  "apply_all (ms @ [m]) b = do { (rs, b) \<leftarrow> apply_all ms b; (r, b) \<leftarrow> apply_msg m b; Some (rs @ [r], b) }"
  by (induction ms arbitrary: b) (auto split: bind_splits)

lemma successful_deltas_snoc:
  "successful_deltas (rs @ [r]) = successful_deltas rs @ (case r of Inl _ \<Rightarrow> [] | Inr x \<Rightarrow> result_deltas x)"
  by (induction rs rule: successful_deltas.induct) (auto split: sum.splits)


subsection \<open>Preservation\<close>

lemma last_newest: "0 < n \<Longrightarrow> last (newest n (xs @ [x])) = x"
  by (simp add: newest_def)

lemma demux_inv:
  assumes inv: "system_inv S"
  shows "\<exists>S'. system_step now (Demux raw t) S = Some S' \<and> system_inv S' \<and> num_shards S' = num_shards S"
proof -
  have ok: "sp_ok (pipeline S)" using inv by (simp add: system_inv_def)
  show ?thesis
  proof (rule demux_effect [OF ok, of now raw t])
    fix e sp'
    assume "demux now raw t (pipeline S) = Some (Inl e, sp')" "sp_ok sp'" "sp_shards sp' = sp_shards (pipeline S)"
    then show ?thesis using inv by (simp add: system_inv_def)
  next
    fix i sp' m qm q'
    assume run: "demux now raw t (pipeline S) = Some (Inr i, sp')" and ok': "sp_ok sp'" and i: "i < num_shards S"
      and push: "push qm (sh_queue (shard_at S i)) = Some q'"
      and shards: "sp_shards sp' = (sp_shards (pipeline S))[i := (shard_at S i)\<lparr>sh_queue := q'\<rparr>]"
    have rq: "ring_ok (sh_queue (shard_at S i))" using ok i by (simp add: sp_ok_def shard_ok_def)
    have "last (rb_contents q') = qm"
      using push_ok [OF rq, of qm] push ring.capacity_pos [OF rq] by (metis last_newest option.inject)
    moreover have "shard_history (shard_at S i) (enqueued S i) (processed S i) (sent S i) (published S i)"
      using inv i by (simp add: system_inv_def)
    ultimately have "shard_history ((shard_at S i)\<lparr>sh_queue := q'\<rparr>)
        (enqueued S i @ [last (rb_contents q')]) (processed S i) (sent S i) (published S i)"
      using ring.push_history [OF rq _ push, of id] by (simp add: shard_history_def)
    then show ?thesis
      using inv run ok' i shards by (auto simp: system_inv_def nth_list_update)
  qed
qed

lemma map_delta_key: "qm_symbol qm' = ticker \<Longrightarrow> map delta_key (map (book_delta qm') ls) = map (Pair ticker) ls"
  by (simp add: delta_key_def book_delta_def)

lemma process_inv:
  assumes inv: "system_inv S"
  shows "\<exists>S'. system_step now (Process i) S = Some S' \<and> system_inv S' \<and> num_shards S' = num_shards S"
proof (cases "i < num_shards S")
  case i: True
  have ok: "sp_ok (pipeline S)" using inv by (simp add: system_inv_def)
  have rq: "ring_ok (sh_queue (shard_at S i))" and ro: "ring_ok (sh_output_queue (shard_at S i))"
    using ok i by (auto simp: sp_ok_def shard_ok_def)
  have hist: "shard_history (shard_at S i) (enqueued S i) (processed S i) (sent S i) (published S i)"
    using inv i by (simp add: system_inv_def)
  show ?thesis
  proof (cases "rb_contents (sh_queue (shard_at S i))")
    case Nil
    then show ?thesis
      using process_one_idle [OF ok i] ring.pop_empty [OF rq] inv i by simp
  next
    case (Cons qm qs)
    obtain sp' s' r b' qm' where run: "process_one now i (pipeline S) = Some (True, sp')" and ok': "sp_ok sp'"
      and shards: "sp_shards sp' = (sp_shards (pipeline S))[i := s']"
      and q: "rb_contents (sh_queue s') = qs"
        "dropped_updates_total (sh_queue s') = dropped_updates_total (sh_queue (shard_at S i))"
      and gap: "sh_gap_detector s' = snd (observe (msg_seq_num (qm_message qm)) (sh_gap_detector (shard_at S i)))"
      and app: "apply_msg (qm_message qm) (book_at (shard_at S i) (qm_symbol qm)) = Some (r, b')"
      and books: "book_at s' = (book_at (shard_at S i))(qm_symbol qm := b')"
      and qm': "qm_symbol qm' = qm_symbol qm"
      and out: "push_all push (map (book_delta qm') (case r of Inl _ \<Rightarrow> [] | Inr x \<Rightarrow> result_deltas x))
        (sh_output_queue (shard_at S i)) = Some (sh_output_queue s')"
      using process_one_effect [OF ok i Cons] by metis
    let ?ls = "case r of Inl _ \<Rightarrow> [] | Inr x \<Rightarrow> result_deltas x"
    have new: "new_deltas (shard_at S i) qm = map (Pair (qm_symbol qm)) ?ls"
      using app by (cases r) (simp_all add: new_deltas_def)
    have "queue_history rb_contents dropped_updates_total delta_key (sh_output_queue s') (published S i)
        (sent S i @ new_deltas (shard_at S i) qm)"
      unfolding new map_delta_key [OF qm', symmetric]
      by (rule ring.push_all_history [OF ro _ out]) (use hist in \<open>simp add: shard_history_def\<close>)
    moreover have "queue_history rb_contents dropped_updates_total id (sh_queue s') (processed S i @ [qm]) (enqueued S i)"
      by (rule ring.pop_history [OF rq _ Cons q]) (use hist in \<open>simp add: shard_history_def\<close>)
    moreover have "sh_gap_detector s' = snd (observe_all (seq_nums (processed S i @ [qm])) gap_detector_init)"
      using gap hist by (simp add: shard_history_def seq_nums_def observe_all_append observe_all_Cons del: observe_all.simps(2))
    moreover have "\<exists>rs. apply_all (messages_for ticker (processed S i @ [qm])) order_book_init = Some (rs, book_at s' ticker) \<and>
        map snd (filter (\<lambda>d. fst d = ticker) (sent S i @ new_deltas (shard_at S i) qm)) = successful_deltas rs" for ticker
    proof -
      obtain rs where rs: "apply_all (messages_for ticker (processed S i)) order_book_init = Some (rs, book_at (shard_at S i) ticker)"
          "map snd (filter (\<lambda>d. fst d = ticker) (sent S i)) = successful_deltas rs"
        using hist unfolding shard_history_def by blast
      show ?thesis
      proof (cases "qm_symbol qm = ticker")
        case True
        then show ?thesis
          using rs app books new by (simp add: messages_for_def apply_all_snoc successful_deltas_snoc filter_map o_def)
      next
        case False
        then show ?thesis using rs books new by (simp add: messages_for_def filter_map o_def)
      qed
    qed
    ultimately have "shard_history s' (enqueued S i) (processed S i @ [qm]) (sent S i @ new_deltas (shard_at S i) qm) (published S i)"
      by (simp add: shard_history_def)
    moreover obtain q1 where "try_pop (sh_queue (shard_at S i)) = (Some qm, q1)"
      using ring.pop_contract [OF rq Cons] by blast
    ultimately show ?thesis
      using inv run ok' i shards by (auto simp: system_inv_def nth_list_update)
  qed
qed (use inv in simp)

lemma publish_inv:
  assumes inv: "system_inv S"
  shows "\<exists>S'. system_step now (Publish i) S = Some S' \<and> system_inv S' \<and> num_shards S' = num_shards S"
proof (cases "i < num_shards S")
  case i: True
  have ok: "sp_ok (pipeline S)" using inv by (simp add: system_inv_def)
  have ro: "ring_ok (sh_output_queue (shard_at S i))" using ok i by (auto simp: sp_ok_def shard_ok_def)
  have hist: "shard_history (shard_at S i) (enqueued S i) (processed S i) (sent S i) (published S i)"
    using inv i by (simp add: system_inv_def)
  show ?thesis
  proof (cases "rb_contents (sh_output_queue (shard_at S i))")
    case Nil
    then show ?thesis using ring.pop_empty [OF ro] inv i by simp
  next
    case (Cons d ds)
    obtain q where q: "try_pop (sh_output_queue (shard_at S i)) = (Some d, q)" "ring_ok q"
        "rb_capacity q = rb_capacity (sh_output_queue (shard_at S i))" "rb_contents q = ds"
        "dropped_updates_total q = dropped_updates_total (sh_output_queue (shard_at S i))"
      using ring.pop_contract [OF ro Cons] by blast
    let ?s' = "(shard_at S i)\<lparr>sh_output_queue := q\<rparr>"
    have "shard_history ?s' (enqueued S i) (processed S i) (sent S i) (published S i @ [d])"
      using hist ring.pop_history [OF ro _ Cons q(4,5), of delta_key] by (simp add: shard_history_def)
    moreover have "sp_ok ((pipeline S)\<lparr>sp_shards := (sp_shards (pipeline S))[i := ?s']\<rparr>)"
      using ok i q by (auto simp: sp_ok_def shard_ok_def nth_list_update)
    ultimately show ?thesis using inv i q(1) by (auto simp: system_inv_def nth_list_update)
  qed
qed (use inv in simp)

lemma system_run_inv:
  "system_inv S \<Longrightarrow> \<exists>S'. system_run now es S = Some S' \<and> system_inv S' \<and> num_shards S' = num_shards S"
proof (induction es arbitrary: S)
  case (Cons e es)
  obtain S1 where "system_step now e S = Some S1" "system_inv S1" "num_shards S1 = num_shards S"
    using demux_inv [OF Cons.prems] process_inv [OF Cons.prems] publish_inv [OF Cons.prems] by (cases e) blast+
  then show ?case using Cons.IH [of S1] by auto
qed simp


lemma reachable_system:
  assumes "sharded_pipeline n = Inr sp" "system_run now es (system_init sp) = Some S"
  shows "system_inv S \<and> num_shards S = n"
  using system_run_inv [OF system_init_inv [OF assms(1)], of now es] sharded_pipeline_ok [OF assms(1)] assms(2)
  by (auto simp: system_init_def)

subsection \<open>A concrete feed\<close>

definition demo_add :: "OrderId \<Rightarrow> Side \<Rightarrow> Price \<Rightarrow> Quantity \<Rightarrow> DecodedMessage" where
  "demo_add i s p q = AddMsg \<lparr>add_seq_num = i, add_order_id = i, add_symbol = make_symbol ''AAPL'',
     add_side = s, add_price = p, add_quantity = q, add_timestamp = 0\<rparr>"

text \<open>A pipeline of one shard, and its queues after one push and after one pop.\<close>

definition demo_pipeline :: ShardedPipeline where
  "demo_pipeline = \<lparr>sp_shards = [shard_init], sp_order_route = [], sp_ticks = 0\<rparr>"

definition demo_feed :: "system_event list" where
  "demo_feed = [Demux (wire (demo_add 1 Buy (Int64 100) 5)) 0, Process 0, Publish 0]"

definition demo_ring :: "'a \<Rightarrow> 'a \<Rightarrow> u64 \<Rightarrow> 'a ring" where
  "demo_ring v x head =
     \<lparr>rb_buffer = (replicate 4096 \<lparr>slot_value = v, reader_active = False\<rparr>)[0 := \<lparr>slot_value = x, reader_active = False\<rparr>],
      rb_tail = 1, rb_head = head, rb_dropped = 0, rb_wake_generation = 1\<rparr>"

lemma demo_pipeline_init: "sharded_pipeline 1 = Inr demo_pipeline"
  by (simp add: sharded_pipeline_def kMaxShards_def demo_pipeline_def)

lemma demo_decode: "decode (wire (demo_add i s p q)) = Some (Inr (demo_add i s p q))"
proof -
  have "length (make_symbol_loop i s arr) = length arr" for i s and arr :: "char list"
    by (induction i s arr rule: make_symbol_loop.induct) (simp add: make_symbol_loop.simps)
  then have "msg_ok (demo_add i s p q)" by (simp add: demo_add_def symbol_ok_def make_symbol_def)
  then show ?thesis using decode_wire [of "demo_add i s p q" "[]"] by simp
qed

lemma demo_push: "push x (ring_init 4096 v) = Some (demo_ring v x 0)"
  by (simp add: push_def ring_init_def rb_capacity_def set_slot_value_def notify_waiters_def demo_ring_def)

lemma demo_pop: "try_pop (demo_ring v x 0) = (Some x, demo_ring v x 1)"
  by (simp add: try_pop_def demo_ring_def rb_capacity_def set_reader_active_def cas_head_def)

lemma demo_contents: "rb_contents (demo_ring v x 0) = [x]" "rb_dropped (demo_ring v x head) = 0"
  by (simp_all add: demo_ring_def rb_contents_def rb_count_def rb_slot_def rb_capacity_def)

lemma demo_run:
  "\<exists>S l. system_run int demo_feed (system_init demo_pipeline) = Some S \<and>
     length (published S 0) = 1 \<and> length (sent S 0) = 1 \<and> seq_nums (enqueued S 0) = [1] \<and> seq_nums (processed S 0) = [1] \<and>
     dropped_updates_total (sh_output_queue (shard_at S 0)) = 0 \<and>
     level_for Buy (Int64 100) (book_at (shard_at S 0) (make_symbol ''AAPL'')) = Some l \<and> lv_total_quantity l = 5"
  apply (simp add: demo_decode demo_pipeline_def demo_feed_def system_init_def demux_def clock_now_def Let_def shard_init_def)
  apply (simp add: demo_add_def shard_for_symbol_def kShardQueueCapacity_def demo_push demo_pop process_one_def
      process_message_def clock_now_def Let_def delta_queue_init_def kDeltaQueueCapacity_def)
  apply (simp add: book_eval push_deltas.simps demo_push demo_pop new_deltas_def book_at_def result_deltas_def
      dropped_updates_total_def demo_contents seq_nums_def)
  done

subsection \<open>Properties\<close>

text \<open>
  C1. Functional correctness of the shards under every interleaving of the network, decoder and publisher
  threads: no operation has undefined behaviour or spins forever; each book is exactly what applying
  the processed messages of its own symbol, in order, to an empty book gives, whatever other symbols share the
  shard; and the shard's gap detector has observed exactly the sequence numbers of the processed messages.
\<close>

theorem pipeline_refines_books:
  assumes "sharded_pipeline n = Inr sp"
  shows "\<exists>S. system_run now es (system_init sp) = Some S \<and>
     (\<forall>i < n. sh_gap_detector (shard_at S i) = snd (observe_all (seq_nums (processed S i)) gap_detector_init) \<and>
        (\<forall>ticker. map_option snd (apply_all (messages_for ticker (processed S i)) order_book_init) =
                    Some (book_at (shard_at S i) ticker)))"
proof -
  obtain S where run: "system_run now es (system_init sp) = Some S"
    using system_run_inv [OF system_init_inv [OF assms]] by blast
  have "shard_history (shard_at S i) (enqueued S i) (processed S i) (sent S i) (published S i)" if "i < n" for i
    using reachable_system [OF assms run] that by (simp add: system_inv_def)
  then show ?thesis using run unfolding shard_history_def by (metis (no_types, lifting) option.map(2) snd_conv)
qed

theorem pipeline_refines_books_witness:
  "\<exists>S. sharded_pipeline 1 = Inr demo_pipeline \<and> system_run int demo_feed (system_init demo_pipeline) = Some S \<and>
     seq_nums (processed S 0) = [1] \<and> sh_gap_detector (shard_at S 0) = snd (observe_all [1] gap_detector_init)"
  using pipeline_refines_books [OF demo_pipeline_init, of int demo_feed] demo_run demo_pipeline_init
  by (metis option.inject zero_less_one)

text \<open>
  Symbols are partitioned over the shards: at any time a message, book or published delta of a symbol
  is found only in the shard that the hash of the symbol selects, so that no symbol ever has a book in two
  shards.
\<close>

theorem symbols_partitioned:
  assumes "sharded_pipeline n = Inr sp" "system_run now es (system_init sp) = Some S" "i < n"
  shows "(\<forall>ticker \<in> fst ` set (sh_books (shard_at S i)). shard_for_symbol ticker n = i) \<and>
         (\<forall>qm \<in> set (rb_contents (sh_queue (shard_at S i))). shard_for_symbol (qm_symbol qm) n = i) \<and>
         (\<forall>r \<in> ran (map_of (sp_order_route (pipeline S))). rt_shard_index r = shard_for_symbol (rt_symbol r) n)"
proof -
  have "sp_ok (pipeline S)" "num_shards S = n"
    using reachable_system [OF assms(1,2)] by (simp_all add: system_inv_def)
  then show ?thesis using assms(3) by (auto simp: sp_ok_def shard_ok_def routes_ok_def)
qed

theorem symbols_partitioned_witness:
  "\<exists>S. sharded_pipeline 1 = Inr demo_pipeline \<and> system_run int demo_feed (system_init demo_pipeline) = Some S \<and>
     (\<forall>ticker \<in> fst ` set (sh_books (shard_at S 0)). shard_for_symbol ticker 1 = 0)"
  using symbols_partitioned [OF demo_pipeline_init, of int demo_feed _ 0] demo_run demo_pipeline_init
  by (metis zero_less_one)

text \<open>
  C7. End to end: as long as the output queue of a shard has dropped nothing (and fewer than \<open>2 ^ 64\<close> deltas were
  sent), a downstream consumer that replays the published deltas of a symbol, followed by those still
  queued, holds the aggregate quantity of every level of that symbol's book.
\<close>

theorem published_deltas_rebuild_books:
  assumes "sharded_pipeline n = Inr sp" "system_run now es (system_init sp) = Some S" "i < n"
    and "dropped_updates_total (sh_output_queue (shard_at S i)) = 0" "length (sent S i) < 2 ^ 64"
  shows "fold replay_delta
       (map delta_level (filter (\<lambda>d. bd_symbol d = ticker) (published S i @ rb_contents (sh_output_queue (shard_at S i)))))
       (\<lambda>_. 0) (s = Buy, p) =
     (case level_for s p (book_at (shard_at S i) ticker) of None \<Rightarrow> 0 | Some l \<Rightarrow> lv_total_quantity l)"
proof -
  have hist: "shard_history (shard_at S i) (enqueued S i) (processed S i) (sent S i) (published S i)"
    using reachable_system [OF assms(1,2)] assms(3) by (simp add: system_inv_def)
  then have out: "queue_history rb_contents dropped_updates_total delta_key (sh_output_queue (shard_at S i))
      (published S i) (sent S i)" by (simp add: shard_history_def)
  have sent: "map delta_key (published S i @ rb_contents (sh_output_queue (shard_at S i))) = sent S i"
    by (rule queue_history_lossless [OF out assms(4,5)])
  obtain rs where rs: "apply_all (messages_for ticker (processed S i)) order_book_init = Some (rs, book_at (shard_at S i) ticker)"
      "map snd (filter (\<lambda>d. fst d = ticker) (sent S i)) = successful_deltas rs"
    using hist unfolding shard_history_def by blast
  have key: "map snd (filter (\<lambda>d. fst d = ticker) (map delta_key ds)) = map delta_level (filter (\<lambda>d. bd_symbol d = ticker) ds)" for ds
    by (induction ds) (auto simp: delta_key_def)
  have "map delta_level (filter (\<lambda>d. bd_symbol d = ticker) (published S i @ rb_contents (sh_output_queue (shard_at S i)))) =
      successful_deltas rs"
    unfolding key [symmetric] sent by (rule rs(2))
  then show ?thesis using replay_level [OF rs(1)] by simp
qed


theorem published_deltas_rebuild_books_witness:
  "\<exists>S. system_run int demo_feed (system_init demo_pipeline) = Some S \<and> length (published S 0) = 1 \<and>
     fold replay_delta (map delta_level (filter (\<lambda>d. bd_symbol d = make_symbol ''AAPL'')
       (published S 0 @ rb_contents (sh_output_queue (shard_at S 0))))) (\<lambda>_. 0) (Buy = Buy, Int64 100) = 5"
proof -
  obtain S l where run: "system_run int demo_feed (system_init demo_pipeline) = Some S"
    and S: "length (published S 0) = 1" "length (sent S 0) = 1" "dropped_updates_total (sh_output_queue (shard_at S 0)) = 0"
      "level_for Buy (Int64 100) (book_at (shard_at S 0) (make_symbol ''AAPL'')) = Some l" "lv_total_quantity l = 5"
    using demo_run by blast
  show ?thesis
    using published_deltas_rebuild_books [OF demo_pipeline_init run, of 0 "make_symbol ''AAPL''" Buy "Int64 100"] S run by auto
qed

lemma process_shard_drains_ok:
  assumes "sp_ok sp" "i < length (sp_shards sp)"
  shows "\<exists>sp'. process_shard now i sp = Some (rb_contents (sh_queue (sp_shards sp ! i)) \<noteq> [], sp') \<and> sp_ok sp' \<and>
     length (sp_shards sp') = length (sp_shards sp) \<and> rb_contents (sh_queue (sp_shards sp' ! i)) = [] \<and>
     (\<forall>j. j \<noteq> i \<longrightarrow> sp_shards sp' ! j = sp_shards sp ! j)"
  using assms
proof (induction "rb_contents (sh_queue (sp_shards sp ! i))" arbitrary: sp)
  case Nil
  then show ?case using process_one_idle [of sp i now] by (simp add: process_shard.simps [of now i sp])
next
  case (Cons qm qs)
  obtain sp1 s1 where run: "process_one now i sp = Some (True, sp1)" and ok1: "sp_ok sp1"
    and shards: "sp_shards sp1 = (sp_shards sp)[i := s1]" and q: "rb_contents (sh_queue s1) = qs"
    using process_one_effect [OF Cons.prems Cons.hyps(2) [symmetric], of now] by metis
  have "qs = rb_contents (sh_queue (sp_shards sp1 ! i))" "i < length (sp_shards sp1)"
    using shards q Cons.prems(2) by simp_all
  from Cons.hyps(1) [OF this(1) ok1 this(2)] show ?case
    using run shards Cons.hyps(2) [symmetric] by (auto simp: process_shard.simps [of now i sp])
qed

text \<open>
  C27. \<open>process_shard\<close> terminates, processes everything that is queued for the shard, leaves its queue empty, and
  returns true exactly when there was something to process; the other shards are untouched.
\<close>

theorem process_shard_drains:
  assumes "sharded_pipeline n = Inr sp" "system_run now es (system_init sp) = Some S" "i < n"
  shows "\<exists>sp'. process_shard now i (pipeline S) = Some (rb_contents (sh_queue (shard_at S i)) \<noteq> [], sp') \<and>
     rb_contents (sh_queue (sp_shards sp' ! i)) = [] \<and>
     (\<forall>j. j \<noteq> i \<longrightarrow> sp_shards sp' ! j = shard_at S j)"
proof -
  have "sp_ok (pipeline S)" "num_shards S = n"
    using reachable_system [OF assms(1,2)] by (simp_all add: system_inv_def)
  then show ?thesis using process_shard_drains_ok [of "pipeline S" i now] assms(3) by auto
qed

theorem process_shard_drains_witness:
  "\<exists>S sp'. sharded_pipeline 1 = Inr demo_pipeline \<and>
     system_run int [Demux (wire (demo_add 1 Buy (Int64 100) 5)) 0] (system_init demo_pipeline) = Some S \<and>
     process_shard int 0 (pipeline S) = Some (rb_contents (sh_queue (shard_at S 0)) \<noteq> [], sp') \<and>
     rb_contents (sh_queue (sp_shards sp' ! 0)) = []"
proof -
  obtain S where run: "system_run int [Demux (wire (demo_add 1 Buy (Int64 100) 5)) 0] (system_init demo_pipeline) = Some S"
    using system_run_inv [OF system_init_inv [OF demo_pipeline_init]] by blast
  have "\<exists>sp'. process_shard int 0 (pipeline S) = Some (rb_contents (sh_queue (shard_at S 0)) \<noteq> [], sp') \<and>
     rb_contents (sh_queue (sp_shards sp' ! 0)) = []"
    using process_shard_drains [OF demo_pipeline_init run, of 0] by auto
  then show ?thesis using run demo_pipeline_init by blast
qed

subsection \<open>Losses on the input queue and the gap detector\<close>

lemma sorted_wrt_subseq: "subseq xs ys \<Longrightarrow> sorted_wrt P ys \<Longrightarrow> sorted_wrt P xs"
proof (induction rule: list_emb.induct)
  case (list_emb_Cons2 x y xs ys)
  then show ?case by (auto dest: list_emb_set)
qed auto

lemma accepted_increasing: "sorted_wrt (<) (tracked d @ ss) \<Longrightarrow> accepted ss d = ss"
proof (induction ss arbitrary: d)
  case (Cons x ss)
  show ?case
  proof (cases rule: observe_cases [of d x])
    case first
    then show ?thesis using Cons.IH [of "snd (observe x d)"] Cons.prems by (simp add: accepted_Cons tracked_def)
  next
    case in_order
    then show ?thesis using Cons.IH [of "snd (observe x d)"] Cons.prems by (simp add: accepted_Cons tracked_def)
  next
    case duplicate
    then have "gd_last_seq_num d < x" using Cons.prems by (simp add: tracked_def)
    then have "gd_last_seq_num d + 1 \<le> x" by (rule inc_le)
    then show ?thesis using duplicate(3) by simp
  next
    case gap
    then show ?thesis using Cons.IH [of "snd (observe x d)"] Cons.prems by (simp add: accepted_Cons tracked_def)
  qed
qed simp


text \<open>A subsequence of consecutively numbered items whose numbers are consecutive has no hole.\<close>

lemma hole_free_prefix:
  fixes f :: "'a \<Rightarrow> u64"
  assumes "map f ys = map of_nat [Suc a..<Suc a + length ys]" "Suc a + length ys \<le> 2 ^ 64"
    and "subseq xs ys" "consecutive (of_nat a # map f xs)"
  shows "prefix xs ys"
  using assms
proof (induction ys arbitrary: a xs)
  case (Cons y ys)
  have y: "f y = of_nat (Suc a)" and ys: "map f ys = map of_nat [Suc (Suc a)..<Suc (Suc a) + length ys]"
    using Cons.prems(1) by (simp_all add: upt_conv_Cons del: upt_Suc of_nat_Suc)
  show ?case
  proof (cases xs)
    case (Cons x xs')
    have fx: "f x = of_nat (Suc a)" using Cons.prems(4) Cons by simp
    have "x \<notin> set ys"
    proof
      assume "x \<in> set ys"
      then have "f x \<in> set (map f ys)" by simp
      then obtain k where k: "Suc (Suc a) \<le> k" "k < Suc (Suc a) + length ys" "f x = of_nat k"
        unfolding ys by (auto simp del: upt_Suc)
      then have "unat (of_nat k :: u64) = unat (of_nat (Suc a) :: u64)" using fx by simp
      then have "k = Suc a" using k(1,2) Cons.prems(2) by (simp add: unat_of_nat del: of_nat_Suc)
      then show False using k(1) by simp
    qed
    then have "x = y" "subseq xs' ys"
      using Cons.prems(3) Cons by (auto elim: list_emb.cases dest: list_emb_ConsD split: if_splits)
    moreover have "consecutive (of_nat (Suc a) # map f xs')"
      using Cons.prems(4) Cons fx by simp
    then have "prefix xs' ys"
      using Cons.IH [OF ys _ \<open>subseq xs' ys\<close>] Cons.prems(2) by simp
    ultimately show ?thesis using Cons by simp
  qed simp
qed (auto simp: subseq_order.antisym)


lemma hole_free_sublist:
  fixes f :: "'a \<Rightarrow> u64"
  assumes "map f ys = map of_nat [a..<a + length ys]" "a + length ys \<le> 2 ^ 64"
    and "subseq xs ys" "consecutive (map f xs)"
  shows "sublist xs ys"
  using assms
proof (induction ys arbitrary: a)
  case (Cons y ys)
  have y: "f y = of_nat a" and ys: "map f ys = map of_nat [Suc a..<Suc a + length ys]"
    using Cons.prems(1) by (simp_all add: upt_conv_Cons del: upt_Suc of_nat_Suc)
  consider "subseq xs ys" | xs' where "xs = y # xs'" "subseq xs' ys" | "xs = []"
    using Cons.prems(3) by (cases xs) (auto split: if_splits)
  then show ?case
  proof cases
    case 1
    then show ?thesis using Cons.IH [OF ys _ 1] Cons.prems(2,4) by (simp add: sublist_Cons_right)
  next
    case 2
    then have "prefix xs' ys"
      using hole_free_prefix [OF ys _ 2(2)] Cons.prems(2,4) y by simp
    then show ?thesis using 2(1) by (simp add: sublist_Cons_right)
  qed simp
qed simp

lemma consecutive_upt: "consecutive (map of_nat [a..<a + k])"
proof (induction k arbitrary: a)
  case (Suc k)
  have split: "[a..<a + Suc k] = a # [Suc a..<Suc a + k]" by (simp add: upt_conv_Cons del: upt_Suc)
  have "hd (map of_nat [Suc a..<Suc a + k]) = (of_nat a + 1 :: SeqNum)" if "k \<noteq> 0"
    using that by (simp add: hd_map del: upt_Suc)
  then show ?case using Suc.IH [of "Suc a"] unfolding split list.map consecutive_Cons by (cases "k = 0") (simp_all del: upt_Suc)
qed simp

lemma consecutive_block: "seq_nums ms = map of_nat [a..<a + length ms] \<Longrightarrow> consecutive (seq_nums ms)"
  by (simp add: consecutive_upt del: upt_Suc)

lemma block_seq_nums:
  assumes "seq_nums (before @ ms @ after) = map of_nat [a..<a + length (before @ ms @ after)]"
  shows "seq_nums ms = map of_nat [a + length before..<a + length before + length ms]"
proof -
  have "seq_nums ms = take (length ms) (drop (length before) (seq_nums (before @ ms @ after)))" by (simp add: seq_nums_def)
  also have "\<dots> = map of_nat [a + length before..<a + length before + length ms]" unfolding assms by (simp add: take_map drop_map)
  finally show ?thesis .
qed

text \<open>
  C26. What \<open>Live\<close> says of the input side.  If the messages routed to a shard carry consecutive sequence numbers (that do
  not wrap), its gap detector is live if and only if the messages it has processed are a contiguous block of them.  So an
  eviction between two processed messages always leaves the shard stale.  One before the first processed message does not:
  the detector takes the first number that it sees as the start.
\<close>

theorem live_iff_contiguous_block:
  assumes "sharded_pipeline n = Inr sp" "system_run now es (system_init sp) = Some S" "i < n"
    and "seq_nums (enqueued S i) = map of_nat [a..<a + length (enqueued S i)]"
    and "a + length (enqueued S i) \<le> 2 ^ 64"
  shows "state (sh_gap_detector (shard_at S i)) = Live \<longleftrightarrow> (\<exists>before after. enqueued S i = before @ processed S i @ after)"
proof -
  have hist: "shard_history (shard_at S i) (enqueued S i) (processed S i) (sent S i) (published S i)"
    using reachable_system [OF assms(1,2)] assms(3) by (simp add: system_inv_def)
  then have "subseq (processed S i @ rb_contents (sh_queue (shard_at S i))) (enqueued S i)"
    by (simp add: shard_history_def queue_history_def)
  then have sub: "subseq (processed S i) (enqueued S i)"
    by (meson list_emb_appendD subseq_order.trans sublist_imp_subseq sublist_appendI prefix_imp_sublist prefixI)
  then have "subseq (seq_nums (processed S i)) (seq_nums (enqueued S i))"
    by (simp add: seq_nums_def subseq_map)
  moreover have "sorted_wrt (<) (seq_nums (enqueued S i))"
    unfolding assms(4) sorted_wrt_map
    by (rule sorted_wrt_mono_rel [OF _ sorted_wrt_upt]) (use assms(5) in \<open>auto simp: word_less_nat_alt unat_of_nat\<close>)
  ultimately have "sorted_wrt (<) (seq_nums (processed S i))"
    by (rule sorted_wrt_subseq)
  then have "accepted (seq_nums (processed S i)) gap_detector_init = seq_nums (processed S i)"
    by (intro accepted_increasing) (simp add: tracked_def gap_detector_init_def)
  then have live: "state (sh_gap_detector (shard_at S i)) = Live \<longleftrightarrow> consecutive (seq_nums (processed S i))"
    using hist observe_all_live_iff by (simp add: shard_history_def state_def tracked_def gap_detector_init_def)
  show ?thesis
  proof
    assume "state (sh_gap_detector (shard_at S i)) = Live"
    then have "sublist (processed S i) (enqueued S i)"
      using live hole_free_sublist [OF _ assms(5) sub] assms(4) by (simp add: seq_nums_def)
    then show "\<exists>before after. enqueued S i = before @ processed S i @ after" by (simp add: sublist_def)
  next
    assume "\<exists>before after. enqueued S i = before @ processed S i @ after"
    then obtain before "after" where "enqueued S i = before @ processed S i @ after" by blast
    then show "state (sh_gap_detector (shard_at S i)) = Live"
      using live consecutive_block [OF block_seq_nums] assms(4) by simp
  qed
qed

theorem live_iff_contiguous_block_witness:
  "\<exists>S. system_run int demo_feed (system_init demo_pipeline) = Some S \<and> seq_nums (processed S 0) = [1] \<and>
     (state (sh_gap_detector (shard_at S 0)) = Live \<longleftrightarrow> (\<exists>before after. enqueued S 0 = before @ processed S 0 @ after))"
proof -
  obtain S where run: "system_run int demo_feed (system_init demo_pipeline) = Some S"
    and S: "seq_nums (enqueued S 0) = [1]" "seq_nums (processed S 0) = [1]"
    using demo_run by blast
  have "length (seq_nums (enqueued S 0)) = 1" by (simp add: S(1))
  then have len: "length (enqueued S 0) = 1" by (simp add: seq_nums_def)
  then show ?thesis
    using live_iff_contiguous_block [OF demo_pipeline_init run, of 0 1] S run by auto
qed

end
