(* ===== verification/Node_Budget.thy ===== *)
theory Node_Budget
  imports Object_Pool Shard_Properties
begin

text \<open>
  The sizing of the pools in \<open>orderbook/order_book.hpp\<close> against the nodes that the containers of a shard's order books hold: one list node
  and one hash node per resting order, one tree node per price level of either side.
\<close>

definition kMaxSymbols :: nat where
  "kMaxSymbols = 500"

definition kExpectedRestingOrdersPerSymbol :: nat where
  "kExpectedRestingOrdersPerSymbol = 2000"

definition kExpectedSymbolsPerShard :: nat where
  "kExpectedSymbolsPerShard = (kMaxSymbols div kMaxShards) * 2"

definition kShardOrderPoolCapacity :: nat where
  "kShardOrderPoolCapacity = kExpectedSymbolsPerShard * kExpectedRestingOrdersPerSymbol"

lemma kShardOrderPoolCapacity: "kShardOrderPoolCapacity = 124000"
  by (simp add: kShardOrderPoolCapacity_def kExpectedSymbolsPerShard_def kExpectedRestingOrdersPerSymbol_def kMaxSymbols_def kMaxShards_def)

definition list_nodes :: "OrderBook \<Rightarrow> nat" where
  "list_nodes b = card (dom (ob_nodes b))"

definition hash_nodes :: "OrderBook \<Rightarrow> nat" where
  "hash_nodes b = length (ob_index b)"

definition tree_nodes :: "OrderBook \<Rightarrow> nat" where
  "tree_nodes b = length (ob_bids b) + length (ob_asks b)"

definition resting_orders :: "OrderBook \<Rightarrow> nat" where
  "resting_orders b = length (book_orders b)"

lemma list_nodes_eq:
  assumes "book_ok b"
  shows "list_nodes b = resting_orders b"
proof -
  have "dom (ob_nodes b) = set (map fst (book_pairs b))"
  proof (rule set_eqI)
    fix k
    have "k \<in> dom (ob_nodes b) \<Longrightarrow> k < ob_next b" using assms by (auto simp: book_ok_def)
    moreover have "k \<in> set (map fst (book_pairs b)) \<longleftrightarrow> (\<exists>x. (k, x) \<in> set (book_pairs b))" by force
    ultimately show "k \<in> dom (ob_nodes b) \<longleftrightarrow> k \<in> set (map fst (book_pairs b))"
      by (auto simp: book_pairs_def set_live)
  qed
  then have "card (dom (ob_nodes b)) = length (map fst (book_pairs b))"
    using distinct_card [OF distinct_book_pairs [of b]] by simp
  then show ?thesis by (simp add: list_nodes_def resting_orders_def book_orders_def)
qed

lemma hash_nodes_eq:
  assumes ok: "book_ok b"
  shows "hash_nodes b = resting_orders b"
proof -
  have "map_of (ob_index b) i \<noteq> None \<longleftrightarrow> i \<in> set (map ro_order_id (book_orders b))" for i
    using has_order_iff [OF ok, of i] by (simp add: has_order_def spec_find_None)
  then have "set (map fst (ob_index b)) = set (map ro_order_id (book_orders b))"
    by (auto simp: map_of_eq_None_iff)
  moreover have "distinct (map fst (ob_index b))" "distinct (map ro_order_id (book_orders b))"
    using ok by (simp_all add: book_ok_def)
  ultimately show ?thesis
    using distinct_card [of "map fst (ob_index b)"] distinct_card [of "map ro_order_id (book_orders b)"]
    by (simp add: hash_nodes_def resting_orders_def)
qed

lemma tree_nodes_le:
  assumes ok: "book_ok b"
  shows "tree_nodes b \<le> resting_orders b"
proof -
  have side: "length (ladder s b) \<le> length (filter (same_side s) (book_orders b))" for s
  proof -
    have "distinct (map fst (ladder s b))" using book_okD(5) [OF ok, of s]
      by (auto simp: side_lt_def distinct_conv_nth sorted_wrt_iff_nth_less neq_iff split: if_splits)
    then have "length (ladder s b) = card (side_prices (book_orders b) s)"
      using distinct_card [of "map fst (ladder s b)"] ladder_keys [OF ok, of s] by simp
    also have "\<dots> \<le> length (filter (same_side s) (book_orders b))"
      unfolding side_prices_def using card_length [of "map ro_price (filter (same_side s) (book_orders b))"] by simp
    finally show ?thesis .
  qed
  have "filter (same_side Sell) (book_orders b) = filter (\<lambda>x. \<not> same_side Buy x) (book_orders b)"
    by (rule filter_cong) (auto simp: same_side_def)
  then have "length (filter (same_side Buy) (book_orders b)) + length (filter (same_side Sell) (book_orders b)) = length (book_orders b)"
    using sum_length_filter_compl [of "same_side Buy" "book_orders b"] by simp
  then show ?thesis using side [of Buy] side [of Sell] by (simp add: tree_nodes_def resting_orders_def ladder_def)
qed

text \<open>
  Pool sizing: a shard never needs more list, hash or tree nodes than its books have resting orders.  So with at most \<open>kShardOrderPoolCapacity\<close>, that
  is 124000, resting orders in a shard (62 symbols of 2000 orders) each of its pools suffices; and every shard index is the index of a pool.
\<close>

theorem shard_node_budget:
  assumes "sharded_pipeline n = Inr sp" "system_run now es (system_init sp) = Some S" "i < n"
    and "(\<Sum>(t, b) \<leftarrow> sh_books (shard_at S i). resting_orders b) \<le> kShardOrderPoolCapacity"
  shows "(\<Sum>(t, b) \<leftarrow> sh_books (shard_at S i). list_nodes b) \<le> kShardOrderPoolCapacity \<and>
    (\<Sum>(t, b) \<leftarrow> sh_books (shard_at S i). hash_nodes b) \<le> kShardOrderPoolCapacity \<and>
    (\<Sum>(t, b) \<leftarrow> sh_books (shard_at S i). tree_nodes b) \<le> kShardOrderPoolCapacity \<and>
    kShardOrderPoolCapacity = 124000 \<and> i < kMaxPoolShards"
proof -
  have inv: "sp_ok (pipeline S)" "num_shards S = n" using reachable_system [OF assms(1,2)] by (simp_all add: system_inv_def)
  have s: "shard_ok n i (shard_at S i)" and n: "n \<le> kMaxShards" using inv assms(3) by (auto simp: sp_ok_def)
  have ok: "book_ok b" if "(t, b) \<in> set (sh_books (shard_at S i))" for t b
  proof -
    have "book_at (shard_at S i) t = b" using s that by (simp add: shard_ok_def book_at_def)
    then show ?thesis using s by (auto simp: shard_ok_def)
  qed
  have sums: "(\<Sum>(t, b) \<leftarrow> xs. f b) \<le> (\<Sum>(t, b) \<leftarrow> xs. g b)" if "\<And>t b. (t, b) \<in> set xs \<Longrightarrow> f b \<le> g b"
    for f g :: "OrderBook \<Rightarrow> nat" and xs :: "(Symbol \<times> OrderBook) list"
    by (rule sum_list_mono) (use that in auto)
  have "list_nodes b \<le> resting_orders b" "hash_nodes b \<le> resting_orders b" "tree_nodes b \<le> resting_orders b"
    if "(t, b) \<in> set (sh_books (shard_at S i))" for t b
    using list_nodes_eq hash_nodes_eq tree_nodes_le ok [OF that] by simp_all
  then have "(\<Sum>(t, b) \<leftarrow> sh_books (shard_at S i). f b) \<le> (\<Sum>(t, b) \<leftarrow> sh_books (shard_at S i). resting_orders b)"
    if "f \<in> {list_nodes, hash_nodes, tree_nodes}" for f
    using that by (intro sums) auto
  from this [of list_nodes] this [of hash_nodes] this [of tree_nodes] show ?thesis
    using assms(3,4) n kShardOrderPoolCapacity by (auto simp: kMaxShards_def kMaxPoolShards_def)
qed

lemma demo_books:
  "\<exists>S b. system_run int demo_feed (system_init demo_pipeline) = Some S \<and> map snd (sh_books (shard_at S 0)) = [b] \<and> hash_nodes b = 1"
  apply (simp add: demo_decode demo_pipeline_def demo_feed_def system_init_def demux_def clock_now_def Let_def shard_init_def)
  apply (simp add: demo_add_def shard_for_symbol_def kShardQueueCapacity_def demo_push demo_pop process_one_def
      process_message_def clock_now_def Let_def delta_queue_init_def kDeltaQueueCapacity_def)
  apply (simp add: book_eval push_deltas.simps demo_push demo_pop new_deltas_def book_at_def result_deltas_def hash_nodes_def)
  done

theorem shard_node_budget_witness:
  "\<exists>S. system_run int demo_feed (system_init demo_pipeline) = Some S \<and> sh_books (shard_at S 0) \<noteq> [] \<and>
     (\<Sum>(t, b) \<leftarrow> sh_books (shard_at S 0). list_nodes b) \<le> kShardOrderPoolCapacity"
proof -
  obtain S b where run: "system_run int demo_feed (system_init demo_pipeline) = Some S"
    and b: "map snd (sh_books (shard_at S 0)) = [b]" "hash_nodes b = 1"
    using demo_books by metis
  then obtain t where books: "sh_books (shard_at S 0) = [(t, b)]" by auto
  have "shard_ok 1 0 (shard_at S 0)"
    using reachable_system [OF demo_pipeline_init run] by (auto simp: system_inv_def sp_ok_def)
  moreover have "book_at (shard_at S 0) t = b" using books by (simp add: book_at_def)
  ultimately have "book_ok b" unfolding shard_ok_def by metis
  then have "resting_orders b = 1" using hash_nodes_eq b(2) by simp
  then show ?thesis
    using shard_node_budget [OF demo_pipeline_init run, of 0] run books kShardOrderPoolCapacity by simp
qed

end
