(* ===== verification/Book_Template.thy ===== *)
theory Book_Template
  imports Heap_Allocator Node_Budget
begin

text \<open>
  \<open>OrderBookT<Alloc>\<close> of \<open>orderbook/order_book.hpp\<close> and \<open>order_book.cpp\<close> with its allocator: the book of \<open>Order_Book\<close> together with the memory that its
  containers hold.  Every list node, tree node and hash node has an address, taken from the allocator when a container inserts
  and given back when it erases; the hash table has its array of buckets on the heap.  An allocation may throw in the middle of an operation; the
  state is then the one that the statements before it have made.  \<open>None\<close> is undefined behaviour.
\<close>

subsection \<open>Statements that may throw\<close>

type_synonym ('r, 's) throwing = "((pool_error + 'r) \<times> 's) option"

definition and_then :: "('r, 's) throwing \<Rightarrow> ('r \<Rightarrow> 's \<Rightarrow> ('q, 's) throwing) \<Rightarrow> ('q, 's) throwing" where
  "and_then x f = (case x of None \<Rightarrow> None | Some (Inl e, s) \<Rightarrow> Some (Inl e, s) | Some (Inr r, s) \<Rightarrow> f r s)"

lemma and_then_simps [simp]:
  "and_then None f = None" "and_then (Some (Inl e, s)) f = Some (Inl e, s)" "and_then (Some (Inr r, s)) f = f r s"
  by (simp_all add: and_then_def)

text \<open>
  A computation \<open>x\<close> is defined, and ends in a state with \<open>Q\<close> when it returns and with \<open>X\<close> when it throws.
\<close>

definition yields :: "('r, 's) throwing \<Rightarrow> ('r \<Rightarrow> 's \<Rightarrow> bool) \<Rightarrow> (pool_error \<Rightarrow> 's \<Rightarrow> bool) \<Rightarrow> bool" where
  "yields x Q X \<longleftrightarrow> (case x of None \<Rightarrow> False | Some (Inl e, s) \<Rightarrow> X e s | Some (Inr r, s) \<Rightarrow> Q r s)"

lemma yields_simps [simp]:
  "\<not> yields None Q X" "yields (Some (Inl e, s)) Q X = X e s" "yields (Some (Inr r, s)) Q X = Q r s"
  by (simp_all add: yields_def)

lemma yields_and_then:
  "yields x Q X \<Longrightarrow> (\<And>r s. Q r s \<Longrightarrow> yields (f r s) R X) \<Longrightarrow> yields (and_then x f) R X"
  unfolding and_then_def by (cases x) (auto split: sum.splits)

lemma yields_mono:
  "yields x Q X \<Longrightarrow> (\<And>r s. Q r s \<Longrightarrow> Q' r s) \<Longrightarrow> (\<And>e s. X e s \<Longrightarrow> X' e s) \<Longrightarrow> yields x Q' X'"
  by (auto simp: yields_def split: option.splits sum.splits prod.splits)

subsection \<open>The book and its memory\<close>

record 'a BookT =
  bt_book :: OrderBook
  bt_list :: "node \<rightharpoonup> 'a"
  bt_tree :: "bool \<times> Price \<rightharpoonup> 'a"
  bt_hash :: "OrderId \<rightharpoonup> 'a"
  bt_buckets :: nat
  bt_array :: nat

text \<open>A new array of buckets for \<open>n\<close> elements, at the maximal load factor 1.\<close>

definition new_buckets :: "env \<Rightarrow> nat \<Rightarrow> nat \<Rightarrow> 'p mem \<Rightarrow> (pool_error + nat \<times> nat) \<times> 'p mem" where
  "new_buckets E old n m =
     (let buckets = en_buckets E old n
      in case operator_new E Array_object (8 * buckets) (mem_heap m) of
           (Inl e, h) \<Rightarrow> (Inl e, m\<lparr>mem_heap := h\<rparr>)
         | (Inr p, h) \<Rightarrow> (Inr (buckets, p), m\<lparr>mem_heap := h\<rparr>))"

text \<open>The constructor: \<open>order_index_.reserve(kExpectedRestingOrdersPerSymbol)\<close>.\<close>

definition order_book_t :: "env \<Rightarrow> 'p mem \<Rightarrow> (pool_error + 'a BookT) \<times> 'p mem" where
  "order_book_t E m =
     (case new_buckets E 1 kExpectedRestingOrdersPerSymbol m of
        (Inl e, m) \<Rightarrow> (Inl e, m)
      | (Inr (buckets, p), m) \<Rightarrow>
          (Inr \<lparr>bt_book = order_book_init, bt_list = Map.empty, bt_tree = Map.empty, bt_hash = Map.empty,
                bt_buckets = buckets, bt_array = p\<rparr>, m))"

text \<open>\<open>bids_[price]\<close> or \<open>asks_[price]\<close>: a new node holds an empty level.\<close>

definition level_subscript :: "('p, 'a) node_ops \<Rightarrow> Side \<Rightarrow> Price \<Rightarrow> 'a BookT \<times> 'p mem \<Rightarrow> (unit, 'a BookT \<times> 'p mem) throwing" where
  "level_subscript A side price s =
     (let (b, m) = s
      in if map_of (ladder side (bt_book b)) price \<noteq> None then Some (Inr (), b, m)
         else case no_allocate A Tree_node m of
           (Inl e, m) \<Rightarrow> Some (Inl e, b, m)
         | (Inr a, m) \<Rightarrow>
             Some (Inr (), b\<lparr>bt_book := set_ladder side (omap_insert (side_lt side) price empty_level (ladder side (bt_book b))) (bt_book b),
                             bt_tree := (bt_tree b)((side = Buy, price) \<mapsto> a)\<rparr>, m))"

text \<open>\<open>level.orders.push_back(order); level.total_quantity += quantity;\<close> and the iterator and total that result.\<close>

definition level_push_back :: "('p, 'a) node_ops \<Rightarrow> RestingOrder \<Rightarrow> 'a BookT \<times> 'p mem \<Rightarrow> (node \<times> Quantity, 'a BookT \<times> 'p mem) throwing" where
  "level_push_back A order s =
     (let (b, m) = s; side = ro_side order; price = ro_price order; ob = bt_book b
      in case map_of (ladder side ob) price of
           None \<Rightarrow> None
         | Some level \<Rightarrow>
             (case no_allocate A List_node m of
                (Inl e, m) \<Rightarrow> Some (Inl e, b, m)
              | (Inr a, m) \<Rightarrow>
                  (let it = ob_next ob;
                       ob = ob\<lparr>ob_nodes := (ob_nodes ob)(it \<mapsto> order), ob_next := it + 1\<rparr>;
                       level = level\<lparr>lv_orders := lv_orders level @ [it], lv_total_quantity := lv_total_quantity level + ro_quantity order\<rparr>;
                       ob = set_ladder side (omap_insert (side_lt side) price level (ladder side ob)) ob
                   in Some (Inr (it, lv_total_quantity level), b\<lparr>bt_book := ob, bt_list := (bt_list b)(it \<mapsto> a)\<rparr>, m))))"

text \<open>
  \<open>order_index_[order_id] = location\<close>: a new key takes a node and, when the table is full, a larger array of buckets; when that fails the node is
  given back.
\<close>

definition index_grow :: "env \<Rightarrow> 'a BookT \<Rightarrow> 'p mem \<Rightarrow> ((pool_error + nat \<times> nat) \<times> 'p mem) option" where
  "index_grow E b m =
     (let n = length (ob_index (bt_book b)) + 1
      in if n \<le> bt_buckets b then Some (Inr (bt_buckets b, bt_array b), m)
         else case new_buckets E (bt_buckets b) n m of
           (Inl e, m) \<Rightarrow> Some (Inl e, m)
         | (Inr r, m) \<Rightarrow> map_option (\<lambda>h. (Inr r, m\<lparr>mem_heap := h\<rparr>)) (operator_delete (bt_array b) (mem_heap m)))"

definition index_assign :: "env \<Rightarrow> ('p, 'a) node_ops \<Rightarrow> OrderId \<Rightarrow> OrderLocation \<Rightarrow> 'a BookT \<times> 'p mem \<Rightarrow> (unit, 'a BookT \<times> 'p mem) throwing" where
  "index_assign E A order_id loc s =
     (let (b, m) = s; ob = (bt_book b)\<lparr>ob_index := AList.update order_id loc (ob_index (bt_book b))\<rparr>
      in if has_order order_id (bt_book b) then Some (Inr (), b\<lparr>bt_book := ob\<rparr>, m)
         else case no_allocate A Hash_node m of
           (Inl e, m) \<Rightarrow> Some (Inl e, b, m)
         | (Inr a, m) \<Rightarrow>
             (case index_grow E b m of
                None \<Rightarrow> None
              | Some (Inl e, m) \<Rightarrow> map_option (\<lambda>m. (Inl e, b, m)) (no_deallocate A Hash_node a m)
              | Some (Inr (buckets, p), m) \<Rightarrow>
                  Some (Inr (), b\<lparr>bt_book := ob, bt_hash := (bt_hash b)(order_id \<mapsto> a), bt_buckets := buckets, bt_array := p\<rparr>, m)))"

definition insert_resting_order_t :: "env \<Rightarrow> ('p, 'a) node_ops \<Rightarrow> RestingOrder \<Rightarrow> 'a BookT \<times> 'p mem \<Rightarrow> (Quantity, 'a BookT \<times> 'p mem) throwing" where
  "insert_resting_order_t E A order s =
     and_then (level_subscript A (ro_side order) (ro_price order) s) (\<lambda>_ s.
     and_then (level_push_back A order s) (\<lambda>(it, total) s.
     and_then (index_assign E A (ro_order_id order) \<lparr>loc_side = ro_side order, loc_price = ro_price order, loc_it = it\<rparr> s) (\<lambda>_ s.
     Some (Inr total, s))))"

text \<open>
  \<open>remove_resting_order\<close>: erasing from the list, from the ladder when the level is empty, and from the index gives the nodes back.  Nothing here throws.
\<close>

definition remove_resting_order_t :: "('p, 'a) node_ops \<Rightarrow> OrderId \<Rightarrow> 'a BookT \<times> 'p mem \<Rightarrow> (LevelDelta \<times> 'a BookT \<times> 'p mem) option" where
  "remove_resting_order_t A order_id s = do {
     let (b, m) = s;
     loc \<leftarrow> map_of (ob_index (bt_book b)) order_id;
     (delta, ob) \<leftarrow> remove_resting_order order_id (bt_book b);
     a \<leftarrow> bt_list b (loc_it loc);
     m \<leftarrow> no_deallocate A List_node a m;
     let b = b\<lparr>bt_list := (bt_list b)(loc_it loc := None)\<rparr>;
     (b, m) \<leftarrow> (if map_of (ladder (loc_side loc) ob) (loc_price loc) = None then do {
                    a \<leftarrow> bt_tree b (loc_side loc = Buy, loc_price loc);
                    m \<leftarrow> no_deallocate A Tree_node a m;
                    Some (b\<lparr>bt_tree := (bt_tree b)((loc_side loc = Buy, loc_price loc) := None)\<rparr>, m) }
                 else Some (b, m));
     a \<leftarrow> bt_hash b order_id;
     m \<leftarrow> no_deallocate A Hash_node a m;
     Some (delta, b\<lparr>bt_book := ob, bt_hash := (bt_hash b)(order_id := None)\<rparr>, m) }"

subsection \<open>Applying messages\<close>

type_synonym ('a, 'p) apply_t = "(ApplyError + ApplyResult, 'a BookT \<times> 'p mem) throwing"

definition apply_add_t :: "env \<Rightarrow> ('p, 'a) node_ops \<Rightarrow> AddOrder \<Rightarrow> 'a BookT \<times> 'p mem \<Rightarrow> ('a, 'p) apply_t" where
  "apply_add_t E A msg s =
     (if has_order (add_order_id msg) (bt_book (fst s)) then Some (Inr (Inl DuplicateOrderId), s)
      else and_then (insert_resting_order_t E A
          \<lparr>ro_order_id = add_order_id msg, ro_side = add_side msg, ro_price = add_price msg, ro_quantity = add_quantity msg\<rparr> s) (\<lambda>total s.
        map_option (\<lambda>result. (Inr (Inr result), s)) (ar_add (add_side msg) (add_price msg) total ar_init)))"

definition apply_cancel_t :: "('p, 'a) node_ops \<Rightarrow> CancelOrder \<Rightarrow> 'a BookT \<times> 'p mem \<Rightarrow> ('a, 'p) apply_t" where
  "apply_cancel_t A msg s =
     (if \<not> has_order (cxl_order_id msg) (bt_book (fst s)) then Some (Inr (Inl OrderNotFound), s)
      else do {
        (touched, s) \<leftarrow> remove_resting_order_t A (cxl_order_id msg) s;
        result \<leftarrow> ar_add (ld_side touched) (ld_price touched) (ld_total_quantity touched) ar_init;
        Some (Inr (Inr result), s) })"

definition apply_execute_t :: "('p, 'a) node_ops \<Rightarrow> ExecuteOrder \<Rightarrow> 'a BookT \<times> 'p mem \<Rightarrow> ('a, 'p) apply_t" where
  "apply_execute_t A msg s =
     (let (b, m) = s; ob = bt_book b
      in case map_of (ob_index ob) (exe_order_id msg) of
           None \<Rightarrow> Some (Inr (Inl OrderNotFound), s)
         | Some loc \<Rightarrow> do {
             order \<leftarrow> ob_nodes ob (loc_it loc);
             if ro_quantity order < exe_executed_quantity msg
             then Some (Inr (Inl ExecutedQuantityExceedsRemaining), s)
             else do {
               level \<leftarrow> level_for (loc_side loc) (loc_price loc) ob;
               let level = level\<lparr>lv_total_quantity := lv_total_quantity level - exe_executed_quantity msg\<rparr>;
               let ob = set_ladder (loc_side loc)
                 (omap_insert (side_lt (loc_side loc)) (loc_price loc) level (ladder (loc_side loc) ob)) ob;
               let order = order\<lparr>ro_quantity := ro_quantity order - exe_executed_quantity msg\<rparr>;
               let ob = ob\<lparr>ob_nodes := (ob_nodes ob)(loc_it loc \<mapsto> order)\<rparr>;
               let s = (b\<lparr>bt_book := ob\<rparr>, m);
               if ro_quantity order = 0
               then do {
                 (touched, s) \<leftarrow> remove_resting_order_t A (exe_order_id msg) s;
                 result \<leftarrow> ar_add (ld_side touched) (ld_price touched) (ld_total_quantity touched) ar_init;
                 Some (Inr (Inr result), s) }
               else do {
                 result \<leftarrow> ar_add (loc_side loc) (loc_price loc) (lv_total_quantity level) ar_init;
                 Some (Inr (Inr result), s) } } })"

definition apply_replace_t :: "env \<Rightarrow> ('p, 'a) node_ops \<Rightarrow> ReplaceOrder \<Rightarrow> 'a BookT \<times> 'p mem \<Rightarrow> ('a, 'p) apply_t" where
  "apply_replace_t E A msg s =
     (case map_of (ob_index (bt_book (fst s))) (rep_old_order_id msg) of
        None \<Rightarrow> Some (Inr (Inl OrderNotFound), s)
      | Some loc \<Rightarrow>
          if has_order (rep_new_order_id msg) (bt_book (fst s)) then Some (Inr (Inl DuplicateOrderId), s)
          else do {
            let side = loc_side loc;
            (vacated, s) \<leftarrow> remove_resting_order_t A (rep_old_order_id msg) s;
            and_then (insert_resting_order_t E A
                \<lparr>ro_order_id = rep_new_order_id msg, ro_side = side, ro_price = rep_price msg, ro_quantity = rep_quantity msg\<rparr> s) (\<lambda>new_total s. do {
              result \<leftarrow> ar_add (ld_side vacated) (ld_price vacated) (ld_total_quantity vacated) ar_init;
              result \<leftarrow> ar_add side (rep_price msg) new_total result;
              Some (Inr (Inr result), s) }) })"

fun apply_t :: "env \<Rightarrow> ('p, 'a) node_ops \<Rightarrow> DecodedMessage \<Rightarrow> 'a BookT \<times> 'p mem \<Rightarrow> ('a, 'p) apply_t" where
  "apply_t E A (AddMsg m) s = apply_add_t E A m s"
| "apply_t E A (CancelMsg m) s = apply_cancel_t A m s"
| "apply_t E A (ExecuteMsg m) s = apply_execute_t A m s"
| "apply_t E A (ReplaceMsg m) s = apply_replace_t E A m s"

end
