(* ===== verification/Book_Memory.thy ===== *)
theory Book_Memory
  imports Book_Template
begin

text \<open>
  \<open>OrderBookT<Alloc>\<close> against the book of \<open>Order_Book\<close>, for every allocator that keeps the contract \<open>node_allocator\<close>: no message makes the containers touch
  memory they do not hold, every node in use belongs to exactly one element of a container, and a call that does not throw does
  what \<open>apply_msg\<close> does.  A call that throws leaves no node behind either.
\<close>

subsection \<open>Maps that own addresses\<close>

text \<open>The values of \<open>f\<close> are distinct and are, next to the frame \<open>F\<close> that belongs to others, the addresses in use.\<close>

definition owned :: "('k \<rightharpoonup> 'a) \<Rightarrow> 'a set \<Rightarrow> 'a set \<Rightarrow> bool" where
  "owned f L F \<longleftrightarrow> inj_on f (dom f) \<and> L = ran f \<union> F \<and> ran f \<inter> F = {}"

lemma owned_empty: "owned Map.empty L L"
  by (simp add: owned_def)

lemma owned_new:
  assumes "owned f L F" "a \<notin> L" "f k = None"
  shows "owned (f(k \<mapsto> a)) (insert a L) F"
proof -
  have "a \<notin> ran f" using assms by (simp add: owned_def)
  then have "inj_on (f(k \<mapsto> a)) (insert k (dom f))"
    using assms(1,3) by (auto simp: owned_def inj_on_def ran_def)
  then show ?thesis using assms by (auto simp: owned_def)
qed

lemma owned_free:
  assumes "owned f L F" "f k = Some a"
  shows "a \<in> L" "owned (f(k := None)) (L - {a}) F"
proof -
  have inj: "f k' = Some a \<longleftrightarrow> k' = k" for k' using assms by (metis domI inj_onD owned_def)
  show "a \<in> L" using assms by (auto simp: owned_def ranI)
  have "ran (f(k := None)) = ran f - {a}" using inj by (force simp: ran_def)
  moreover have "inj_on (f(k := None)) (dom f - {k})" using assms(1) by (auto simp: owned_def inj_on_def)
  ultimately show "owned (f(k := None)) (L - {a}) F" using assms(1) ranI [of f k a] assms(2) by (auto simp: owned_def)
qed

lemma owned_card:
  assumes "owned f L F" "finite (dom f)" "finite F"
  shows "card L = card (dom f) + card F"
proof -
  have "the ` f ` dom f = ran f" by (force simp: ran_def image_iff domIff)
  moreover have "inj_on (the \<circ> f) (dom f)"
    using assms(1) by (auto simp: owned_def inj_on_def domIff)
  ultimately have "card (ran f) = card (dom f)" by (metis card_image image_comp)
  then show ?thesis using assms by (auto simp: owned_def card_Un_disjoint finite_ran)
qed

subsection \<open>The invariant\<close>

text \<open>The containers are well formed; this is weaker than \<open>book_ok\<close> and holds after an exception too.\<close>

definition containers_ok :: "'a BookT \<Rightarrow> bool" where
  "containers_ok b \<longleftrightarrow>
     (\<forall>s. sorted_wrt (side_lt s) (map fst (ladder s (bt_book b)))) \<and>
     distinct (map fst (ob_index (bt_book b))) \<and>
     dom (ob_nodes (bt_book b)) \<subseteq> {..<ob_next (bt_book b)} \<and>
     dom (bt_list b) = dom (ob_nodes (bt_book b)) \<and>
     (\<forall>s p. bt_tree b (s = Buy, p) = None \<longleftrightarrow> map_of (ladder s (bt_book b)) p = None) \<and>
     (\<forall>i. bt_hash b i = None \<longleftrightarrow> map_of (ob_index (bt_book b)) i = None) \<and>
     length (ob_index (bt_book b)) \<le> bt_buckets b \<and> kExpectedRestingOrdersPerSymbol \<le> bt_buckets b"

record 'a frame =
  fr_nodes :: "node_kind \<Rightarrow> 'a set"
  fr_arrays :: "nat set"

definition env_ok :: "env \<Rightarrow> bool" where
  "env_ok E \<longleftrightarrow> (\<forall>old n. n \<le> en_buckets E old n)"

lemma omap_insert_overwrite:
  "omap_insert (side_lt s) p v (omap_insert (side_lt s) p v' m) = omap_insert (side_lt s) p v m"
  by (induction m) (auto simp: side_lt_def)

lemma length_delete: "distinct (map fst xs) \<Longrightarrow> map_of xs k \<noteq> None \<Longrightarrow> length (AList.delete k xs) + 1 = length xs"
proof (induction xs)
  case (Cons kv xs)
  then show ?case by (cases "fst kv = k") (auto simp: delete_id)
qed simp

lemma length_update_new: "map_of xs k = None \<Longrightarrow> length (AList.update k v xs) = length xs + 1"
  by (induction xs) (auto split: if_splits)

lemma containers_okD:
  assumes "containers_ok b"
  shows "sorted_wrt (side_lt s) (map fst (ladder s (bt_book b)))"
    and "distinct (map fst (ob_index (bt_book b)))"
    and "ob_nodes (bt_book b) n = Some ord \<Longrightarrow> n < ob_next (bt_book b)"
    and "bt_list b n = None \<longleftrightarrow> ob_nodes (bt_book b) n = None"
    and "bt_tree b (s = Buy, p) = None \<longleftrightarrow> map_of (ladder s (bt_book b)) p = None"
    and "bt_hash b i = None \<longleftrightarrow> map_of (ob_index (bt_book b)) i = None"
    and "length (ob_index (bt_book b)) \<le> bt_buckets b"
    and "kExpectedRestingOrdersPerSymbol \<le> bt_buckets b"
  using assms by (auto simp: containers_ok_def domIff)

subsection \<open>Steps of the containers\<close>

text \<open>What the statements do to the containers, without the addresses.\<close>

lemma containers_ok_level:
  assumes "containers_ok b" "ob = set_ladder s (omap_insert (side_lt s) p l (ladder s (bt_book b))) (bt_book b)"
    and "\<And>k. t k = None \<longleftrightarrow> bt_tree b k = None \<and> k \<noteq> (s = Buy, p)"
  shows "containers_ok (b\<lparr>bt_book := ob, bt_tree := t\<rparr>)"
proof -
  note c = containers_okD [OF assms(1)]
  have "map_of (omap_insert (side_lt s) p l (ladder s (bt_book b))) = (map_of (ladder s (bt_book b)))(p \<mapsto> l)"
    by (rule ladder_order.map_of_omap_insert [OF c(1)])
  then have "t (s' = Buy, p') = None \<longleftrightarrow> map_of (ladder s' ob) p' = None" for s' p'
    using c(5) [of s' p'] ladder_cong [of s' s "bt_book b"] by (simp add: assms(2,3))
  moreover have "sorted_wrt (side_lt s') (map fst (ladder s' ob))" for s'
    using ladder_order.sorted_omap_insert [OF c(1)] c(1) side_lt_cong [of s' s] by (simp add: assms(2))
  ultimately show ?thesis using assms(1) by (simp add: containers_ok_def assms(2))
qed

lemma containers_ok_touch:
  assumes c: "containers_ok b" and "map_of (ladder s (bt_book b)) p \<noteq> None" "ob_nodes (bt_book b) n \<noteq> None"
  shows "containers_ok (b\<lparr>bt_book := (set_ladder s (omap_insert (side_lt s) p l (ladder s (bt_book b))) (bt_book b))
            \<lparr>ob_nodes := (ob_nodes (bt_book b))(n \<mapsto> ord)\<rparr>\<rparr>)"
proof -
  let ?ob = "set_ladder s (omap_insert (side_lt s) p l (ladder s (bt_book b))) (bt_book b)"
  have "bt_tree b (s = Buy, p) \<noteq> None" using assms(2) containers_okD(5) [OF c] by simp
  then have "containers_ok (b\<lparr>bt_book := ?ob, bt_tree := bt_tree b\<rparr>)" by (intro containers_ok_level [OF c refl]) auto
  then show ?thesis using assms(3) by (auto simp: containers_ok_def)
qed

lemma containers_ok_push:
  assumes "containers_ok b"
  shows "containers_ok (b\<lparr>bt_book := (bt_book b)\<lparr>ob_nodes := (ob_nodes (bt_book b))(ob_next (bt_book b) \<mapsto> ord),
            ob_next := ob_next (bt_book b) + 1\<rparr>, bt_list := (bt_list b)(ob_next (bt_book b) \<mapsto> a)\<rparr>)"
  using assms by (auto simp: containers_ok_def)

lemma containers_ok_index:
  assumes "containers_ok b" "length (ob_index (bt_book b)) + 1 \<le> n" "\<not> has_order i (bt_book b)" "bt_buckets b \<le> n"
  shows "containers_ok (b\<lparr>bt_book := (bt_book b)\<lparr>ob_index := AList.update i loc (ob_index (bt_book b))\<rparr>,
            bt_hash := (bt_hash b)(i \<mapsto> a), bt_buckets := n, bt_array := p\<rparr>)"
proof -
  have "length (AList.update i loc (ob_index (bt_book b))) = length (ob_index (bt_book b)) + 1"
    using assms(3) by (intro length_update_new) (simp add: has_order_def)
  then show ?thesis using assms by (simp add: containers_ok_def distinct_update update_conv)
qed

text \<open>What \<open>remove_resting_order\<close> erases.\<close>

lemma remove_resting_orderE:
  assumes "remove_resting_order i ob = Some (d, ob')"
  obtains loc level ord lad where "map_of (ob_index ob) i = Some loc" "map_of (ladder (loc_side loc) ob) (loc_price loc) = Some level"
    "ob_nodes ob (loc_it loc) = Some ord"
    "lad = (if remove1 (loc_it loc) (lv_orders level) = [] then AList.delete (loc_price loc) (ladder (loc_side loc) ob)
       else omap_insert (side_lt (loc_side loc)) (loc_price loc)
         (level\<lparr>lv_total_quantity := lv_total_quantity level - ro_quantity ord, lv_orders := remove1 (loc_it loc) (lv_orders level)\<rparr>)
         (ladder (loc_side loc) ob))"
    "ob' = (set_ladder (loc_side loc) lad ob)\<lparr>ob_nodes := (ob_nodes ob)(loc_it loc := None), ob_index := AList.delete i (ob_index ob)\<rparr>"
  using assms
  by (auto simp: remove_resting_order_def Let_def set_ladder_def bind_eq_Some_conv split: if_splits prod.splits)

lemma remove_resting_order_index:
  "remove_resting_order i ob = Some (d, ob') \<Longrightarrow> ob_index ob' = AList.delete i (ob_index ob)"
  by (erule remove_resting_orderE) simp

lemma containers_ok_remove:
  assumes c: "containers_ok b" and run: "remove_resting_order i (bt_book b) = Some (d, ob')" and loc: "map_of (ob_index (bt_book b)) i = Some loc"
  shows "containers_ok (b\<lparr>bt_book := ob', bt_list := (bt_list b)(loc_it loc := None), bt_hash := (bt_hash b)(i := None),
    bt_tree := (if map_of (ladder (loc_side loc) ob') (loc_price loc) = None
                then (bt_tree b)((loc_side loc = Buy, loc_price loc) := None) else bt_tree b)\<rparr>)"
proof -
  note D = containers_okD [OF c]
  obtain loc' level ord lad where R: "map_of (ob_index (bt_book b)) i = Some loc'" "map_of (ladder (loc_side loc') (bt_book b)) (loc_price loc') = Some level"
      "ob_nodes (bt_book b) (loc_it loc') = Some ord"
    and lad: "lad = (if remove1 (loc_it loc') (lv_orders level) = [] then AList.delete (loc_price loc') (ladder (loc_side loc') (bt_book b))
       else omap_insert (side_lt (loc_side loc')) (loc_price loc')
         (level\<lparr>lv_total_quantity := lv_total_quantity level - ro_quantity ord, lv_orders := remove1 (loc_it loc') (lv_orders level)\<rparr>)
         (ladder (loc_side loc') (bt_book b)))"
    and ob': "ob' = (set_ladder (loc_side loc') lad (bt_book b))\<lparr>ob_nodes := (ob_nodes (bt_book b))(loc_it loc' := None),
       ob_index := AList.delete i (ob_index (bt_book b))\<rparr>"
    using remove_resting_orderE [OF run] .
  let ?s = "loc_side loc"
  have [simp]: "loc' = loc" using R(1) loc by simp
  have sorted: "sorted_wrt (side_lt ?s) (map fst lad)"
    using ladder_order.sorted_delete [OF D(1)] ladder_order.sorted_omap_insert [OF D(1)] by (simp add: lad)
  have lvl: "map_of lad p = None \<longleftrightarrow> map_of (ladder ?s (bt_book b)) p = None" if "p \<noteq> loc_price loc" for p
    using that ladder_order.map_of_omap_insert [OF D(1)] by (simp add: lad AList.delete_conv)
  have "length (AList.delete i (ob_index (bt_book b))) \<le> bt_buckets b"
    using D(7) AList.length_delete_le [of i "ob_index (bt_book b)"] by simp
  moreover have "sorted_wrt (side_lt s) (map fst (ladder s ob'))" for s
    using sorted D(1) side_lt_cong [of s ?s] by (simp add: ob')
  moreover have "(if map_of (ladder ?s ob') (loc_price loc) = None then (bt_tree b)((?s = Buy, loc_price loc) := None) else bt_tree b) (s = Buy, p) = None
      \<longleftrightarrow> map_of (ladder s ob') p = None" for s p
    using lvl [of p] D(5) [of s p] D(5) [of ?s "loc_price loc"] R(2) ladder_cong [of s ?s "bt_book b"] by (simp add: ob')
  ultimately show ?thesis using c by (auto simp: containers_ok_def ob' AList.delete_conv distinct_delete)
qed

subsection \<open>Memory\<close>

definition book_mem :: "('p mem \<Rightarrow> bool) \<Rightarrow> (node_kind \<Rightarrow> 'p mem \<Rightarrow> 'a set) \<Rightarrow> 'a frame \<Rightarrow> 'a BookT \<Rightarrow> 'p mem \<Rightarrow> bool" where
  "book_mem ok used F b m \<longleftrightarrow> ok m \<and> containers_ok b \<and>
     owned (bt_list b) (used List_node m) (fr_nodes F List_node) \<and>
     owned (bt_tree b) (used Tree_node m) (fr_nodes F Tree_node) \<and>
     owned (bt_hash b) (used Hash_node m) (fr_nodes F Hash_node) \<and>
     objects Array_object (mem_heap m) = insert (bt_array b) (fr_arrays F) \<and> bt_array b \<notin> fr_arrays F"

lemma book_memD:
  assumes "book_mem ok used F b m"
  shows "ok m" "containers_ok b"
  using assms by (simp_all add: book_mem_def)

text \<open>The level after \<open>push_back\<close> of an order.\<close>

definition pushed :: "RestingOrder \<Rightarrow> Level \<Rightarrow> OrderBook \<Rightarrow> Level" where
  "pushed ord l ob = l\<lparr>lv_orders := lv_orders l @ [ob_next ob], lv_total_quantity := lv_total_quantity l + ro_quantity ord\<rparr>"

context node_allocator
begin

lemma level_subscript_mem:
  assumes "book_mem ok live F b m"
  shows "yields (level_subscript A s p (b, m))
    (\<lambda>_ (b', m'). book_mem ok live F b' m' \<and> bt_book b' = (case map_of (ladder s (bt_book b)) p of
       None \<Rightarrow> set_ladder s (omap_insert (side_lt s) p empty_level (ladder s (bt_book b))) (bt_book b) | Some _ \<Rightarrow> bt_book b))
    (\<lambda>_ (b', m'). book_mem ok live F b' m')"
proof (cases "map_of (ladder s (bt_book b)) p")
  case (Some l)
  then show ?thesis using assms by (simp add: level_subscript_def)
next
  case None
  note m = book_memD [OF assms]
  obtain r m' where al: "no_allocate A Tree_node m = (r, m')" by fastforce
  show ?thesis
  proof (cases r)
    case (Inl e)
    have "book_mem ok live F b m'" using assms allocate_fails [OF m(1) al [unfolded Inl]] by (simp add: book_mem_def)
    then show ?thesis using None al Inl by (simp add: level_subscript_def)
  next
    case (Inr a)
    let ?ob = "set_ladder s (omap_insert (side_lt s) p empty_level (ladder s (bt_book b))) (bt_book b)"
    have "bt_tree b (s = Buy, p) = None" using None containers_okD(5) [OF m(2)] by simp
    then have "book_mem ok live F (b\<lparr>bt_book := ?ob, bt_tree := (bt_tree b)((s = Buy, p) \<mapsto> a)\<rparr>) m'"
      using assms allocate_fresh [OF m(1) al [unfolded Inr]] containers_ok_level [OF m(2), of ?ob s p empty_level "(bt_tree b)((s = Buy, p) \<mapsto> a)"]
      by (auto simp: book_mem_def owned_new)
    then show ?thesis using None al Inr by (simp add: level_subscript_def)
  qed
qed

lemma level_push_back_mem:
  assumes mem: "book_mem ok live F b m" and lvl: "map_of (ladder (ro_side ord) (bt_book b)) (ro_price ord) = Some l"
  shows "yields (level_push_back A ord (b, m))
    (\<lambda>(it, t) (b', m'). book_mem ok live F b' m' \<and> it = ob_next (bt_book b) \<and> t = lv_total_quantity (pushed ord l (bt_book b)) \<and>
       bt_book b' = (set_ladder (ro_side ord) (omap_insert (side_lt (ro_side ord)) (ro_price ord) (pushed ord l (bt_book b)) (ladder (ro_side ord) (bt_book b))) (bt_book b))
         \<lparr>ob_nodes := (ob_nodes (bt_book b))(ob_next (bt_book b) \<mapsto> ord), ob_next := ob_next (bt_book b) + 1\<rparr>)
    (\<lambda>_ (b', m'). book_mem ok live F b' m')"
proof -
  note m = book_memD [OF mem] and c = containers_okD [OF book_memD(2) [OF mem]]
  obtain r m' where al: "no_allocate A List_node m = (r, m')" by fastforce
  show ?thesis
  proof (cases r)
    case (Inl e)
    have "book_mem ok live F b m'" using mem allocate_fails [OF m(1) al [unfolded Inl]] by (simp add: book_mem_def)
    then show ?thesis using lvl al Inl by (simp add: level_push_back_def)
  next
    case (Inr a)
    let ?n = "ob_next (bt_book b)" and ?l = "pushed ord l (bt_book b)"
    let ?ob = "(bt_book b)\<lparr>ob_nodes := (ob_nodes (bt_book b))(?n \<mapsto> ord), ob_next := ?n + 1\<rparr>"
    let ?b1 = "b\<lparr>bt_book := ?ob, bt_list := (bt_list b)(?n \<mapsto> a)\<rparr>"
    let ?ob2 = "set_ladder (ro_side ord) (omap_insert (side_lt (ro_side ord)) (ro_price ord) ?l (ladder (ro_side ord) ?ob)) ?ob"
    let ?b = "?b1\<lparr>bt_book := ?ob2\<rparr>"
    have new: "bt_list b ?n = None" using c(3) [of ?n] c(4) by (metis less_irrefl not_None_eq)
    have "bt_tree ?b1 (ro_side ord = Buy, ro_price ord) \<noteq> None" using lvl c(5) [of "ro_side ord"] by simp
    then have "containers_ok (?b1\<lparr>bt_book := ?ob2, bt_tree := bt_tree ?b1\<rparr>)"
      by (intro containers_ok_level [OF containers_ok_push [OF m(2)], of _ "ro_side ord" "ro_price ord" ?l]) auto
    then have "book_mem ok live F ?b m'"
      using mem allocate_fresh [OF m(1) al [unfolded Inr]] new by (auto simp: book_mem_def owned_new)
    moreover have "level_push_back A ord (b, m) = Some (Inr (?n, lv_total_quantity ?l), ?b, m')"
      using lvl al Inr by (simp add: level_push_back_def pushed_def Let_def)
    ultimately show ?thesis by (simp add: set_ladder_update)
  qed
qed

lemma new_buckets_mem:
  assumes "ok m" "new_buckets E old n m = (r, m')"
  shows "ok m'" "live k m' = live k m"
    "r = Inl e \<Longrightarrow> objects Array_object (mem_heap m') = objects Array_object (mem_heap m)"
    "r = Inr (q, p) \<Longrightarrow> q = en_buckets E old n \<and> p \<notin> objects Array_object (mem_heap m) \<and>
       objects Array_object (mem_heap m') = insert p (objects Array_object (mem_heap m))"
proof -
  obtain x h where x: "operator_new E Array_object (8 * en_buckets E old n) (mem_heap m) = (x, h)" by fastforce
  note eff = operator_new_effect [OF heap [OF assms(1)] x]
  have m': "m' = m\<lparr>mem_heap := h\<rparr>" using assms(2) x by (cases x) (simp_all add: new_buckets_def Let_def)
  have "ok m' \<and> (\<forall>k. live k m' = live k m)" unfolding m' using array_frame [OF assms(1) eff(1)] eff(4) by blast
  then show "ok m'" "live k m' = live k m" by auto
  show "r = Inl e \<Longrightarrow> objects Array_object (mem_heap m') = objects Array_object (mem_heap m)"
    "r = Inr (q, p) \<Longrightarrow> q = en_buckets E old n \<and> p \<notin> objects Array_object (mem_heap m) \<and>
       objects Array_object (mem_heap m') = insert p (objects Array_object (mem_heap m))"
    using assms(2) x eff(5,6) m' by (cases x; auto simp: new_buckets_def Let_def)+
qed

lemma index_grow_mem:
  assumes "ok m" "env_ok E" "bt_array b \<in> objects Array_object (mem_heap m)"
  obtains r m' where "index_grow E b m = Some (r, m')" "ok m'" "\<And>k. live k m' = live k m"
    "\<And>e. r = Inl e \<Longrightarrow> objects Array_object (mem_heap m') = objects Array_object (mem_heap m)"
    "\<And>q p. r = Inr (q, p) \<Longrightarrow> length (ob_index (bt_book b)) + 1 \<le> q \<and> bt_buckets b \<le> q \<and> p \<notin> objects Array_object (mem_heap m) - {bt_array b} \<and>
      objects Array_object (mem_heap m') = insert p (objects Array_object (mem_heap m) - {bt_array b})"
proof (cases "length (ob_index (bt_book b)) + 1 \<le> bt_buckets b")
  case True
  then show ?thesis using assms by (intro that [of "Inr (bt_buckets b, bt_array b)" m]) (auto simp: index_grow_def Let_def)
next
  case False
  let ?n = "length (ob_index (bt_book b)) + 1"
  obtain r m1 where nb: "new_buckets E (bt_buckets b) ?n m = (r, m1)" by fastforce
  note eff = new_buckets_mem [OF assms(1) nb]
  show ?thesis
  proof (cases r)
    case (Inl e)
    then show ?thesis using False nb eff by (intro that [of "Inl e" m1]) (auto simp: index_grow_def)
  next
    case (Inr qp)
    obtain q p where r: "r = Inr (q, p)" using Inr by (cases qp) auto
    note e4 = eff(4) [OF r]
    have "bt_array b \<in> objects Array_object (mem_heap m1)" using assms(3) e4 by simp
    then obtain h where h: "operator_delete (bt_array b) (mem_heap m1) = Some h" "heap_ok h"
        "objects Array_object h = objects Array_object (mem_heap m1) - {bt_array b}"
        "\<And>obj. obj \<noteq> Array_object \<Longrightarrow> objects obj h = objects obj (mem_heap m1)"
      using operator_delete_effect [OF heap [OF eff(1)]] by metis
    have "ok (m1\<lparr>mem_heap := h\<rparr>) \<and> live k (m1\<lparr>mem_heap := h\<rparr>) = live k m" for k
      using array_frame [OF eff(1) h(2)] h(4) eff(2) by simp
    moreover have "?n \<le> q" using assms(2) e4 by (simp add: env_ok_def)
    ultimately show ?thesis
      using False nb r h(1,3) e4 assms(3) by (intro that [of r "m1\<lparr>mem_heap := h\<rparr>"]) (auto simp: index_grow_def)
  qed
qed

lemma index_assign_mem:
  assumes mem: "book_mem ok live F b m" and E: "env_ok E" and new: "\<not> has_order i (bt_book b)"
  shows "yields (index_assign E A i loc (b, m))
    (\<lambda>_ (b', m'). book_mem ok live F b' m' \<and> bt_book b' = (bt_book b)\<lparr>ob_index := AList.update i loc (ob_index (bt_book b))\<rparr>)
    (\<lambda>_ (b', m'). book_mem ok live F b' m')"
proof -
  note m = book_memD [OF mem]
  obtain r m1 where al: "no_allocate A Hash_node m = (r, m1)" by fastforce
  show ?thesis
  proof (cases r)
    case (Inl e)
    have "book_mem ok live F b m1" using mem allocate_fails [OF m(1) al [unfolded Inl]] by (simp add: book_mem_def)
    then show ?thesis using new al Inl by (simp add: index_assign_def)
  next
    case (Inr a)
    note al' = allocate_fresh [OF m(1) al [unfolded Inr]]
    then have m1: "ok m1" "bt_array b \<in> objects Array_object (mem_heap m1)" using mem by (simp_all add: book_mem_def)
    obtain g m2 where g: "index_grow E b m1 = Some (g, m2)" "ok m2" "\<And>k. live k m2 = live k m1"
        "\<And>e. g = Inl e \<Longrightarrow> objects Array_object (mem_heap m2) = objects Array_object (mem_heap m1)"
        "\<And>q p. g = Inr (q, p) \<Longrightarrow> length (ob_index (bt_book b)) + 1 \<le> q \<and> bt_buckets b \<le> q \<and> p \<notin> objects Array_object (mem_heap m1) - {bt_array b} \<and>
           objects Array_object (mem_heap m2) = insert p (objects Array_object (mem_heap m1) - {bt_array b})"
      by (rule index_grow_mem [OF m1(1) E m1(2)]) blast
    show ?thesis
    proof (cases g)
      case (Inl e)
      have "a \<in> live Hash_node m2" using al' g(3) by simp
      then obtain m3 where m3: "no_deallocate A Hash_node a m2 = Some m3" "ok m3" "live Hash_node m3 = live Hash_node m2 - {a}"
          "\<forall>k. k \<noteq> Hash_node \<longrightarrow> live k m3 = live k m2" "objects Array_object (mem_heap m3) = objects Array_object (mem_heap m2)"
        using deallocate_live [OF g(2)] by metis
      have "book_mem ok live F b m3" using mem al' g(3,4) m3 Inl by (auto simp: book_mem_def)
      then show ?thesis using new al \<open>r = Inr a\<close> g(1) Inl m3(1) by (simp add: index_assign_def)
    next
      case (Inr qp)
      obtain q p where qp: "g = Inr (q, p)" using Inr by (cases qp) auto
      let ?b = "b\<lparr>bt_book := (bt_book b)\<lparr>ob_index := AList.update i loc (ob_index (bt_book b))\<rparr>,
            bt_hash := (bt_hash b)(i \<mapsto> a), bt_buckets := q, bt_array := p\<rparr>"
      have "bt_hash b i = None" using new containers_okD(6) [OF m(2)] by (simp add: has_order_def)
      then have "book_mem ok live F ?b m2"
        using mem al' g(2,3) g(5) [OF qp] containers_ok_index [OF m(2) _ new] by (auto simp: book_mem_def owned_new)
      then show ?thesis using new al \<open>r = Inr a\<close> g(1) qp by (simp add: index_assign_def)
    qed
  qed
qed

text \<open>Inserting an order: the book is that of \<open>insert_resting_order\<close>, or an allocation has failed.\<close>

lemma insert_resting_order_mem:
  assumes mem: "book_mem ok live F b m" and E: "env_ok E" and new: "\<not> has_order (ro_order_id ord) (bt_book b)"
  shows "yields (insert_resting_order_t E A ord (b, m))
    (\<lambda>t (b', m'). book_mem ok live F b' m' \<and> insert_resting_order ord (bt_book b) = (t, bt_book b'))
    (\<lambda>_ (b', m'). book_mem ok live F b' m')"
  unfolding insert_resting_order_t_def
proof (rule yields_and_then [OF level_subscript_mem [OF mem]], goal_cases)
  case (1 u s1)
  let ?s = "ro_side ord" and ?p = "ro_price ord" and ?ob = "bt_book b"
  define l where "l = (case map_of (ladder ?s ?ob) ?p of None \<Rightarrow> empty_level | Some l \<Rightarrow> l)"
  obtain b1 m1 where s1: "s1 = (b1, m1)" "book_mem ok live F b1 m1" and b1: "bt_book b1 = (case map_of (ladder ?s ?ob) ?p of
       None \<Rightarrow> set_ladder ?s (omap_insert (side_lt ?s) ?p empty_level (ladder ?s ?ob)) ?ob | Some _ \<Rightarrow> ?ob)"
    using 1 by (cases s1) simp
  have lvl: "map_of (ladder ?s (bt_book b1)) ?p = Some l"
    using b1 ladder_order.map_of_omap_insert [OF containers_okD(1) [OF book_memD(2) [OF mem], of ?s]]
    by (simp add: l_def split: option.splits)
  have lad: "omap_insert (side_lt ?s) ?p x (ladder ?s (bt_book b1)) = omap_insert (side_lt ?s) ?p x (ladder ?s ?ob)" for x
    using b1 by (simp add: omap_insert_overwrite split: option.splits)
  have same: "ob_next (bt_book b1) = ob_next ?ob" "ob_nodes (bt_book b1) = ob_nodes ?ob" "ob_index (bt_book b1) = ob_index ?ob"
      "set_ladder ?s x (bt_book b1) = set_ladder ?s x ?ob" for x
    using b1 by (simp_all add: set_ladder_def split: option.splits)
  note push = level_push_back_mem [OF s1(2) lvl, unfolded pushed_def same lad, folded pushed_def]
  show ?case unfolding s1(1)
  proof (rule yields_and_then [OF push], goal_cases)
    case (1 it_t s2)
    obtain it t b2 m2 where s2: "it_t = (it, t)" "s2 = (b2, m2)" by (cases it_t; cases s2) auto
    have "\<not> has_order (ro_order_id ord) (bt_book b2)" using new 1 s2 by (simp add: has_order_def)
    note assign = index_assign_mem [OF _ E this]
    show ?case unfolding s2 prod.case
      by (rule yields_and_then [OF assign])
        (use 1 s2 in \<open>auto simp: insert_resting_order_def pushed_def Let_def l_def set_ladder_update\<close>)
  qed
qed

lemma remove_resting_order_mem:
  assumes mem: "book_mem ok live F b m" and run: "remove_resting_order i (bt_book b) = Some (d, ob')"
  obtains b' m' where "remove_resting_order_t A i (b, m) = Some (d, b', m')" "bt_book b' = ob'" "book_mem ok live F b' m'"
proof -
  note c = containers_okD [OF book_memD(2) [OF mem]]
  obtain loc level ord where R: "map_of (ob_index (bt_book b)) i = Some loc" "map_of (ladder (loc_side loc) (bt_book b)) (loc_price loc) = Some level"
    "ob_nodes (bt_book b) (loc_it loc) = Some ord"
    by (rule remove_resting_orderE [OF run]) blast
  let ?k = "(loc_side loc = Buy, loc_price loc)"
  obtain la ta ha where a: "bt_list b (loc_it loc) = Some la" "bt_tree b ?k = Some ta" "bt_hash b i = Some ha"
    using c(4) [of "loc_it loc"] c(5) [of "loc_side loc" "loc_price loc"] c(6) [of i] R by auto
  define gone where "gone \<longleftrightarrow> map_of (ladder (loc_side loc) ob') (loc_price loc) = None"
  have own: "ok m" "owned (bt_list b) (live List_node m) (fr_nodes F List_node)" "owned (bt_tree b) (live Tree_node m) (fr_nodes F Tree_node)"
     "owned (bt_hash b) (live Hash_node m) (fr_nodes F Hash_node)"
    using mem by (simp_all add: book_mem_def)
  obtain m1 where m1: "no_deallocate A List_node la m = Some m1" "ok m1" "live List_node m1 = live List_node m - {la}"
      "live Tree_node m1 = live Tree_node m" "live Hash_node m1 = live Hash_node m"
      "objects Array_object (mem_heap m1) = objects Array_object (mem_heap m)"
    using deallocate_live [OF own(1) owned_free(1) [OF own(2) a(1)]] by auto
  obtain m2 where m2: "(if gone then no_deallocate A Tree_node ta m1 else Some m1) = Some m2" "ok m2"
      "live Tree_node m2 = (if gone then live Tree_node m - {ta} else live Tree_node m)"
      "live List_node m2 = live List_node m1" "live Hash_node m2 = live Hash_node m"
      "objects Array_object (mem_heap m2) = objects Array_object (mem_heap m)"
    using deallocate_live [OF m1(2), of ta Tree_node] owned_free(1) [OF own(3) a(2)] m1 by (cases gone) auto
  obtain m3 where m3: "no_deallocate A Hash_node ha m2 = Some m3" "ok m3" "live Hash_node m3 = live Hash_node m - {ha}"
      "live Tree_node m3 = live Tree_node m2" "live List_node m3 = live List_node m1"
      "objects Array_object (mem_heap m3) = objects Array_object (mem_heap m)"
    using deallocate_live [OF m2(2), of ha Hash_node] owned_free(1) [OF own(4) a(3)] m2 by auto
  let ?b = "b\<lparr>bt_book := ob', bt_list := (bt_list b)(loc_it loc := None), bt_hash := (bt_hash b)(i := None),
    bt_tree := (if gone then (bt_tree b)(?k := None) else bt_tree b)\<rparr>"
  have "containers_ok ?b" unfolding gone_def by (rule containers_ok_remove [OF book_memD(2) [OF mem] run R(1)])
  then have "book_mem ok live F ?b m3"
    using mem m1 m2 m3 owned_free(2) [OF own(2) a(1)] owned_free(2) [OF own(3) a(2)] owned_free(2) [OF own(4) a(3)]
    by (simp add: book_mem_def)
  moreover have "remove_resting_order_t A i (b, m) = Some (d, ?b, m3)"
    using run R(1) a m1(1) m2(1) m3(1) by (cases gone) (simp_all add: remove_resting_order_t_def gone_def [symmetric])
  ultimately show ?thesis by (intro that [of ?b m3]) simp_all
qed

text \<open>
  The step: a message is applied as by \<open>apply_msg\<close>, or an allocation has failed; the memory is in order either way.
\<close>

abbreviation does :: "'a frame \<Rightarrow> DecodedMessage \<Rightarrow> 'a BookT \<Rightarrow> ('a, 'p) apply_t \<Rightarrow> bool" where
  "does F msg b x \<equiv> yields x
     (\<lambda>out (b', m'). book_mem ok live F b' m' \<and> apply_msg msg (bt_book b) = Some (out, bt_book b'))
     (\<lambda>_ (b', m'). book_mem ok live F b' m')"

lemma apply_add_mem:
  assumes "book_mem ok live F b m" "env_ok E"
  shows "does F (AddMsg msg) b (apply_add_t E A msg (b, m))"
proof (cases "has_order (add_order_id msg) (bt_book b)")
  case False
  let ?ord = "\<lparr>ro_order_id = add_order_id msg, ro_side = add_side msg, ro_price = add_price msg, ro_quantity = add_quantity msg\<rparr>"
  have "yields (insert_resting_order_t E A ?ord (b, m))
    (\<lambda>t (b', m'). book_mem ok live F b' m' \<and> insert_resting_order ?ord (bt_book b) = (t, bt_book b'))
    (\<lambda>_ (b', m'). book_mem ok live F b' m')"
    using False by (intro insert_resting_order_mem [OF assms]) simp
  then show ?thesis
    using False by (auto simp: apply_add_t_def apply_add_def ar_add_def ar_init_def elim!: yields_and_then)
qed (use assms in \<open>simp add: apply_add_t_def apply_add_def\<close>)

lemma apply_cancel_mem:
  assumes "book_mem ok live F b m" "apply_cancel msg (bt_book b) = Some (out, ob')"
  shows "does F (CancelMsg msg) b (apply_cancel_t A msg (b, m))"
proof (cases "has_order (cxl_order_id msg) (bt_book b)")
  case True
  then obtain d ob1 where run: "remove_resting_order (cxl_order_id msg) (bt_book b) = Some (d, ob1)"
    using assms(2) by (auto simp: apply_cancel_def bind_eq_Some_conv)
  show ?thesis
    by (rule remove_resting_order_mem [OF assms(1) run])
      (simp add: True run apply_cancel_t_def apply_cancel_def ar_add_def ar_init_def)
qed (use assms in \<open>simp add: apply_cancel_t_def apply_cancel_def\<close>)

lemma apply_execute_mem:
  assumes mem: "book_mem ok live F b m" and run: "apply_execute msg (bt_book b) = Some (out, ob')"
  shows "does F (ExecuteMsg msg) b (apply_execute_t A msg (b, m))"
proof (cases "map_of (ob_index (bt_book b)) (exe_order_id msg)")
  case (Some loc)
  obtain ord where ord: "ob_nodes (bt_book b) (loc_it loc) = Some ord" using run Some by (auto simp: apply_execute_def bind_eq_Some_conv)
  show ?thesis
  proof (cases "ro_quantity ord < exe_executed_quantity msg")
    case False
    then obtain level where lvl: "map_of (ladder (loc_side loc) (bt_book b)) (loc_price loc) = Some level"
      using run Some ord by (auto simp: apply_execute_def level_for_def bind_eq_Some_conv)
    let ?l = "level\<lparr>lv_total_quantity := lv_total_quantity level - exe_executed_quantity msg\<rparr>"
    let ?ord = "ord\<lparr>ro_quantity := ro_quantity ord - exe_executed_quantity msg\<rparr>"
    let ?ob = "(set_ladder (loc_side loc) (omap_insert (side_lt (loc_side loc)) (loc_price loc) ?l (ladder (loc_side loc) (bt_book b))) (bt_book b))
            \<lparr>ob_nodes := (ob_nodes (bt_book b))(loc_it loc \<mapsto> ?ord)\<rparr>"
    have "containers_ok (b\<lparr>bt_book := ?ob\<rparr>)" using lvl ord by (intro containers_ok_touch [OF book_memD(2) [OF mem]]) simp_all
    then have mem': "book_mem ok live F (b\<lparr>bt_book := ?ob\<rparr>) m" using mem by (simp add: book_mem_def)
    note eval = apply_execute_t_def apply_execute_def level_for_def Some ord lvl False ar_add_def ar_init_def Let_def
    show ?thesis
    proof (cases "ro_quantity ord = exe_executed_quantity msg")
      case True
      then obtain d ob1 where rm: "remove_resting_order (exe_order_id msg) ?ob = Some (d, ob1)"
        using run by (auto simp: eval bind_eq_Some_conv)
      have rm': "remove_resting_order (exe_order_id msg) (bt_book (b\<lparr>bt_book := ?ob\<rparr>)) = Some (d, ob1)" using rm by simp
      show ?thesis by (rule remove_resting_order_mem [OF mem' rm']) (use True rm in \<open>simp add: eval\<close>)
    qed (use mem' in \<open>simp add: eval\<close>)
  qed (use mem Some ord in \<open>simp add: apply_execute_t_def apply_execute_def\<close>)
qed (use mem in \<open>simp add: apply_execute_t_def apply_execute_def\<close>)

lemma apply_replace_mem:
  assumes mem: "book_mem ok live F b m" and E: "env_ok E" and run: "apply_replace msg (bt_book b) = Some (out, ob')"
  shows "does F (ReplaceMsg msg) b (apply_replace_t E A msg (b, m))"
proof (cases "map_of (ob_index (bt_book b)) (rep_old_order_id msg)")
  case (Some loc)
  show ?thesis
  proof (cases "has_order (rep_new_order_id msg) (bt_book b)")
    case False
    let ?ord = "\<lparr>ro_order_id = rep_new_order_id msg, ro_side = loc_side loc, ro_price = rep_price msg, ro_quantity = rep_quantity msg\<rparr>"
    obtain d ob1 where rm: "remove_resting_order (rep_old_order_id msg) (bt_book b) = Some (d, ob1)"
      using run Some False by (auto simp: apply_replace_def Let_def bind_eq_Some_conv)
    obtain b1 m1 where s1: "remove_resting_order_t A (rep_old_order_id msg) (b, m) = Some (d, b1, m1)" "bt_book b1 = ob1" "book_mem ok live F b1 m1"
      by (rule remove_resting_order_mem [OF mem rm])
    have "\<not> has_order (ro_order_id ?ord) (bt_book b1)"
      using False by (simp add: s1(2) has_order_def remove_resting_order_index [OF rm] AList.delete_conv)
    note ins = insert_resting_order_mem [OF s1(3) E this]
    have "apply_replace_t E A msg (b, m) = and_then (insert_resting_order_t E A ?ord (b1, m1)) (\<lambda>new_total s. do {
        result \<leftarrow> ar_add (ld_side d) (ld_price d) (ld_total_quantity d) ar_init;
        result \<leftarrow> ar_add (loc_side loc) (rep_price msg) new_total result;
        Some (Inr (Inr result), s) })"
      using Some False s1(1) by (simp add: apply_replace_t_def Let_def)
    then show ?thesis
      using s1(2) rm Some False
      by (auto intro!: yields_and_then [OF ins] simp: apply_replace_def Let_def ar_add_def ar_init_def)
  qed (use mem Some in \<open>simp add: apply_replace_t_def apply_replace_def\<close>)
qed (use mem in \<open>simp add: apply_replace_t_def apply_replace_def\<close>)

lemma apply_t_mem:
  assumes mem: "book_mem ok live F b m" and E: "env_ok E" and ob: "book_ok (bt_book b)"
  shows "does F msg b (apply_t E A msg (b, m))"
proof -
  obtain out ob' where run: "apply_msg msg (bt_book b) = Some (out, ob')" using book_stepE [OF ob] by metis
  show ?thesis
  proof (cases msg)
    case (AddMsg x)
    show ?thesis unfolding AddMsg apply_t.simps by (rule apply_add_mem [OF mem E])
  next
    case (CancelMsg x)
    show ?thesis using run unfolding CancelMsg apply_t.simps apply_msg.simps(2) by (rule apply_cancel_mem [OF mem, unfolded apply_msg.simps])
  next
    case (ExecuteMsg x)
    show ?thesis using run unfolding ExecuteMsg apply_t.simps apply_msg.simps(3) by (rule apply_execute_mem [OF mem, unfolded apply_msg.simps])
  next
    case (ReplaceMsg x)
    show ?thesis using run unfolding ReplaceMsg apply_t.simps apply_msg.simps(4) by (rule apply_replace_mem [OF mem E, unfolded apply_msg.simps])
  qed
qed

text \<open>The constructor takes an array of buckets and nothing else.\<close>

lemma order_book_t_mem:
  assumes "ok m" "env_ok E" "order_book_t E m = (Inr b, m')"
  shows "bt_book b = order_book_init"
    "book_mem ok live \<lparr>fr_nodes = (\<lambda>k. live k m), fr_arrays = objects Array_object (mem_heap m)\<rparr> b m'"
proof -
  obtain r m1 where nb: "new_buckets E 1 kExpectedRestingOrdersPerSymbol m = (r, m1)" by fastforce
  note eff = new_buckets_mem [OF assms(1) nb]
  obtain q p where r: "r = Inr (q, p)" using assms(3) nb by (cases r) (auto simp: order_book_t_def)
  then have b: "b = \<lparr>bt_book = order_book_init, bt_list = Map.empty, bt_tree = Map.empty, bt_hash = Map.empty, bt_buckets = q, bt_array = p\<rparr>"
    and m': "m' = m1"
    using assms(3) nb by (simp_all add: order_book_t_def)
  show "bt_book b = order_book_init" by (simp add: b)
  have "kExpectedRestingOrdersPerSymbol \<le> q" using eff(4) [OF r] assms(2) by (simp add: env_ok_def)
  then have "containers_ok b" by (simp add: b containers_ok_def order_book_init_def ladder_def)
  then show "book_mem ok live \<lparr>fr_nodes = (\<lambda>k. live k m), fr_arrays = objects Array_object (mem_heap m)\<rparr> b m'"
    using eff(1,2) eff(4) [OF r] by (simp add: book_mem_def b m' owned_empty)
qed

end

end
