(* ===== verification/Book_Budget.thy ===== *)
theory Book_Budget
  imports Book_Memory
begin

text \<open>
  When \<open>OrderBookT<Alloc>\<close> does not throw and what it costs: calls of \<open>operator new\<close> and \<open>operator delete\<close> per message.  The contract \<open>node_allocator\<close> is
  extended by a capacity and a price per node: with \<open>std::allocator\<close> a node costs one call, with \<open>PoolAllocator\<close> none once the pool
  of its kind has been constructed.
\<close>

definition unlimited :: "env \<Rightarrow> bool" where
  "unlimited E \<longleftrightarrow> (\<forall>n sz. en_malloc E n sz)"

text \<open>The calls that lead from one state of the memory to another.\<close>

definition calls :: "u64 \<Rightarrow> u64 \<Rightarrow> 'p mem \<Rightarrow> 'p mem \<Rightarrow> bool" where
  "calls news deletes m m' \<longleftrightarrow> g_new_calls (mem_heap m') = g_new_calls (mem_heap m) + news \<and>
     g_delete_calls (mem_heap m') = g_delete_calls (mem_heap m) + deletes"

lemma calls_refl [simp]: "calls 0 0 m m"
  by (simp add: calls_def)

lemma calls_trans: "calls n d m m1 \<Longrightarrow> calls n' d' m1 m2 \<Longrightarrow> calls (n + n') (d + d') m m2"
  by (simp add: calls_def)

locale counting_allocator = node_allocator A ok live for A :: "('p, 'a) node_ops" and ok and live +
  fixes E :: env
    and ready :: "node_kind \<Rightarrow> 'p mem \<Rightarrow> bool"
    and cap :: nat
    and cost :: u64
  assumes finite_live: "ok m \<Longrightarrow> finite (live k m)"
    and allocate_counts: "ok m \<Longrightarrow> unlimited E \<or> ready k m \<Longrightarrow> card (live k m) < cap \<Longrightarrow>
      \<exists>a m'. no_allocate A k m = (Inr a, m') \<and> (\<forall>k'. ready k' m \<longrightarrow> ready k' m') \<and> (ready k m \<longrightarrow> calls cost 0 m m')"
    and deallocate_counts: "ok m \<Longrightarrow> a \<in> live k m \<Longrightarrow> no_deallocate A k a m = Some m' \<Longrightarrow>
      calls 0 cost m m' \<and> (\<forall>k'. ready k' m \<longrightarrow> ready k' m')"
    and live_ready: "ok m \<Longrightarrow> unlimited E \<or> ready k m \<Longrightarrow> a \<in> live k m \<Longrightarrow> ready k m"
    and array_ready: "ready k m \<Longrightarrow> ready k (m\<lparr>mem_heap := h\<rparr>)"

subsection \<open>Both allocators\<close>

lemma finite_objects: "heap_ok h \<Longrightarrow> finite (objects obj h)"
  unfolding heap_ok_def objects_def by (rule finite_subset [of _ "{..<hp_mallocs h}"]) auto

interpretation std_counts: counting_allocator "std_allocator E" "\<lambda>m. heap_ok (mem_heap m)" heap_nodes E "\<lambda>_ _. unlimited E" cap 1
  for E cap
proof (unfold_locales, goal_cases)
  case (1 m k)
  then show ?case by (simp add: heap_nodes_def finite_objects)
next
  case (2 m k)
  then show ?case
    by (simp add: std_allocator_def heap_allocate_def operator_new_def unlimited_def calls_def Let_def)
next
  case (3 m a k m')
  then show ?case
    by (auto simp: std_allocator_def heap_deallocate_def operator_delete_def calls_def Let_def split: if_splits)
qed auto

definition pool_ready :: "nat \<Rightarrow> node_kind \<Rightarrow> node_pools mem \<Rightarrow> bool" where
  "pool_ready index k m \<longleftrightarrow> pool_slots (mem_pools m k) ! index \<noteq> None"

lemma live_pool_ready: "a \<in> pool_nodes cap index k m \<Longrightarrow> pool_ready index k m"
  by (auto simp: pool_nodes_def live_blocks_def pool_ready_def split: option.splits)

lemma ensure_pool_works:
  assumes "unlimited E \<or> pool_ready index k m"
  shows "\<exists>m1. ensure_pool E index k m = (Inr (), m1) \<and> mem_pools m1 = mem_pools m \<and> (pool_ready index k m \<longrightarrow> m1 = m)"
proof (cases "pool_ready index k m")
  case True
  then show ?thesis by (simp add: ensure_pool_present pool_ready_def)
next
  case False
  then have "unlimited E" using assms by simp
  then show ?thesis using False by (simp add: ensure_pool_def operator_new_def unlimited_def pool_ready_def Let_def)
qed

lemma allocate_node_room:
  assumes "pools_ok cap ps" "i < kMaxPoolShards" "card (live_blocks cap i ps) < cap"
  obtains b ps' where "allocate_node cap i ps = (Inr b, ps')" "b \<in> live_blocks cap i ps'"
  using assms(3) finite_blocks(2) [of i cap] by (cases rule: allocate_ok [OF assms(1,2)]) auto

lemma deallocate_node_slot:
  assumes "pool_slots ps ! i \<noteq> None" "i < length (pool_slots ps)" "deallocate_node ndebug cap i b ps = Some ps'"
  shows "pool_slots ps' ! i \<noteq> None"
  using assms by (auto simp: deallocate_node_def get_pool_def bind_eq_Some_conv)

interpretation pool_counts: counting_allocator "pool_allocator E ndebug cap index" "pool_mem_ok cap index" "pool_nodes cap index"
  E "pool_ready index" cap 0
  for E ndebug cap index
proof (unfold_locales, goal_cases)
  case (1 m k)
  then show ?case using finite_blocks by (auto simp: pool_nodes_def live_blocks_def split: option.splits)
next
  case (2 m k)
  have ps: "pools_ok cap (mem_pools m k)" "index < kMaxPoolShards" using 2(1) by (simp_all add: pool_mem_ok_def)
  obtain b ps' where al: "allocate_node cap index (mem_pools m k) = (Inr b, ps')" "b \<in> live_blocks cap index ps'"
    using 2(3) by (auto simp: pool_nodes_def intro: allocate_node_room [OF ps])
  obtain m1 where en: "ensure_pool E index k m = (Inr (), m1)" "mem_pools m1 = mem_pools m" "pool_ready index k m \<longrightarrow> m1 = m"
    using ensure_pool_works [OF 2(2)] by auto
  let ?m = "m1\<lparr>mem_pools := (mem_pools m1)(k := ps')\<rparr>"
  have "no_allocate (pool_allocator E ndebug cap index) k m = (Inr b, ?m)"
    using en al(1) by (simp add: pool_allocator_def pool_node_allocate_def)
  moreover have "pool_ready index k' m \<longrightarrow> pool_ready index k' ?m" for k'
    using en(2) live_pool_ready [of b cap index k ?m] al(2) by (auto simp: pool_ready_def pool_nodes_def)
  ultimately show ?case using en(3) by (auto simp: calls_def)
next
  case (3 m a k m')
  have "pool_ready index k m" using live_pool_ready [OF 3(2)] .
  then have "ensure_pool E index k m = (Inr (), m)" by (intro ensure_pool_present) (simp add: pool_ready_def)
  then obtain ps' where ps': "deallocate_node ndebug cap index a (mem_pools m k) = Some ps'" "m' = m\<lparr>mem_pools := (mem_pools m)(k := ps')\<rparr>"
    using 3(3) by (auto simp: pool_allocator_def pool_node_deallocate_def)
  have "index < length (pool_slots (mem_pools m k))" using 3(1) by (simp add: pool_mem_ok_def pools_ok_def)
  then have "pool_slots ps' ! index \<noteq> None"
    using deallocate_node_slot [OF _ _ ps'(1)] \<open>pool_ready index k m\<close> by (simp add: pool_ready_def)
  then show ?case by (auto simp: ps'(2) calls_def pool_ready_def)
next
  case (4 m k a)
  then show ?case using live_pool_ready by blast
next
  case (5 k m h)
  then show ?case by (simp add: pool_ready_def)
qed

subsection \<open>Statements that do not throw\<close>

text \<open>If \<open>x\<close> is defined it returns, in a state with \<open>Q\<close>.\<close>

definition ensures :: "('r, 's) throwing \<Rightarrow> ('r \<Rightarrow> 's \<Rightarrow> bool) \<Rightarrow> bool" where
  "ensures x Q \<longleftrightarrow> (case x of None \<Rightarrow> True | Some (Inl e, s) \<Rightarrow> False | Some (Inr r, s) \<Rightarrow> Q r s)"

lemma ensures_simps [simp]:
  "ensures None Q" "\<not> ensures (Some (Inl e, s)) Q" "ensures (Some (Inr r, s)) Q = Q r s"
  by (simp_all add: ensures_def)

lemma ensures_and_then: "ensures x Q \<Longrightarrow> (\<And>r s. Q r s \<Longrightarrow> ensures (f r s) R) \<Longrightarrow> ensures (and_then x f) R"
  unfolding and_then_def by (cases x) (auto split: sum.splits)

lemma yields_ensures:
  "yields x Q X \<Longrightarrow> ensures x R \<Longrightarrow> \<exists>r s. x = Some (Inr r, s) \<and> Q r s \<and> R r s"
  by (cases x; cases "fst (the x)") (auto simp: yields_def ensures_def split: sum.splits)

lemma new_buckets_unlimited:
  "unlimited E \<Longrightarrow> \<exists>p m'. new_buckets E old n m = (Inr (en_buckets E old n, p), m')"
  by (simp add: new_buckets_def operator_new_def unlimited_def Let_def)

lemma new_buckets_heap: "new_buckets E old n m = (r, m') \<Longrightarrow> \<exists>h. m' = m\<lparr>mem_heap := h\<rparr>"
  by (auto simp: new_buckets_def Let_def split: prod.splits sum.splits)

lemma index_grow_heap: "index_grow E b m = Some (r, m') \<Longrightarrow> \<exists>h. m' = m\<lparr>mem_heap := h\<rparr>"
  using new_buckets_heap by (fastforce simp: index_grow_def Let_def intro: exI [of _ "mem_heap m"] split: if_splits prod.splits sum.splits)

lemma index_grow_unlimited: "unlimited E \<Longrightarrow> index_grow E b m \<noteq> Some (Inl e, m')"
  using new_buckets_unlimited [of E "bt_buckets b" "Suc (length (ob_index (bt_book b)))" m]
  by (auto simp: index_grow_def Let_def)

lemma remove_resting_order_tE:
  assumes run: "remove_resting_order_t A i (b, m) = Some (d, b', m')" and loc: "map_of (ob_index (bt_book b)) i = Some loc"
  obtains la ha m1 m2 where "bt_list b (loc_it loc) = Some la" "no_deallocate A List_node la m = Some m1"
    "bt_hash b i = Some ha" "no_deallocate A Hash_node ha m2 = Some m'" "bt_buckets b' = bt_buckets b"
    "map_of (ladder (loc_side loc) (bt_book b')) (loc_price loc) = None \<and>
       (\<exists>ta. bt_tree b (loc_side loc = Buy, loc_price loc) = Some ta \<and> no_deallocate A Tree_node ta m1 = Some m2) \<or>
     map_of (ladder (loc_side loc) (bt_book b')) (loc_price loc) \<noteq> None \<and> m2 = m1"
proof -
  obtain ob' where rm: "remove_resting_order i (bt_book b) = Some (d, ob')" "bt_book b' = ob'" "bt_buckets b' = bt_buckets b"
    using run by (auto simp: remove_resting_order_t_def Let_def bind_eq_Some_conv split: if_splits)
  show thesis
  proof (cases "map_of (ladder (loc_side loc) ob') (loc_price loc)")
    case None
    show thesis using that run loc rm None by (auto simp: remove_resting_order_t_def Let_def bind_eq_Some_conv)
  next
    case (Some l)
    show thesis using that run loc rm Some by (auto simp: remove_resting_order_t_def Let_def bind_eq_Some_conv)
  qed
qed

context counting_allocator
begin

lemma level_subscript_room:
  assumes "ok m" "unlimited E \<or> ready Tree_node m" "card (live Tree_node m) < cap"
  shows "ensures (level_subscript A s p (b, m)) (\<lambda>_ (b', m'). ok m' \<and> (\<forall>k. ready k m \<longrightarrow> ready k m') \<and>
     (\<forall>k. k \<noteq> Tree_node \<longrightarrow> live k m' = live k m) \<and> bt_buckets b' = bt_buckets b \<and> ob_index (bt_book b') = ob_index (bt_book b) \<and>
     (ready Tree_node m \<longrightarrow> calls (if map_of (ladder s (bt_book b)) p = None then cost else 0) 0 m m'))"
proof (cases "map_of (ladder s (bt_book b)) p")
  case None
  obtain a m' where "no_allocate A Tree_node m = (Inr a, m')" "\<forall>k. ready k m \<longrightarrow> ready k m'" "ready Tree_node m \<longrightarrow> calls cost 0 m m'"
    using allocate_counts [OF assms] by auto
  then show ?thesis using None allocate_fresh [OF assms(1), of Tree_node a m'] by (simp add: level_subscript_def)
qed (use assms in \<open>simp add: level_subscript_def\<close>)

lemma level_push_back_room:
  assumes "ok m" "unlimited E \<or> ready List_node m" "card (live List_node m) < cap"
  shows "ensures (level_push_back A ord (b, m)) (\<lambda>_ (b', m'). ok m' \<and> (\<forall>k. ready k m \<longrightarrow> ready k m') \<and>
     (\<forall>k. k \<noteq> List_node \<longrightarrow> live k m' = live k m) \<and> bt_buckets b' = bt_buckets b \<and> ob_index (bt_book b') = ob_index (bt_book b) \<and>
     (ready List_node m \<longrightarrow> calls cost 0 m m'))"
proof -
  obtain a m' where "no_allocate A List_node m = (Inr a, m')" "\<forall>k. ready k m \<longrightarrow> ready k m'" "ready List_node m \<longrightarrow> calls cost 0 m m'"
    using allocate_counts [OF assms] by auto
  then show ?thesis
    using allocate_fresh [OF assms(1), of List_node a m'] by (simp add: level_push_back_def Let_def split: option.splits)
qed

lemma index_assign_room:
  assumes "ok m" "unlimited E \<or> ready Hash_node m" "card (live Hash_node m) < cap" "\<not> has_order i (bt_book b)"
    and "unlimited E \<or> length (ob_index (bt_book b)) < bt_buckets b"
  shows "ensures (index_assign E A i loc (b, m)) (\<lambda>_ (b', m'). (\<forall>k. ready k m \<longrightarrow> ready k m') \<and>
     (length (ob_index (bt_book b)) < bt_buckets b \<longrightarrow> bt_buckets b' = bt_buckets b \<and> (ready Hash_node m \<longrightarrow> calls cost 0 m m')))"
proof -
  obtain a m1 where al: "no_allocate A Hash_node m = (Inr a, m1)" "\<forall>k. ready k m \<longrightarrow> ready k m1" "ready Hash_node m \<longrightarrow> calls cost 0 m m1"
    using allocate_counts [OF assms(1-3)] by auto
  show ?thesis
  proof (cases "length (ob_index (bt_book b)) < bt_buckets b")
    case True
    then show ?thesis using al assms(4) by (simp add: index_assign_def index_grow_def)
  next
    case False
    show ?thesis
    proof (cases "index_grow E b m1")
      case (Some g)
      obtain q p m2 where g: "g = (Inr (q, p), m2)" using Some index_grow_unlimited [of E b m1] assms(5) False by (cases g; cases "fst g") auto
      have "\<forall>k. ready k m1 \<longrightarrow> ready k m2" using index_grow_heap [of E b m1] Some g array_ready by auto
      then show ?thesis using al(1,2) Some g assms(4) False by (simp add: index_assign_def)
    qed (use al(1) assms(4) in \<open>simp add: index_assign_def\<close>)
  qed
qed

text \<open>The nodes that \<open>insert_resting_order\<close> takes, and those that \<open>remove_resting_order\<close> gives back.\<close>

lemma insert_resting_order_room:
  assumes m: "ok m" "\<And>k. unlimited E \<or> ready k m" "\<And>k. card (live k m) < cap" and new: "\<not> has_order (ro_order_id ord) (bt_book b)"
    and buckets: "unlimited E \<or> length (ob_index (bt_book b)) < bt_buckets b"
  shows "ensures (insert_resting_order_t E A ord (b, m)) (\<lambda>_ (b', m'). (\<forall>k. ready k m \<longrightarrow> ready k m') \<and>
     (length (ob_index (bt_book b)) < bt_buckets b \<longrightarrow> bt_buckets b' = bt_buckets b \<and> ((\<forall>k. ready k m) \<longrightarrow>
        calls ((if map_of (ladder (ro_side ord) (bt_book b)) (ro_price ord) = None then cost else 0) + cost + cost) 0 m m')))"
  unfolding insert_resting_order_t_def
proof (rule ensures_and_then [OF level_subscript_room [OF m]], goal_cases)
  case (1 u s1)
  obtain b1 m1 where s1: "s1 = (b1, m1)" by (cases s1)
  note st1 = 1 [unfolded s1 prod.case]
  have m1: "ok m1" "unlimited E \<or> ready List_node m1" "card (live List_node m1) < cap"
    using st1 m(2) [of List_node] m(3) [of List_node] by auto
  show ?case unfolding s1
  proof (rule ensures_and_then [OF level_push_back_room [OF m1]], goal_cases)
    case (1 it_t s2)
    obtain it t b2 m2 where s2: "it_t = (it, t)" "s2 = (b2, m2)" by (cases it_t; cases s2) auto
    note st2 = 1 [unfolded s2 prod.case]
    have b2: "ob_index (bt_book b2) = ob_index (bt_book b)" "bt_buckets b2 = bt_buckets b" using st1 st2 by simp_all
    have m2: "ok m2" "unlimited E \<or> ready Hash_node m2" "card (live Hash_node m2) < cap"
      using st1 st2 m(2) [of Hash_node] m(3) [of Hash_node] by auto
    have new2: "\<not> has_order (ro_order_id ord) (bt_book b2)" using new b2(1) by (simp add: has_order_def)
    have "unlimited E \<or> length (ob_index (bt_book b2)) < bt_buckets b2" using buckets b2 by simp
    note assign = index_assign_room [OF m2 new2 this, unfolded b2]
    show ?case unfolding s2 prod.case
    proof (rule ensures_and_then [OF assign], goal_cases)
      case (1 u s3)
      obtain b3 m3 where s3: "s3 = (b3, m3)" by (cases s3)
      note st3 = 1 [unfolded s3 prod.case]
      have "calls ((if map_of (ladder (ro_side ord) (bt_book b)) (ro_price ord) = None then cost else 0) + cost + cost) 0 m m3"
        if "length (ob_index (bt_book b)) < bt_buckets b" "\<forall>k. ready k m"
        using calls_trans [OF calls_trans [of _ _ m m1 cost 0 m2], of _ _ cost 0 m3] st1 st2 st3 that by simp
      then show ?case using st1 st2 st3 by (simp add: s3)
    qed
  qed
qed

lemma remove_resting_order_room:
  assumes mem: "book_mem ok live F b m" and loc: "map_of (ob_index (bt_book b)) i = Some loc"
    and run: "remove_resting_order_t A i (b, m) = Some (d, b', m')"
  shows "(\<forall>k. ready k m \<longrightarrow> ready k m') \<and> bt_buckets b' = bt_buckets b \<and>
    calls 0 (cost + (if map_of (ladder (loc_side loc) (bt_book b')) (loc_price loc) = None then cost else 0) + cost) m m'"
proof -
  let ?gone = "map_of (ladder (loc_side loc) (bt_book b')) (loc_price loc) = None"
  obtain la ha m1 m2 where a: "bt_list b (loc_it loc) = Some la" and d1: "no_deallocate A List_node la m = Some m1"
    and h: "bt_hash b i = Some ha" and d3: "no_deallocate A Hash_node ha m2 = Some m'" and b': "bt_buckets b' = bt_buckets b"
    and d2: "?gone \<and> (\<exists>ta. bt_tree b (loc_side loc = Buy, loc_price loc) = Some ta \<and> no_deallocate A Tree_node ta m1 = Some m2) \<or> \<not> ?gone \<and> m2 = m1"
    using remove_resting_order_tE [OF run loc] .
  have own: "ok m" "owned (bt_list b) (live List_node m) (fr_nodes F List_node)" "owned (bt_tree b) (live Tree_node m) (fr_nodes F Tree_node)"
     "owned (bt_hash b) (live Hash_node m) (fr_nodes F Hash_node)"
    using mem by (simp_all add: book_mem_def)
  note l = owned_free(1) [OF own(2) a] owned_free(1) [OF own(4) h]
  have m1: "ok m1" "\<forall>k. k \<noteq> List_node \<longrightarrow> live k m1 = live k m" using deallocate_live [OF own(1) l(1)] d1 by auto
  have c1: "calls 0 cost m m1 \<and> (\<forall>k. ready k m \<longrightarrow> ready k m1)" by (rule deallocate_counts [OF own(1) l(1) d1])
  have m2: "ok m2 \<and> live Hash_node m2 = live Hash_node m \<and> calls 0 (if ?gone then cost else 0) m1 m2 \<and> (\<forall>k. ready k m1 \<longrightarrow> ready k m2)"
  proof (cases ?gone)
    case True
    then obtain ta where "bt_tree b (loc_side loc = Buy, loc_price loc) = Some ta" "no_deallocate A Tree_node ta m1 = Some m2" using d2 by auto
    moreover from this have "ta \<in> live Tree_node m1" using owned_free(1) [OF own(3)] m1(2) by simp
    ultimately show ?thesis using deallocate_live [OF m1(1), of ta Tree_node] deallocate_counts [OF m1(1), of ta Tree_node m2] m1(2) True by auto
  qed (use m1 d2 in auto)
  have "ha \<in> live Hash_node m2" using l(2) m2 by simp
  then have c3: "calls 0 cost m2 m' \<and> (\<forall>k. ready k m2 \<longrightarrow> ready k m')" using deallocate_counts [OF _ _ d3] m2 by simp
  show ?thesis
    using calls_trans [OF calls_trans [of 0 cost m m1 0 _ m2], of _ 0 cost m'] c1 m2 c3 b' by simp
qed

end

subsection \<open>Counting the nodes\<close>

lemma card_containers:
  assumes c: "containers_ok b"
  shows "finite (dom (bt_list b))" "card (dom (bt_list b)) = list_nodes (bt_book b)"
    "finite (dom (bt_hash b))" "card (dom (bt_hash b)) = hash_nodes (bt_book b)"
    "finite (dom (bt_tree b))" "card (dom (bt_tree b)) = tree_nodes (bt_book b)"
proof -
  note D = containers_okD [OF c]
  have l: "dom (bt_list b) = dom (ob_nodes (bt_book b))" "dom (ob_nodes (bt_book b)) \<subseteq> {..<ob_next (bt_book b)}"
    using c by (simp_all add: containers_ok_def)
  show "finite (dom (bt_list b))" "card (dom (bt_list b)) = list_nodes (bt_book b)"
    using l finite_subset [OF l(2)] by (simp_all add: list_nodes_def)
  have "dom (bt_hash b) = set (map fst (ob_index (bt_book b)))" using D(6) by (intro set_eqI) (simp add: domIff map_of_eq_None_iff del: not_None_eq)
  then show "finite (dom (bt_hash b))" "card (dom (bt_hash b)) = hash_nodes (bt_book b)"
    using distinct_card [OF D(2)] by (simp_all add: hash_nodes_def)
  let ?keys = "\<lambda>s. set (map fst (ladder s (bt_book b)))"
  have t: "bt_tree b (s = Buy, p) = None \<longleftrightarrow> p \<notin> ?keys s" for s p using D(5) by (simp add: map_of_eq_None_iff)
  have dom: "dom (bt_tree b) = Pair True ` ?keys Buy \<union> Pair False ` ?keys Sell"
  proof (intro set_eqI)
    fix k :: "bool \<times> Price"
    obtain x p where k: "k = (x, p)" by (cases k)
    show "k \<in> dom (bt_tree b) \<longleftrightarrow> k \<in> Pair True ` ?keys Buy \<union> Pair False ` ?keys Sell"
      using t [of Buy p] t [of Sell p] by (cases x) (auto simp: k domIff simp del: set_map)
  qed
  have "card (?keys s) = length (ladder s (bt_book b))" for s
    using distinct_card [OF ladder_order.sorted_keys_distinct [OF D(1)], of s] by simp
  from this [of Buy] this [of Sell] have "card (Pair True ` ?keys Buy) = length (ob_bids (bt_book b))" "card (Pair False ` ?keys Sell) = length (ob_asks (bt_book b))"
    by (simp_all add: card_image inj_on_def ladder_def del: set_map)
  then show "finite (dom (bt_tree b))" "card (dom (bt_tree b)) = tree_nodes (bt_book b)"
    using card_Un_disjoint [of "Pair True ` ?keys Buy" "Pair False ` ?keys Sell"] by (auto simp: dom tree_nodes_def)
qed

text \<open>The nodes of the others: as many list nodes as hash nodes, and no more tree nodes.\<close>

definition frame_ok :: "'a frame \<Rightarrow> bool" where
  "frame_ok F \<longleftrightarrow> (\<forall>k. finite (fr_nodes F k)) \<and> card (fr_nodes F Hash_node) = card (fr_nodes F List_node) \<and>
     card (fr_nodes F Tree_node) \<le> card (fr_nodes F List_node)"

lemma live_nodes:
  assumes "book_mem ok used F b m" "book_ok (bt_book b)" "frame_ok F"
  defines "n \<equiv> resting_orders (bt_book b) + card (fr_nodes F List_node)"
  shows "card (used List_node m) = n" "card (used Hash_node m) = n" "card (used Tree_node m) \<le> n"
proof -
  note c = card_containers [OF book_memD(2) [OF assms(1)]]
  have own: "owned (bt_list b) (used List_node m) (fr_nodes F List_node)" "owned (bt_tree b) (used Tree_node m) (fr_nodes F Tree_node)"
     "owned (bt_hash b) (used Hash_node m) (fr_nodes F Hash_node)" and fin: "finite (fr_nodes F k)" for k
    using assms(1,3) by (simp_all add: book_mem_def frame_ok_def)
  show "card (used List_node m) = n" "card (used Hash_node m) = n" "card (used Tree_node m) \<le> n"
    using owned_card [OF own(1) c(1) fin] owned_card [OF own(2) c(5) fin] owned_card [OF own(3) c(3) fin]
      assms(3) list_nodes_eq [OF assms(2)] hash_nodes_eq [OF assms(2)] tree_nodes_le [OF assms(2)]
    by (simp_all add: c n_def frame_ok_def)
qed

text \<open>A book that holds an order holds nodes of every kind.\<close>

lemma orders_have_nodes:
  assumes mem: "book_mem ok used F b m" "book_ok (bt_book b)" and "resting_orders (bt_book b) \<noteq> 0"
  shows "\<exists>a. a \<in> used k m"
proof -
  obtain n ord where no: "(n, ord) \<in> set (book_pairs (bt_book b))"
    using assms(3) by (cases "book_pairs (bt_book b)") (auto simp: resting_orders_def book_orders_def)
  note D = containers_okD [OF book_memD(2) [OF mem(1)]]
  have own: "owned (bt_list b) (used List_node m) (fr_nodes F List_node)" "owned (bt_tree b) (used Tree_node m) (fr_nodes F Tree_node)"
     "owned (bt_hash b) (used Hash_node m) (fr_nodes F Hash_node)"
    using mem(1) by (simp_all add: book_mem_def)
  have "map_of (ladder (ro_side ord) (bt_book b)) (ro_price ord) \<noteq> None"
    using level_of_at(1) [OF no, of "ro_side ord" "ro_price ord"] book_okD(6) [OF mem(2)] by simp
  then obtain ta where ta: "bt_tree b (ro_side ord = Buy, ro_price ord) = Some ta" using D(5) by fastforce
  obtain la where la: "bt_list b n = Some la" using D(4) [of n] book_pairs_nodes [OF no] by fastforce
  have "hash_nodes (bt_book b) \<noteq> 0" using hash_nodes_eq [OF mem(2)] assms(3) by simp
  then obtain i where "map_of (ob_index (bt_book b)) i \<noteq> None" by (cases "ob_index (bt_book b)") (auto simp: hash_nodes_def intro: that)
  then obtain ha where ha: "bt_hash b i = Some ha" using D(6) [of i] by fastforce
  show ?thesis
    using owned_free(1) [OF own(1) la] owned_free(1) [OF own(2) ta] owned_free(1) [OF own(3) ha] by (cases k) auto
qed

subsection \<open>Applying messages\<close>

text \<open>The nodes a message takes and gives back.\<close>

definition added_nodes :: "Side \<Rightarrow> Price \<Rightarrow> OrderBook \<Rightarrow> nat" where
  "added_nodes side price b = (if map_of (ladder side b) price = None then 3 else 2)"

definition removed_nodes :: "OrderId \<Rightarrow> OrderBook \<Rightarrow> OrderBook \<Rightarrow> nat" where
  "removed_nodes i b b' =
     (case map_of (ob_index b) i of None \<Rightarrow> 0
      | Some loc \<Rightarrow> if has_order i b' then 0 else if map_of (ladder (loc_side loc) b') (loc_price loc) = None then 3 else 2)"

context counting_allocator
begin

abbreviation paid :: "nat \<Rightarrow> nat \<Rightarrow> 'p mem \<Rightarrow> 'p mem \<Rightarrow> bool" where
  "paid n d m m' \<equiv> (\<forall>k. ready k m \<longrightarrow> ready k m') \<and> ((\<forall>k. ready k m) \<longrightarrow> calls (of_nat n * cost) (of_nat d * cost) m m')"

lemma paid_trans: "paid n d m m1 \<Longrightarrow> paid n' d' m1 m2 \<Longrightarrow> paid (n + n') (d + d') m m2"
  using calls_trans [of "of_nat n * cost" "of_nat d * cost" m m1 "of_nat n' * cost" "of_nat d' * cost" m2] by (auto simp: algebra_simps)

text \<open>Inserting and removing, with the nodes that are paid for.\<close>

abbreviation inserts :: "'a frame \<Rightarrow> Side \<Rightarrow> Price \<Rightarrow> 'a BookT \<Rightarrow> 'p mem \<Rightarrow> 'a BookT \<times> 'p mem \<Rightarrow> bool" where
  "inserts F side price b m s \<equiv> case s of (b', m') \<Rightarrow> book_mem ok live F b' m' \<and> (\<forall>k. ready k m \<longrightarrow> ready k m') \<and>
     (length (ob_index (bt_book b)) < bt_buckets b \<longrightarrow> bt_buckets b' = bt_buckets b \<and> paid (added_nodes side price (bt_book b)) 0 m m')"

lemma insert_room:
  assumes mem: "book_mem ok live F b m" and E: "env_ok E" and new: "\<not> has_order (ro_order_id ord) (bt_book b)"
    and able: "\<And>k. unlimited E \<or> ready k m" and room: "\<And>k. card (live k m) < cap"
    and buckets: "unlimited E \<or> length (ob_index (bt_book b)) < bt_buckets b"
  obtains t s where "insert_resting_order_t E A ord (b, m) = Some (Inr t, s)"
    "inserts F (ro_side ord) (ro_price ord) b m s" "insert_resting_order ord (bt_book b) = (t, bt_book (fst s))"
proof -
  have [simp]: "(if c then cost else 0) + cost + cost = of_nat (if c then 3 else 2) * cost" for c
    by (simp add: algebra_simps)
  show thesis
    using that yields_ensures [OF insert_resting_order_mem [OF mem E new] insert_resting_order_room [OF book_memD(1) [OF mem] able room new buckets]]
    by (force simp: added_nodes_def)
qed

lemma remove_room:
  assumes mem: "book_mem ok live F b m" and run: "remove_resting_order i (bt_book b) = Some (d, ob')"
  obtains b' m' where "remove_resting_order_t A i (b, m) = Some (d, b', m')" "bt_book b' = ob'" "book_mem ok live F b' m'"
    "bt_buckets b' = bt_buckets b" "paid 0 (removed_nodes i (bt_book b) ob') m m'"
proof -
  have [simp]: "cost + (if c then cost else 0) + cost = of_nat (if c then 3 else 2) * cost" for c
    by (simp add: algebra_simps)
  obtain loc where loc: "map_of (ob_index (bt_book b)) i = Some loc" using run by (auto simp: remove_resting_order_def bind_eq_Some_conv)
  obtain b' m' where r: "remove_resting_order_t A i (b, m) = Some (d, b', m')" "bt_book b' = ob'" "book_mem ok live F b' m'"
    by (rule remove_resting_order_mem [OF mem run])
  have "\<not> has_order i ob'" using remove_resting_order_index [OF run] by (simp add: has_order_def AList.delete_conv)
  then show thesis
    using that [OF r] remove_resting_order_room [OF mem loc r(1)] r(2) loc by (simp add: removed_nodes_def)
qed

lemma apply_add_room:
  assumes mem: "book_mem ok live F b m" and E: "env_ok E" and new: "\<not> has_order (add_order_id msg) (bt_book b)"
    and able: "\<And>k. unlimited E \<or> ready k m" and room: "\<And>k. card (live k m) < cap"
    and buckets: "unlimited E \<or> length (ob_index (bt_book b)) < bt_buckets b"
  obtains out s where "apply_t E A (AddMsg msg) (b, m) = Some (Inr out, s)"
    "inserts F (add_side msg) (add_price msg) b m s" "apply_msg (AddMsg msg) (bt_book b) = Some (out, bt_book (fst s))"
proof -
  let ?ord = "\<lparr>ro_order_id = add_order_id msg, ro_side = add_side msg, ro_price = add_price msg, ro_quantity = add_quantity msg\<rparr>"
  have new': "\<not> has_order (ro_order_id ?ord) (bt_book b)" using new by simp
  obtain t s where ins: "insert_resting_order_t E A ?ord (b, m) = Some (Inr t, s)"
      "inserts F (ro_side ?ord) (ro_price ?ord) b m s" "insert_resting_order ?ord (bt_book b) = (t, bt_book (fst s))"
    by (rule insert_room [OF mem E new' able room buckets])
  obtain r where r: "ar_add (add_side msg) (add_price msg) t ar_init = Some r" using ar_add_total(1) by blast
  show thesis
    by (rule that [of "Inr r" s]) (use ins new r in \<open>simp_all add: apply_add_t_def apply_add_def\<close>)
qed

text \<open>\<open>Cancel\<close> and \<open>Execute\<close> never throw.\<close>

abbreviation removes :: "'a frame \<Rightarrow> OrderId \<Rightarrow> 'a BookT \<Rightarrow> 'p mem \<Rightarrow> 'a BookT \<times> 'p mem \<Rightarrow> bool" where
  "removes F i b m s \<equiv> case s of (b', m') \<Rightarrow> book_mem ok live F b' m' \<and> bt_buckets b' = bt_buckets b \<and>
     paid 0 (removed_nodes i (bt_book b) (bt_book b')) m m'"

lemma apply_cancel_room:
  assumes mem: "book_mem ok live F b m" and run: "apply_msg (CancelMsg msg) (bt_book b) = Some (out, ob')"
  obtains s where "apply_t E A (CancelMsg msg) (b, m) = Some (Inr out, s)" "bt_book (fst s) = ob'" "removes F (cxl_order_id msg) b m s"
proof (cases "has_order (cxl_order_id msg) (bt_book b)")
  case True
  then obtain d where rm: "remove_resting_order (cxl_order_id msg) (bt_book b) = Some (d, ob')"
    using run by (auto simp: apply_cancel_def bind_eq_Some_conv)
  obtain b' m' where r: "remove_resting_order_t A (cxl_order_id msg) (b, m) = Some (d, b', m')" "bt_book b' = ob'" "book_mem ok live F b' m'"
    "bt_buckets b' = bt_buckets b" "paid 0 (removed_nodes (cxl_order_id msg) (bt_book b) ob') m m'"
    by (rule remove_room [OF mem rm])
  show thesis
    by (rule that [of "(b', m')"]) (use run True rm r in \<open>auto simp: apply_cancel_t_def apply_cancel_def bind_eq_Some_conv\<close>)
next
  case False
  show thesis
    by (rule that [of "(b, m)"]) (use run False mem in \<open>auto simp: apply_cancel_t_def apply_cancel_def removed_nodes_def has_order_def\<close>)
qed

lemma apply_execute_room:
  assumes mem: "book_mem ok live F b m" and run: "apply_msg (ExecuteMsg msg) (bt_book b) = Some (out, ob')"
  obtains s where "apply_t E A (ExecuteMsg msg) (b, m) = Some (Inr out, s)" "bt_book (fst s) = ob'" "removes F (exe_order_id msg) b m s"
proof (cases "map_of (ob_index (bt_book b)) (exe_order_id msg)")
  case None
  show thesis
    by (rule that [of "(b, m)"]) (use run None mem in \<open>auto simp: apply_execute_t_def apply_execute_def removed_nodes_def\<close>)
next
  case (Some loc)
  then obtain ord where ord: "ob_nodes (bt_book b) (loc_it loc) = Some ord" using run by (auto simp: apply_execute_def bind_eq_Some_conv)
  show thesis
  proof (cases "ro_quantity ord < exe_executed_quantity msg")
    case True
    show thesis
      by (rule that [of "(b, m)"])
        (use run Some ord True mem in \<open>auto simp: apply_execute_t_def apply_execute_def removed_nodes_def has_order_def\<close>)
  next
    case False
    then obtain level where lvl: "map_of (ladder (loc_side loc) (bt_book b)) (loc_price loc) = Some level"
      using run Some ord by (auto simp: apply_execute_def level_for_def bind_eq_Some_conv)
    let ?l = "level\<lparr>lv_total_quantity := lv_total_quantity level - exe_executed_quantity msg\<rparr>"
    let ?ob = "(set_ladder (loc_side loc) (omap_insert (side_lt (loc_side loc)) (loc_price loc) ?l (ladder (loc_side loc) (bt_book b))) (bt_book b))
            \<lparr>ob_nodes := (ob_nodes (bt_book b))(loc_it loc \<mapsto> ord\<lparr>ro_quantity := ro_quantity ord - exe_executed_quantity msg\<rparr>)\<rparr>"
    have "containers_ok (b\<lparr>bt_book := ?ob\<rparr>)" using lvl ord by (intro containers_ok_touch [OF book_memD(2) [OF mem]]) simp_all
    then have mem': "book_mem ok live F (b\<lparr>bt_book := ?ob\<rparr>) m" using mem by (simp add: book_mem_def)
    note eval = apply_execute_t_def apply_execute_def level_for_def Some ord lvl False Let_def
    show thesis
    proof (cases "ro_quantity ord = exe_executed_quantity msg")
      case True
      then obtain d where rm: "remove_resting_order (exe_order_id msg) (bt_book (b\<lparr>bt_book := ?ob\<rparr>)) = Some (d, ob')"
        using run by (auto simp: eval bind_eq_Some_conv)
      obtain b' m' where r: "remove_resting_order_t A (exe_order_id msg) (b\<lparr>bt_book := ?ob\<rparr>, m) = Some (d, b', m')" "bt_book b' = ob'"
          "book_mem ok live F b' m'" "bt_buckets b' = bt_buckets (b\<lparr>bt_book := ?ob\<rparr>)" "paid 0 (removed_nodes (exe_order_id msg) (bt_book (b\<lparr>bt_book := ?ob\<rparr>)) ob') m m'"
        by (rule remove_room [OF mem' rm])
      show thesis
        by (rule that [of "(b', m')"]) (use run True rm r in \<open>auto simp: eval removed_nodes_def bind_eq_Some_conv\<close>)
    next
      case partial: False
      show thesis
        by (rule that [of "(b\<lparr>bt_book := ?ob\<rparr>, m)"])
          (use run partial mem' in \<open>auto simp: eval removed_nodes_def has_order_def bind_eq_Some_conv\<close>)
    qed
  qed
qed

text \<open>\<open>Replace\<close> gives its old nodes back first: it needs no room and the index does not grow.\<close>

lemma apply_replace_room:
  assumes mem: "book_mem ok live F b m" and E: "env_ok E" and ob: "book_ok (bt_book b)" and F: "frame_ok F"
    and able: "\<And>k. unlimited E \<or> ready k m" and room: "resting_orders (bt_book b) + card (fr_nodes F List_node) \<le> cap"
    and run: "apply_msg (ReplaceMsg msg) (bt_book b) = Some (out, ob')"
  obtains b' m' n d where "apply_t E A (ReplaceMsg msg) (b, m) = Some (Inr out, b', m')" "bt_book b' = ob'" "book_mem ok live F b' m'"
    "bt_buckets b' = bt_buckets b" "paid n d m m'"
proof (cases "map_of (ob_index (bt_book b)) (rep_old_order_id msg) = None \<or> has_order (rep_new_order_id msg) (bt_book b)")
  case True
  show thesis by (rule that [of b m 0 0]) (use run True mem in \<open>auto simp: apply_replace_t_def apply_replace_def split: option.splits\<close>)
next
  case False
  then obtain loc where loc: "map_of (ob_index (bt_book b)) (rep_old_order_id msg) = Some loc" by auto
  let ?ord = "\<lparr>ro_order_id = rep_new_order_id msg, ro_side = loc_side loc, ro_price = rep_price msg, ro_quantity = rep_quantity msg\<rparr>"
  obtain ord where found: "spec_find (rep_old_order_id msg) (book_orders (bt_book b)) = Some ord"
    using has_order_iff [OF ob, of "rep_old_order_id msg"] loc by (auto simp: has_order_def)
  obtain d ob1 where rm: "remove_resting_order (rep_old_order_id msg) (bt_book b) = Some (d, ob1)"
    using run loc False by (auto simp: apply_replace_def Let_def bind_eq_Some_conv)
  have ob1: "book_ok ob1" "book_orders ob1 = spec_remove (rep_old_order_id msg) (book_orders (bt_book b))"
    using remove_resting_order_ok [OF ob found] rm by auto
  have "length (book_orders ob1) < length (book_orders (bt_book b))"
    using spec_find_Some [OF found] unfolding ob1(2) spec_remove_def by (metis (mono_tags) length_filter_less)
  obtain b1 m1 where s1: "remove_resting_order_t A (rep_old_order_id msg) (b, m) = Some (d, b1, m1)" "bt_book b1 = ob1" "book_mem ok live F b1 m1"
      "bt_buckets b1 = bt_buckets b" "paid 0 (removed_nodes (rep_old_order_id msg) (bt_book b) ob1) m m1"
    by (rule remove_room [OF mem rm])
  have n: "card (live k m1) < cap" for k
    using live_nodes [OF s1(3) _ F] s1(2) ob1(1) room \<open>length _ < length _\<close> by (cases k) (auto simp: resting_orders_def)
  have len: "length (ob_index (bt_book b1)) < bt_buckets b1"
    using length_delete [of "ob_index (bt_book b)" "rep_old_order_id msg"] containers_okD(2,7) [OF book_memD(2) [OF mem]] loc
      remove_resting_order_index [OF rm] s1(2,4) by simp
  have able1: "unlimited E \<or> ready k m1" for k using able s1(5) by blast
  have new: "\<not> has_order (ro_order_id ?ord) (bt_book b1)"
    using False by (simp add: s1(2) has_order_def remove_resting_order_index [OF rm] AList.delete_conv)
  obtain t s where ins: "insert_resting_order_t E A ?ord (b1, m1) = Some (Inr t, s)"
      "inserts F (ro_side ?ord) (ro_price ?ord) b1 m1 s" "insert_resting_order ?ord (bt_book b1) = (t, bt_book (fst s))"
    by (rule insert_room [OF s1(3) E new able1 n disjI2 [OF len]])
  obtain b' m' where s: "s = (b', m')" by (cases s)
  have "apply_t E A (ReplaceMsg msg) (b, m) = Some (Inr out, b', m') \<and> bt_book b' = ob'"
    using run loc False rm s1(1,2) ins(1,3) s by (auto simp: apply_replace_t_def apply_replace_def Let_def bind_eq_Some_conv)
  moreover have "book_mem ok live F b' m'" "bt_buckets b' = bt_buckets b" using ins(2) len s s1(4) by simp_all
  moreover have "paid (0 + added_nodes (ro_side ?ord) (ro_price ?ord) (bt_book b1)) (removed_nodes (rep_old_order_id msg) (bt_book b) ob1 + 0) m m'"
    by (rule paid_trans [OF s1(5)]) (use ins(2) len s in simp)
  ultimately show thesis using that by blast
qed

text \<open>
  With room for one more order in every pool no message throws, and at capacity only a new order does.  While the index has a free bucket
  the number of calls of the heap is a multiple of the price of a node.
\<close>

lemma apply_t_room:
  assumes mem: "book_mem ok live F b m" and E: "env_ok E" and ob: "book_ok (bt_book b)" and F: "frame_ok F"
    and able: "\<And>k. unlimited E \<or> ready k m" and buckets: "unlimited E \<or> length (ob_index (bt_book b)) < bt_buckets b"
    and room: "resting_orders (bt_book b) + card (fr_nodes F List_node) < cap \<or>
      resting_orders (bt_book b) + card (fr_nodes F List_node) = cap \<and> (\<forall>a. msg = AddMsg a \<longrightarrow> has_order (add_order_id a) (bt_book b))"
  obtains out b' m' where "apply_t E A msg (b, m) = Some (Inr out, b', m')" "apply_msg msg (bt_book b) = Some (out, bt_book b')"
    "book_mem ok live F b' m'" "\<forall>k. ready k m \<longrightarrow> ready k m'"
    "length (ob_index (bt_book b)) < bt_buckets b \<longrightarrow> bt_buckets b' = bt_buckets b \<and> (\<exists>n d. paid n d m m')"
proof -
  obtain out ob' where run: "apply_msg msg (bt_book b) = Some (out, ob')" using book_stepE [OF ob] by metis
  show thesis
  proof (cases msg)
    case (AddMsg a)
    show thesis
    proof (cases "has_order (add_order_id a) (bt_book b)")
      case True
      have "\<exists>n d. paid n d m m" by (intro exI [of _ 0]) simp
      then show thesis by (intro that [of out b m]) (use run True AddMsg mem in \<open>simp_all add: apply_add_t_def apply_add_def\<close>)
    next
      case False
      have n: "card (live k m) < cap" for k
        using live_nodes [OF mem ob F] room False AddMsg by (cases k) auto
      obtain out s where r: "apply_t E A (AddMsg a) (b, m) = Some (Inr out, s)"
          "inserts F (add_side a) (add_price a) b m s" "apply_msg (AddMsg a) (bt_book b) = Some (out, bt_book (fst s))"
        by (rule apply_add_room [OF mem E False able n buckets])
      obtain b' m' where s: "s = (b', m')" by (cases s)
      note r = r [unfolded s prod.case fst_conv]
      show thesis using that [unfolded AddMsg, OF r(1,3)] r(2) by blast
    qed
  next
    case (CancelMsg c)
    obtain s where r: "apply_t E A (CancelMsg c) (b, m) = Some (Inr out, s)" "bt_book (fst s) = ob'" "removes F (cxl_order_id c) b m s"
      by (rule apply_cancel_room [OF mem run [unfolded CancelMsg]])
    obtain b' m' where s: "s = (b', m')" by (cases s)
    note r = r [unfolded s prod.case fst_conv]
    show thesis using that [unfolded CancelMsg, OF r(1)] r(2,3) run [unfolded CancelMsg] by blast
  next
    case (ExecuteMsg c)
    obtain s where r: "apply_t E A (ExecuteMsg c) (b, m) = Some (Inr out, s)" "bt_book (fst s) = ob'" "removes F (exe_order_id c) b m s"
      by (rule apply_execute_room [OF mem run [unfolded ExecuteMsg]])
    obtain b' m' where s: "s = (b', m')" by (cases s)
    note r = r [unfolded s prod.case fst_conv]
    show thesis using that [unfolded ExecuteMsg, OF r(1)] r(2,3) run [unfolded ExecuteMsg] by blast
  next
    case (ReplaceMsg c)
    have n: "resting_orders (bt_book b) + card (fr_nodes F List_node) \<le> cap" using room by auto
    obtain b' m' n d where r: "apply_t E A (ReplaceMsg c) (b, m) = Some (Inr out, b', m')" "bt_book b' = ob'" "book_mem ok live F b' m'"
        "bt_buckets b' = bt_buckets b" "paid n d m m'"
      by (rule apply_replace_room [OF mem E ob F able n run [unfolded ReplaceMsg]])
    show thesis using that [unfolded ReplaceMsg, OF r(1)] r(2-5) run [unfolded ReplaceMsg] by blast
  qed
qed

end

subsection \<open>Exhausted pools\<close>

lemma pool_allocate_error:
  assumes "pool_mem_ok cap index m" "no_allocate (pool_allocator E ndebug cap index) k m = (Inl e, m')"
  shows "e = Bad_alloc"
proof -
  have ps: "pools_ok cap (mem_pools m k)" "index < kMaxPoolShards" and h: "heap_ok (mem_heap m)" using assms(1) by (simp_all add: pool_mem_ok_def)
  obtain r m1 where en: "ensure_pool E index k m = (r, m1)" by fastforce
  show ?thesis
  proof (cases r)
    case (Inl e')
    then show ?thesis
      using assms(2) en by (auto simp: pool_allocator_def pool_node_allocate_def ensure_pool_def operator_new_def Let_def split: if_splits)
  next
    case (Inr u)
    then show ?thesis
      using assms(2) en ensure_pool_effect(2) [OF h en] by (cases rule: allocate_ok [OF ps]) (auto simp: pool_allocator_def pool_node_allocate_def)
  qed
qed

lemma pool_full:
  assumes ok: "pool_mem_ok cap index m" and full: "card (pool_nodes cap index k m) = cap"
  shows "\<exists>m'. no_allocate (pool_allocator E ndebug cap index) k m = (Inl Bad_alloc, m')"
proof -
  have ps: "pools_ok cap (mem_pools m k)" "index < kMaxPoolShards" using ok by (simp_all add: pool_mem_ok_def)
  have "0 < cap" using ps by (simp add: pools_ok_def)
  then obtain a where "a \<in> pool_nodes cap index k m" using full by (metis card.empty equals0I less_irrefl)
  then have en: "ensure_pool E index k m = (Inr (), m)"
    using live_pool_ready by (intro ensure_pool_present) (auto simp: pool_ready_def)
  have sub: "pool_nodes cap index k m \<subseteq> blocks index cap" by (auto simp: pool_nodes_def live_blocks_def split: option.splits)
  have all: "live_blocks cap index (mem_pools m k) = blocks index cap"
    using card_subset_eq [OF finite_blocks(1) sub] full finite_blocks(2) by (simp add: pool_nodes_def)
  show ?thesis
    using en all by (cases rule: allocate_ok [OF ps]) (auto simp: pool_allocator_def pool_node_allocate_def)
qed

text \<open>A new order for which the list nodes are used up: the exception comes from the level's node or from the order's.\<close>

lemma add_exhausted:
  assumes mem: "book_mem (pool_mem_ok cap index) (pool_nodes cap index) F b m"
    and full: "card (pool_nodes cap index List_node m) = cap" and new: "\<not> has_order (add_order_id msg) (bt_book b)"
  shows "\<exists>s. apply_t E (pool_allocator E ndebug cap index) (AddMsg msg) (b, m) = Some (Inl Bad_alloc, s)"
proof -
  let ?A = "pool_allocator E ndebug cap index"
  let ?ord = "\<lparr>ro_order_id = add_order_id msg, ro_side = add_side msg, ro_price = add_price msg, ro_quantity = add_quantity msg\<rparr>"
  note ok = book_memD(1) [OF mem]
  have 1: "yields (level_subscript ?A (add_side msg) (add_price msg) (b, m))
    (\<lambda>_ (b', m'). pool_mem_ok cap index m' \<and> card (pool_nodes cap index List_node m') = cap \<and>
       map_of (ladder (add_side msg) (bt_book b')) (add_price msg) \<noteq> None) (\<lambda>e _. e = Bad_alloc)"
  proof (cases "map_of (ladder (add_side msg) (bt_book b)) (add_price msg)")
    case None
    obtain r m' where al: "no_allocate ?A Tree_node m = (r, m')" by fastforce
    have "sorted_wrt (side_lt (add_side msg)) (map fst (ladder (add_side msg) (bt_book b)))"
      by (rule containers_okD(1) [OF book_memD(2) [OF mem]])
    note ins = ladder_order.map_of_omap_insert [OF this]
    show ?thesis
    proof (cases r)
      case (Inl e)
      then show ?thesis using None al pool_allocate_error [OF ok al [unfolded Inl]] by (simp add: level_subscript_def)
    next
      case (Inr a)
      then show ?thesis using None al pool_allocs.allocate_fresh [OF ok al [unfolded Inr]] full ins by (simp add: level_subscript_def)
    qed
  qed (use ok full in \<open>simp add: level_subscript_def\<close>)
  have "yields (insert_resting_order_t E ?A ?ord (b, m)) (\<lambda>_ _. False) (\<lambda>e _. e = Bad_alloc)"
    unfolding insert_resting_order_t_def
  proof (rule yields_and_then, use 1 in simp, goal_cases)
    case (1 u s)
    obtain b1 m1 where s: "s = (b1, m1)" by (cases s)
    obtain l where l: "map_of (ladder (add_side msg) (bt_book b1)) (add_price msg) = Some l" using 1 s by auto
    obtain m2 where "no_allocate ?A List_node m1 = (Inl Bad_alloc, m2)" using pool_full [of cap index m1] 1 s by fastforce
    then show ?case using l by (simp add: s level_push_back_def)
  qed
  then show ?thesis
    using new by (auto simp: apply_add_t_def yields_def split: option.splits prod.splits sum.splits)
qed

text \<open>An implementation whose heap never runs out.\<close>

definition demo_env :: env where
  "demo_env = \<lparr>en_malloc = (\<lambda>_ _. True), en_node_size = (\<lambda>_. 64), en_pool_size = (\<lambda>_. 128), en_buckets = (\<lambda>_ n. n)\<rparr>"

lemma demo_env_ok: "env_ok demo_env" "unlimited demo_env" "heap_ok heap_init"
  by (simp_all add: env_ok_def unlimited_def demo_env_def heap_ok_def heap_init_def)

end
