(* ===== verification/Shard_Memory.thy ===== *)
theory Shard_Memory
  imports Book_Budget
begin

text \<open>
  The order books of one shard share the pools of that shard: \<open>s.books[symbol]\<close> and \<open>book.apply(m)\<close> in \<open>ShardedPipeline::process_shard\<close> on books with memory.
  The storage of the map \<open>books\<close> itself comes from the heap and is left out here.  The books stay apart from each
  other, and a message fails exactly when it brings a new order to a shard that already holds as many as a pool has nodes.
\<close>

subsection \<open>Model\<close>

type_synonym 'a books = "(Symbol \<times> 'a BookT) list"

definition books_subscript :: "env \<Rightarrow> Symbol \<Rightarrow> 'a books \<times> 'p mem \<Rightarrow> ('a BookT, 'a books \<times> 'p mem) throwing" where
  "books_subscript E symbol s =
     (let (bs, m) = s
      in case map_of bs symbol of
           Some b \<Rightarrow> Some (Inr b, bs, m)
         | None \<Rightarrow>
             (case order_book_t E m of
                (Inl e, m) \<Rightarrow> Some (Inl e, bs, m)
              | (Inr b, m) \<Rightarrow> Some (Inr b, AList.update symbol b bs, m)))"

definition shard_apply :: "env \<Rightarrow> ('p, 'a) node_ops \<Rightarrow> Symbol \<Rightarrow> DecodedMessage \<Rightarrow> 'a books \<times> 'p mem \<Rightarrow>
    (ApplyError + ApplyResult, 'a books \<times> 'p mem) throwing" where
  "shard_apply E A symbol msg s =
     and_then (books_subscript E symbol s) (\<lambda>b (bs, m).
       map_option (\<lambda>(r, b, m). (r, AList.update symbol b bs, m)) (apply_t E A msg (b, m)))"

fun shard_run :: "env \<Rightarrow> ('p, 'a) node_ops \<Rightarrow> (Symbol \<times> DecodedMessage) list \<Rightarrow> 'a books \<times> 'p mem \<Rightarrow>
    ((ApplyError + ApplyResult) list, 'a books \<times> 'p mem) throwing" where
  "shard_run E A [] s = Some (Inr [], s)"
| "shard_run E A ((symbol, msg) # ms) s =
     and_then (shard_apply E A symbol msg s) (\<lambda>r s.
     and_then (shard_run E A ms s) (\<lambda>rs s. Some (Inr (r # rs), s)))"

text \<open>The same on the books of \<open>Order_Book\<close>, as in \<open>process_message\<close>.\<close>

definition shard_spec :: "Symbol \<Rightarrow> DecodedMessage \<Rightarrow> (Symbol \<Rightarrow> OrderBook) \<Rightarrow> ((ApplyError + ApplyResult) \<times> (Symbol \<Rightarrow> OrderBook)) option" where
  "shard_spec symbol msg B = map_option (\<lambda>(r, b). (r, B(symbol := b))) (apply_msg msg (B symbol))"

fun shard_spec_run :: "(Symbol \<times> DecodedMessage) list \<Rightarrow> (Symbol \<Rightarrow> OrderBook) \<Rightarrow> ((ApplyError + ApplyResult) list \<times> (Symbol \<Rightarrow> OrderBook)) option" where
  "shard_spec_run [] B = Some ([], B)"
| "shard_spec_run ((symbol, msg) # ms) B = do {
     (r, B) \<leftarrow> shard_spec symbol msg B;
     (rs, B) \<leftarrow> shard_spec_run ms B;
     Some (r # rs, B) }"

definition books_at :: "'a books \<Rightarrow> Symbol \<Rightarrow> OrderBook" where
  "books_at bs symbol = (case map_of bs symbol of None \<Rightarrow> order_book_init | Some b \<Rightarrow> bt_book b)"

lemma books_at_update: "books_at (AList.update t b bs) = (books_at bs)(t := bt_book b)"
  by (auto simp: books_at_def update_conv fun_eq_iff)

subsection \<open>The books stay apart\<close>

definition owns :: "node_kind \<Rightarrow> 'a BookT \<Rightarrow> 'a set" where
  "owns k b = (case k of List_node \<Rightarrow> ran (bt_list b) | Tree_node \<Rightarrow> ran (bt_tree b) | Hash_node \<Rightarrow> ran (bt_hash b))"

definition addresses_ok :: "'a BookT \<Rightarrow> bool" where
  "addresses_ok b \<longleftrightarrow> inj_on (bt_list b) (dom (bt_list b)) \<and> inj_on (bt_tree b) (dom (bt_tree b)) \<and> inj_on (bt_hash b) (dom (bt_hash b))"

definition others :: "nat set \<Rightarrow> Symbol \<Rightarrow> 'a books \<Rightarrow> 'a frame" where
  "others A0 t bs = \<lparr>fr_nodes = (\<lambda>k. {a. \<exists>t' b. map_of bs t' = Some b \<and> t' \<noteq> t \<and> a \<in> owns k b}),
     fr_arrays = A0 \<union> {bt_array b |t' b. map_of bs t' = Some b \<and> t' \<noteq> t}\<rparr>"

definition shard_mem :: "('p mem \<Rightarrow> bool) \<Rightarrow> (node_kind \<Rightarrow> 'p mem \<Rightarrow> 'a set) \<Rightarrow> nat set \<Rightarrow> 'a books \<Rightarrow> 'p mem \<Rightarrow> bool" where
  "shard_mem ok used A0 bs m \<longleftrightarrow> ok m \<and> distinct (map fst bs) \<and>
     (\<forall>t b. map_of bs t = Some b \<longrightarrow> containers_ok b \<and> book_ok (bt_book b) \<and> addresses_ok b) \<and>
     (\<forall>k. used k m = {a. \<exists>t b. map_of bs t = Some b \<and> a \<in> owns k b}) \<and>
     (\<forall>k t b t' b' a. map_of bs t = Some b \<longrightarrow> map_of bs t' = Some b' \<longrightarrow> a \<in> owns k b \<longrightarrow> a \<in> owns k b' \<longrightarrow> t = t') \<and>
     objects Array_object (mem_heap m) = A0 \<union> {bt_array b |t b. map_of bs t = Some b} \<and>
     (\<forall>t b t' b'. map_of bs t = Some b \<longrightarrow> map_of bs t' = Some b' \<longrightarrow> bt_array b = bt_array b' \<longrightarrow> t = t') \<and>
     (\<forall>t b. map_of bs t = Some b \<longrightarrow> bt_array b \<notin> A0)"

lemma shard_memD:
  assumes "shard_mem ok used A0 bs m"
  shows "ok m" "distinct (map fst bs)" "used k m = {a. \<exists>t b. map_of bs t = Some b \<and> a \<in> owns k b}"
    "objects Array_object (mem_heap m) = A0 \<union> {bt_array b |t b. map_of bs t = Some b}"
  using assms unfolding shard_mem_def by - ((elim conjE, assumption) | (elim conjE, erule spec))+

lemma book_mem_owns:
  "book_mem ok used F b m \<longleftrightarrow> ok m \<and> containers_ok b \<and> addresses_ok b \<and>
     (\<forall>k. used k m = owns k b \<union> fr_nodes F k \<and> owns k b \<inter> fr_nodes F k = {}) \<and>
     objects Array_object (mem_heap m) = insert (bt_array b) (fr_arrays F) \<and> bt_array b \<notin> fr_arrays F"
proof -
  have all: "(\<forall>k. P k) \<longleftrightarrow> P List_node \<and> P Tree_node \<and> P Hash_node" for P by (metis node_kind.exhaust)
  show ?thesis unfolding all book_mem_def owned_def owns_def addresses_ok_def by auto
qed

lemma shard_mem_book:
  assumes "shard_mem ok used A0 bs m" "map_of bs t = Some b"
  shows "book_mem ok used (others A0 t bs) b m" "book_ok (bt_book b)"
proof -
  show "book_ok (bt_book b)" using assms by (auto simp: shard_mem_def)
  have s: "ok m" "containers_ok b" "addresses_ok b" "\<And>k. used k m = {a. \<exists>t b. map_of bs t = Some b \<and> a \<in> owns k b}"
    "\<And>k t b t' b' a. map_of bs t = Some b \<Longrightarrow> map_of bs t' = Some b' \<Longrightarrow> a \<in> owns k b \<Longrightarrow> a \<in> owns k b' \<Longrightarrow> t = t'"
    "objects Array_object (mem_heap m) = A0 \<union> {bt_array b |t b. map_of bs t = Some b}"
    "\<And>t b t' b'. map_of bs t = Some b \<Longrightarrow> map_of bs t' = Some b' \<Longrightarrow> bt_array b = bt_array b' \<Longrightarrow> t = t'"
    "\<And>t b. map_of bs t = Some b \<Longrightarrow> bt_array b \<notin> A0"
    using assms unfolding shard_mem_def by blast+
  have "used k m = owns k b \<union> fr_nodes (others A0 t bs) k" for k
  proof (rule set_eqI)
    fix a
    show "a \<in> used k m \<longleftrightarrow> a \<in> owns k b \<union> fr_nodes (others A0 t bs) k"
      using assms(2) by (simp add: s(4) others_def) (metis option.inject)
  qed
  moreover have "owns k b \<inter> fr_nodes (others A0 t bs) k = {}" for k
    using assms(2) s(5) by (fastforce simp: others_def)
  moreover have "objects Array_object (mem_heap m) = insert (bt_array b) (fr_arrays (others A0 t bs))"
  proof (rule set_eqI)
    fix a
    show "a \<in> objects Array_object (mem_heap m) \<longleftrightarrow> a \<in> insert (bt_array b) (fr_arrays (others A0 t bs))"
      using assms(2) by (simp add: s(6) others_def) (metis option.inject)
  qed
  moreover have "bt_array b \<notin> fr_arrays (others A0 t bs)"
    using assms(2) s(7,8) by (fastforce simp: others_def)
  ultimately show "book_mem ok used (others A0 t bs) b m" using s(1-3) by (simp add: book_mem_owns)
qed

lemma shard_mem_update:
  assumes s: "shard_mem ok used A0 bs m" and b: "book_mem ok used (others A0 t bs) b' m'" "book_ok (bt_book b')"
  shows "shard_mem ok used A0 (AList.update t b' bs) m'"
proof -
  have f: "book_ok (bt_book b')" "ok m'" "containers_ok b'" "addresses_ok b'" "\<And>k. used k m' = owns k b' \<union> fr_nodes (others A0 t bs) k"
    "\<And>k. owns k b' \<inter> fr_nodes (others A0 t bs) k = {}" "objects Array_object (mem_heap m') = insert (bt_array b') (fr_arrays (others A0 t bs))"
    "bt_array b' \<notin> fr_arrays (others A0 t bs)"
    using b unfolding book_mem_owns by blast+
  have g: "distinct (map fst bs)" "\<And>t b. map_of bs t = Some b \<Longrightarrow> containers_ok b \<and> book_ok (bt_book b) \<and> addresses_ok b \<and> bt_array b \<notin> A0"
    "\<And>k t b t' b' a. map_of bs t = Some b \<Longrightarrow> map_of bs t' = Some b' \<Longrightarrow> a \<in> owns k b \<Longrightarrow> a \<in> owns k b' \<Longrightarrow> t = t'"
    "\<And>t b t' b'. map_of bs t = Some b \<Longrightarrow> map_of bs t' = Some b' \<Longrightarrow> bt_array b = bt_array b' \<Longrightarrow> t = t'"
    using s unfolding shard_mem_def by blast+
  have dis: "a \<notin> owns k b'" if "map_of bs t' = Some c" "t' \<noteq> t" "a \<in> owns k c" for t' c k a
    using f(6) [of k] that by (auto simp: others_def)
  have arr: "bt_array c \<noteq> bt_array b'" if "map_of bs t' = Some c" "t' \<noteq> t" for t' c
    using f(8) that by (auto simp: others_def)
  have A0: "bt_array b' \<notin> A0" using f(8) by (simp add: others_def)
  let ?M = "map_of (AList.update t b' bs)"
  have M: "?M t' = Some c \<longleftrightarrow> (if t' = t then c = b' else map_of bs t' = Some c)" for t' c by (auto simp: update_conv)
  have u1: "used k m' = {a. \<exists>t b. ?M t = Some b \<and> a \<in> owns k b}" for k unfolding f(5) M by (auto simp: others_def)
  have u2: "t1 = t2" if "?M t1 = Some c1" "?M t2 = Some c2" "a \<in> owns k c1" "a \<in> owns k c2" for k t1 c1 t2 c2 a
    using that g(3) [of t1 c1 t2 c2 a k] dis [of t1 c1 a k] dis [of t2 c2 a k] by (auto simp: M split: if_splits)
  have u3: "objects Array_object (mem_heap m') = A0 \<union> {bt_array b |t b. ?M t = Some b}" unfolding f(7) M by (auto simp: others_def)
  have u4: "t1 = t2" if "?M t1 = Some c1" "?M t2 = Some c2" "bt_array c1 = bt_array c2" for t1 c1 t2 c2
    using that g(4) [of t1 c1 t2 c2] arr [of t1 c1] arr [of t2 c2] by (auto simp: M split: if_splits)
  have u5: "containers_ok c \<and> book_ok (bt_book c) \<and> addresses_ok c \<and> bt_array c \<notin> A0" if "?M t' = Some c" for t' c
    using that f(1-4) g(2) A0 by (auto simp: M split: if_splits)
  show ?thesis unfolding shard_mem_def
    by (intro conjI allI impI; (rule f(2) distinct_update [OF g(1)] u1 u3 | (rule u2, assumption, assumption, assumption, assumption) | (rule u4, assumption, assumption, assumption) | (drule u5, blast)))
qed

text \<open>Nothing is in use and no book exists: the start of a shard.\<close>

lemma shard_mem_init:
  "ok m \<Longrightarrow> (\<And>k. used k m = {}) \<Longrightarrow> shard_mem ok used (objects Array_object (mem_heap m)) [] m"
  by (simp add: shard_mem_def)

subsection \<open>The step of a shard\<close>

context node_allocator
begin

lemma books_subscript_mem:
  assumes s: "shard_mem ok live A0 bs m" and E: "env_ok E"
  shows "yields (books_subscript E t (bs, m))
    (\<lambda>b (bs', m'). shard_mem ok live A0 bs' m' \<and> map_of bs' t = Some b \<and> books_at bs' = books_at bs) (\<lambda>_ (bs', m'). shard_mem ok live A0 bs' m' \<and> bs' = bs)"
proof (cases "map_of bs t")
  case (Some b)
  then show ?thesis using s by (simp add: books_subscript_def)
next
  case None
  have m: "ok m" using s by (simp add: shard_mem_def)
  have F: "others A0 t bs = \<lparr>fr_nodes = (\<lambda>k. live k m), fr_arrays = objects Array_object (mem_heap m)\<rparr>"
  proof -
    have "{a. \<exists>t' b. map_of bs t' = Some b \<and> t' \<noteq> t \<and> a \<in> owns k b} = {a. \<exists>t b. map_of bs t = Some b \<and> a \<in> owns k b}" for k
      by (intro Collect_cong ex_cong1) (use None in auto)
    moreover have "{bt_array b |t' b. map_of bs t' = Some b \<and> t' \<noteq> t} = {bt_array b |t b. map_of bs t = Some b}"
      by (intro Collect_cong ex_cong1) (use None in auto)
    ultimately show ?thesis unfolding others_def shard_memD(3,4) [OF s] by simp
  qed
  obtain r :: "pool_error + 'a BookT" and m' where c: "order_book_t E m = (r, m')" by fastforce
  show ?thesis
  proof (cases r)
    case (Inl e)
    obtain x m1 where nb: "new_buckets E 1 kExpectedRestingOrdersPerSymbol m = (x, m1)" by fastforce
    then have x: "x = Inl e" "m' = m1" using c Inl by (auto simp: order_book_t_def split: sum.splits prod.splits)
    have "shard_mem ok live A0 bs m'"
      using s new_buckets_mem [OF m nb] x by (simp add: shard_mem_def)
    then show ?thesis using None c Inl by (simp add: books_subscript_def)
  next
    case (Inr b)
    note new = order_book_t_mem [OF m E c [unfolded Inr]]
    have "shard_mem ok live A0 (AList.update t b bs) m'"
      by (rule shard_mem_update [OF s]) (use new book_ok_init in \<open>simp_all add: F\<close>)
    moreover have "books_at (AList.update t b bs) = books_at bs"
      using None new(1) by (auto simp: books_at_update books_at_def fun_eq_iff)
    ultimately show ?thesis using None c Inr by (simp add: books_subscript_def update_conv)
  qed
qed

lemma shard_apply_mem:
  assumes s: "shard_mem ok live A0 bs m" and E: "env_ok E"
  shows "yields (shard_apply E A t msg (bs, m))
    (\<lambda>r (bs', m'). shard_mem ok live A0 bs' m' \<and> shard_spec t msg (books_at bs) = Some (r, books_at bs'))
    (\<lambda>_ _. True)"
proof -
  have sub: "yields (books_subscript E t (bs, m))
    (\<lambda>b (bs', m'). shard_mem ok live A0 bs' m' \<and> map_of bs' t = Some b \<and> books_at bs' = books_at bs) (\<lambda>_ _. True)"
    by (rule yields_mono [OF books_subscript_mem [OF s E]]) auto
  show ?thesis unfolding shard_apply_def
  proof (rule yields_and_then [OF sub], goal_cases)
    case (1 b s1)
    obtain bs1 m1 where s1: "s1 = (bs1, m1)" "shard_mem ok live A0 bs1 m1" "map_of bs1 t = Some b" "books_at bs1 = books_at bs"
      using 1 by (cases s1) auto
    note b = shard_mem_book [OF s1(2,3)]
    have at: "books_at bs t = bt_book b" using s1(3,4) by (metis books_at_def option.simps(5))
    have ok: "book_ok b'" if "apply_msg msg (bt_book b) = Some (r, b')" for r b'
      using that by (metis book_stepE [OF b(2)] option.inject prod.inject)
    from apply_t_mem [OF b(1) E b(2), of msg] show ?case
      unfolding s1(1)
      by (auto simp: yields_def shard_spec_def at books_at_update s1(4)
          intro!: shard_mem_update [OF s1(2)] ok split: option.splits sum.splits prod.splits)
  qed
qed

end

subsection \<open>Counting the nodes of a shard\<close>

definition resting_total :: "'a books \<Rightarrow> nat" where
  "resting_total bs = (\<Sum>(t, b) \<leftarrow> bs. resting_orders (bt_book b))"

lemma card_disjoint_union:
  assumes "distinct (map fst bs)" "\<And>t b t' b' a. (t, b) \<in> set bs \<Longrightarrow> (t', b') \<in> set bs \<Longrightarrow> a \<in> g b \<Longrightarrow> a \<in> g b' \<Longrightarrow> t = t'"
    "\<And>t b. (t, b) \<in> set bs \<Longrightarrow> finite (g b)"
  shows "finite {a. \<exists>t b. (t, b) \<in> set bs \<and> a \<in> g b} \<and> card {a. \<exists>t b. (t, b) \<in> set bs \<and> a \<in> g b} = (\<Sum>(t, b) \<leftarrow> bs. card (g b))"
  using assms
proof (induction bs)
  case (Cons tb bs)
  obtain t b where tb: "tb = (t, b)" by (cases tb)
  let ?U = "{a. \<exists>t b. (t, b) \<in> set bs \<and> a \<in> g b}"
  have "finite ?U \<and> card ?U = (\<Sum>(t, b) \<leftarrow> bs. card (g b))"
    by (rule Cons.IH) (use Cons.prems in \<open>simp, (meson list.set_intros(2))+\<close>)
  moreover have "g b \<inter> ?U = {}"
  proof -
    have "t = t'" if "(t', b') \<in> set bs" "a \<in> g b" "a \<in> g b'" for t' b' a using Cons.prems(2) [of t b t' b' a] that tb by simp
    then show ?thesis using Cons.prems(1) tb by force
  qed
  moreover have "{a. \<exists>t b. (t, b) \<in> set (tb # bs) \<and> a \<in> g b} = g b \<union> ?U" using tb by auto
  moreover have "finite (g b)" using Cons.prems(3) [of t b] tb by simp
  ultimately show ?case using tb by (simp add: card_Un_disjoint)
qed simp

lemma sum_list_split:
  "distinct (map fst bs) \<Longrightarrow> (t, b) \<in> set bs \<Longrightarrow>
     (\<Sum>(t, b) \<leftarrow> bs. f b) = f b + (\<Sum>(t, b) \<leftarrow> filter (\<lambda>x. fst x \<noteq> t) bs. f b)" for f :: "'b \<Rightarrow> nat"
proof (induction bs)
  case (Cons tb bs)
  show ?case
  proof (cases "tb = (t, b)")
    case True
    then have "filter (\<lambda>x. fst x \<noteq> t) bs = bs" using Cons.prems by (auto simp: filter_id_conv image_iff)
    then show ?thesis using True by simp
  next
    case False
    then have "fst tb \<noteq> t" using Cons.prems by (cases tb) force
    then show ?thesis using Cons False by auto
  qed
qed simp

lemma card_owns:
  assumes "containers_ok b" "addresses_ok b"
  shows "finite (owns k b)" "card (owns List_node b) = list_nodes (bt_book b)" "card (owns Hash_node b) = hash_nodes (bt_book b)"
    "card (owns Tree_node b) = tree_nodes (bt_book b)"
proof -
  note c = card_containers [OF assms(1)]
  show "finite (owns k b)" using c by (cases k) (simp_all add: owns_def finite_ran)
  have own: "owned (bt_list b) (ran (bt_list b)) {}" "owned (bt_tree b) (ran (bt_tree b)) {}" "owned (bt_hash b) (ran (bt_hash b)) {}"
    using assms(2) by (simp_all add: addresses_ok_def owned_def)
  show "card (owns List_node b) = list_nodes (bt_book b)" "card (owns Hash_node b) = hash_nodes (bt_book b)"
    "card (owns Tree_node b) = tree_nodes (bt_book b)"
    using owned_card [OF own(1) c(1)] owned_card [OF own(2) c(5)] owned_card [OF own(3) c(3)] c by (simp_all add: owns_def)
qed

lemma shard_frame:
  assumes s: "shard_mem ok used A0 bs m" and b: "map_of bs t = Some b"
  shows "frame_ok (others A0 t bs)" "resting_orders (bt_book b) + card (fr_nodes (others A0 t bs) List_node) = resting_total bs"
proof -
  let ?bs = "filter (\<lambda>x. fst x \<noteq> t) bs"
  note d = shard_memD(2) [OF s]
  have mem: "map_of bs t = Some b \<longleftrightarrow> (t, b) \<in> set bs" for t b using d by simp
  have good: "containers_ok c \<and> book_ok (bt_book c) \<and> addresses_ok c" if "(t', c) \<in> set bs" for t' c
    using s that unfolding shard_mem_def mem by blast
  have nodes: "fr_nodes (others A0 t bs) k = {a. \<exists>t' c. (t', c) \<in> set ?bs \<and> a \<in> owns k c}" for k
    unfolding others_def mem by auto
  have cards: "finite (fr_nodes (others A0 t bs) k) \<and> card (fr_nodes (others A0 t bs) k) = (\<Sum>(t, c) \<leftarrow> ?bs. card (owns k c))" for k
    unfolding nodes
  proof (rule card_disjoint_union)
    show "distinct (map fst ?bs)" using d by (simp add: distinct_map_filter)
    show "t1 = t2" if "(t1, b1) \<in> set ?bs" "(t2, b2) \<in> set ?bs" "a \<in> owns k b1" "a \<in> owns k b2" for t1 b1 t2 b2 a
      using s that unfolding shard_mem_def mem by auto
    show "finite (owns k c)" if "(t', c) \<in> set ?bs" for t' c using that good card_owns(1) by auto
  qed
  have eq: "(\<Sum>(t, c) \<leftarrow> ?bs. card (owns List_node c)) = (\<Sum>(t, c) \<leftarrow> ?bs. resting_orders (bt_book c))"
    "(\<Sum>(t, c) \<leftarrow> ?bs. card (owns Hash_node c)) = (\<Sum>(t, c) \<leftarrow> ?bs. resting_orders (bt_book c))"
    by (rule arg_cong [where f = sum_list], rule map_cong, simp,
        use good in \<open>auto simp: card_owns list_nodes_eq hash_nodes_eq\<close>)+
  have le: "(\<Sum>(t, c) \<leftarrow> ?bs. card (owns Tree_node c)) \<le> (\<Sum>(t, c) \<leftarrow> ?bs. resting_orders (bt_book c))"
    by (rule sum_list_mono) (use good in \<open>auto simp: card_owns tree_nodes_le\<close>)
  show "frame_ok (others A0 t bs)" unfolding frame_ok_def using cards eq le by auto
  show "resting_orders (bt_book b) + card (fr_nodes (others A0 t bs) List_node) = resting_total bs"
    using cards [of List_node] eq(1) sum_list_split [OF d, of t b "\<lambda>c. resting_orders (bt_book c)"] b mem by (simp add: resting_total_def)
qed

lemma shard_nodes:
  assumes s: "shard_mem ok used A0 bs m"
  shows "card (used List_node m) = resting_total bs" "card (used Hash_node m) = resting_total bs" "card (used Tree_node m) \<le> resting_total bs"
proof -
  have "card (used List_node m) = resting_total bs \<and> card (used Hash_node m) = resting_total bs \<and> card (used Tree_node m) \<le> resting_total bs"
  proof (cases bs)
    case Nil
    then have "used k m = {}" for k using shard_memD(3) [OF s] by simp
    then show ?thesis using Nil by (simp add: resting_total_def)
  next
    case (Cons tb bs')
    then have b: "map_of bs (fst tb) = Some (snd tb)" by simp
    show ?thesis using live_nodes [OF shard_mem_book [OF s b] shard_frame(1) [OF s b]] shard_frame(2) [OF s b] by simp
  qed
  then show "card (used List_node m) = resting_total bs" "card (used Hash_node m) = resting_total bs" "card (used Tree_node m) \<le> resting_total bs"
    by auto
qed

context node_allocator
begin

lemma shard_run_mem:
  assumes E: "env_ok E" and s: "shard_mem ok live A0 bs m"
  shows "yields (shard_run E A ms (bs, m))
    (\<lambda>rs (bs', m'). shard_mem ok live A0 bs' m' \<and> shard_spec_run ms (books_at bs) = Some (rs, books_at bs')) (\<lambda>_ _. True)"
  using s
proof (induction ms arbitrary: bs m)
  case (Cons tm ms)
  obtain t msg where tm: "tm = (t, msg)" by (cases tm)
  show ?case unfolding tm shard_run.simps
  proof (rule yields_and_then [OF shard_apply_mem [OF Cons.prems E]], goal_cases)
    case (1 r s1)
    obtain bs1 m1 where s1: "s1 = (bs1, m1)" "shard_mem ok live A0 bs1 m1" "shard_spec t msg (books_at bs) = Some (r, books_at bs1)"
      using 1 by (cases s1) auto
    show ?case unfolding s1(1) by (rule yields_and_then [OF Cons.IH [OF s1(2)]]) (auto simp: s1(3))
  qed
qed simp

end

context counting_allocator
begin

text \<open>The book of a symbol, old or new.\<close>

lemma books_subscript_room:
  fixes bs :: "'a books"
  assumes "unlimited E \<or> map_of bs t \<noteq> None"
  obtains b bs1 m1 where "books_subscript E t (bs, m) = Some (Inr b, bs1, m1)" "map_of bs t \<noteq> None \<longrightarrow> bs1 = bs \<and> m1 = m \<and> map_of bs t = Some b"
    "\<forall>k. ready k m \<longrightarrow> ready k m1" "resting_total bs1 = resting_total bs"
proof (cases "map_of bs t")
  case (Some b)
  show thesis by (rule that [of b bs m]) (use Some in \<open>simp_all add: books_subscript_def\<close>)
next
  case None
  then have "unlimited E" using assms by auto
  from new_buckets_unlimited [OF this] obtain p m1 where
    nb: "new_buckets E 1 kExpectedRestingOrdersPerSymbol m = (Inr (en_buckets E 1 kExpectedRestingOrdersPerSymbol, p), m1)"
    by blast
  then obtain b :: "'a BookT" where b: "order_book_t E m = (Inr b, m1)" "bt_book b = order_book_init" by (simp add: order_book_t_def)
  have "t \<notin> fst ` set bs" using None by (simp add: map_of_eq_None_iff)
  then have "AList.update t b bs = bs @ [(t, b)]" by (induction bs) auto
  then have "resting_total (AList.update t b bs) = resting_total bs"
    using b(2) by (simp add: resting_total_def resting_orders_def book_orders_def book_pairs_def order_book_init_def)
  then show thesis
    by (intro that [of b "AList.update t b bs" m1]) (use None b new_buckets_heap [OF nb] array_ready in \<open>auto simp: books_subscript_def\<close>)
qed

text \<open>A message that finds room: it is applied, and if its book exists and nothing has to grow, the heap is called for nodes only.\<close>

lemma shard_apply_room:
  assumes s: "shard_mem ok live A0 bs m" and E: "env_ok E" and able: "\<And>k. unlimited E \<or> ready k m"
    and there: "unlimited E \<or> (\<exists>b. map_of bs t = Some b \<and> length (ob_index (bt_book b)) < bt_buckets b)"
    and room: "resting_total bs < cap \<or> resting_total bs = cap \<and> (\<forall>a. msg = AddMsg a \<longrightarrow> has_order (add_order_id a) (books_at bs t))"
  obtains r bs' m' where "shard_apply E A t msg (bs, m) = Some (Inr r, bs', m')" "shard_spec t msg (books_at bs) = Some (r, books_at bs')"
    "shard_mem ok live A0 bs' m'"
    "(\<forall>k. ready k m) \<and> (\<exists>b. map_of bs t = Some b \<and> length (ob_index (bt_book b)) < bt_buckets b) \<longrightarrow> (\<exists>n d. paid n d m m')"
proof -
  have "unlimited E \<or> map_of bs t \<noteq> None" using there by auto
  then obtain b bs1 m1 where sub: "books_subscript E t (bs, m) = Some (Inr b, bs1, m1)" "map_of bs t \<noteq> None \<longrightarrow> bs1 = bs \<and> m1 = m \<and> map_of bs t = Some b"
    and r1: "\<forall>k. ready k m \<longrightarrow> ready k m1" and tot: "resting_total bs1 = resting_total bs"
    by (rule books_subscript_room)
  have s1: "shard_mem ok live A0 bs1 m1" "map_of bs1 t = Some b" "books_at bs1 = books_at bs"
    using books_subscript_mem [OF s E, of t] sub(1) by simp_all
  note b = shard_mem_book [OF s1(1,2)] and fr = shard_frame [OF s1(1,2)]
  have at: "books_at bs t = bt_book b" using s1(2,3) by (metis books_at_def option.simps(5))
  have able1: "unlimited E \<or> ready k m1" for k using able r1 by blast
  have buckets: "unlimited E \<or> length (ob_index (bt_book b)) < bt_buckets b" using there sub(2) by auto
  obtain r b' m' where ap: "apply_t E A msg (b, m1) = Some (Inr r, b', m')" "apply_msg msg (bt_book b) = Some (r, bt_book b')"
    "book_mem ok live (others A0 t bs1) b' m'" "\<forall>k. ready k m1 \<longrightarrow> ready k m'"
    "length (ob_index (bt_book b)) < bt_buckets b \<longrightarrow> bt_buckets b' = bt_buckets b \<and> (\<exists>n d. paid n d m1 m')"
    by (rule apply_t_room [OF b(1) E b(2) fr(1) able1 buckets, of msg]) (use room in \<open>simp_all add: fr(2) tot at\<close>)
  have "book_ok (bt_book b')" using ap(2) by (metis book_stepE [OF b(2)] option.inject prod.inject)
  then have "shard_mem ok live A0 (AList.update t b' bs1) m'" by (rule shard_mem_update [OF s1(1) ap(3)])
  moreover have "shard_apply E A t msg (bs, m) = Some (Inr r, AList.update t b' bs1, m')" using sub(1) ap(1) by (simp add: shard_apply_def)
  moreover have "shard_spec t msg (books_at bs) = Some (r, books_at (AList.update t b' bs1))"
    using ap(2) by (simp add: shard_spec_def at books_at_update s1(3))
  moreover have "(\<exists>b. map_of bs t = Some b \<and> length (ob_index (bt_book b)) < bt_buckets b) \<longrightarrow> (\<exists>n d. paid n d m m')"
    using ap(5) sub(2) by auto
  ultimately show thesis using that by blast
qed

end

subsection \<open>The pooled books of a shard\<close>

definition shard_start :: "heap \<Rightarrow> node_pools mem" where
  "shard_start h = \<lparr>mem_pools = (\<lambda>_. pools_init), mem_heap = h\<rparr>"

abbreviation pool_shard_mem :: "nat \<Rightarrow> nat \<Rightarrow> nat set \<Rightarrow> block books \<Rightarrow> node_pools mem \<Rightarrow> bool" where
  "pool_shard_mem cap index \<equiv> shard_mem (pool_mem_ok cap index) (pool_nodes cap index)"

lemma shard_start_mem:
  assumes "heap_ok h" "index < kMaxPoolShards" "0 < cap" "cap < 2 ^ 64"
  shows "pool_shard_mem cap index (objects Array_object h) [] (shard_start h)"
proof -
  have "pool_mem_ok cap index (shard_start h)" using assms pools_init_ok by (simp add: pool_mem_ok_def shard_start_def)
  moreover have "pool_nodes cap index k (shard_start h) = {}" for k
    using assms(2) by (simp add: pool_nodes_def live_blocks_def shard_start_def pools_init_def)
  moreover have "mem_heap (shard_start h) = h" by (simp add: shard_start_def)
  ultimately show ?thesis using shard_mem_init [of "pool_mem_ok cap index" "shard_start h" "pool_nodes cap index"] by simp
qed

lemma pool_total_le:
  assumes "pool_shard_mem cap index A0 bs m"
  shows "resting_total bs \<le> cap"
proof -
  have "pool_nodes cap index List_node m \<subseteq> blocks index cap" by (auto simp: pool_nodes_def live_blocks_def split: option.splits)
  then show ?thesis
    using card_mono [OF finite_blocks(1), of _ index cap] finite_blocks(2) shard_nodes(1) [OF assms] by metis
qed

text \<open>A shard that holds an order has constructed its pools.\<close>

lemma pools_constructed:
  assumes s: "pool_shard_mem cap index A0 bs m" and "resting_total bs \<noteq> 0"
  shows "pool_ready index k m"
proof -
  obtain t b where tb: "(t, b) \<in> set bs" "resting_orders (bt_book b) \<noteq> 0" using assms(2) by (auto simp: resting_total_def)
  then have b: "map_of bs t = Some b" using shard_memD(2) [OF s] by simp
  obtain a where "a \<in> pool_nodes cap index k m"
    using orders_have_nodes [OF shard_mem_book [OF s b] tb(2)] by blast
  then show ?thesis by (rule live_pool_ready)
qed

lemma shard_run_start:
  assumes "env_ok E" "heap_ok h" "index < kMaxPoolShards" "0 < cap" "cap < 2 ^ 64"
    and "shard_run E (pool_allocator E ndebug cap index) ms ([], shard_start h) = Some (Inr rs, bs, m)"
  shows "pool_shard_mem cap index (objects Array_object h) bs m" "shard_spec_run ms (\<lambda>_. order_book_init) = Some (rs, books_at bs)"
proof -
  have "books_at ([] :: block books) = (\<lambda>_. order_book_init)" by (simp add: books_at_def fun_eq_iff)
  then show "pool_shard_mem cap index (objects Array_object h) bs m" "shard_spec_run ms (\<lambda>_. order_book_init) = Some (rs, books_at bs)"
    using pool_allocs.shard_run_mem [OF assms(1) shard_start_mem [OF assms(2-5)], of E ndebug ms] assms(6) by simp_all
qed

text \<open>
  C11. The order books of a shard on the shard's pools, for every sequence of messages for any symbols: no container touches memory it does not hold (the run is
  defined), the books never share a node, each pool has exactly as many nodes in use as the books need, and as long as no allocation fails every message has
  the result and the effect it has on the books with unlimited memory.
\<close>

theorem pooled_books_refine:
  assumes "env_ok E" "heap_ok h" "index < kMaxPoolShards" "0 < cap" "cap < 2 ^ 64"
  shows "\<exists>r bs m. shard_run E (pool_allocator E ndebug cap index) ms ([], shard_start h) = Some (r, bs, m) \<and>
    (\<forall>rs. r = Inr rs \<longrightarrow> shard_spec_run ms (\<lambda>_. order_book_init) = Some (rs, books_at bs) \<and>
       card (pool_nodes cap index List_node m) = resting_total bs \<and> card (pool_nodes cap index Hash_node m) = resting_total bs \<and>
       card (pool_nodes cap index Tree_node m) \<le> resting_total bs \<and>
       (\<forall>k t b t' b'. map_of bs t = Some b \<longrightarrow> map_of bs t' = Some b' \<longrightarrow> t \<noteq> t' \<longrightarrow> owns k b \<inter> owns k b' = {}))"
proof -
  obtain r bs m where run: "shard_run E (pool_allocator E ndebug cap index) ms ([], shard_start h) = Some (r, bs, m)"
    using pool_allocs.shard_run_mem [OF assms(1) shard_start_mem [OF assms(2-5)], of E ndebug ms]
    by (auto simp: yields_def split: option.splits)
  have "shard_spec_run ms (\<lambda>_. order_book_init) = Some (rs, books_at bs) \<and>
       card (pool_nodes cap index List_node m) = resting_total bs \<and> card (pool_nodes cap index Hash_node m) = resting_total bs \<and>
       card (pool_nodes cap index Tree_node m) \<le> resting_total bs \<and>
       (\<forall>k t b t' b'. map_of bs t = Some b \<longrightarrow> map_of bs t' = Some b' \<longrightarrow> t \<noteq> t' \<longrightarrow> owns k b \<inter> owns k b' = {})" if "r = Inr rs" for rs
  proof -
    note st = shard_run_start [OF assms, of ndebug ms rs bs m]
    have run': "shard_run E (pool_allocator E ndebug cap index) ms ([], shard_start h) = Some (Inr rs, bs, m)" using run that by simp
    have "\<forall>k t b t' b' a. map_of bs t = Some b \<longrightarrow> map_of bs t' = Some b' \<longrightarrow> a \<in> owns k b \<longrightarrow> a \<in> owns k b' \<longrightarrow> t = t'"
      using st(1) [OF run'] unfolding shard_mem_def by (elim conjE)
    then show ?thesis using st(2) [OF run'] shard_nodes [OF st(1) [OF run']] by blast
  qed
  then show ?thesis using run by blast
qed

text \<open>
  C12. Exhaustion, for a heap that never runs out: a message makes a shard throw \<open>std::bad_alloc\<close> exactly when it adds a new order while the books of the shard
  together hold as many resting orders as a pool has nodes; every other message is applied, a \<open>Replace\<close> at capacity too.
\<close>

theorem pool_exhaustion:
  assumes "env_ok E" "unlimited E" "heap_ok h" "index < kMaxPoolShards" "0 < cap" "cap < 2 ^ 64"
    and "shard_run E (pool_allocator E ndebug cap index) ms ([], shard_start h) = Some (Inr rs, bs, m)"
  shows "if \<exists>a. msg = AddMsg a \<and> \<not> has_order (add_order_id a) (books_at bs t) \<and> resting_total bs = cap
    then \<exists>s. shard_apply E (pool_allocator E ndebug cap index) t msg (bs, m) = Some (Inl Bad_alloc, s)
    else \<exists>r bs' m'. shard_apply E (pool_allocator E ndebug cap index) t msg (bs, m) = Some (Inr r, bs', m') \<and>
      shard_spec t msg (books_at bs) = Some (r, books_at bs') \<and> resting_total bs' \<le> cap"
proof (cases "\<exists>a. msg = AddMsg a \<and> \<not> has_order (add_order_id a) (books_at bs t) \<and> resting_total bs = cap")
  case True
  let ?A = "pool_allocator E ndebug cap index"
  note s = shard_run_start(1) [OF assms(1,3-7)]
  obtain a where a: "msg = AddMsg a" "\<not> has_order (add_order_id a) (books_at bs t)" "resting_total bs = cap" using True by blast
  obtain b bs1 m1 where sub: "books_subscript E t (bs, m) = Some (Inr b, bs1, m1)" "resting_total bs1 = resting_total bs"
    by (rule pool_counts.books_subscript_room [OF disjI1 [OF assms(2)], where bs = bs and t = t and m = m]) blast
  have s1: "pool_shard_mem cap index (objects Array_object h) bs1 m1" "map_of bs1 t = Some b" "books_at bs1 = books_at bs"
    using pool_allocs.books_subscript_mem [OF s assms(1), of t] sub(1) by simp_all
  have at: "books_at bs t = bt_book b" using s1(2,3) by (metis books_at_def option.simps(5))
  have "\<exists>s. apply_t E ?A (AddMsg a) (b, m1) = Some (Inl Bad_alloc, s)"
    by (rule add_exhausted [OF shard_mem_book(1) [OF s1(1,2)]]) (use shard_nodes(1) [OF s1(1)] sub(2) a at in simp_all)
  then have "\<exists>s. shard_apply E ?A t msg (bs, m) = Some (Inl Bad_alloc, s)"
    using sub(1) a(1) by (auto simp: shard_apply_def simp del: apply_t.simps)
  then show ?thesis using True by simp
next
  case False
  note s = shard_run_start(1) [OF assms(1,3-7)]
  have room: "resting_total bs < cap \<or> resting_total bs = cap \<and> (\<forall>a. msg = AddMsg a \<longrightarrow> has_order (add_order_id a) (books_at bs t))"
    using False pool_total_le [OF s] by auto
  obtain r bs' m' where "shard_apply E (pool_allocator E ndebug cap index) t msg (bs, m) = Some (Inr r, bs', m')"
      "shard_spec t msg (books_at bs) = Some (r, books_at bs')" "pool_shard_mem cap index (objects Array_object h) bs' m'"
    by (rule pool_counts.shard_apply_room [OF s assms(1) disjI1 [OF assms(2)] disjI1 [OF assms(2)] room])
  then show ?thesis using False pool_total_le by (metis (no_types, lifting))
qed

text \<open>
  C13. The hot path does not touch the heap: once the shard holds an order, a message for a known symbol with fewer than \<open>kExpectedRestingOrdersPerSymbol\<close>, that is 2000,
  resting orders is applied without a single call of \<open>operator new\<close> or \<open>operator delete\<close>, whatever \<open>malloc\<close> would do, unless it adds an order beyond
  the capacity of the pools.
\<close>

theorem hot_path_without_heap:
  assumes "env_ok E" "heap_ok h" "index < kMaxPoolShards" "0 < cap" "cap < 2 ^ 64"
    and "shard_run E (pool_allocator E ndebug cap index) ms ([], shard_start h) = Some (Inr rs, bs, m)"
    and "resting_total bs \<noteq> 0" "t \<in> fst ` set bs" "resting_orders (books_at bs t) < kExpectedRestingOrdersPerSymbol"
    and "resting_total bs < cap \<or> (\<forall>a. msg = AddMsg a \<longrightarrow> has_order (add_order_id a) (books_at bs t))"
  shows "\<exists>r bs' m'. shard_apply E (pool_allocator E ndebug cap index) t msg (bs, m) = Some (Inr r, bs', m') \<and>
    shard_spec t msg (books_at bs) = Some (r, books_at bs') \<and>
    new_call_count (mem_heap m') = new_call_count (mem_heap m) \<and> delete_call_count (mem_heap m') = delete_call_count (mem_heap m)"
proof -
  note s = shard_run_start(1) [OF assms(1-6)]
  have ready: "pool_ready index k m" for k by (rule pools_constructed [OF s assms(7)])
  obtain b where b: "map_of bs t = Some b" using assms(8) by (metis map_of_eq_None_iff not_None_eq)
  note mem = shard_mem_book [OF s b]
  have "length (ob_index (bt_book b)) < bt_buckets b"
    using assms(9) b hash_nodes_eq [OF mem(2)] containers_okD(8) [OF book_memD(2) [OF mem(1)]] by (simp add: books_at_def hash_nodes_def)
  then have there: "\<exists>b. map_of bs t = Some b \<and> length (ob_index (bt_book b)) < bt_buckets b" using b by blast
  have room: "resting_total bs < cap \<or> resting_total bs = cap \<and> (\<forall>a. msg = AddMsg a \<longrightarrow> has_order (add_order_id a) (books_at bs t))"
    using assms(10) pool_total_le [OF s] by auto
  obtain r bs' m' where run: "shard_apply E (pool_allocator E ndebug cap index) t msg (bs, m) = Some (Inr r, bs', m')"
      "shard_spec t msg (books_at bs) = Some (r, books_at bs')"
    and paid: "(\<forall>k. pool_ready index k m) \<and> (\<exists>b. map_of bs t = Some b \<and> length (ob_index (bt_book b)) < bt_buckets b) \<longrightarrow>
      (\<exists>n d. (\<forall>k. pool_ready index k m \<longrightarrow> pool_ready index k m') \<and> ((\<forall>k. pool_ready index k m) \<longrightarrow> calls (of_nat n * 0) (of_nat d * 0) m m'))"
    by (rule pool_counts.shard_apply_room [OF s assms(1) disjI2 [OF ready] disjI2 [OF there] room])
  have "calls 0 0 m m'" using paid ready there by auto
  then show ?thesis using run by (simp add: calls_def new_call_count_def delete_call_count_def)
qed

subsection \<open>A shard with pools of one node\<close>

definition demo_order :: "OrderId \<Rightarrow> DecodedMessage" where
  "demo_order oid = AddMsg \<lparr>add_seq_num = oid, add_order_id = oid, add_symbol = ''AAPL    '', add_side = Buy, add_price = Int64 100,
     add_quantity = 5, add_timestamp = 0\<rparr>"

definition demo_orders :: "(Symbol \<times> DecodedMessage) list" where
  "demo_orders = [(''AAPL    '', demo_order 1)]"

lemma demo_sizes: "(0::nat) < kMaxPoolShards" "(0::nat) < 1" "(1::nat) < 2 ^ 64"
  by (simp_all add: kMaxPoolShards_def)

lemma demo_shard_run:
  "\<exists>rs bs m. shard_run demo_env (pool_allocator demo_env False 1 0) demo_orders ([], shard_start heap_init) = Some (Inr rs, bs, m) \<and>
     resting_total bs = 1 \<and> fst ` set bs = {''AAPL    ''} \<and> \<not> has_order 2 (books_at bs ''AAPL    '') \<and> resting_orders (books_at bs ''AAPL    '') = 1"
  apply (simp add: shard_apply_def books_subscript_def order_book_t_def new_buckets_def operator_new_def shard_start_def heap_init_def Let_def
      demo_orders_def demo_order_def demo_env_def kExpectedRestingOrdersPerSymbol_def)
  apply (simp add: apply_add_t_def insert_resting_order_t_def level_subscript_def level_push_back_def index_assign_def index_grow_def
      order_book_init_def has_order_def ladder_def set_ladder_def pool_allocator_def pool_node_allocate_def ensure_pool_def operator_new_def
      pools_init_def kMaxPoolShards_def allocate_node_def get_pool_def pool_construct_def init_loop.simps pool_allocate_def read_next_def write_next_def Let_def
      side_lt_def ar_add_def ar_init_def)
  apply (simp add: resting_total_def books_at_def resting_orders_def book_orders_def book_pairs_def)
  done

lemma demo_shardE:
  obtains rs bs m where "shard_run demo_env (pool_allocator demo_env False 1 0) demo_orders ([], shard_start heap_init) = Some (Inr rs, bs, m)"
    "resting_total bs = 1" "fst ` set bs = {''AAPL    ''}" "\<not> has_order 2 (books_at bs ''AAPL    '')" "resting_orders (books_at bs ''AAPL    '') = 1"
  using demo_shard_run by (elim exE conjE)

theorem pooled_books_refine_witness:
  "\<exists>rs bs m. shard_run demo_env (pool_allocator demo_env False 1 0) demo_orders ([], shard_start heap_init) = Some (Inr rs, bs, m) \<and>
     shard_spec_run demo_orders (\<lambda>_. order_book_init) = Some (rs, books_at bs) \<and> card (pool_nodes 1 0 List_node m) = 1"
proof -
  obtain rs bs m where run: "shard_run demo_env (pool_allocator demo_env False 1 0) demo_orders ([], shard_start heap_init) = Some (Inr rs, bs, m)"
    and total: "resting_total bs = 1" "fst ` set bs = {''AAPL    ''}" "\<not> has_order 2 (books_at bs ''AAPL    '')" "resting_orders (books_at bs ''AAPL    '') = 1"
    by (rule demo_shardE)
  show ?thesis
    using pooled_books_refine [OF demo_env_ok(1,3) demo_sizes, of False demo_orders] run total(1) by auto
qed

theorem pool_exhaustion_witness:
  "\<exists>rs bs m s. shard_run demo_env (pool_allocator demo_env False 1 0) demo_orders ([], shard_start heap_init) = Some (Inr rs, bs, m) \<and>
     shard_apply demo_env (pool_allocator demo_env False 1 0) ''AAPL    '' (demo_order 2) (bs, m) = Some (Inl Bad_alloc, s)"
proof -
  obtain rs bs m where run: "shard_run demo_env (pool_allocator demo_env False 1 0) demo_orders ([], shard_start heap_init) = Some (Inr rs, bs, m)"
    and total: "resting_total bs = 1" "fst ` set bs = {''AAPL    ''}" "\<not> has_order 2 (books_at bs ''AAPL    '')" "resting_orders (books_at bs ''AAPL    '') = 1"
    by (rule demo_shardE)
  have "\<exists>a. demo_order 2 = AddMsg a \<and> \<not> has_order (add_order_id a) (books_at bs ''AAPL    '') \<and> resting_total bs = 1"
    using total(1,3) by (simp add: demo_order_def)
  then show ?thesis
    using pool_exhaustion [OF demo_env_ok demo_sizes run, of "demo_order 2" "''AAPL    ''"] run by (simp only: if_True) blast
qed

theorem hot_path_without_heap_witness:
  "\<exists>rs bs m r bs' m'. shard_run demo_env (pool_allocator demo_env False 1 0) demo_orders ([], shard_start heap_init) = Some (Inr rs, bs, m) \<and>
     shard_apply demo_env (pool_allocator demo_env False 1 0) ''AAPL    '' (CancelMsg \<lparr>cxl_seq_num = 2, cxl_order_id = 1, cxl_timestamp = 0\<rparr>) (bs, m) = Some (Inr r, bs', m') \<and>
     new_call_count (mem_heap m') = new_call_count (mem_heap m)"
proof -
  obtain rs bs m where run: "shard_run demo_env (pool_allocator demo_env False 1 0) demo_orders ([], shard_start heap_init) = Some (Inr rs, bs, m)"
    and total: "resting_total bs = 1" "fst ` set bs = {''AAPL    ''}" "\<not> has_order 2 (books_at bs ''AAPL    '')" "resting_orders (books_at bs ''AAPL    '') = 1"
    by (rule demo_shardE)
  have "resting_total bs \<noteq> 0" "''AAPL    '' \<in> fst ` set bs" "resting_orders (books_at bs ''AAPL    '') < kExpectedRestingOrdersPerSymbol"
    using total(1,2,4) by (simp_all add: kExpectedRestingOrdersPerSymbol_def)
  note hot = hot_path_without_heap [OF demo_env_ok(1,3) demo_sizes run this]
  show ?thesis using run hot [of "CancelMsg \<lparr>cxl_seq_num = 2, cxl_order_id = 1, cxl_timestamp = 0\<rparr>"] by blast
qed

end
