(* ===== verification/Book_Destruction.thy ===== *)
theory Book_Destruction
  imports Shard_Memory
begin

text \<open>
  The end of the books: the members of an \<open>OrderBookT\<close> are destroyed in the reverse order of their declaration, and \<open>~ShardedPipeline\<close> (\<open>io/shard_demux.cpp\<close>) destroys the
  books of a shard with the index of that shard set.  Every node goes back to the allocator it came from, once, and the arrays of buckets go back to the heap.  In which order a
  container gives back its nodes is up to the library; here it is the order of the container.
\<close>

subsection \<open>Model\<close>

fun give_back :: "('p, 'a) node_ops \<Rightarrow> node_kind \<Rightarrow> ('k \<rightharpoonup> 'a) \<Rightarrow> 'k list \<Rightarrow> 'p mem \<Rightarrow> 'p mem option" where
  "give_back A k f [] m = Some m"
| "give_back A k f (x # xs) m = do {
     a \<leftarrow> f x;
     m \<leftarrow> no_deallocate A k a m;
     give_back A k f xs m }"

fun destroy_levels :: "('p, 'a) node_ops \<Rightarrow> Side \<Rightarrow> 'a BookT \<Rightarrow> (Price \<times> Level) list \<Rightarrow> 'p mem \<Rightarrow> 'p mem option" where
  "destroy_levels A side b [] m = Some m"
| "destroy_levels A side b ((price, level) # levels) m = do {
     m \<leftarrow> give_back A List_node (bt_list b) (lv_orders level) m;
     m \<leftarrow> give_back A Tree_node (bt_tree b) [(side = Buy, price)] m;
     destroy_levels A side b levels m }"

text \<open>\<open>order_index_\<close>, then \<open>asks_\<close>, then \<open>bids_\<close>\<close>

definition destroy_book :: "('p, 'a) node_ops \<Rightarrow> 'a BookT \<Rightarrow> 'p mem \<Rightarrow> 'p mem option" where
  "destroy_book A b m = do {
     m \<leftarrow> give_back A Hash_node (bt_hash b) (map fst (ob_index (bt_book b))) m;
     h \<leftarrow> operator_delete (bt_array b) (mem_heap m);
     m \<leftarrow> destroy_levels A Sell b (ladder Sell (bt_book b)) (m\<lparr>mem_heap := h\<rparr>);
     destroy_levels A Buy b (ladder Buy (bt_book b)) m }"

fun destroy_books :: "('p, 'a) node_ops \<Rightarrow> 'a books \<Rightarrow> 'p mem \<Rightarrow> 'p mem option" where
  "destroy_books A [] m = Some m"
| "destroy_books A ((symbol, b) # bs) m = do {
     m \<leftarrow> destroy_book A b m;
     destroy_books A bs m }"

subsection \<open>Every node is in one place\<close>

text \<open>The nodes of the levels of a side.\<close>

definition nodes_in :: "(Price \<times> Level) list \<Rightarrow> node list" where
  "nodes_in L = concat (map (lv_orders \<circ> snd) L)"

lemma nodes_in_simps [simp]: "nodes_in [] = []" "nodes_in ((p, l) # L) = lv_orders l @ nodes_in L"
  by (simp_all add: nodes_in_def)

lemma ladder_level:
  assumes "book_ok ob" "(p, l) \<in> set (ladder s ob)"
  shows "lv_orders l = map fst (level_nodes (book_pairs ob) s p)"
proof -
  have "distinct (map fst (ladder s ob))" using ladder_order.sorted_keys_distinct [OF book_okD(5) [OF assms(1)]] .
  then have "level_of (book_pairs ob) s p = Some l" using assms book_okD(6) [OF assms(1), of s p] by simp
  then show ?thesis by (auto simp: level_of_nodes Let_def split: if_splits)
qed

lemma set_nodes_in:
  assumes "book_ok ob"
  shows "n \<in> set (nodes_in (ladder s ob)) \<longleftrightarrow> (\<exists>ord. ob_nodes ob n = Some ord \<and> (ro_side ord = Buy) = (s = Buy))"
proof
  assume "n \<in> set (nodes_in (ladder s ob))"
  then obtain p l where "(p, l) \<in> set (ladder s ob)" "n \<in> set (lv_orders l)" by (auto simp: nodes_in_def)
  then show "\<exists>ord. ob_nodes ob n = Some ord \<and> (ro_side ord = Buy) = (s = Buy)"
    using ladder_level [OF assms] book_pairs_nodes by (fastforce simp: level_nodes_def at_level_def)
next
  assume "\<exists>ord. ob_nodes ob n = Some ord \<and> (ro_side ord = Buy) = (s = Buy)"
  then obtain ord where ord: "ob_nodes ob n = Some ord" "at_level s (ro_price ord) ord" by (auto simp: at_level_def)
  then have "(n, ord) \<in> set (book_pairs ob)" using book_okD(1) [OF assms] by (simp add: book_pairs_def set_live)
  note at = level_of_at [OF this ord(2)]
  obtain l where "map_of (ladder s ob) (ro_price ord) = Some l" "lv_orders l = map fst (level_nodes (book_pairs ob) s (ro_price ord))"
    using at(1) book_okD(6) [OF assms, of s "ro_price ord"] by simp
  then show "n \<in> set (nodes_in (ladder s ob))" using at(2) by (force simp: nodes_in_def dest: map_of_SomeD)
qed

lemma distinct_nodes_in:
  assumes "distinct (map fst P)" "distinct (map fst L)" "\<And>p l. (p, l) \<in> set L \<Longrightarrow> lv_orders l = map fst (level_nodes P s p)"
  shows "distinct (nodes_in L)"
  using assms(2,3)
proof (induction L)
  case (Cons a L)
  obtain p l where a: "a = (p, l)" by fastforce
  have l: "lv_orders l = map fst (level_nodes P s p)" using Cons.prems(2) a by simp
  have "set (lv_orders l) \<inter> set (nodes_in L) = {}"
  proof (rule ccontr)
    assume "set (lv_orders l) \<inter> set (nodes_in L) \<noteq> {}"
    then obtain n p' l' where n: "n \<in> set (lv_orders l)" "(p', l') \<in> set L" "n \<in> set (lv_orders l')" by (auto simp: nodes_in_def)
    have "lv_orders l' = map fst (level_nodes P s p')" using Cons.prems(2) n(2) by simp
    then obtain ord ord' where o: "(n, ord) \<in> set P" "at_level s p ord" "(n, ord') \<in> set P" "at_level s p' ord'"
      using n(1,3) l by (auto simp: level_nodes_def)
    then have "p = p'" using eq_key_imp_eq_value [OF assms(1)] by (metis at_level_def)
    then show False using Cons.prems(1) n(2) a by force
  qed
  moreover have "distinct (lv_orders l)" unfolding l by (rule distinct_level_nodes [OF assms(1)])
  moreover have "distinct (nodes_in L)" using Cons by simp
  ultimately show ?case unfolding a by simp
qed simp

subsection \<open>Everything is given back\<close>

context node_allocator
begin

lemma give_back_mem:
  assumes "ok m" "owned g (live k m) F" "distinct xs" "\<And>x. x \<in> set xs \<Longrightarrow> g x = f x \<and> f x \<noteq> None"
  obtains m' where "give_back A k f xs m = Some m'" "ok m'" "owned (g |` (- set xs)) (live k m') F" "\<And>k'. k' \<noteq> k \<Longrightarrow> live k' m' = live k' m"
    "objects Array_object (mem_heap m') = objects Array_object (mem_heap m)"
proof -
  have "\<exists>m'. give_back A k f xs m = Some m' \<and> ok m' \<and> owned (g |` (- set xs)) (live k m') F \<and> (\<forall>k'. k' \<noteq> k \<longrightarrow> live k' m' = live k' m) \<and>
    objects Array_object (mem_heap m') = objects Array_object (mem_heap m)"
    using assms
  proof (induction xs arbitrary: m g)
    case (Cons x xs)
    obtain a where a: "f x = Some a" "g x = Some a" using Cons.prems(4) [of x] by auto
    note free = owned_free [OF Cons.prems(2) a(2)]
    obtain m1 where m1: "no_deallocate A k a m = Some m1" "ok m1" "live k m1 = live k m - {a}" "\<forall>k'. k' \<noteq> k \<longrightarrow> live k' m1 = live k' m"
      "objects Array_object (mem_heap m1) = objects Array_object (mem_heap m)"
      using deallocate_live [OF Cons.prems(1) free(1)] by blast
    have own: "owned (g(x := None)) (live k m1) F" using free(2) m1(3) by simp
    have "distinct xs" "\<And>y. y \<in> set xs \<Longrightarrow> (g(x := None)) y = f y \<and> f y \<noteq> None" using Cons.prems(3,4) by auto
    from Cons.IH [OF m1(2) own this] obtain m' where "give_back A k f xs m1 = Some m'" "ok m'" "owned (g(x := None) |` (- set xs)) (live k m') F"
      "\<forall>k'. k' \<noteq> k \<longrightarrow> live k' m' = live k' m1" "objects Array_object (mem_heap m') = objects Array_object (mem_heap m1)"
      by blast
    moreover have "g(x := None) |` (- set xs) = g |` (- set (x # xs))" by (auto simp: restrict_map_def fun_eq_iff)
    ultimately show ?case using a(1) m1 by simp
  qed (simp add: restrict_map_def)
  then show thesis using that by blast
qed

lemma destroy_levels_mem:
  assumes "ok m" "owned gl (live List_node m) FL" "owned gt (live Tree_node m) FT" "distinct (nodes_in L)" "distinct (map fst L)"
    "\<And>n. n \<in> set (nodes_in L) \<Longrightarrow> gl n = bt_list b n \<and> bt_list b n \<noteq> None"
    "\<And>p. p \<in> fst ` set L \<Longrightarrow> gt (s = Buy, p) = bt_tree b (s = Buy, p) \<and> bt_tree b (s = Buy, p) \<noteq> None"
  shows "\<exists>m'. destroy_levels A s b L m = Some m' \<and> ok m' \<and> owned (gl |` (- set (nodes_in L))) (live List_node m') FL \<and>
    owned (gt |` (- (Pair (s = Buy) ` fst ` set L))) (live Tree_node m') FT \<and> live Hash_node m' = live Hash_node m \<and>
    objects Array_object (mem_heap m') = objects Array_object (mem_heap m)"
  using assms
proof (induction L arbitrary: m gl gt)
  case (Cons a L)
  obtain p l where a: "a = (p, l)" by fastforce
  have l: "distinct (lv_orders l)" "\<And>n. n \<in> set (lv_orders l) \<Longrightarrow> gl n = bt_list b n \<and> bt_list b n \<noteq> None" using Cons.prems(4,6) a by auto
  obtain m1 where m1: "give_back A List_node (bt_list b) (lv_orders l) m = Some m1" "ok m1" "owned (gl |` (- set (lv_orders l))) (live List_node m1) FL"
    "\<And>k'. k' \<noteq> List_node \<Longrightarrow> live k' m1 = live k' m" "objects Array_object (mem_heap m1) = objects Array_object (mem_heap m)"
    by (rule give_back_mem [OF Cons.prems(1,2) l]) blast+
  have t: "owned gt (live Tree_node m1) FT" "distinct [(s = Buy, p)]" "\<And>x. x \<in> set [(s = Buy, p)] \<Longrightarrow> gt x = bt_tree b x \<and> bt_tree b x \<noteq> None" using Cons.prems(3,7) m1(4) a by auto
  obtain m2 where m2: "give_back A Tree_node (bt_tree b) [(s = Buy, p)] m1 = Some m2" "ok m2" "owned (gt |` (- {(s = Buy, p)})) (live Tree_node m2) FT"
    "\<And>k'. k' \<noteq> Tree_node \<Longrightarrow> live k' m2 = live k' m1" "objects Array_object (mem_heap m2) = objects Array_object (mem_heap m1)"
    by (rule give_back_mem [OF m1(2) t]) auto
  have gl: "owned (gl |` (- set (lv_orders l))) (live List_node m2) FL" using m1(3) m2(4) by simp
  have "(gl |` (- set (lv_orders l))) n = bt_list b n \<and> bt_list b n \<noteq> None" if "n \<in> set (nodes_in L)" for n
    using Cons.prems(4,6) that a by (auto simp: restrict_map_def)
  moreover have "(gt |` (- {(s = Buy, p)})) (s = Buy, q) = bt_tree b (s = Buy, q) \<and> bt_tree b (s = Buy, q) \<noteq> None" if "q \<in> fst ` set L" for q
    using Cons.prems(5,7) that a by (auto simp: restrict_map_def)
  ultimately obtain m' where m': "destroy_levels A s b L m2 = Some m'" "ok m'"
    "owned (gl |` (- set (lv_orders l)) |` (- set (nodes_in L))) (live List_node m') FL"
    "owned (gt |` (- {(s = Buy, p)}) |` (- (Pair (s = Buy) ` fst ` set L))) (live Tree_node m') FT" "live Hash_node m' = live Hash_node m2"
    "objects Array_object (mem_heap m') = objects Array_object (mem_heap m2)"
    using Cons.IH [OF m2(2) gl m2(3)] Cons.prems(4,5) a by auto
  moreover have "destroy_levels A s b (a # L) m = Some m'" using m1(1) m2(1) m'(1) a by (simp del: give_back.simps)
  moreover have "gl |` (- set (lv_orders l)) |` (- set (nodes_in L)) = gl |` (- set (nodes_in (a # L)))"
    "gt |` (- {(s = Buy, p)}) |` (- (Pair (s = Buy) ` fst ` set L)) = gt |` (- (Pair (s = Buy) ` fst ` set (a # L)))"
    unfolding a by (auto simp: restrict_map_def fun_eq_iff)
  ultimately show ?case using m1(4,5) m2(4,5) by simp
qed (simp add: restrict_map_def)

text \<open>Both sides of a book: no node is in two levels.\<close>

lemma destroy_sides_mem:
  assumes m: "ok m" "owned (bt_list b) (live List_node m) FL" "owned (bt_tree b) (live Tree_node m) FT" and c: "containers_ok b" and inv: "book_ok (bt_book b)"
  shows "\<exists>m1 m'. destroy_levels A Sell b (ladder Sell (bt_book b)) m = Some m1 \<and> destroy_levels A Buy b (ladder Buy (bt_book b)) m1 = Some m' \<and> ok m' \<and>
    live List_node m' = FL \<and> live Tree_node m' = FT \<and> live Hash_node m' = live Hash_node m \<and> objects Array_object (mem_heap m') = objects Array_object (mem_heap m)"
proof -
  note D = containers_okD [OF c]
  let ?N = "\<lambda>s. nodes_in (ladder s (bt_book b))" and ?P = "\<lambda>s. Pair (s = Buy) ` fst ` set (ladder s (bt_book b))"
  have nodes: "distinct (?N s)" "distinct (map fst (ladder s (bt_book b)))" "\<And>n. n \<in> set (?N s) \<Longrightarrow> bt_list b n \<noteq> None"
      "\<And>p. p \<in> fst ` set (ladder s (bt_book b)) \<Longrightarrow> bt_tree b (s = Buy, p) \<noteq> None" for s
  proof -
    show dp: "distinct (map fst (ladder s (bt_book b)))" using ladder_order.sorted_keys_distinct [OF D(1)] .
    show "distinct (?N s)" using distinct_nodes_in [OF distinct_book_pairs dp] ladder_level [OF inv] by blast
    show "\<And>n. n \<in> set (?N s) \<Longrightarrow> bt_list b n \<noteq> None" using set_nodes_in [OF inv] D(4) by auto
    show "\<And>p. p \<in> fst ` set (ladder s (bt_book b)) \<Longrightarrow> bt_tree b (s = Buy, p) \<noteq> None" using D(5) by (simp add: map_of_eq_None_iff)
  qed
  obtain m1 where m1: "destroy_levels A Sell b (ladder Sell (bt_book b)) m = Some m1" "ok m1"
    "owned (bt_list b |` (- set (?N Sell))) (live List_node m1) FL" "owned (bt_tree b |` (- ?P Sell)) (live Tree_node m1) FT"
    "live Hash_node m1 = live Hash_node m" "objects Array_object (mem_heap m1) = objects Array_object (mem_heap m)"
    using destroy_levels_mem [OF m nodes(1,2), of Sell b Sell] nodes(3,4) [of _ Sell] by blast
  have "(bt_list b |` (- set (?N Sell))) n = bt_list b n" if "n \<in> set (?N Buy)" for n
    using that set_nodes_in [OF inv] Buy_neq_Sell by (auto simp: restrict_map_def)
  moreover have "(bt_tree b |` (- ?P Sell)) (Buy = Buy, p) = bt_tree b (Buy = Buy, p)" for p
    using Buy_neq_Sell by (auto simp: restrict_map_def)
  ultimately obtain m' where m': "destroy_levels A Buy b (ladder Buy (bt_book b)) m1 = Some m'" "ok m'"
    "owned (bt_list b |` (- set (?N Sell)) |` (- set (?N Buy))) (live List_node m') FL" "owned (bt_tree b |` (- ?P Sell) |` (- ?P Buy)) (live Tree_node m') FT"
    "live Hash_node m' = live Hash_node m1" "objects Array_object (mem_heap m') = objects Array_object (mem_heap m1)"
    using destroy_levels_mem [OF m1(2-4) nodes(1,2), of Buy b Buy] nodes(3,4) [of _ Buy] by blast
  have "(bt_list b |` (- set (?N Sell)) |` (- set (?N Buy))) n = None" for n
    using set_nodes_in [OF inv, of n] D(4) [of n] Buy_neq_Sell by (cases "ob_nodes (bt_book b) n") (auto simp: restrict_map_def)
  then have "bt_list b |` (- set (?N Sell)) |` (- set (?N Buy)) = Map.empty" by (rule ext)
  moreover have "(bt_tree b |` (- ?P Sell) |` (- ?P Buy)) (side, p) = None" for side p
    using D(5) [of Buy p] D(5) [of Sell p] Buy_neq_Sell by (cases side) (auto simp: restrict_map_def map_of_eq_None_iff)
  then have "bt_tree b |` (- ?P Sell) |` (- ?P Buy) = Map.empty" by fast
  ultimately show ?thesis using m1 m' by (simp add: owned_def)
qed

lemma destroy_book_mem:
  assumes mem: "book_mem ok live F b m" and inv: "book_ok (bt_book b)"
  shows "\<exists>m'. destroy_book A b m = Some m' \<and> ok m' \<and> (\<forall>k. live k m' = fr_nodes F k) \<and> objects Array_object (mem_heap m') = fr_arrays F"
proof -
  note D = containers_okD [OF book_memD(2) [OF mem]]
  let ?ids = "map fst (ob_index (bt_book b))"
  have own: "owned (bt_list b) (live List_node m) (fr_nodes F List_node)" "owned (bt_tree b) (live Tree_node m) (fr_nodes F Tree_node)"
      "owned (bt_hash b) (live Hash_node m) (fr_nodes F Hash_node)"
    and arr: "objects Array_object (mem_heap m) = insert (bt_array b) (fr_arrays F)" "bt_array b \<notin> fr_arrays F"
    using mem by (simp_all add: book_mem_def)
  have ids: "i \<in> set ?ids \<longleftrightarrow> bt_hash b i \<noteq> None" for i using D(6) [of i] by (simp add: map_of_eq_None_iff)
  obtain m1 where m1: "give_back A Hash_node (bt_hash b) ?ids m = Some m1" "ok m1" "owned (bt_hash b |` (- set ?ids)) (live Hash_node m1) (fr_nodes F Hash_node)"
    "\<And>k. k \<noteq> Hash_node \<Longrightarrow> live k m1 = live k m" "objects Array_object (mem_heap m1) = objects Array_object (mem_heap m)"
    by (rule give_back_mem [OF book_memD(1) [OF mem] own(3) D(2), of "bt_hash b"]) (use ids in blast)+
  have "(bt_hash b |` (- set ?ids)) i = None" for i using ids [of i] by (cases "i \<in> set ?ids") (simp_all only: restrict_map_def, simp_all)
  then have "bt_hash b |` (- set ?ids) = Map.empty" by (rule ext)
  then have hash: "live Hash_node m1 = fr_nodes F Hash_node" using m1(3) by (simp add: owned_def)
  have "bt_array b \<in> objects Array_object (mem_heap m1)" using m1(5) arr by simp
  then obtain h where h: "operator_delete (bt_array b) (mem_heap m1) = Some h" "heap_ok h" "objects Array_object h = objects Array_object (mem_heap m1) - {bt_array b}"
    "\<And>obj. obj \<noteq> Array_object \<Longrightarrow> objects obj h = objects obj (mem_heap m1)"
    using operator_delete_effect [OF heap [OF m1(2)]] by metis
  have m2: "ok (m1\<lparr>mem_heap := h\<rparr>)" "\<And>k. live k (m1\<lparr>mem_heap := h\<rparr>) = live k m1" using array_frame [OF m1(2) h(2)] h(4) by auto
  have "owned (bt_list b) (live List_node (m1\<lparr>mem_heap := h\<rparr>)) (fr_nodes F List_node)" "owned (bt_tree b) (live Tree_node (m1\<lparr>mem_heap := h\<rparr>)) (fr_nodes F Tree_node)"
    using own(1,2) m1(4) m2(2) by simp_all
  from destroy_sides_mem [OF m2(1) this book_memD(2) [OF mem] inv]
  obtain m3 m' where m': "destroy_levels A Sell b (ladder Sell (bt_book b)) (m1\<lparr>mem_heap := h\<rparr>) = Some m3" "destroy_levels A Buy b (ladder Buy (bt_book b)) m3 = Some m'"
    "ok m'" "live List_node m' = fr_nodes F List_node" "live Tree_node m' = fr_nodes F Tree_node" "live Hash_node m' = live Hash_node (m1\<lparr>mem_heap := h\<rparr>)"
    "objects Array_object (mem_heap m') = objects Array_object h"
    by auto
  then have "live k m' = fr_nodes F k" for k using m2(2) hash by (cases k) simp_all
  then show ?thesis using m1(1,5) h(1,3) arr m' by (simp add: destroy_book_def)
qed

end

text \<open>The books of a shard.\<close>

lemma shard_mem_rest:
  assumes s: "shard_mem ok used A0 ((t, b) # bs) m" and m': "ok m'" "\<And>k. used k m' = fr_nodes (others A0 t ((t, b) # bs)) k"
    "objects Array_object (mem_heap m') = fr_arrays (others A0 t ((t, b) # bs))"
  shows "shard_mem ok used A0 bs m'"
proof -
  have "map_of bs t = None" "distinct (map fst bs)" using shard_memD(2) [OF s] by (auto simp: map_of_eq_None_iff)
  then have sub: "map_of bs t' = Some c \<longleftrightarrow> map_of ((t, b) # bs) t' = Some c \<and> t' \<noteq> t" for t' c by auto
  then show ?thesis using s m' \<open>distinct (map fst bs)\<close> unfolding shard_mem_def sub by (simp only: others_def frame.simps) blast
qed

context node_allocator
begin

lemma destroy_books_mem:
  "shard_mem ok live A0 bs m \<Longrightarrow> \<exists>m'. destroy_books A bs m = Some m' \<and> shard_mem ok live A0 [] m'"
proof (induction bs arbitrary: m)
  case (Cons tb bs)
  obtain t b where tb: "tb = (t, b)" by fastforce
  have b: "map_of (tb # bs) t = Some b" by (simp add: tb)
  obtain m1 where m1: "destroy_book A b m = Some m1" "ok m1" "\<forall>k. live k m1 = fr_nodes (others A0 t (tb # bs)) k"
    "objects Array_object (mem_heap m1) = fr_arrays (others A0 t (tb # bs))"
    using destroy_book_mem [OF shard_mem_book [OF Cons.prems b]] by blast
  have "shard_mem ok live A0 bs m1" using shard_mem_rest [of ok live A0 t b bs m m1] Cons.prems m1(2-4) by (simp add: tb)
  then show ?case using Cons.IH m1(1) by (auto simp: tb)
qed simp

end

end
