(* ===== verification/Pipeline_Memory.thy ===== *)
theory Pipeline_Memory
  imports Book_Destruction
begin

text \<open>
  All shards of a pipeline together: the decoder threads apply their messages in any interleaving, each with its own shard index and so on the pools of its shard, and
  \<open>~ShardedPipeline\<close> destroys the books of shard after shard under the index of each.  The shards never touch each other's pools or arrays, and nothing is left when the pipeline is
  destroyed.
\<close>

subsection \<open>Model\<close>

text \<open>One message of shard \<open>i\<close>, applied by its thread.\<close>

definition shards_step :: "env \<Rightarrow> bool \<Rightarrow> nat \<Rightarrow> nat \<Rightarrow> Symbol \<Rightarrow> DecodedMessage \<Rightarrow> block books list \<times> node_pools mem \<Rightarrow>
    (ApplyError + ApplyResult, block books list \<times> node_pools mem) throwing" where
  "shards_step E ndebug cap i symbol msg s =
     (let (Bs, m) = s
      in if i < length Bs then
           map_option (\<lambda>(r, bs, m). (r, Bs[i := bs], m)) (shard_apply E (pool_allocator E ndebug cap i) symbol msg (Bs ! i, m))
         else None)"

fun shards_run :: "env \<Rightarrow> bool \<Rightarrow> nat \<Rightarrow> (nat \<times> Symbol \<times> DecodedMessage) list \<Rightarrow> block books list \<times> node_pools mem \<Rightarrow>
    ((ApplyError + ApplyResult) list, block books list \<times> node_pools mem) throwing" where
  "shards_run E ndebug cap [] s = Some (Inr [], s)"
| "shards_run E ndebug cap ((i, symbol, msg) # ms) s =
     and_then (shards_step E ndebug cap i symbol msg s) (\<lambda>r s.
     and_then (shards_run E ndebug cap ms s) (\<lambda>rs s. Some (Inr (r # rs), s)))"

text \<open>\<open>~ShardedPipeline\<close>, from shard \<open>i\<close> on\<close>

fun destroy_pipeline :: "env \<Rightarrow> bool \<Rightarrow> nat \<Rightarrow> nat \<Rightarrow> block books list \<Rightarrow> node_pools mem \<Rightarrow> node_pools mem option" where
  "destroy_pipeline E ndebug cap i [] m = Some m"
| "destroy_pipeline E ndebug cap i (bs # Bs) m = do {
     m \<leftarrow> destroy_books (pool_allocator E ndebug cap i) bs m;
     destroy_pipeline E ndebug cap (i + 1) Bs m }"

definition shard_messages :: "nat \<Rightarrow> (nat \<times> Symbol \<times> DecodedMessage) list \<Rightarrow> (Symbol \<times> DecodedMessage) list" where
  "shard_messages i ms = map snd (filter (\<lambda>x. fst x = i) ms)"

subsection \<open>The pools of the other shards\<close>

text \<open>The allocator of shard \<open>i\<close> also keeps the contract when the state of its memory includes which nodes the other shards have in use.\<close>

definition frozen :: "nat \<Rightarrow> nat \<Rightarrow> (nat \<Rightarrow> node_kind \<Rightarrow> block set) \<Rightarrow> node_pools mem \<Rightarrow> bool" where
  "frozen cap i G m \<longleftrightarrow> pool_mem_ok cap i m \<and> (\<forall>j k. j < kMaxPoolShards \<longrightarrow> j \<noteq> i \<longrightarrow> pool_nodes cap j k m = G j k)"

lemma allocate_others:
  assumes m: "pool_mem_ok cap i m" and run: "no_allocate (pool_allocator E ndebug cap i) k m = (r, m')" and j: "j < kMaxPoolShards" "j \<noteq> i"
  shows "pool_nodes cap j k' m' = pool_nodes cap j k' m"
proof -
  have h: "heap_ok (mem_heap m)" and ps: "pools_ok cap (mem_pools m k)" and i: "i < kMaxPoolShards" using m by (simp_all add: pool_mem_ok_def)
  obtain x m1 where en: "ensure_pool E i k m = (x, m1)" by fastforce
  note eff = ensure_pool_effect(2) [OF h en]
  obtain y ps' where al: "allocate_node cap i (mem_pools m k) = (y, ps')" by fastforce
  have "mem_pools m' = mem_pools m \<or> mem_pools m' = (mem_pools m)(k := ps')"
    using run en eff al by (cases x) (auto simp: pool_allocator_def pool_node_allocate_def)
  moreover have "live_blocks cap j ps' = live_blocks cap j (mem_pools m k)"
    using al j by (cases rule: allocate_ok [OF ps i]) auto
  ultimately show ?thesis unfolding pool_nodes_def by (elim disjE) simp_all
qed

lemma deallocate_others:
  assumes m: "pool_mem_ok cap i m" and a: "a \<in> pool_nodes cap i k m" and run: "no_deallocate (pool_allocator E ndebug cap i) k a m = Some m'"
    and j: "j < kMaxPoolShards" "j \<noteq> i"
  shows "pool_nodes cap j k' m' = pool_nodes cap j k' m"
proof -
  have ps: "pools_ok cap (mem_pools m k)" and i: "i < kMaxPoolShards" and a: "a \<in> live_blocks cap i (mem_pools m k)"
    using m a by (simp_all add: pool_mem_ok_def pool_nodes_def)
  have "ensure_pool E i k m = (Inr (), m)" using a by (intro ensure_pool_present) (auto simp: live_blocks_def split: option.splits)
  moreover obtain ps' where "deallocate_node ndebug cap i a (mem_pools m k) = Some ps'" "live_blocks cap j ps' = live_blocks cap j (mem_pools m k)"
    using deallocate_ok [OF ps i a] j by metis
  moreover from calculation have "m' = m\<lparr>mem_pools := (mem_pools m)(k := ps')\<rparr>" using run by (simp add: pool_allocator_def pool_node_deallocate_def)
  ultimately show ?thesis unfolding pool_nodes_def by simp
qed

interpretation pool_frames: node_allocator "pool_allocator E ndebug cap i" "frozen cap i G" "pool_nodes cap i" for E ndebug cap i G
proof (unfold_locales, goal_cases)
  case (1 m)
  then show ?case by (simp add: frozen_def pool_mem_ok_def)
next
  case (2 m k e m')
  then show ?case using pool_allocs.allocate_fails [OF _ 2(2)] allocate_others [OF _ 2(2)] by (simp add: frozen_def)
next
  case (3 m k a m')
  then show ?case using pool_allocs.allocate_fresh [OF _ 3(2)] allocate_others [OF _ 3(2)] by (simp add: frozen_def)
next
  case (4 m a k)
  then have ok: "pool_mem_ok cap i m" by (simp add: frozen_def)
  obtain m' where "no_deallocate (pool_allocator E ndebug cap i) k a m = Some m'" "pool_mem_ok cap i m'" "pool_nodes cap i k m' = pool_nodes cap i k m - {a}"
    "\<forall>k'. k' \<noteq> k \<longrightarrow> pool_nodes cap i k' m' = pool_nodes cap i k' m" "objects Array_object (mem_heap m') = objects Array_object (mem_heap m)"
    using pool_allocs.deallocate_live [OF ok 4(2), of E ndebug] by blast
  then show ?case using 4 deallocate_others [of cap i m a k E ndebug m'] by (simp add: frozen_def)
next
  case (5 m h k)
  then show ?case by (auto simp: frozen_def pool_mem_ok_def pool_nodes_def)
qed

subsection \<open>The shards together\<close>

definition arrays_of :: "'a books \<Rightarrow> nat set" where
  "arrays_of bs = {bt_array b |t b. map_of bs t = Some b}"

text \<open>The arrays that do not belong to shard \<open>i\<close>.\<close>

definition other_arrays :: "nat set \<Rightarrow> nat \<Rightarrow> 'a books list \<Rightarrow> nat set" where
  "other_arrays A0 i Bs = A0 \<union> {p. \<exists>j < length Bs. j \<noteq> i \<and> p \<in> arrays_of (Bs ! j)}"

definition shards_mem :: "nat \<Rightarrow> nat set \<Rightarrow> block books list \<Rightarrow> node_pools mem \<Rightarrow> bool" where
  "shards_mem cap A0 Bs m \<longleftrightarrow> length Bs \<le> kMaxPoolShards \<and> (\<forall>i < length Bs. pool_shard_mem cap i (other_arrays A0 i Bs) (Bs ! i) m)"

lemma shard_mem_arrays:
  assumes "shard_mem ok used A0 bs m"
  shows "objects Array_object (mem_heap m) = A0 \<union> arrays_of bs" "A0 \<inter> arrays_of bs = {}"
  using assms shard_memD(4) [OF assms] by (auto simp: shard_mem_def arrays_of_def)

text \<open>What a shard holds does not depend on the memory of the others.\<close>

lemma shard_mem_frame:
  assumes "shard_mem ok used A0 bs m" "ok' m'" "\<And>k. used' k m' = used k m" "objects Array_object (mem_heap m') = A1 \<union> arrays_of bs" "A1 \<inter> arrays_of bs = {}"
  shows "shard_mem ok' used' A1 bs m'"
proof -
  have "\<forall>t b. map_of bs t = Some b \<longrightarrow> bt_array b \<notin> A1" using assms(5) by (auto simp: arrays_of_def)
  then show ?thesis using assms(1-4) unfolding shard_mem_def arrays_of_def by simp
qed

text \<open>Whatever shard \<open>i\<close> does that keeps its own memory and leaves the nodes of the others alone keeps the memory of all.\<close>

lemma shards_mem_update:
  assumes s: "shards_mem cap A0 Bs m" and i: "i < length Bs"
    and step: "shard_mem (frozen cap i (\<lambda>j k. pool_nodes cap j k m)) (pool_nodes cap i) (other_arrays A0 i Bs) bs' m'"
  shows "shards_mem cap A0 (Bs[i := bs']) m'"
proof -
  note ar = shard_mem_arrays [OF step]
  have f: "frozen cap i (\<lambda>j k. pool_nodes cap j k m) m'" using shard_memD(1) [OF step] .
  have n: "length Bs \<le> kMaxPoolShards" using s by (simp add: shards_mem_def)
  have "pool_shard_mem cap j (other_arrays A0 j (Bs[i := bs'])) (Bs[i := bs'] ! j) m'" if j: "j < length Bs" for j
  proof (cases "j = i")
    case True
    have "other_arrays A0 i (Bs[i := bs']) = other_arrays A0 i Bs" by (auto simp: other_arrays_def)
    moreover have "pool_shard_mem cap i (other_arrays A0 i Bs) bs' m'" using shard_mem_frame [OF step, of "pool_mem_ok cap i" m' "pool_nodes cap i"] f ar by (simp add: frozen_def)
    ultimately show ?thesis using True i by simp
  next
    case False
    have sj: "pool_shard_mem cap j (other_arrays A0 j Bs) (Bs ! j) m" using s j by (simp add: shards_mem_def)
    note aj = shard_mem_arrays(2) [OF sj]
    have "pool_mem_ok cap j m'" "pool_nodes cap j k m' = pool_nodes cap j k m" for k using f j n False by (simp_all add: frozen_def pool_mem_ok_def)
    moreover have split: "other_arrays A0 i Bs = A0 \<union> arrays_of (Bs ! j) \<union> {p. \<exists>l < length Bs. l \<noteq> i \<and> l \<noteq> j \<and> p \<in> arrays_of (Bs ! l)}"
      "other_arrays A0 j (Bs[i := bs']) = A0 \<union> arrays_of bs' \<union> {p. \<exists>l < length Bs. l \<noteq> i \<and> l \<noteq> j \<and> p \<in> arrays_of (Bs ! l)}"
      using i j False by (auto simp: other_arrays_def nth_list_update split: if_splits)
    moreover have "A0 \<union> {p. \<exists>l < length Bs. l \<noteq> i \<and> l \<noteq> j \<and> p \<in> arrays_of (Bs ! l)} \<subseteq> other_arrays A0 j Bs" by (auto simp: other_arrays_def)
    ultimately have "pool_shard_mem cap j (other_arrays A0 j (Bs[i := bs'])) (Bs ! j) m'" using ar aj by (intro shard_mem_frame [OF sj]) auto
    then show ?thesis using False by simp
  qed
  then show ?thesis using n by (simp add: shards_mem_def)
qed

lemma shards_mem_frozen:
  assumes "shards_mem cap A0 Bs m" "i < length Bs"
  shows "shard_mem (frozen cap i (\<lambda>j k. pool_nodes cap j k m)) (pool_nodes cap i) (other_arrays A0 i Bs) (Bs ! i) m"
proof -
  have s: "pool_shard_mem cap i (other_arrays A0 i Bs) (Bs ! i) m" using assms by (simp add: shards_mem_def)
  show ?thesis using shard_memD(1) [OF s] by (intro shard_mem_frame [OF s] shard_mem_arrays [OF s]) (simp_all add: frozen_def)
qed

lemma shards_step_mem:
  assumes E: "env_ok E" and s: "shards_mem cap A0 Bs m" and i: "i < length Bs"
  shows "yields (shards_step E ndebug cap i t msg (Bs, m))
    (\<lambda>r (Bs', m'). \<exists>bs'. Bs' = Bs[i := bs'] \<and> shards_mem cap A0 Bs' m' \<and> shard_spec t msg (books_at (Bs ! i)) = Some (r, books_at bs')) (\<lambda>_ _. True)"
proof -
  note fr = pool_frames.shard_apply_mem [OF shards_mem_frozen [OF s i] E, of E ndebug t msg]
  show ?thesis
  proof (cases "shard_apply E (pool_allocator E ndebug cap i) t msg (Bs ! i, m)")
    case (Some x)
    obtain r bs' m' where x: "x = (r, bs', m')" using prod_cases3 by blast
    show ?thesis
    proof (cases r)
      case (Inr q)
      have "shard_mem (frozen cap i (\<lambda>j k. pool_nodes cap j k m)) (pool_nodes cap i) (other_arrays A0 i Bs) bs' m'" "shard_spec t msg (books_at (Bs ! i)) = Some (q, books_at bs')"
        using fr Some x Inr by simp_all
      then show ?thesis using shards_mem_update [OF s i] Some x Inr i by (auto simp: shards_step_def)
    qed (use Some x i in \<open>simp add: shards_step_def\<close>)
  qed (use fr in simp)
qed

text \<open>Every shard gets what its own messages make of its books, whatever the others do.\<close>

lemma shards_run_mem:
  assumes E: "env_ok E"
  shows "shards_mem cap A0 Bs m \<Longrightarrow> \<forall>x \<in> set ms. fst x < length Bs \<Longrightarrow> yields (shards_run E ndebug cap ms (Bs, m))
    (\<lambda>rs (Bs', m'). length Bs' = length Bs \<and> shards_mem cap A0 Bs' m' \<and>
       (\<forall>i < length Bs. \<exists>q. shard_spec_run (shard_messages i ms) (books_at (Bs ! i)) = Some (q, books_at (Bs' ! i)))) (\<lambda>_ _. True)"
proof (induction ms arbitrary: Bs m)
  case (Cons x ms)
  obtain i t msg where x: "x = (i, t, msg)" using prod_cases3 by blast
  have i: "i < length Bs" using Cons.prems(2) x by simp
  show ?case unfolding x shards_run.simps
  proof (rule yields_and_then [OF shards_step_mem [OF E Cons.prems(1) i]], clarify)
    fix r m1 bs'
    assume m1: "shards_mem cap A0 (Bs[i := bs']) m1" and spec: "shard_spec t msg (books_at (Bs ! i)) = Some (r, books_at bs')"
    have IH: "yields (shards_run E ndebug cap ms (Bs[i := bs'], m1))
      (\<lambda>rs (Bs', m'). length Bs' = length Bs \<and> shards_mem cap A0 Bs' m' \<and>
         (\<forall>j < length Bs. \<exists>q. shard_spec_run (shard_messages j ms) (books_at (Bs[i := bs'] ! j)) = Some (q, books_at (Bs' ! j)))) (\<lambda>_ _. True)"
      using Cons.IH [OF m1] Cons.prems(2) by simp
    show "yields (and_then (shards_run E ndebug cap ms (Bs[i := bs'], m1)) (\<lambda>rs s. Some (Inr (r # rs), s)))
      (\<lambda>rs (Bs', m'). length Bs' = length Bs \<and> shards_mem cap A0 Bs' m' \<and>
         (\<forall>j < length Bs. \<exists>q. shard_spec_run (shard_messages j ((i, t, msg) # ms)) (books_at (Bs ! j)) = Some (q, books_at (Bs' ! j)))) (\<lambda>_ _. True)"
    proof (rule yields_and_then [OF IH], clarsimp)
      fix Bs' m' j
      assume "\<forall>j < length Bs. \<exists>q. shard_spec_run (shard_messages j ms) (books_at (Bs[i := bs'] ! j)) = Some (q, books_at (Bs' ! j))" "j < length Bs"
      then obtain q where "shard_spec_run (shard_messages j ms) (books_at (Bs[i := bs'] ! j)) = Some (q, books_at (Bs' ! j))" by blast
      then show "\<exists>q. shard_spec_run (shard_messages j ((i, t, msg) # ms)) (books_at (Bs ! j)) = Some (q, books_at (Bs' ! j))"
        using spec i by (cases "j = i") (auto simp: shard_messages_def)
    qed
  qed
qed (simp add: shard_messages_def)

lemma destroy_pipeline_mem:
  "shards_mem cap A0 (replicate i [] @ Bs) m \<Longrightarrow>
    \<exists>m'. destroy_pipeline E ndebug cap i Bs m = Some m' \<and> shards_mem cap A0 (replicate (i + length Bs) []) m'"
proof (induction Bs arbitrary: i m)
  case (Cons bs Bs)
  let ?Bs = "replicate i [] @ bs # Bs"
  have i: "i < length ?Bs" "?Bs ! i = bs" "?Bs[i := []] = replicate (i + 1) [] @ Bs"
    by (simp_all add: nth_append list_update_append replicate_append_same [symmetric])
  obtain m1 where m1: "destroy_books (pool_allocator E ndebug cap i) bs m = Some m1"
    "shard_mem (frozen cap i (\<lambda>j k. pool_nodes cap j k m)) (pool_nodes cap i) (other_arrays A0 i ?Bs) [] m1"
    using pool_frames.destroy_books_mem [OF shards_mem_frozen [OF Cons.prems i(1)], of E ndebug] i(2) by auto
  have "shards_mem cap A0 (replicate (i + 1) [] @ Bs) m1" using shards_mem_update [OF Cons.prems i(1) m1(2)] i(3) by simp
  then show ?case using Cons.IH [of "i + 1" m1] m1(1) by simp
qed simp

lemma other_arrays_empty: "other_arrays A0 i (replicate n []) = A0"
  by (auto simp: other_arrays_def arrays_of_def)

lemma shards_mem_start:
  assumes "heap_ok h" "n \<le> kMaxPoolShards" "0 < cap" "cap < 2 ^ 64"
  shows "shards_mem cap (objects Array_object h) (replicate n []) (shard_start h)"
  using assms shard_start_mem [OF assms(1) _ assms(3,4)] by (simp add: shards_mem_def other_arrays_empty)

text \<open>No nodes in use: the counter of the pool is 0.\<close>

lemma in_use_zero:
  assumes "pool_mem_ok cap i m" "pool_nodes cap i k m = {}"
  shows "allocator_in_use cap i (mem_pools m k) = Some 0"
proof -
  have "map_option unat (allocator_in_use cap i (mem_pools m k)) = Some 0"
    using in_use_live [of cap "mem_pools m k" i] assms by (simp add: pool_mem_ok_def pool_nodes_def)
  then show ?thesis by (auto simp: unat_eq_0)
qed

subsection \<open>Properties\<close>

text \<open>
  C10. The memory of a whole pipeline, for every interleaving of the messages of its shards: no container touches memory it does not hold (the run is defined, exceptions included).  When no
  allocation has failed, each shard's books are those that its own messages make with unlimited memory, and its pools have exactly the nodes of its books in use.
  Then \<open>~ShardedPipeline\<close> releases every node to the pool it came from: no assertion fails, all counters of nodes in use are 0, and the heap has the arrays
  it had before.
\<close>

theorem pipeline_memory_balanced:
  assumes "env_ok E" "heap_ok h" "0 < n" "n \<le> kMaxPoolShards" "0 < cap" "cap < 2 ^ 64" "\<forall>x \<in> set ms. fst x < n"
  shows "\<exists>r Bs m. shards_run E ndebug cap ms (replicate n [], shard_start h) = Some (r, Bs, m) \<and>
    (\<forall>rs. r = Inr rs \<longrightarrow>
       (\<forall>i < n. (\<exists>q. shard_spec_run (shard_messages i ms) (\<lambda>_. order_book_init) = Some (q, books_at (Bs ! i))) \<and>
          card (pool_nodes cap i List_node m) = resting_total (Bs ! i)) \<and>
       (\<exists>m'. destroy_pipeline E ndebug cap 0 Bs m = Some m' \<and> (\<forall>i < n. \<forall>k. allocator_in_use cap i (mem_pools m' k) = Some 0) \<and>
          objects Array_object (mem_heap m') = objects Array_object h))"
proof -
  let ?A0 = "objects Array_object h"
  note y = shards_run_mem [OF assms(1) shards_mem_start [OF assms(2,4-6)], of ms ndebug]
  obtain r Bs m where run: "shards_run E ndebug cap ms (replicate n [], shard_start h) = Some (r, Bs, m)"
    using y assms(7) by (auto simp: yields_def split: option.splits)
  have "(\<forall>i < n. (\<exists>q. shard_spec_run (shard_messages i ms) (\<lambda>_. order_book_init) = Some (q, books_at (Bs ! i))) \<and> card (pool_nodes cap i List_node m) = resting_total (Bs ! i)) \<and>
       (\<exists>m'. destroy_pipeline E ndebug cap 0 Bs m = Some m' \<and> (\<forall>i < n. \<forall>k. allocator_in_use cap i (mem_pools m' k) = Some 0) \<and> objects Array_object (mem_heap m') = ?A0)"
    if "r = Inr rs" for rs
  proof -
    have empty: "books_at ([] :: block books) = (\<lambda>_. order_book_init)" by (simp add: books_at_def fun_eq_iff)
    have s: "length Bs = n" "shards_mem cap ?A0 Bs m"
      "\<forall>i < n. \<exists>q. shard_spec_run (shard_messages i ms) (\<lambda>_. order_book_init) = Some (q, books_at (Bs ! i))"
      using y assms(7) run that by (simp_all add: empty)
    have "card (pool_nodes cap i List_node m) = resting_total (Bs ! i)" if "i < n" for i
      using s(1,2) that shard_nodes(1) [of "pool_mem_ok cap i" "pool_nodes cap i" _ "Bs ! i" m] by (auto simp: shards_mem_def)
    moreover obtain m' where m': "destroy_pipeline E ndebug cap 0 Bs m = Some m'" "shards_mem cap ?A0 (replicate n []) m'"
      using destroy_pipeline_mem [of cap ?A0 0 Bs m E ndebug] s(1,2) by auto
    have e: "pool_shard_mem cap i ?A0 [] m'" if "i < n" for i
      using m'(2) that by (simp add: shards_mem_def other_arrays_empty)
    have "allocator_in_use cap i (mem_pools m' k) = Some 0" if "i < n" for i k
      using in_use_zero [OF shard_memD(1) [OF e [OF that]]] shard_memD(3) [OF e [OF that], of k] by simp
    moreover have "objects Array_object (mem_heap m') = ?A0" using shard_mem_arrays(1) [OF e [OF assms(3)]] by (simp add: arrays_of_def)
    ultimately show ?thesis using s(3) m'(1) by blast
  qed
  then show ?thesis using run by blast
qed

lemma and_then_Inr: "and_then x f = Some (Inr r, s) \<Longrightarrow> \<exists>q t. x = Some (Inr q, t) \<and> f q t = Some (Inr r, s)"
  by (auto simp: and_then_def split: option.splits sum.splits)

lemma demo_shards_run:
  "\<exists>rs Bs m. shards_run demo_env False 1 [(0, ''AAPL    '', demo_order 1)] (replicate 1 [], shard_start heap_init) = Some (Inr rs, Bs, m) \<and> resting_total (Bs ! 0) = 1"
proof -
  obtain rs bs m where run: "shard_run demo_env (pool_allocator demo_env False 1 0) demo_orders ([], shard_start heap_init) = Some (Inr rs, bs, m)" "resting_total bs = 1"
    by (rule demo_shardE)
  obtain r where "shard_apply demo_env (pool_allocator demo_env False 1 0) ''AAPL    '' (demo_order 1) ([], shard_start heap_init) = Some (Inr r, bs, m)"
    using and_then_Inr [OF run(1) [unfolded demo_orders_def shard_run.simps]] by auto
  then show ?thesis using run(2) by (simp add: shards_step_def)
qed

theorem pipeline_memory_balanced_witness:
  "\<exists>rs Bs m m'. shards_run demo_env False 1 [(0, ''AAPL    '', demo_order 1)] (replicate 1 [], shard_start heap_init) = Some (Inr rs, Bs, m) \<and>
     card (pool_nodes 1 0 List_node m) = 1 \<and> destroy_pipeline demo_env False 1 0 Bs m = Some m' \<and> allocator_in_use 1 0 (mem_pools m' List_node) = Some 0"
proof -
  obtain rs Bs m where run: "shards_run demo_env False 1 [(0, ''AAPL    '', demo_order 1)] (replicate 1 [], shard_start heap_init) = Some (Inr rs, Bs, m)" "resting_total (Bs ! 0) = 1"
    using demo_shards_run by (elim exE conjE)
  have "\<forall>x \<in> set [(0 :: nat, ''AAPL    '', demo_order 1)]. fst x < 1" "(1 :: nat) \<le> kMaxPoolShards" using demo_sizes(1) by simp_all
  note b = pipeline_memory_balanced [OF demo_env_ok(1,3) demo_sizes(2) this(2) demo_sizes(2,3) this(1), of False]
  have "card (pool_nodes 1 0 List_node m) = 1" "\<exists>m'. destroy_pipeline demo_env False 1 0 Bs m = Some m' \<and> allocator_in_use 1 0 (mem_pools m' List_node) = Some 0"
    using b run by auto
  then show ?thesis using run(1) by blast
qed

end
