(* ===== verification/Allocation_Bench.thy ===== *)
theory Allocation_Bench
  imports Node_Budget
begin

text \<open>
  The workload of \<open>bench/allocation_bench.cpp\<close>: a working set of resting orders, and cycles that remove one order and add another.  The book is the
  model of \<open>Order_Book\<close>; the results of \<open>apply\<close> are ignored, as in the benchmark.  \<open>Allocation_Counts\<close> adds the memory of the book and the output.
\<close>

subsection \<open>Model\<close>

definition kWorkingSetSize :: nat where
  "kWorkingSetSize = 20000"

definition kOrdersProcessed :: nat where
  "kOrdersProcessed = 2000000"

definition kNumPriceLevels :: nat where
  "kNumPriceLevels = 50"

definition make_add :: "OrderId \<Rightarrow> Side \<Rightarrow> Price \<Rightarrow> Quantity \<Rightarrow> AddOrder" where
  "make_add oid side price qty = \<lparr>add_seq_num = oid, add_order_id = oid, add_symbol = make_symbol ''BENCH'', add_side = side,
     add_price = price, add_quantity = qty, add_timestamp = oid\<rparr>"

definition make_cancel :: "OrderId \<Rightarrow> CancelOrder" where
  "make_cancel oid = \<lparr>cxl_seq_num = oid, cxl_order_id = oid, cxl_timestamp = oid\<rparr>"

definition make_execute :: "OrderId \<Rightarrow> Quantity \<Rightarrow> ExecuteOrder" where
  "make_execute oid qty = \<lparr>exe_seq_num = oid, exe_order_id = oid, exe_executed_quantity = qty, exe_timestamp = oid\<rparr>"

definition slot_side :: "nat \<Rightarrow> Side" where
  "slot_side i = (if i mod 2 = 0 then Buy else Sell)"

definition slot_price :: "nat \<Rightarrow> Price" where
  "slot_price i = Int64 (10000 + of_nat (i mod kNumPriceLevels))"

function prime_loop :: "nat \<Rightarrow> nat \<Rightarrow> OrderBook \<Rightarrow> OrderId list \<Rightarrow> (OrderBook \<times> OrderId list) option" where
  "prime_loop i n b resting =
     (if i < n then do {
        let oid = of_nat (i + 1);
        (_, b) \<leftarrow> apply_msg (AddMsg (make_add oid (slot_side i) (slot_price i) 100)) b;
        prime_loop (i + 1) n b (resting @ [oid]) }
      else Some (b, resting))"
  by pat_completeness auto
termination
  by (relation "measure (\<lambda>(i, n, b, resting). n - i)") auto

declare prime_loop.simps [simp del]

definition prime_working_set :: "OrderBook \<Rightarrow> (OrderBook \<times> OrderId list) option" where
  "prime_working_set b = prime_loop 0 kWorkingSetSize b []"

function steady_loop :: "nat \<Rightarrow> nat \<Rightarrow> OrderId \<Rightarrow> OrderBook \<Rightarrow> OrderId list \<Rightarrow> (OrderBook \<times> OrderId list) option" where
  "steady_loop i n next_id b resting =
     (if i < n then
        (if resting = [] then None
         else do {
           let slot = i mod length resting;
           let old_id = resting ! slot;
           (_, b) \<leftarrow> (if i mod 2 = 0 then apply_msg (CancelMsg (make_cancel old_id)) b
                       else apply_msg (ExecuteMsg (make_execute old_id 100)) b);
           (_, b) \<leftarrow> apply_msg (AddMsg (make_add next_id (slot_side slot) (slot_price slot) 100)) b;
           steady_loop (i + 1) n (next_id + 1) b (resting[slot := next_id]) })
      else Some (b, resting))"
  by pat_completeness auto
termination
  by (relation "measure (\<lambda>(i, n, next_id, b, resting). n - i)") auto

declare steady_loop.simps [simp del]

definition run_steady_state :: "nat \<Rightarrow> OrderBook \<Rightarrow> OrderId list \<Rightarrow> (OrderBook \<times> OrderId list) option" where
  "run_steady_state n b resting = steady_loop 0 n (of_nat (length resting + 1)) b resting"

subsection \<open>The working set\<close>

definition slot_order :: "nat \<Rightarrow> OrderId \<Rightarrow> RestingOrder" where
  "slot_order k oid = \<lparr>ro_order_id = oid, ro_side = slot_side k, ro_price = slot_price k, ro_quantity = 100\<rparr>"

definition working_set :: "OrderId list \<Rightarrow> RestingOrder set" where
  "working_set resting = (\<lambda>k. slot_order k (resting ! k)) ` {..<length resting}"

definition bench_ok :: "OrderBook \<Rightarrow> OrderId list \<Rightarrow> nat \<Rightarrow> bool" where
  "bench_ok b resting next_id \<longleftrightarrow> book_ok b \<and> distinct resting \<and> (\<forall>oid \<in> set resting. unat oid < next_id) \<and>
     set (book_orders b) = working_set resting \<and> resting_orders b = length resting"

lemma spec_find_member:
  "distinct (map ro_order_id L) \<Longrightarrow> ord \<in> set L \<Longrightarrow> spec_find (ro_order_id ord) L = Some ord"
  unfolding spec_find_def by (induction L) (auto simp: image_iff)

lemma spec_remove_member:
  assumes "distinct (map ro_order_id L)" "ord \<in> set L"
  shows "set (spec_remove (ro_order_id ord) L) = set L - {ord}" "length (spec_remove (ro_order_id ord) L) = length L - 1"
proof -
  show s: "set (spec_remove (ro_order_id ord) L) = set L - {ord}"
    using assms by (auto simp: spec_remove_def distinct_map inj_on_def)
  have "distinct L" using assms(1) distinct_map by blast
  moreover have "distinct (spec_remove (ro_order_id ord) L)" using calculation by (simp add: spec_remove_def)
  ultimately show "length (spec_remove (ro_order_id ord) L) = length L - 1"
    using s assms(2) by (metis card_Diff_singleton distinct_card)
qed

text \<open>Adding an order with a new identifier, and removing an order by either message.\<close>

lemma bench_add:
  assumes ok: "book_ok b" and new: "oid \<notin> ro_order_id ` set (book_orders b)"
  obtains r b' where "apply_msg (AddMsg (make_add oid (slot_side k) (slot_price k) 100)) b = Some (Inr r, b')" "book_ok b'"
    "set (book_orders b') = insert (slot_order k oid) (set (book_orders b))" "resting_orders b' = Suc (resting_orders b)"
proof -
  let ?m = "AddMsg (make_add oid (slot_side k) (slot_price k) 100)"
  obtain r b' where step: "apply_msg ?m b = Some (r, b')" "book_ok b'" "spec_apply ?m (book_orders b) = (outcome_deltas r, book_orders b')"
    by (rule book_stepE [OF ok])
  have "spec_find oid (book_orders b) = None" using new by (simp add: spec_find_None)
  then have "book_orders b' = book_orders b @ [slot_order k oid]" "\<exists>r'. r = Inr r'"
    using step(3) by (cases r; auto simp: make_add_def slot_order_def Let_def)+
  then show thesis using that step(1,2) by (auto simp: resting_orders_def)
qed

lemma bench_remove:
  assumes ok: "book_ok b" and old: "slot_order k oid \<in> set (book_orders b)"
  obtains r b' where "(if c then apply_msg (CancelMsg (make_cancel oid)) b else apply_msg (ExecuteMsg (make_execute oid 100)) b) = Some (Inr r, b')"
    "book_ok b'" "set (book_orders b') = set (book_orders b) - {slot_order k oid}" "resting_orders b' = resting_orders b - 1"
proof -
  let ?m = "if c then CancelMsg (make_cancel oid) else ExecuteMsg (make_execute oid 100)"
  obtain r b' where step: "apply_msg ?m b = Some (r, b')" "book_ok b'" "spec_apply ?m (book_orders b) = (outcome_deltas r, book_orders b')"
    by (rule book_stepE [OF ok])
  have d: "distinct (map ro_order_id (book_orders b))" using ok by (simp add: book_ok_def)
  have "spec_find oid (book_orders b) = Some (slot_order k oid)" using spec_find_member [OF d old] by (simp add: slot_order_def)
  then have "book_orders b' = spec_remove oid (book_orders b)" "\<exists>r'. r = Inr r'"
    using step(3) by (cases r; auto simp: make_cancel_def make_execute_def slot_order_def Let_def split: if_splits)+
  moreover have "ro_order_id (slot_order k oid) = oid" by (simp add: slot_order_def)
  ultimately show thesis
    using that step(1,2) spec_remove_member [OF d old] by (cases c) (auto simp: resting_orders_def)
qed

lemma working_set_snoc: "working_set (resting @ [oid]) = insert (slot_order (length resting) oid) (working_set resting)"
  by (auto simp: working_set_def nth_append lessThan_Suc)

lemma working_set_ids: "ro_order_id ` working_set resting = set resting"
  by (auto simp: working_set_def slot_order_def image_image set_conv_nth)

lemma working_set_update:
  assumes "distinct resting" "slot < length resting" "oid \<notin> set resting"
  shows "working_set (resting[slot := oid]) = insert (slot_order slot oid) (working_set resting - {slot_order slot (resting ! slot)})"
proof -
  have other: "slot_order k (resting ! k) \<noteq> slot_order slot (resting ! slot)" if "k < length resting" "k \<noteq> slot" for k
    using that assms(1,2) by (simp add: slot_order_def nth_eq_iff_index_eq)
  show ?thesis
  proof (intro equalityI subsetI)
    fix x
    assume "x \<in> working_set (resting[slot := oid])"
    then obtain k where "k < length resting" "x = slot_order k (resting[slot := oid] ! k)" by (auto simp: working_set_def)
    then show "x \<in> insert (slot_order slot oid) (working_set resting - {slot_order slot (resting ! slot)})"
      using other [of k] by (cases "k = slot") (auto simp: working_set_def)
  next
    fix x
    assume x: "x \<in> insert (slot_order slot oid) (working_set resting - {slot_order slot (resting ! slot)})"
    show "x \<in> working_set (resting[slot := oid])"
    proof (cases "x = slot_order slot oid")
      case True
      then show ?thesis using assms(2) unfolding working_set_def by (intro image_eqI [of _ _ slot]) auto
    next
      case False
      then obtain k where "k < length resting" "x = slot_order k (resting ! k)" "k \<noteq> slot" using x by (auto simp: working_set_def)
      then show ?thesis unfolding working_set_def by (intro image_eqI [of _ _ k]) auto
    qed
  qed
qed

lemma fresh_id:
  assumes "\<forall>oid \<in> set resting. unat oid < next_id" "next_id < 2 ^ 64"
  shows "(of_nat next_id :: OrderId) \<notin> set resting" "unat (of_nat next_id :: OrderId) = next_id"
proof -
  show u: "unat (of_nat next_id :: OrderId) = next_id" using assms(2) by (simp add: unat_of_nat)
  then show "(of_nat next_id :: OrderId) \<notin> set resting" using assms(1) by (metis less_irrefl)
qed

lemma prime_loop_ok:
  assumes "bench_ok b resting (i + 1)" "length resting = i" "i \<le> n" "n < 2 ^ 64 - 1"
  shows "\<exists>b' resting'. prime_loop i n b resting = Some (b', resting') \<and> bench_ok b' resting' (n + 1) \<and> length resting' = n"
  using assms
proof (induction i n b resting rule: prime_loop.induct)
  case (1 i n b resting)
  show ?case
  proof (cases "i < n")
    case True
    let ?oid = "of_nat (i + 1) :: OrderId"
    have fresh: "?oid \<notin> set resting" "unat ?oid = i + 1"
      using fresh_id [of resting "i + 1"] "1.prems" True by (simp_all add: bench_ok_def del: of_nat_Suc)
    have ids: "ro_order_id ` set (book_orders b) = set resting" using "1.prems"(1) working_set_ids by (simp add: bench_ok_def)
    obtain r b1 where b1: "apply_msg (AddMsg (make_add ?oid (slot_side i) (slot_price i) 100)) b = Some (Inr r, b1)" "book_ok b1"
        "set (book_orders b1) = insert (slot_order i ?oid) (set (book_orders b))" "resting_orders b1 = Suc (resting_orders b)"
      using bench_add [of b ?oid i] "1.prems"(1) fresh(1) ids unfolding bench_ok_def by metis
    have ok: "bench_ok b1 (resting @ [?oid]) (i + 1 + 1)"
      using "1.prems"(1,2) fresh b1(2-4) by (auto simp: bench_ok_def working_set_snoc less_Suc_eq simp del: of_nat_Suc)
    have run: "prime_loop i n b resting = prime_loop (i + 1) n b1 (resting @ [?oid])"
      using True b1(1) by (simp add: prime_loop.simps [of i] del: apply_msg.simps)
    show ?thesis unfolding run by (rule "1.IH" [OF True refl _ refl]) (use ok b1(1) "1.prems" True in simp_all)
  next
    case False
    then have "prime_loop i n b resting = Some (b, resting)" by (simp add: prime_loop.simps [of i])
    then show ?thesis using False "1.prems" by simp
  qed
qed

lemma steady_loop_ok:
  assumes "bench_ok b resting next_id" "length resting = w" "0 < w" "i \<le> n" "next_id + (n - i) < 2 ^ 64"
  shows "\<exists>b' resting'. steady_loop i n (of_nat next_id) b resting = Some (b', resting') \<and>
    bench_ok b' resting' (next_id + (n - i)) \<and> length resting' = w"
  using assms
proof (induction "n - i" arbitrary: i next_id b resting)
  case 0
  then show ?case by (simp add: steady_loop.simps [of i])
next
  case (Suc x)
  let ?slot = "i mod length resting" and ?oid = "of_nat next_id :: OrderId"
  have i: "i < n" using Suc.hyps(2) by simp
  have slot: "?slot < length resting" using Suc.prems by simp
  have fresh: "?oid \<notin> set resting" "unat ?oid = next_id"
    using fresh_id [of resting next_id] Suc.prems i by (simp_all add: bench_ok_def)
  have old: "slot_order ?slot (resting ! ?slot) \<in> set (book_orders b)"
    using Suc.prems(1) slot by (auto simp: bench_ok_def working_set_def)
  have ids: "ro_order_id ` set (book_orders b) = set resting" using Suc.prems(1) working_set_ids by (simp add: bench_ok_def)
  obtain r b1 where b1: "(if i mod 2 = 0 then apply_msg (CancelMsg (make_cancel (resting ! ?slot))) b
        else apply_msg (ExecuteMsg (make_execute (resting ! ?slot) 100)) b) = Some (Inr r, b1)" "book_ok b1"
      "set (book_orders b1) = set (book_orders b) - {slot_order ?slot (resting ! ?slot)}" "resting_orders b1 = resting_orders b - 1"
    using bench_remove [OF _ old] Suc.prems(1) unfolding bench_ok_def by metis
  have new: "?oid \<notin> ro_order_id ` set (book_orders b1)" using fresh(1) ids b1(3) by auto
  obtain r2 b2 where b2: "apply_msg (AddMsg (make_add ?oid (slot_side ?slot) (slot_price ?slot) 100)) b1 = Some (Inr r2, b2)" "book_ok b2"
      "set (book_orders b2) = insert (slot_order ?slot ?oid) (set (book_orders b1))" "resting_orders b2 = Suc (resting_orders b1)"
    by (rule bench_add [OF b1(2) new])
  have d: "distinct resting" using Suc.prems(1) by (simp add: bench_ok_def)
  have "resting_orders b2 = length resting" using b1(4) b2(4) Suc.prems by (simp add: bench_ok_def)
  moreover have "\<forall>oid \<in> set (resting[?slot := ?oid]). unat oid < next_id + 1"
    using Suc.prems(1) fresh(2) set_update_subset_insert [of resting ?slot ?oid] by (auto simp: bench_ok_def less_Suc_eq)
  ultimately have ok: "bench_ok b2 (resting[?slot := ?oid]) (next_id + 1)"
    using b1(3) b2(2,3) Suc.prems(1) replace_nth(1) [OF d slot fresh(1)] working_set_update [OF d slot fresh(1)]
    by (simp add: bench_ok_def)
  have run: "steady_loop i n ?oid b resting = steady_loop (i + 1) n (of_nat (next_id + 1)) b2 (resting[?slot := ?oid])"
    using i b1(1) b2(1) Suc.prems(2,3) by (auto simp: steady_loop.simps [of i] add.commute simp del: apply_msg.simps split: if_splits)
  have left: "next_id + 1 + (n - (i + 1)) = next_id + (n - i)" "x = n - (i + 1)" using i Suc.hyps(2) by simp_all
  from Suc.hyps(1) [OF left(2) ok, unfolded left(1)] show ?case unfolding run using Suc.prems i by simp
qed

text \<open>
  The benchmark measures the steady state it claims to measure: after any number of cycles (up to the two million it runs) the book holds exactly the 20000 orders of the working set, one per slot with the side, price and quantity of that slot,
  well within the capacity of the pools.
\<close>

theorem bench_keeps_working_set:
  assumes "k \<le> kOrdersProcessed"
  shows "\<exists>b0 resting0 b resting. prime_working_set order_book_init = Some (b0, resting0) \<and>
    run_steady_state k b0 resting0 = Some (b, resting) \<and> length resting = kWorkingSetSize \<and> distinct resting \<and>
    set (book_orders b) = working_set resting \<and> resting_orders b = kWorkingSetSize \<and> resting_orders b < kShardOrderPoolCapacity"
proof -
  have "bench_ok order_book_init [] (0 + 1)"
    using book_ok_init by (simp add: bench_ok_def working_set_def resting_orders_def book_orders_def book_pairs_def order_book_init_def)
  then obtain b0 resting0 where p: "prime_working_set order_book_init = Some (b0, resting0)"
    and b0: "bench_ok b0 resting0 (kWorkingSetSize + 1)" "length resting0 = kWorkingSetSize"
    unfolding prime_working_set_def using prime_loop_ok [of order_book_init "[]" 0 kWorkingSetSize] by (auto simp: kWorkingSetSize_def)
  obtain b resting where "run_steady_state k b0 resting0 = Some (b, resting)" "bench_ok b resting (kWorkingSetSize + 1 + (k - 0))"
    "length resting = kWorkingSetSize"
    unfolding run_steady_state_def b0(2)
    using steady_loop_ok [OF b0, of 0 k] assms by (auto simp: kWorkingSetSize_def kOrdersProcessed_def simp del: of_nat_add)
  then show ?thesis
    using p by (auto simp: bench_ok_def kShardOrderPoolCapacity kWorkingSetSize_def)
qed

theorem bench_keeps_working_set_witness:
  "\<exists>b0 resting0 b resting. prime_working_set order_book_init = Some (b0, resting0) \<and>
    run_steady_state 3 b0 resting0 = Some (b, resting) \<and> resting_orders b = kWorkingSetSize"
  using bench_keeps_working_set [of 3] by (auto simp: kOrdersProcessed_def)

end
