(* ===== verification/Double_Rounding.thy ===== *)
theory Double_Rounding
  imports Complex_Main "HOL-Library.Log_Nat"
begin

text \<open>
  Rounding to the precision of a \<open>double\<close>, for the arithmetic of the benchmark reports: a value is the rational number that it denotes, and
  an operation is the exact one followed by rounding to 53 binary digits, to the nearest and on a tie to the even one.  Overflow and the
  subnormal range are left out; the values here lie far from both.
\<close>

definition round_half_even :: "rat \<Rightarrow> int" where
  "round_half_even q =
     (let f = \<lfloor>q\<rfloor>; d = q - of_int f
      in if d < 1 / 2 \<or> d = 1 / 2 \<and> even f then f else f + 1)"

text \<open>The exponent \<open>e\<close> with \<open>2 ^ e \<le> x < 2 ^ (e + 1)\<close>.\<close>

definition binary_exponent :: "rat \<Rightarrow> int" where
  "binary_exponent x = (if 1 \<le> x then bitlen \<lfloor>x\<rfloor> - 1 else - bitlen (\<lceil>1 / x\<rceil> - 1))"

definition ulp :: "rat \<Rightarrow> rat" where
  "ulp x = 2 powi (binary_exponent x - 52)"

definition to_double :: "rat \<Rightarrow> rat" where
  "to_double x =
     (if x = 0 then 0
      else if 0 < x then of_int (round_half_even (x / ulp x)) * ulp x
      else - (of_int (round_half_even (- x / ulp (- x))) * ulp (- x)))"

subsection \<open>Rounding to an integer\<close>

lemma round_half_even_le: "q \<le> of_int k \<Longrightarrow> round_half_even q \<le> k"
proof -
  assume q: "q \<le> of_int k"
  show ?thesis
  proof (cases "q = of_int k")
    case False
    then have "\<lfloor>q\<rfloor> < k" using q by (simp add: floor_less_iff)
    then show ?thesis by (simp add: round_half_even_def Let_def)
  qed (simp add: round_half_even_def)
qed

lemma round_half_even_error: "\<bar>of_int (round_half_even q) - q\<bar> \<le> 1 / 2"
proof -
  have "of_int \<lfloor>q\<rfloor> \<le> q" "q < of_int \<lfloor>q\<rfloor> + 1" by linarith+
  then show ?thesis by (auto simp: round_half_even_def Let_def abs_le_iff)
qed

subsection \<open>The exponent\<close>

lemma bitlen_floor: "1 \<le> x \<Longrightarrow> 2 powi (bitlen \<lfloor>x\<rfloor> - 1) \<le> (x :: rat) \<and> x < 2 powi bitlen \<lfloor>x\<rfloor>"
proof -
  assume x: "1 \<le> x"
  then have f: "0 < \<lfloor>x\<rfloor>" by simp
  then have b: "2 ^ nat (bitlen \<lfloor>x\<rfloor> - 1) \<le> \<lfloor>x\<rfloor>" "\<lfloor>x\<rfloor> < 2 ^ nat (bitlen \<lfloor>x\<rfloor>)" using bitlen_bounds by auto
  have pos: "0 < bitlen \<lfloor>x\<rfloor>" using f bitlen_eq_zero_iff [of "\<lfloor>x\<rfloor>"] bitlen_nonneg [of "\<lfloor>x\<rfloor>"] by linarith
  have "(2 :: rat) powi (bitlen \<lfloor>x\<rfloor> - 1) = of_int (2 ^ nat (bitlen \<lfloor>x\<rfloor> - 1))" using pos by (simp add: power_int_def)
  also have "\<dots> \<le> of_int \<lfloor>x\<rfloor>" using b(1) by (simp only: of_int_le_iff)
  finally have lo: "2 powi (bitlen \<lfloor>x\<rfloor> - 1) \<le> x" using of_int_floor_le order_trans by blast
  have "x < of_int (\<lfloor>x\<rfloor> + 1)" by linarith
  also have "\<dots> \<le> of_int (2 ^ nat (bitlen \<lfloor>x\<rfloor>))" using b(2) by (simp only: of_int_le_iff)
  also have "\<dots> = 2 powi bitlen \<lfloor>x\<rfloor>" using pos by (simp add: power_int_def)
  finally show ?thesis using lo by simp
qed

lemma bitlen_ceiling:
  assumes "0 < x" "x < (1 :: rat)"
  shows "2 powi (- bitlen (\<lceil>1 / x\<rceil> - 1)) \<le> x \<and> x < 2 powi (1 - bitlen (\<lceil>1 / x\<rceil> - 1))"
proof -
  let ?m = "\<lceil>1 / x\<rceil> - 1"
  have "1 < 1 / x" using assms by simp
  then have m: "0 < ?m" by (simp add: less_ceiling_iff)
  note b = bitlen_bounds [OF m, THEN conjunct1] bitlen_bounds [OF m, THEN conjunct2]
  have pos: "0 < bitlen ?m" using m bitlen_eq_zero_iff [of ?m] bitlen_nonneg [of ?m] by linarith
  have "1 / x \<le> of_int (?m + 1)" by (simp add: ceiling_correct)
  also have "\<dots> \<le> of_int (2 ^ nat (bitlen ?m))" using b(2) by (simp only: of_int_le_iff)
  also have "\<dots> = 2 powi bitlen ?m" using pos by (simp add: power_int_def)
  finally have lo: "2 powi (- bitlen ?m) \<le> x" using assms by (simp add: power_int_minus field_simps)
  have "(2 :: rat) powi (bitlen ?m - 1) = of_int (2 ^ nat (bitlen ?m - 1))" using pos by (simp add: power_int_def)
  also have "\<dots> \<le> of_int ?m" using b(1) by (simp only: of_int_le_iff)
  also have "\<dots> < 1 / x" using ceiling_correct [of "1 / x"] by simp
  finally have "x < inverse (2 powi (bitlen ?m - 1))" using assms by (simp add: field_simps)
  then show ?thesis using lo by (simp flip: power_int_minus)
qed

lemma binary_exponent: "0 < x \<Longrightarrow> 2 powi binary_exponent x \<le> x \<and> x < 2 powi (binary_exponent x + 1)"
  using bitlen_floor [of x] bitlen_ceiling [of x] by (auto simp: binary_exponent_def add.commute)

lemma ulp_pos: "0 < ulp x"
  by (simp add: ulp_def)

lemma ulp_le: "0 < x \<Longrightarrow> ulp x \<le> x * 2 powi (-52)"
  using binary_exponent [of x] power_int_add [of "2 :: rat" "binary_exponent x" "-52"] by (simp add: ulp_def power_int_diff)

lemma binary_exponent_le: "0 < x \<Longrightarrow> x < 2 ^ n \<Longrightarrow> binary_exponent x < int n"
proof (rule ccontr)
  assume x: "0 < x" "x < 2 ^ n" "\<not> binary_exponent x < int n"
  then have "(2 :: rat) powi int n \<le> 2 powi binary_exponent x" by (intro power_int_increasing) auto
  then show False using x binary_exponent [of x] by simp
qed

subsection \<open>Rounding to a double\<close>

text \<open>Rounding does not pass an integer below \<open>2 ^ 53\<close>, and moves a value by at most \<open>2 ^ -53\<close> of it.\<close>

lemma to_double_le:
  assumes "0 < x" "x \<le> of_int k" "x < 2 ^ 53"
  shows "to_double x \<le> of_int k"
proof -
  have e: "0 \<le> 52 - binary_exponent x" using binary_exponent_le [OF assms(1,3)] by simp
  have inv: "inverse (ulp x) = 2 powi (52 - binary_exponent x)" by (simp add: ulp_def flip: power_int_minus)
  have "of_int k / ulp x = of_int (k * 2 ^ nat (52 - binary_exponent x))"
    using e by (simp add: divide_inverse inv power_int_def)
  moreover have "x / ulp x \<le> of_int k / ulp x" using assms(2) ulp_pos by (simp add: divide_right_mono less_imp_le)
  ultimately have "round_half_even (x / ulp x) \<le> k * 2 ^ nat (52 - binary_exponent x)" by (intro round_half_even_le) simp
  then have "of_int (round_half_even (x / ulp x)) \<le> of_int k / ulp x"
    unfolding \<open>of_int k / ulp x = _\<close> by (simp only: of_int_le_iff)
  then show ?thesis using assms(1) ulp_pos [of x] by (simp add: to_double_def pos_le_divide_eq)
qed

lemma to_double_error:
  assumes "0 < x"
  shows "\<bar>to_double x - x\<bar> \<le> x * 2 powi (-53)"
proof -
  have u: "0 < ulp x" by (rule ulp_pos)
  have "to_double x - x = (of_int (round_half_even (x / ulp x)) - x / ulp x) * ulp x"
    using assms u by (simp add: to_double_def left_diff_distrib)
  then have "\<bar>to_double x - x\<bar> = \<bar>of_int (round_half_even (x / ulp x)) - x / ulp x\<bar> * ulp x" using u by (simp add: abs_mult)
  also have "\<dots> \<le> 1 / 2 * ulp x" using u by (intro mult_right_mono round_half_even_error) simp
  also have "\<dots> \<le> 1 / 2 * (x * 2 powi (-52))" using ulp_le [OF assms] by simp
  also have "\<dots> = x * 2 powi (-53)" using power_int_add [of "2 :: rat" "-1" "-52"] by (simp add: power_int_minus)
  finally show ?thesis .
qed

lemma to_double_int:
  assumes "0 \<le> k" "k < 2 ^ 53"
  shows "to_double (of_int k) = of_int k"
proof (cases "k = 0")
  case False
  then have k: "0 < (of_int k :: rat)" "(of_int k :: rat) < 2 ^ 53" using assms by simp_all
  have e: "0 \<le> 52 - binary_exponent (of_int k)" using binary_exponent_le [OF k] by simp
  have inv: "inverse (ulp (of_int k)) = 2 powi (52 - binary_exponent (of_int k))" by (simp add: ulp_def flip: power_int_minus)
  have "of_int k / ulp (of_int k) = of_int (k * 2 ^ nat (52 - binary_exponent (of_int k)))"
    using e by (simp add: divide_inverse inv power_int_def)
  moreover have "round_half_even (of_int j) = j" for j by (simp add: round_half_even_def)
  ultimately have "of_int (round_half_even (of_int k / ulp (of_int k))) = of_int k / ulp (of_int k)" by metis
  then show ?thesis using k(1) ulp_pos [of "of_int k"] by (simp add: to_double_def)
qed (simp add: to_double_def)

subsection \<open>Monotonicity\<close>

lemma round_half_even_mono: "p \<le> q \<Longrightarrow> round_half_even p \<le> round_half_even q"
proof (cases "\<lfloor>p\<rfloor> = \<lfloor>q\<rfloor>")
  case True
  then show "p \<le> q \<Longrightarrow> ?thesis" by (auto simp: round_half_even_def Let_def)
next
  case False
  assume "p \<le> q"
  then have "\<lfloor>p\<rfloor> < \<lfloor>q\<rfloor>" using False floor_mono [of p q] by simp
  then show ?thesis by (auto simp: round_half_even_def Let_def)
qed

lemma round_half_even_int [simp]: "round_half_even (of_int j) = j"
  by (simp add: round_half_even_def)

lemma to_double_minus: "to_double (- x) = - to_double x"
  by (auto simp: to_double_def)

text \<open>A positive value is rounded within its binade.\<close>

lemma to_double_binade:
  assumes "0 < x"
  shows "2 powi binary_exponent x \<le> to_double x" "to_double x \<le> 2 powi (binary_exponent x + 1)"
proof -
  let ?e = "binary_exponent x"
  have u: "0 < ulp x" by (rule ulp_pos)
  have pow: "2 powi ?e / ulp x = of_int (2 ^ 52)" "2 powi (?e + 1) / ulp x = of_int (2 ^ 53)"
    by (simp_all add: ulp_def flip: power_int_diff)
  have "2 powi ?e / ulp x \<le> x / ulp x" "x / ulp x \<le> 2 powi (?e + 1) / ulp x"
    using binary_exponent [OF assms] u by (simp_all add: divide_right_mono less_imp_le)
  then have "2 ^ 52 \<le> round_half_even (x / ulp x)" "round_half_even (x / ulp x) \<le> 2 ^ 53"
    using round_half_even_mono [of "of_int (2 ^ 52)" "x / ulp x"] round_half_even_le [of "x / ulp x" "2 ^ 53"]
    unfolding pow round_half_even_int by blast+
  then have "of_int (2 ^ 52) * ulp x \<le> of_int (round_half_even (x / ulp x)) * ulp x"
    "of_int (round_half_even (x / ulp x)) * ulp x \<le> of_int (2 ^ 53) * ulp x"
    using u by (simp_all only: mult_le_cancel_right_pos of_int_le_iff)
  then show "2 powi ?e \<le> to_double x" "to_double x \<le> 2 powi (?e + 1)"
    using assms u unfolding pow [symmetric] by (simp_all add: to_double_def)
qed

lemma to_double_pos: "0 < x \<Longrightarrow> 0 < to_double x"
  using to_double_binade(1) [of x] by (meson less_le_trans zero_less_numeral zero_less_power_int)

lemma to_double_mono_pos:
  assumes "0 < x" "x \<le> y"
  shows "to_double x \<le> to_double y"
proof (cases "binary_exponent x = binary_exponent y")
  case True
  then have "ulp x = ulp y" by (simp add: ulp_def)
  then have "round_half_even (x / ulp x) \<le> round_half_even (y / ulp y)"
    using assms(2) ulp_pos [of y] by (intro round_half_even_mono) (simp add: divide_right_mono less_imp_le)
  then show ?thesis using assms \<open>ulp x = ulp y\<close> ulp_pos [of y] by (simp add: to_double_def)
next
  case False
  have y: "0 < y" using assms by simp
  have "(2 :: rat) powi binary_exponent x < 2 powi (binary_exponent y + 1)" using binary_exponent [OF assms(1)] binary_exponent [OF y] assms(2) by linarith
  then have "binary_exponent x < binary_exponent y + 1"
    using power_int_increasing [of "binary_exponent y + 1" "binary_exponent x" "2 :: rat"] by (meson linorder_not_le one_le_numeral)
  then have "(2 :: rat) powi (binary_exponent x + 1) \<le> 2 powi binary_exponent y" using False by (intro power_int_increasing) auto
  then show ?thesis using to_double_binade(2) [OF assms(1)] to_double_binade(1) [OF y] by linarith
qed

lemma to_double_0 [simp]: "to_double 0 = 0"
  by (simp add: to_double_def)

lemma to_double_neg: "x < 0 \<Longrightarrow> to_double x < 0"
  using to_double_pos [of "- x"] by (simp add: to_double_minus)

lemma mono_to_double: "mono to_double"
proof (rule monoI)
  fix x y :: rat
  assume xy: "x \<le> y"
  consider "0 < x" | "x \<le> 0" "0 \<le> y" | "y < 0" by linarith
  then show "to_double x \<le> to_double y"
  proof cases
    case 2
    then show ?thesis using to_double_pos [of y] to_double_neg [of x] by (cases "x = 0"; cases "y = 0") auto
  next
    case 3
    then show ?thesis using to_double_mono_pos [of "- y" "- x"] xy by (simp add: to_double_minus)
  qed (use xy to_double_mono_pos in simp)
qed

end
