(* ===== verification/Console_Output.thy ===== *)
theory Console_Output
  imports Publisher Double_Rounding
begin

text \<open>
  What the benchmarks use of \<open>std::printf\<close>: \<open>%s\<close> and \<open>%zu\<close> with a minimal width to the right or to the left, and \<open>%.nf\<close>, which prints a
  \<open>double\<close> with \<open>n\<close> decimals, rounded from its exact value to the nearest and on a tie to the even digit.
\<close>

subsection \<open>Model\<close>

abbreviation newline :: string where
  "newline \<equiv> [CHR 0x0A]"

definition pad_left :: "nat \<Rightarrow> string \<Rightarrow> string" where
  "pad_left w s = replicate (w - length s) (CHR '' '') @ s"

definition pad_right :: "nat \<Rightarrow> string \<Rightarrow> string" where
  "pad_right w s = s @ replicate (w - length s) (CHR '' '')"

definition zero_pad :: "nat \<Rightarrow> string \<Rightarrow> string" where
  "zero_pad w s = replicate (w - length s) (CHR ''0'') @ s"

definition fixed :: "nat \<Rightarrow> rat \<Rightarrow> string" where
  "fixed d x =
     (let k = nat (round_half_even (\<bar>x\<bar> * 10 ^ d))
      in (if x < 0 then ''-'' else '''') @ show_nat (k div 10 ^ d) @
         (if d = 0 then '''' else CHR ''.'' # zero_pad d (show_nat (k mod 10 ^ d))))"

text \<open>\<open>std::chrono::duration<double, std::milli>(r).count()\<close>\<close>

definition to_ms :: "int \<Rightarrow> rat" where
  "to_ms r = to_double (to_double (of_int r) / 1000000)"

subsection \<open>Reading the output back\<close>

text \<open>The text of a field: the blanks around it are dropped.\<close>

definition strip :: "string \<Rightarrow> string" where
  "strip s = filter (\<lambda>c. c \<noteq> CHR '' '') s"

definition read_fixed :: "nat \<Rightarrow> string \<Rightarrow> rat" where
  "read_fixed d s = (if CHR ''-'' \<in> set s then - 1 else 1) * of_nat (read_nat (filter is_digit s)) / 10 ^ d"

lemma strip_blankless: "CHR '' '' \<notin> set s \<Longrightarrow> strip s = s"
  unfolding strip_def by (rule filter_True) metis

lemma strip_append [simp]: "strip (s @ t) = strip s @ strip t"
  by (simp add: strip_def)

lemma strip_pad: "CHR '' '' \<notin> set s \<Longrightarrow> strip (pad_left w s) = s" "CHR '' '' \<notin> set s \<Longrightarrow> strip (pad_right w s) = s"
  using strip_blankless [of s] by (simp_all add: pad_left_def pad_right_def) (simp_all add: strip_def)

lemma length_pad [simp]: "length (pad_left w s) = max w (length s)" "length (pad_right w s) = max w (length s)"
  by (simp_all add: pad_left_def pad_right_def)

lemma digits_filter: "list_all is_digit s \<Longrightarrow> filter is_digit s = s"
  by (simp add: list_all_iff)

lemma show_nat_all_digits: "list_all is_digit (show_nat n)"
  using show_nat_digits by (auto simp: list_all_iff)

lemma zero_pad_digits: "list_all is_digit (zero_pad d (show_nat n))"
  using show_nat_all_digits [of n] by (auto simp: zero_pad_def list_all_iff is_digit_def)

lemma read_nat_append: "read_nat (s @ t) = read_nat s * 10 ^ length t + read_nat t"
proof -
  have "foldl (\<lambda>n c. 10 * n + (of_char c - 48)) a t = a * 10 ^ length t + foldl (\<lambda>n c. 10 * n + (of_char c - 48)) 0 t" for a :: nat
  proof (induction t rule: rev_induct)
    case (snoc c t)
    show ?case using snoc by (simp add: algebra_simps)
  qed simp
  from this [of "read_nat s"] show ?thesis by (simp add: read_nat_def)
qed

lemma read_zeros: "read_nat (replicate n (CHR ''0'')) = 0"
  by (induction n) (simp_all add: read_nat_def)

lemma length_show_nat: "n < 10 ^ d \<Longrightarrow> 0 < d \<Longrightarrow> length (show_nat n) \<le> d"
proof (induction n arbitrary: d rule: show_nat.induct)
  case (1 n)
  show ?case
  proof (cases "n < 10")
    case True
    then show ?thesis using 1(3) by (simp add: show_nat.simps [of n])
  next
    case False
    then obtain e where d: "d = Suc e" "0 < e" using 1(2,3) by (metis less_Suc0 less_Suc_eq_0_disj neq0_conv power_one_right One_nat_def gr0_implies_Suc)
    then have "n div 10 < 10 ^ e" using 1(2) by (simp add: div_less_iff_less_mult mult.commute)
    from 1(1) [OF False this d(2)] show ?thesis using False d(1) by (simp add: show_nat.simps [of n])
  qed
qed

lemma zero_pad_read: "k < 10 ^ d \<Longrightarrow> 0 < d \<Longrightarrow> length (zero_pad d (show_nat k)) = d \<and> read_nat (zero_pad d (show_nat k)) = k"
  using length_show_nat [of k d] by (simp add: zero_pad_def read_nat_append read_zeros read_show_nat)

lemma fixed_no_blank: "CHR '' '' \<notin> set (fixed d x)"
proof -
  have "CHR '' '' \<notin> set (zero_pad d (show_nat n))" for n
    using zero_pad_digits [of d n] not_digits(2) by (auto simp: list_all_iff)
  then show ?thesis using show_nat_no_blank by (auto simp: fixed_def Let_def)
qed

lemma fixed_digits: "read_nat (filter is_digit (fixed d x)) = nat (round_half_even (\<bar>x\<bar> * 10 ^ d))"
proof -
  define k where "k = nat (round_half_even (\<bar>x\<bar> * 10 ^ d))"
  have dot: "\<not> is_digit (CHR ''.'')" "\<not> is_digit (CHR ''-'')" by (simp_all add: is_digit_def)
  have f: "filter is_digit (fixed d x) = show_nat (k div 10 ^ d) @ (if d = 0 then [] else zero_pad d (show_nat (k mod 10 ^ d)))"
    using dot digits_filter [OF show_nat_all_digits] digits_filter [OF zero_pad_digits] by (simp add: fixed_def Let_def k_def)
  have "read_nat (filter is_digit (fixed d x)) = k"
  proof (cases "d = 0")
    case True
    then show ?thesis unfolding f by (simp add: read_show_nat)
  next
    case False
    then show ?thesis using zero_pad_read [of "k mod 10 ^ d" d] div_mult_mod_eq [of k "10 ^ d"] by (simp add: f read_nat_append read_show_nat)
  qed
  then show ?thesis by (simp add: k_def)
qed

lemma fixed_sign: "CHR ''-'' \<in> set (fixed d x) \<longleftrightarrow> x < 0"
proof -
  have "CHR ''-'' \<notin> set (show_nat n)" "CHR ''-'' \<notin> set (zero_pad d (show_nat n))" for n
    using show_nat_all_digits [of n] zero_pad_digits [of d n] not_digits(1) by (auto simp: list_all_iff)
  then show ?thesis by (simp add: fixed_def Let_def)
qed

lemma round_half_even_nonneg: "0 \<le> q \<Longrightarrow> 0 \<le> round_half_even q"
  using round_half_even_mono [of 0 q] round_half_even_int [of 0] by simp

lemma read_fixed_error: "\<bar>read_fixed d (fixed d x) - x\<bar> \<le> 1 / (2 * 10 ^ d)"
proof -
  define k where "k = round_half_even (\<bar>x\<bar> * 10 ^ d)"
  have "0 \<le> k" unfolding k_def by (rule round_half_even_nonneg) simp
  then have r: "read_fixed d (fixed d x) = (if x < 0 then - 1 else 1) * (of_int k / 10 ^ d)"
    unfolding k_def by (simp add: read_fixed_def fixed_digits fixed_sign of_nat_nat)
  have "\<bar>of_int k - \<bar>x\<bar> * 10 ^ d\<bar> \<le> 1 / 2" unfolding k_def by (rule round_half_even_error)
  then have "\<bar>of_int k / 10 ^ d - \<bar>x\<bar>\<bar> \<le> 1 / (2 * 10 ^ d)" by (simp add: abs_le_iff field_simps)
  then show ?thesis unfolding r by (cases "x < 0") (simp_all add: abs_le_iff)
qed

subsection \<open>Tables\<close>

text \<open>A line of a table: a label, and columns of a minimal width, each after a blank.\<close>

definition table_row :: "nat \<Rightarrow> string \<Rightarrow> (nat \<times> string) list \<Rightarrow> string" where
  "table_row w label cols = pad_right w label @ concat (map (\<lambda>(w, s). CHR '' '' # pad_left w s) cols) @ newline"

text \<open>Its columns, read back: the words after the label.\<close>

definition blank :: "char \<Rightarrow> bool" where
  "blank c \<longleftrightarrow> c = CHR '' '' \<or> c = CHR 0x0A"

fun tokens :: "string \<Rightarrow> string \<Rightarrow> string list" where
  "tokens acc [] = (if acc = [] then [] else [rev acc])"
| "tokens acc (c # cs) =
     (if \<not> blank c then tokens (c # acc) cs else if acc = [] then tokens [] cs else rev acc # tokens [] cs)"

definition row_fields :: "nat \<Rightarrow> string \<Rightarrow> string list" where
  "row_fields w row = tokens [] (drop w row)"

definition solid :: "string \<Rightarrow> bool" where
  "solid s \<longleftrightarrow> s \<noteq> [] \<and> list_all (\<lambda>c. \<not> blank c) s"

lemma tokens_solid: "list_all (\<lambda>c. \<not> blank c) s \<Longrightarrow> tokens acc (s @ t) = tokens (rev s @ acc) t"
  by (induction s arbitrary: acc) simp_all

lemma tokens_blanks: "tokens [] (replicate n (CHR '' '') @ t) = tokens [] t"
  by (induction n) (simp_all add: blank_def)

lemma tokens_columns:
  "list_all (\<lambda>(w, s). solid s) cols \<Longrightarrow> tokens [] (concat (map (\<lambda>(w, s). CHR '' '' # pad_left w s) cols) @ newline) = map snd cols"
proof (induction cols)
  case Nil
  show ?case by (simp add: blank_def)
next
  case (Cons c cols)
  obtain w s where c: "c = (w, s)" by fastforce
  let ?rest = "concat (map (\<lambda>(w, s). CHR '' '' # pad_left w s) cols) @ newline"
  have s: "s \<noteq> []" "list_all (\<lambda>c. \<not> blank c) s" using Cons.prems c by (auto simp: solid_def)
  obtain b t where t: "?rest = b # t" "blank b" by (cases cols) (auto simp: blank_def)
  have "tokens [] (CHR '' '' # pad_left w s @ ?rest) = tokens [] (s @ ?rest)"
    by (simp add: pad_left_def tokens_blanks) (simp add: blank_def)
  also have "\<dots> = s # tokens [] t" using s t by (simp add: tokens_solid)
  also have "tokens [] t = tokens [] ?rest" using t by simp
  finally show ?case using Cons c by simp
qed

lemma table_row_roundtrip:
  assumes "length label \<le> w" "list_all (\<lambda>(w, s). solid s) cols"
  shows "row_fields w (table_row w label cols) = map snd cols"
proof -
  have "drop w (table_row w label cols) = concat (map (\<lambda>(w, s). CHR '' '' # pad_left w s) cols) @ newline"
    using assms(1) by (simp add: table_row_def pad_right_def)
  then show ?thesis using tokens_columns [OF assms(2)] by (simp add: row_fields_def)
qed

lemma digits_solid: "s \<noteq> [] \<Longrightarrow> list_all is_digit s \<Longrightarrow> solid s"
  by (auto simp: solid_def list_all_iff is_digit_def blank_def)

lemma solid_show_nat: "solid (show_nat n)"
  by (rule digits_solid [OF show_nat_nonempty show_nat_all_digits])

lemma solid_fixed: "solid (fixed d x)"
proof -
  have "list_all (\<lambda>c. \<not> blank c) (zero_pad d (show_nat n))" for n
    using zero_pad_digits [of d n] by (auto simp: list_all_iff is_digit_def blank_def)
  then show ?thesis using solid_show_nat by (auto simp: solid_def fixed_def Let_def blank_def)
qed

end
