(* ===== verification/Allocation_Counts.thy ===== *)
theory Allocation_Counts
  imports Allocation_Bench Book_Budget Console_Output
begin

text \<open>
  \<open>bench/allocation_bench.cpp\<close> with the memory of the book: the same workload on \<open>OrderBookT<Alloc>\<close> for either allocator, and what \<open>report\<close> and \<open>main\<close>
  print, with the calls of \<open>operator new\<close> and \<open>operator delete\<close> between the reset of the counters and the end of the steady state.
  The times that the steady states take are parameters, and so is the memory in which the second report starts (the first book is destroyed by then).  \<open>resting\<close> is a \<open>std::vector\<close> whose storage is reserved at once.
\<close>

subsection \<open>Model\<close>

type_synonym ('a, 'p) bench = "(OrderId list, 'a BookT \<times> 'p mem) throwing"

function prime_loop_t :: "env \<Rightarrow> ('p, 'a) node_ops \<Rightarrow> nat \<Rightarrow> nat \<Rightarrow> 'a BookT \<times> 'p mem \<Rightarrow> OrderId list \<Rightarrow> ('a, 'p) bench" where
  "prime_loop_t E A i n s resting =
     (if i < n then
        (let oid = of_nat (i + 1)
         in and_then (apply_t E A (AddMsg (make_add oid (slot_side i) (slot_price i) 100)) s) (\<lambda>_ s.
              prime_loop_t E A (i + 1) n s (resting @ [oid])))
      else Some (Inr resting, s))"
  by pat_completeness auto
termination
  by (relation "measure (\<lambda>(E, A, i, n, s, resting). n - i)") auto

declare prime_loop_t.simps [simp del]

definition prime_working_set_t :: "env \<Rightarrow> ('p, 'a) node_ops \<Rightarrow> 'a BookT \<times> 'p mem \<Rightarrow> ('a, 'p) bench" where
  "prime_working_set_t E A s =
     (let (b, m) = s
      in case operator_new E Array_object (8 * kWorkingSetSize) (mem_heap m) of
           (Inl e, h) \<Rightarrow> Some (Inl e, b, m\<lparr>mem_heap := h\<rparr>)
         | (Inr _, h) \<Rightarrow> prime_loop_t E A 0 kWorkingSetSize (b, m\<lparr>mem_heap := h\<rparr>) [])"

function steady_loop_t :: "env \<Rightarrow> ('p, 'a) node_ops \<Rightarrow> nat \<Rightarrow> nat \<Rightarrow> OrderId \<Rightarrow> 'a BookT \<times> 'p mem \<Rightarrow> OrderId list \<Rightarrow> ('a, 'p) bench" where
  "steady_loop_t E A i n next_id s resting =
     (if i < n then
        (if resting = [] then None
         else
           let slot = i mod length resting;
               old_id = resting ! slot
           in and_then (if i mod 2 = 0 then apply_t E A (CancelMsg (make_cancel old_id)) s
                        else apply_t E A (ExecuteMsg (make_execute old_id 100)) s) (\<lambda>_ s.
              and_then (apply_t E A (AddMsg (make_add next_id (slot_side slot) (slot_price slot) 100)) s) (\<lambda>_ s.
              steady_loop_t E A (i + 1) n (next_id + 1) s (resting[slot := next_id]))))
      else Some (Inr resting, s))"
  by pat_completeness auto
termination
  by (relation "measure (\<lambda>(E, A, i, n, next_id, s, resting). n - i)") auto

declare steady_loop_t.simps [simp del]

definition run_steady_state_t :: "env \<Rightarrow> ('p, 'a) node_ops \<Rightarrow> nat \<Rightarrow> 'a BookT \<times> 'p mem \<Rightarrow> OrderId list \<Rightarrow> ('a, 'p) bench" where
  "run_steady_state_t E A n s resting = steady_loop_t E A 0 n (of_nat (length resting + 1)) s resting"

text \<open>\<open>report\<close>: the counts it prints, the book and the memory at the end.\<close>

definition report_counts :: "env \<Rightarrow> ('p, 'a) node_ops \<Rightarrow> 'p mem \<Rightarrow> ((pool_error + u64 \<times> u64 \<times> 'a BookT) \<times> 'p mem) option" where
  "report_counts E A m =
     (case order_book_t E m of
        (Inl e, m) \<Rightarrow> Some (Inl e, m)
      | (Inr b, m) \<Rightarrow>
          (case prime_working_set_t E A (b, m) of
             None \<Rightarrow> None
           | Some (Inl e, b, m) \<Rightarrow> Some (Inl e, m)
           | Some (Inr resting, b, m) \<Rightarrow>
               (let m = m\<lparr>mem_heap := reset_alloc_counters (mem_heap m)\<rparr>
                in case run_steady_state_t E A kOrdersProcessed (b, m) resting of
                     None \<Rightarrow> None
                   | Some (Inl e, b, m) \<Rightarrow> Some (Inl e, m)
                   | Some (Inr resting, b, m) \<Rightarrow>
                       Some (Inr (new_call_count (mem_heap m), delete_call_count (mem_heap m), b), m))))"

text \<open>The line that \<open>report\<close> prints, and \<open>main\<close>, which runs under the default shard index 0.\<close>

definition report_row :: "string \<Rightarrow> int \<Rightarrow> u64 \<Rightarrow> u64 \<Rightarrow> string" where
  "report_row label elapsed news deletes =
     (let ms = to_ms elapsed;
          ns_per_msg = to_double (to_double (of_int elapsed) / to_double (of_nat (kOrdersProcessed * 2)))
      in table_row 28 label [(12, fixed 2 ms), (14, fixed 1 ns_per_msg), (16, show_nat (unat news)), (16, show_nat (unat deletes))])"

definition report :: "env \<Rightarrow> ('p, 'a) node_ops \<Rightarrow> string \<Rightarrow> int \<Rightarrow> 'p mem \<Rightarrow> (pool_error + string) option" where
  "report E A label elapsed m =
     (case report_counts E A m of
        None \<Rightarrow> None
      | Some (Inl e, _) \<Rightarrow> Some (Inl e)
      | Some (Inr (news, deletes, _), _) \<Rightarrow> Some (Inr (report_row label elapsed news deletes)))"

definition allocation_header :: string where
  "allocation_header =
     ''Allocation benchmark: '' @ show_nat kOrdersProcessed @ '' Add+remove cycles ('' @ show_nat (kOrdersProcessed * 2) @ '' messages total), '' @
     show_nat kWorkingSetSize @ '' concurrently resting orders, '' @ show_nat kNumPriceLevels @ '' price levels/side'' @ newline @ newline @
     table_row 28 ''Variant'' [(12, ''Time (ms)''), (14, ''ns/message''), (16, ''new() calls''), (16, ''delete() calls'')]"

definition allocation_main :: "env \<Rightarrow> bool \<Rightarrow> node_pools mem \<Rightarrow> int \<Rightarrow> 'p mem \<Rightarrow> int \<Rightarrow> (pool_error + string) option" where
  "allocation_main E ndebug m t m' t' =
     (case report E (pool_allocator E ndebug kShardOrderPoolCapacity 0) ''Pool-backed (OrderBook)'' t m of
        None \<Rightarrow> None
      | Some (Inl e) \<Rightarrow> Some (Inl e)
      | Some (Inr pooled) \<Rightarrow>
          (case report E (std_allocator E) ''Naive (std::allocator)'' t' m' of
             None \<Rightarrow> None
           | Some (Inl e) \<Rightarrow> Some (Inl e)
           | Some (Inr naive) \<Rightarrow> Some (Inr (allocation_header @ pooled @ naive))))"

subsection \<open>The levels of the workload\<close>

text \<open>Slots that are \<open>kNumPriceLevels\<close> apart share a price level.\<close>

lemma slot_level_period:
  "slot_side (k + kNumPriceLevels) = slot_side k" "slot_price (k + kNumPriceLevels) = slot_price k"
  by (simp_all add: slot_side_def slot_price_def kNumPriceLevels_def mod_add_eq [symmetric])

lemma slot_neighbour:
  assumes "slot < w" "2 * kNumPriceLevels \<le> w"
  obtains k where "k < w" "k \<noteq> slot" "slot_side k = slot_side slot" "slot_price k = slot_price slot"
proof (cases "slot + kNumPriceLevels < w")
  case True
  then show thesis using that [of "slot + kNumPriceLevels"] slot_level_period [of slot] by (simp add: kNumPriceLevels_def)
next
  case False
  then show thesis
    using that [of "slot - kNumPriceLevels"] slot_level_period [of "slot - kNumPriceLevels"] assms by (simp add: kNumPriceLevels_def)
qed

lemma level_of_order:
  assumes "book_ok b" "ord \<in> set (book_orders b)"
  shows "map_of (ladder (ro_side ord) b) (ro_price ord) \<noteq> None"
proof -
  have "ro_price ord \<in> side_prices (book_orders b) (ro_side ord)" using assms(2) by (auto simp: side_prices_def same_side_def)
  then show ?thesis using ladder_keys [OF assms(1), of "ro_side ord"] by (simp add: map_of_eq_None_iff)
qed

lemma order_location:
  assumes "book_ok b" "ord \<in> set (book_orders b)"
  obtains n where "map_of (ob_index b) (ro_order_id ord) = Some \<lparr>loc_side = ro_side ord, loc_price = ro_price ord, loc_it = n\<rparr>"
proof -
  have d: "distinct (map ro_order_id (book_orders b))" using assms(1) by (simp add: book_ok_def)
  then have "spec_find (ro_order_id ord) (map snd (book_pairs b)) = Some ord"
    using spec_find_member [OF d assms(2)] by (simp add: book_orders_def)
  then show thesis using loc_of_find that book_okD(4) [OF assms(1)] by metis
qed

subsection \<open>The loops\<close>

context counting_allocator
begin

text \<open>Priming never throws when the pools hold the working set; it may grow the index and construct the pools.\<close>

lemma prime_loop_t_ok:
  assumes E: "env_ok E" "unlimited E" and F: "frame_ok F" and cap: "n + card (fr_nodes F List_node) \<le> cap" "n < 2 ^ 64 - 1"
    and mem: "book_mem ok live F b m" "bench_ok (bt_book b) resting (i + 1)" "length resting = i" "i \<le> n"
  shows "\<exists>resting' b' m'. prime_loop_t E A i n (b, m) resting = Some (Inr resting', b', m') \<and> book_mem ok live F b' m' \<and>
    bench_ok (bt_book b') resting' (n + 1) \<and> length resting' = n"
  using mem
proof (induction "n - i" arbitrary: i b m resting)
  case 0
  then have "prime_loop_t E A i n (b, m) resting = Some (Inr resting, b, m)" by (simp add: prime_loop_t.simps [of E A i])
  then show ?case using 0 by simp
next
  case (Suc x)
  let ?oid = "of_nat (i + 1) :: OrderId"
  let ?msg = "make_add ?oid (slot_side i) (slot_price i) 100"
  have i: "i < n" using Suc.hyps(2) by simp
  have book: "book_ok (bt_book b)" "resting_orders (bt_book b) = i" "ro_order_id ` set (book_orders (bt_book b)) = set resting"
    using Suc.prems(2,3) working_set_ids by (auto simp: bench_ok_def)
  have fresh: "?oid \<notin> set resting" "unat ?oid = i + 1"
    using fresh_id [of resting "i + 1"] Suc.prems(2) i cap(2) by (simp_all add: bench_ok_def del: of_nat_Suc)
  have new: "\<not> has_order (add_order_id ?msg) (bt_book b)"
    using has_order_iff [OF book(1)] fresh(1) book(3) by (simp add: spec_find_None make_add_def del: of_nat_Suc)
  have room: "card (live k m) < cap" for k using live_nodes [OF Suc.prems(1) book(1) F] book(2) i cap(1) by (cases k) auto
  obtain r b1 where b1: "apply_msg (AddMsg ?msg) (bt_book b) = Some (Inr r, b1)" "book_ok b1"
      "set (book_orders b1) = insert (slot_order i ?oid) (set (book_orders (bt_book b)))" "resting_orders b1 = Suc (resting_orders (bt_book b))"
    using bench_add [of "bt_book b" ?oid i] book(1,3) fresh(1) by metis
  obtain out s where run: "apply_t E A (AddMsg ?msg) (b, m) = Some (Inr out, s)"
      "inserts F (add_side ?msg) (add_price ?msg) b m s" "apply_msg (AddMsg ?msg) (bt_book b) = Some (out, bt_book (fst s))"
    by (rule apply_add_room [OF Suc.prems(1) E(1) new disjI1 [OF E(2)] room disjI1 [OF E(2)]])
  obtain b' m' where s: "s = (b', m')" by (cases s)
  have b': "bt_book b' = b1" using run(3) b1(1) s by (simp del: apply_msg.simps)
  have mem': "book_mem ok live F b' m'" using run(2) s by simp
  have ok: "bench_ok (bt_book b') (resting @ [?oid]) (i + 1 + 1)"
    unfolding b' using Suc.prems(2,3) fresh b1(2-4) by (auto simp: bench_ok_def working_set_snoc less_Suc_eq simp del: of_nat_Suc)
  have eq: "prime_loop_t E A i n (b, m) resting = prime_loop_t E A (i + 1) n (b', m') (resting @ [?oid])"
    using i run(1) s by (simp add: prime_loop_t.simps [of E A i] del: apply_t.simps)
  show ?case unfolding eq by (rule Suc.hyps(1) [OF _ mem' ok]) (use Suc.hyps(2) Suc.prems(3) i in simp_all)
qed

text \<open>Removing the order of a slot, by either message: its price level stays, so that two nodes are given back.\<close>

lemma remove_slot:
  assumes mem: "book_mem ok live F b m" and ok: "bench_ok (bt_book b) resting next_id" and slot: "slot < length resting" "2 * kNumPriceLevels \<le> length resting"
  defines "oid \<equiv> resting ! slot"
  obtains r b1 m1 where "(if c then apply_t E A (CancelMsg (make_cancel oid)) (b, m) else apply_t E A (ExecuteMsg (make_execute oid 100)) (b, m)) = Some (Inr r, b1, m1)"
    "book_mem ok live F b1 m1" "bt_buckets b1 = bt_buckets b" "paid 0 2 m m1" "book_ok (bt_book b1)"
    "set (book_orders (bt_book b1)) = set (book_orders (bt_book b)) - {slot_order slot oid}"
    "resting_orders (bt_book b1) = resting_orders (bt_book b) - 1"
    "map_of (ladder (slot_side slot) (bt_book b1)) (slot_price slot) \<noteq> None"
proof -
  let ?msg = "if c then CancelMsg (make_cancel oid) else ExecuteMsg (make_execute oid 100)"
  have book: "book_ok (bt_book b)" "distinct resting" "set (book_orders (bt_book b)) = working_set resting" using ok by (auto simp: bench_ok_def)
  have old: "slot_order slot oid \<in> set (book_orders (bt_book b))" using book(3) slot(1) by (auto simp: working_set_def oid_def)
  obtain r ob1 where ob1: "(if c then apply_msg (CancelMsg (make_cancel oid)) (bt_book b) else apply_msg (ExecuteMsg (make_execute oid 100)) (bt_book b)) = Some (Inr r, ob1)"
    "book_ok ob1" "set (book_orders ob1) = set (book_orders (bt_book b)) - {slot_order slot oid}" "resting_orders ob1 = resting_orders (bt_book b) - 1"
    by (rule bench_remove [OF book(1) old])
  have run: "apply_msg ?msg (bt_book b) = Some (Inr r, ob1)" using ob1(1) by (simp split: if_splits del: apply_msg.simps)
  obtain s where s: "apply_t E A ?msg (b, m) = Some (Inr (Inr r), s)" "bt_book (fst s) = ob1" "removes F oid b m s"
  proof (cases c)
    case True
    have id: "cxl_order_id (make_cancel oid) = oid" by (simp add: make_cancel_def)
    show thesis by (rule apply_cancel_room [OF mem, of "make_cancel oid" "Inr r" ob1]) (use run True that id in \<open>simp_all del: apply_msg.simps apply_t.simps\<close>)
  next
    case False
    have id: "exe_order_id (make_execute oid 100) = oid" by (simp add: make_execute_def)
    show thesis by (rule apply_execute_room [OF mem, of "make_execute oid 100" "Inr r" ob1]) (use run False that id in \<open>simp_all del: apply_msg.simps apply_t.simps\<close>)
  qed
  obtain k where k: "k < length resting" "k \<noteq> slot" "slot_side k = slot_side slot" "slot_price k = slot_price slot"
    by (rule slot_neighbour [OF slot])
  have "slot_order k (resting ! k) \<noteq> slot_order slot oid" using k(1,2) slot(1) book(2) by (simp add: slot_order_def oid_def nth_eq_iff_index_eq)
  then have "slot_order k (resting ! k) \<in> set (book_orders ob1)" using ob1(3) book(3) k(1) by (auto simp: working_set_def)
  from level_of_order [OF ob1(2) this] have lvl: "map_of (ladder (slot_side slot) ob1) (slot_price slot) \<noteq> None" using k(3,4) by (simp add: slot_order_def)
  obtain n where "map_of (ob_index (bt_book b)) oid = Some \<lparr>loc_side = slot_side slot, loc_price = slot_price slot, loc_it = n\<rparr>"
    using order_location [OF book(1) old] by (auto simp: slot_order_def)
  moreover have "\<not> has_order oid ob1"
    using has_order_iff [OF ob1(2), of oid] ob1(3) book(1) old by (auto simp: spec_find_None book_ok_def distinct_map inj_on_def slot_order_def image_iff)
  ultimately have two: "removed_nodes oid (bt_book b) ob1 = 2" using lvl by (simp add: removed_nodes_def)
  obtain b1 m1 where s1: "s = (b1, m1)" by (cases s)
  show thesis
    by (rule that [of "Inr r" b1 m1]) (use s s1 ob1(2-4) lvl two in \<open>simp_all split: if_splits del: apply_t.simps\<close>)
qed

text \<open>One cycle: two nodes given back, two taken, and nothing else of the heap.\<close>

lemma cycle_ok:
  assumes E: "env_ok E" and F: "frame_ok F" and mem: "book_mem ok live F b m" and ready: "\<And>k. ready k m"
    and ok: "bench_ok (bt_book b) resting next_id" and cap: "length resting + card (fr_nodes F List_node) \<le> cap"
    and slot: "slot < length resting" "2 * kNumPriceLevels \<le> length resting" and id: "next_id < 2 ^ 64"
  defines "oid \<equiv> of_nat next_id :: OrderId"
  obtains r1 s1 r2 b2 m2 where
    "(if c then apply_t E A (CancelMsg (make_cancel (resting ! slot))) (b, m) else apply_t E A (ExecuteMsg (make_execute (resting ! slot) 100)) (b, m)) = Some (Inr r1, s1)"
    "apply_t E A (AddMsg (make_add oid (slot_side slot) (slot_price slot) 100)) s1 = Some (Inr r2, b2, m2)"
    "book_mem ok live F b2 m2" "bench_ok (bt_book b2) (resting[slot := oid]) (next_id + 1)" "paid 2 2 m m2"
proof -
  let ?msg = "make_add oid (slot_side slot) (slot_price slot) 100"
  have book: "book_ok (bt_book b)" "distinct resting" "set (book_orders (bt_book b)) = working_set resting" "resting_orders (bt_book b) = length resting"
    "\<forall>oid \<in> set resting. unat oid < next_id"
    using ok by (simp_all add: bench_ok_def)
  have fresh: "oid \<notin> set resting" "unat oid = next_id" using fresh_id [OF book(5) id] by (simp_all add: oid_def)
  obtain r1 b1 m1 where rm: "(if c then apply_t E A (CancelMsg (make_cancel (resting ! slot))) (b, m)
        else apply_t E A (ExecuteMsg (make_execute (resting ! slot) 100)) (b, m)) = Some (Inr r1, b1, m1)"
    "book_mem ok live F b1 m1" "bt_buckets b1 = bt_buckets b" "paid 0 2 m m1" "book_ok (bt_book b1)"
    "set (book_orders (bt_book b1)) = set (book_orders (bt_book b)) - {slot_order slot (resting ! slot)}"
    "resting_orders (bt_book b1) = resting_orders (bt_book b) - 1"
    "map_of (ladder (slot_side slot) (bt_book b1)) (slot_price slot) \<noteq> None"
    by (rule remove_slot [OF mem ok slot])
  have ids: "oid \<notin> ro_order_id ` set (book_orders (bt_book b1))" using fresh(1) rm(6) book(3) working_set_ids [of resting] by auto
  have new: "\<not> has_order (add_order_id ?msg) (bt_book b1)" using has_order_iff [OF rm(5)] ids by (simp add: spec_find_None make_add_def)
  have w: "0 < length resting" using slot(1) by linarith
  have "resting_orders (bt_book b1) + card (fr_nodes F List_node) < cap" using rm(7) book(4) cap w by linarith
  then have room: "card (live k m1) < cap" for k using live_nodes [OF rm(2,5) F] by (cases k) auto
  have buckets: "length (ob_index (bt_book b1)) < bt_buckets b1"
    using hash_nodes_eq [OF rm(5)] hash_nodes_eq [OF book(1)] rm(3,7) book(4) w containers_okD(7) [OF book_memD(2) [OF mem]]
    unfolding hash_nodes_def by linarith
  have able: "unlimited E \<or> ready k m1" for k using ready rm(4) by blast
  obtain r2 s where add: "apply_t E A (AddMsg ?msg) (b1, m1) = Some (Inr r2, s)"
      "inserts F (add_side ?msg) (add_price ?msg) b1 m1 s" "apply_msg (AddMsg ?msg) (bt_book b1) = Some (r2, bt_book (fst s))"
    by (rule apply_add_room [OF rm(2) E new able room disjI2 [OF buckets]])
  obtain b2 m2 where s: "s = (b2, m2)" by (cases s)
  obtain r ob2 where ob2: "apply_msg (AddMsg ?msg) (bt_book b1) = Some (Inr r, ob2)" "book_ok ob2"
      "set (book_orders ob2) = insert (slot_order slot oid) (set (book_orders (bt_book b1)))" "resting_orders ob2 = Suc (resting_orders (bt_book b1))"
    by (rule bench_add [OF rm(5) ids])
  have b2: "bt_book b2 = ob2" using add(3) ob2(1) s by (simp del: apply_msg.simps)
  have "\<forall>oid' \<in> set (resting[slot := oid]). unat oid' < next_id + 1"
    using book(5) fresh(2) set_update_subset_insert [of resting slot oid] by (auto simp: less_Suc_eq)
  moreover have "working_set (resting[slot := oid]) = insert (slot_order slot oid) (working_set resting - {slot_order slot (resting ! slot)})"
    by (rule working_set_update [OF book(2) slot(1) fresh(1)])
  ultimately have ok2: "bench_ok (bt_book b2) (resting[slot := oid]) (next_id + 1)"
    using ob2(2-4) rm(6,7) book w replace_nth(1) [OF book(2) slot(1) fresh(1)] by (simp add: bench_ok_def b2)
  have "added_nodes (add_side ?msg) (add_price ?msg) (bt_book b1) = 2" using rm(8) by (simp add: added_nodes_def make_add_def)
  then have "paid 2 0 m1 m2" "book_mem ok live F b2 m2" using add(2) s buckets by simp_all
  moreover have "paid 2 2 m m2" using paid_trans [OF rm(4) calculation(1)] by simp
  ultimately show thesis using that [OF rm(1) add(1) [unfolded s] _ ok2] by blast
qed

lemma steady_loop_t_ok:
  assumes E: "env_ok E" and F: "frame_ok F" and w: "w + card (fr_nodes F List_node) \<le> cap" "2 * kNumPriceLevels \<le> w"
    and mem: "book_mem ok live F b m" "\<And>k. ready k m" "bench_ok (bt_book b) resting next_id" "length resting = w" "next_id + (n - i) < 2 ^ 64" "i \<le> n"
  shows "\<exists>resting' b' m'. steady_loop_t E A i n (of_nat next_id) (b, m) resting = Some (Inr resting', b', m') \<and> book_mem ok live F b' m' \<and>
    bench_ok (bt_book b') resting' (next_id + (n - i)) \<and> length resting' = w \<and> paid (2 * (n - i)) (2 * (n - i)) m m'"
  using mem
proof (induction "n - i" arbitrary: i b m resting next_id)
  case 0
  then have "steady_loop_t E A i n (of_nat next_id) (b, m) resting = Some (Inr resting, b, m)" by (simp add: steady_loop_t.simps [of E A i])
  then show ?case using 0 by simp
next
  case (Suc x)
  let ?slot = "i mod length resting" and ?oid = "of_nat next_id :: OrderId"
  have i: "i < n" and pos: "resting \<noteq> []" using Suc.hyps(2) Suc.prems(4) w(2) by (auto simp: kNumPriceLevels_def)
  have "?slot < length resting" using pos by simp
  moreover have "2 * kNumPriceLevels \<le> length resting" and id: "next_id < 2 ^ 64"
    and cap: "length resting + card (fr_nodes F List_node) \<le> cap" using Suc.prems(4,5) w by simp_all
  ultimately have slot: "?slot < length resting" "2 * kNumPriceLevels \<le> length resting" by auto
  obtain r1 s1 r2 b2 m2 where c: "(if i mod 2 = 0 then apply_t E A (CancelMsg (make_cancel (resting ! ?slot))) (b, m)
        else apply_t E A (ExecuteMsg (make_execute (resting ! ?slot) 100)) (b, m)) = Some (Inr r1, s1)"
    "apply_t E A (AddMsg (make_add ?oid (slot_side ?slot) (slot_price ?slot) 100)) s1 = Some (Inr r2, b2, m2)"
    "book_mem ok live F b2 m2" "bench_ok (bt_book b2) (resting[?slot := ?oid]) (next_id + 1)" "paid 2 2 m m2"
    by (rule cycle_ok [OF E F Suc.prems(1,2,3) cap slot id])
  have run: "steady_loop_t E A i n ?oid (b, m) resting = steady_loop_t E A (i + 1) n (of_nat (next_id + 1)) (b2, m2) (resting[?slot := ?oid])"
    unfolding steady_loop_t.simps [of E A i] Let_def c(1) using i pos c(2) by (simp add: add.commute del: apply_t.simps)
  have left: "next_id + 1 + (n - (i + 1)) = next_id + (n - i)" "x = n - (i + 1)" "2 + 2 * (n - (i + 1)) = 2 * (n - i)" using i Suc.hyps(2) by simp_all
  have len: "length (resting[?slot := ?oid]) = w" and next_i: "i + 1 \<le> n" using Suc.prems(4) i by simp_all
  have ready2: "ready k m2" for k using Suc.prems(2) c(5) by blast
  obtain resting' b' m' where IH: "steady_loop_t E A (i + 1) n (of_nat (next_id + 1)) (b2, m2) (resting[?slot := ?oid]) = Some (Inr resting', b', m')"
    "book_mem ok live F b' m'" "bench_ok (bt_book b') resting' (next_id + (n - i))" "length resting' = w"
    "paid (2 * (n - (i + 1))) (2 * (n - (i + 1))) m2 m'"
    using Suc.hyps(1) [OF left(2) c(3) ready2 c(4) len, unfolded left(1), OF Suc.prems(5) next_i] by blast
  show ?case unfolding run using IH paid_trans [OF c(5) IH(5), unfolded left(3)] by blast
qed

lemma report_ok:
  assumes E: "env_ok E" "unlimited E" and m: "ok m" "\<And>k. live k m = {}" and cap: "kWorkingSetSize \<le> cap"
  obtains resting b m' where "report_counts E A m = Some (Inr (of_nat (2 * kOrdersProcessed) * cost, of_nat (2 * kOrdersProcessed) * cost, b), m')"
    "bench_ok (bt_book b) resting (kWorkingSetSize + 1 + kOrdersProcessed)" "length resting = kWorkingSetSize"
proof -
  from new_buckets_unlimited [OF E(2)] obtain b0 :: "'a BookT" and m0 where c: "order_book_t E m = (Inr b0, m0)"
    by (metis (no_types, lifting) order_book_t_def old.sum.simps(6) prod.case)
  note new = order_book_t_mem [OF m(1) E(1) c]
  obtain p h where p: "operator_new E Array_object (8 * kWorkingSetSize) (mem_heap m0) = (Inr p, h)"
    using E(2) by (simp add: operator_new_def unlimited_def Let_def)
  note eff = operator_new_effect [OF heap [OF book_memD(1) [OF new(2)]] p]
  define F where "F = \<lparr>fr_nodes = (\<lambda>k. live k m), fr_arrays = insert p (objects Array_object (mem_heap m))\<rparr>"
  have F: "frame_ok F" "card (fr_nodes F List_node) = 0" using m(2) by (simp_all add: F_def frame_ok_def)
  have "ok (m0\<lparr>mem_heap := h\<rparr>) \<and> (\<forall>k. live k (m0\<lparr>mem_heap := h\<rparr>) = live k m0)"
    using array_frame [OF book_memD(1) [OF new(2)] eff(1)] eff(4) by blast
  then have mem: "book_mem ok live F b0 (m0\<lparr>mem_heap := h\<rparr>)"
    using new(2) eff(6) [OF refl] by (auto simp: book_mem_def F_def)
  have init: "bench_ok (bt_book b0) [] (0 + 1)"
    using book_ok_init by (simp add: new(1) bench_ok_def working_set_def resting_orders_def book_orders_def book_pairs_def order_book_init_def)
  have sizes: "kWorkingSetSize + card (fr_nodes F List_node) \<le> cap" "kWorkingSetSize < 2 ^ 64 - 1" "2 * kNumPriceLevels \<le> kWorkingSetSize"
      "kWorkingSetSize + 1 + (kOrdersProcessed - 0) < 2 ^ 64"
    using cap F(2) by (simp_all add: kWorkingSetSize_def kNumPriceLevels_def kOrdersProcessed_def)
  obtain resting b1 m1 where prime: "prime_loop_t E A 0 kWorkingSetSize (b0, m0\<lparr>mem_heap := h\<rparr>) [] = Some (Inr resting, b1, m1)" "book_mem ok live F b1 m1"
      "bench_ok (bt_book b1) resting (kWorkingSetSize + 1)" "length resting = kWorkingSetSize"
    using prime_loop_t_ok [OF E F(1) sizes(1,2) mem init] by auto
  let ?m = "m1\<lparr>mem_heap := reset_alloc_counters (mem_heap m1)\<rparr>"
  have m1: "ok m1" and book: "book_ok (bt_book b1)" "resting_orders (bt_book b1) \<noteq> 0"
    using book_memD(1) [OF prime(2)] prime(3,4) by (simp_all add: bench_ok_def kWorkingSetSize_def)
  have ready: "ready k ?m" for k
    using orders_have_nodes [OF prime(2) book] live_ready [OF m1] E(2) array_ready by blast
  have "objects obj (mem_heap ?m) = objects obj (mem_heap m1)" for obj by (simp add: objects_def reset_alloc_counters_def)
  moreover have "ok ?m \<and> (\<forall>k. live k ?m = live k m1)"
    using array_frame [OF m1, of "reset_alloc_counters (mem_heap m1)"] heap [OF m1] by (simp add: heap_ok_def objects_def reset_alloc_counters_def)
  ultimately have mem1: "book_mem ok live F b1 ?m" using prime(2) by (simp add: book_mem_def)
  obtain resting' b' m' where run: "steady_loop_t E A 0 kOrdersProcessed (of_nat (kWorkingSetSize + 1)) (b1, ?m) resting = Some (Inr resting', b', m')"
      "bench_ok (bt_book b') resting' (kWorkingSetSize + 1 + (kOrdersProcessed - 0))" "length resting' = kWorkingSetSize"
      "paid (2 * (kOrdersProcessed - 0)) (2 * (kOrdersProcessed - 0)) ?m m'"
    using steady_loop_t_ok [OF E(1) F(1) sizes(1,3) mem1 ready prime(3,4) sizes(4)] by blast
  have "calls (of_nat (2 * kOrdersProcessed) * cost) (of_nat (2 * kOrdersProcessed) * cost) ?m m'" using run(4) ready by simp
  then have "new_call_count (mem_heap m') = of_nat (2 * kOrdersProcessed) * cost" "delete_call_count (mem_heap m') = of_nat (2 * kOrdersProcessed) * cost"
    by (simp_all add: calls_def new_call_count_def delete_call_count_def reset_alloc_counters_def)
  then have "report_counts E A m = Some (Inr (of_nat (2 * kOrdersProcessed) * cost, of_nat (2 * kOrdersProcessed) * cost, b'), m')"
    using c p prime(1,4) run(1) by (simp add: report_counts_def prime_working_set_t_def run_steady_state_t_def Let_def)
  then show thesis using that run(2,3) by simp
qed

end

subsection \<open>The price levels\<close>

lemma slot_price_inj: "slot_price k = slot_price k' \<longleftrightarrow> k mod kNumPriceLevels = k' mod kNumPriceLevels"
proof -
  have "k mod 50 < 2 ^ 64" "k' mod 50 < 2 ^ 64" by (simp_all add: less_trans [OF mod_less_divisor])
  then show ?thesis by (simp add: slot_price_def kNumPriceLevels_def word_of_nat_eq_iff take_bit_nat_eq_self)
qed

lemma side_levels:
  assumes ok: "bench_ok b resting next_id" and len: "kNumPriceLevels \<le> length resting"
  shows "length (ladder s b) = 25"
proof -
  let ?K = "{k. k < kNumPriceLevels \<and> (slot_side k = Buy \<longleftrightarrow> s = Buy)}"
  have book: "book_ok b" "set (book_orders b) = working_set resting" using ok by (simp_all add: bench_ok_def)
  have side: "slot_side (k mod kNumPriceLevels) = slot_side k" for k by (simp add: slot_side_def kNumPriceLevels_def mod_mod_cancel)
  have price: "slot_price (k mod kNumPriceLevels) = slot_price k" for k by (simp add: slot_price_def)
  have "side_prices (book_orders b) s = slot_price ` ?K"
  proof (intro equalityI subsetI)
    fix p
    assume "p \<in> side_prices (book_orders b) s"
    then obtain k where "slot_side k = Buy \<longleftrightarrow> s = Buy" "p = slot_price k"
      by (auto simp: side_prices_def book(2) working_set_def same_side_def slot_order_def)
    then show "p \<in> slot_price ` ?K" using side price by (intro image_eqI [of _ _ "k mod kNumPriceLevels"]) (auto simp: kNumPriceLevels_def)
  next
    fix p
    assume "p \<in> slot_price ` ?K"
    then obtain k where k: "k < kNumPriceLevels" "slot_side k = Buy \<longleftrightarrow> s = Buy" "p = slot_price k" by auto
    moreover have "k < length resting" using k(1) len by linarith
    ultimately show "p \<in> side_prices (book_orders b) s"
      by (auto simp: side_prices_def book(2) working_set_def same_side_def slot_order_def image_iff)
  qed
  moreover have "inj_on slot_price ?K" by (intro inj_onI) (simp add: slot_price_inj)
  moreover have "card ?K = 25"
  proof -
    have "?K = (\<lambda>j. 2 * j + (if s = Buy then 0 else 1)) ` {..<25}"
      by (auto simp: slot_side_def kNumPriceLevels_def image_iff Bex_def) presburger+
    then show ?thesis by (simp add: card_image inj_on_def)
  qed
  moreover have "length (ladder s b) = card (side_prices (book_orders b) s)"
    using distinct_card [OF ladder_order.sorted_keys_distinct [OF book_okD(5) [OF book(1)]], of s] ladder_keys [OF book(1), of s] by simp
  ultimately show ?thesis by (simp add: card_image)
qed

text \<open>The book at the end of a run: \<open>kWorkingSetSize\<close> resting orders, one for every slot of \<open>resting\<close>, at 25 price levels of each side.\<close>

definition working_set_book :: "OrderBook \<Rightarrow> bool" where
  "working_set_book b \<longleftrightarrow> length (ob_bids b) = 25 \<and> length (ob_asks b) = 25 \<and> resting_orders b = kWorkingSetSize \<and>
     (\<exists>resting. length resting = kWorkingSetSize \<and> distinct resting \<and> set (book_orders b) = working_set resting)"

text \<open>
  C38. What the allocation benchmark prints, on a heap that never runs out: for the pool-backed book the two million cycles of the steady state make no call of \<open>operator new\<close> and none of
  \<open>operator delete\<close>; for the book on \<open>std::allocator\<close> they make exactly four million of each, two per order (its list node and its hash node).  Both runs end with the
  working set: 20000 resting orders with distinct identifiers, one of quantity 100 on the side and at the price of each slot.  In both each side of
  the book has 25 price levels, not \<open>kNumPriceLevels\<close> as the header says: the parity of the slot decides both the side and the price.
\<close>

theorem allocation_benchmark:
  assumes "env_ok E" "unlimited E" "heap_ok h" "\<And>k. heap_nodes k m = {}" "heap_ok (mem_heap m)"
  shows "allocation_main E ndebug \<lparr>mem_pools = (\<lambda>_. pools_init), mem_heap = h\<rparr> t m t' =
      Some (Inr (allocation_header @ report_row ''Pool-backed (OrderBook)'' t 0 0 @ report_row ''Naive (std::allocator)'' t' 4000000 4000000)) \<and>
    (\<exists>b m'. report_counts E (pool_allocator E ndebug kShardOrderPoolCapacity 0) \<lparr>mem_pools = (\<lambda>_. pools_init), mem_heap = h\<rparr> = Some (Inr (0, 0, b), m') \<and>
      working_set_book (bt_book b)) \<and>
    (\<exists>b m'. report_counts E (std_allocator E) m = Some (Inr (4000000, 4000000, b), m') \<and> working_set_book (bt_book b))"
proof -
  have levels: "length (ob_bids b) = 25 \<and> length (ob_asks b) = 25" if "bench_ok b resting n" "length resting = kWorkingSetSize" for b resting n
    using side_levels [OF that(1), of Buy] side_levels [OF that(1), of Sell] that(2) by (simp add: ladder_def kWorkingSetSize_def kNumPriceLevels_def)
  have ends: "working_set_book b" if "bench_ok b resting n" "length resting = kWorkingSetSize" for b resting n
    unfolding working_set_book_def using levels [OF that] that by (auto simp: bench_ok_def)
  let ?m = "\<lparr>mem_pools = (\<lambda>_. pools_init), mem_heap = h\<rparr>"
  have "pools_ok kShardOrderPoolCapacity pools_init" by (rule pools_init_ok) (simp_all add: kShardOrderPoolCapacity)
  then have "pool_mem_ok kShardOrderPoolCapacity 0 ?m" "pool_nodes kShardOrderPoolCapacity 0 k ?m = {}" for k
    using assms(3) by (simp_all add: pool_mem_ok_def pool_nodes_def live_blocks_def pools_init_def kMaxPoolShards_def)
  moreover have cap: "kWorkingSetSize \<le> kShardOrderPoolCapacity" by (simp add: kShardOrderPoolCapacity kWorkingSetSize_def)
  ultimately obtain resting b m' where pool: "report_counts E (pool_allocator E ndebug kShardOrderPoolCapacity 0) ?m =
      Some (Inr (of_nat (2 * kOrdersProcessed) * 0, of_nat (2 * kOrdersProcessed) * 0, b), m')"
    "bench_ok (bt_book b) resting (kWorkingSetSize + 1 + kOrdersProcessed)" "length resting = kWorkingSetSize"
    using pool_counts.report_ok [OF assms(1,2)] by blast
  obtain resting2 b2 m2 where std: "report_counts E (std_allocator E) m =
      Some (Inr (of_nat (2 * kOrdersProcessed) * 1, of_nat (2 * kOrdersProcessed) * 1, b2), m2)"
    "bench_ok (bt_book b2) resting2 (kWorkingSetSize + 1 + kOrdersProcessed)" "length resting2 = kWorkingSetSize"
    using std_counts.report_ok [OF assms(1,2,5,4) cap] by blast
  note counts = pool(1) [simplified kOrdersProcessed_def, simplified] std(1) [simplified kOrdersProcessed_def, simplified]
  then have "allocation_main E ndebug ?m t m t' =
      Some (Inr (allocation_header @ report_row ''Pool-backed (OrderBook)'' t 0 0 @ report_row ''Naive (std::allocator)'' t' 4000000 4000000))"
    by (simp only: allocation_main_def report_def option.case sum.case prod.case)
  then show ?thesis using counts ends [OF pool(2,3)] ends [OF std(2,3)] by blast
qed

theorem allocation_benchmark_witness:
  "allocation_main demo_env True \<lparr>mem_pools = (\<lambda>_. pools_init), mem_heap = heap_init\<rparr> 60000000 \<lparr>mem_pools = (), mem_heap = heap_init\<rparr> 90000000 =
    Some (Inr (allocation_header @ report_row ''Pool-backed (OrderBook)'' 60000000 0 0 @ report_row ''Naive (std::allocator)'' 90000000 4000000 4000000))"
proof -
  have "heap_nodes k \<lparr>mem_pools = (), mem_heap = heap_init\<rparr> = {}" "heap_ok (mem_heap \<lparr>mem_pools = (), mem_heap = heap_init\<rparr>)" for k
    using demo_env_ok(3) by (simp_all add: heap_nodes_def objects_def heap_init_def)
  from allocation_benchmark [OF demo_env_ok this, of True] show ?thesis by blast
qed

end
