(* ===== verification/Ring_Concurrent.thy ===== *)
theory Ring_Concurrent
  imports Ring_Buffer
begin

text \<open>
  The ring buffer of \<open>concurrency/spsc_ring_buffer.hpp\<close> under every interleaving of one producer
  thread and one consumer thread.  The program counters name the next access to shared memory; each
  step performs one atomic access (or one plain access of \<open>slot.value\<close>) and the local computation up to
  the next one.  Accesses are sequentially consistent here: the interleavings are those of the header
  comment's argument, not the reorderings of the weaker C++ orders, which \<open>Ring_Weak\<close> has.

  Ghost fields record the history: the published items in order, for each advance of \<open>head_\<close> whether
  the consumer (True) or an eviction (False) won it, the values handed out by \<open>try_pop\<close>, and the number of
  external \<open>notify_waiters()\<close> calls.  The results hold as long as fewer than \<open>2 ^ 64\<close> items were
  pushed, so that the counters have not wrapped.
\<close>

subsection \<open>Program counters and state\<close>

datatype 'a ppc =
    P_idle
  | P_load_tail 'a
  | P_load_head 'a u64
  | P_cas 'a u64 u64
  | P_count 'a u64
  | P_spin 'a u64
  | P_write 'a u64
  | P_store 'a u64
  | P_gen

datatype cpc =
    C_idle
  | C_load_head
  | C_load_tail u64
  | C_flag u64
  | C_cas u64
  | C_retract u64
  | C_read u64
  | C_clear u64
  | W_first
  | W_first_tail u64
  | W_first_head u64
  | W_gen
  | W_again u64
  | W_again_tail u64 u64
  | W_again_head u64 u64
  | W_wait u64

record 'a conc =
  mem :: "'a ring"
  ppc :: "'a ppc"
  cpc :: cpc
  pushed_items :: "'a list"
  claims :: "bool list"
  delivered :: "'a list"
  notified :: nat

definition conc_init :: "nat \<Rightarrow> 'a \<Rightarrow> 'a conc" where
  "conc_init cap v = \<lparr>mem = ring_init cap v, ppc = P_idle, cpc = C_idle, pushed_items = [], claims = [],
     delivered = [], notified = 0\<rparr>"

text \<open>\<open>buffer_[i % Capacity]\<close>\<close>

definition slot_ix :: "u64 \<Rightarrow> 'a ring \<Rightarrow> nat" where
  "slot_ix i m = unat i mod rb_capacity m"

subsection \<open>The producer\<close>

definition call_push :: "'a \<Rightarrow> 'a conc \<Rightarrow> 'a conc" where
  "call_push item s = s\<lparr>ppc := P_load_tail item\<rparr>"

definition push_step :: "'a conc \<Rightarrow> 'a conc" where
  "push_step s =
     (case ppc s of
        P_idle \<Rightarrow> s
      | P_load_tail item \<Rightarrow> s\<lparr>ppc := P_load_head item (rb_tail (mem s))\<rparr>
      | P_load_head item tail \<Rightarrow>
          (let head = rb_head (mem s)
           in if of_nat (rb_capacity (mem s)) \<le> tail - head then s\<lparr>ppc := P_cas item tail head\<rparr>
              else s\<lparr>ppc := P_spin item tail\<rparr>)
      | P_cas item tail head \<Rightarrow>
          (case cas_head head (head + 1) (mem s) of
             (True, m) \<Rightarrow> s\<lparr>mem := m, ppc := P_count item tail, claims := claims s @ [False]\<rparr>
           | (False, m) \<Rightarrow> s\<lparr>mem := m, ppc := P_spin item tail\<rparr>)
      | P_count item tail \<Rightarrow>
          s\<lparr>mem := (mem s)\<lparr>rb_dropped := rb_dropped (mem s) + 1\<rparr>, ppc := P_spin item tail\<rparr>
      | P_spin item tail \<Rightarrow>
          (if reader_active (rb_buffer (mem s) ! slot_ix tail (mem s)) then s else s\<lparr>ppc := P_write item tail\<rparr>)
      | P_write item tail \<Rightarrow>
          s\<lparr>mem := set_slot_value (slot_ix tail (mem s)) item (mem s), ppc := P_store item tail\<rparr>
      | P_store item tail \<Rightarrow>
          s\<lparr>mem := (mem s)\<lparr>rb_tail := tail + 1\<rparr>, ppc := P_gen, pushed_items := pushed_items s @ [item]\<rparr>
      | P_gen \<Rightarrow> s\<lparr>mem := notify_waiters (mem s), ppc := P_idle\<rparr>)"

subsection \<open>The consumer\<close>

definition call_try_pop :: "'a conc \<Rightarrow> 'a conc" where
  "call_try_pop s = s\<lparr>cpc := C_load_head\<rparr>"

definition try_pop_step :: "'a conc \<Rightarrow> 'a conc" where
  "try_pop_step s =
     (case cpc s of
        C_load_head \<Rightarrow> s\<lparr>cpc := C_load_tail (rb_head (mem s))\<rparr>
      | C_load_tail head \<Rightarrow> s\<lparr>cpc := (if rb_tail (mem s) = head then C_idle else C_flag head)\<rparr>
      | C_flag head \<Rightarrow> s\<lparr>mem := set_reader_active (slot_ix head (mem s)) True (mem s), cpc := C_cas head\<rparr>
      | C_cas head \<Rightarrow>
          (case cas_head head (head + 1) (mem s) of
             (True, m) \<Rightarrow> s\<lparr>mem := m, cpc := C_read head, claims := claims s @ [True]\<rparr>
           | (False, m) \<Rightarrow> s\<lparr>mem := m, cpc := C_retract head\<rparr>)
      | C_retract head \<Rightarrow> s\<lparr>mem := set_reader_active (slot_ix head (mem s)) False (mem s), cpc := C_idle\<rparr>
      | C_read head \<Rightarrow>
          s\<lparr>cpc := C_clear head, delivered := delivered s @ [slot_value (rb_buffer (mem s) ! slot_ix head (mem s))]\<rparr>
      | C_clear head \<Rightarrow> s\<lparr>mem := set_reader_active (slot_ix head (mem s)) False (mem s), cpc := C_idle\<rparr>
      | _ \<Rightarrow> s)"

text \<open>
  \<open>wait_for_data\<close>: the operands of \<open>tail_.load() != head_.load()\<close> are evaluated in an order that the
  language leaves open; the argument \<open>tail_first\<close> resolves it at each evaluation.  The last step is
  \<open>wake_generation_.wait(observed)\<close>, which returns only once the value differs.
\<close>

definition call_wait :: "'a conc \<Rightarrow> 'a conc" where
  "call_wait s = s\<lparr>cpc := W_first\<rparr>"

definition wait_for_data_step :: "bool \<Rightarrow> 'a conc \<Rightarrow> 'a conc" where
  "wait_for_data_step tail_first s =
     (case cpc s of
        W_first \<Rightarrow>
          s\<lparr>cpc := (if tail_first then W_first_tail (rb_tail (mem s)) else W_first_head (rb_head (mem s)))\<rparr>
      | W_first_tail tail \<Rightarrow> s\<lparr>cpc := (if tail \<noteq> rb_head (mem s) then C_idle else W_gen)\<rparr>
      | W_first_head head \<Rightarrow> s\<lparr>cpc := (if rb_tail (mem s) \<noteq> head then C_idle else W_gen)\<rparr>
      | W_gen \<Rightarrow> s\<lparr>cpc := W_again (rb_wake_generation (mem s))\<rparr>
      | W_again g \<Rightarrow>
          s\<lparr>cpc := (if tail_first then W_again_tail g (rb_tail (mem s)) else W_again_head g (rb_head (mem s)))\<rparr>
      | W_again_tail g tail \<Rightarrow> s\<lparr>cpc := (if tail \<noteq> rb_head (mem s) then C_idle else W_wait g)\<rparr>
      | W_again_head g head \<Rightarrow> s\<lparr>cpc := (if rb_tail (mem s) \<noteq> head then C_idle else W_wait g)\<rparr>
      | W_wait g \<Rightarrow> (if rb_wake_generation (mem s) \<noteq> g then s\<lparr>cpc := C_idle\<rparr> else s)
      | _ \<Rightarrow> s)"

definition external_notify :: "'a conc \<Rightarrow> 'a conc" where
  "external_notify s = s\<lparr>mem := notify_waiters (mem s), notified := Suc (notified s)\<rparr>"

subsection \<open>Interleavings\<close>

inductive conc_step :: "'a conc \<Rightarrow> 'a conc \<Rightarrow> bool" where
  call_push: "ppc s = P_idle \<Longrightarrow> conc_step s (call_push item s)"
| push: "conc_step s (push_step s)"
| call_try_pop: "cpc s = C_idle \<Longrightarrow> conc_step s (call_try_pop s)"
| try_pop: "conc_step s (try_pop_step s)"
| call_wait: "cpc s = C_idle \<Longrightarrow> conc_step s (call_wait s)"
| wait_for_data: "conc_step s (wait_for_data_step tail_first s)"
| external_notify: "conc_step s (external_notify s)"

inductive conc_reach :: "nat \<Rightarrow> 'a \<Rightarrow> 'a conc \<Rightarrow> bool" for cap v where
  init: "conc_reach cap v (conc_init cap v)"
| step: "conc_reach cap v s \<Longrightarrow> conc_step s s' \<Longrightarrow> conc_reach cap v s'"

text \<open>A schedule as data, for concrete executions.\<close>

datatype 'a sched = Call_push 'a | Producer | Call_try_pop | Call_wait | Consumer bool | Notify

fun sched_step :: "'a sched \<Rightarrow> 'a conc \<Rightarrow> 'a conc" where
  "sched_step (Call_push x) s = (if ppc s = P_idle then call_push x s else s)"
| "sched_step Producer s = push_step s"
| "sched_step Call_try_pop s = (if cpc s = C_idle then call_try_pop s else s)"
| "sched_step Call_wait s = (if cpc s = C_idle then call_wait s else s)"
| "sched_step (Consumer b) s = wait_for_data_step b (try_pop_step s)"
| "sched_step Notify s = external_notify s"


subsection \<open>Memory accesses\<close>

lemma rb_capacity_ops [simp]:
  "rb_capacity (set_reader_active i b m) = rb_capacity m" "rb_capacity (set_slot_value i v m) = rb_capacity m"
  "rb_capacity (notify_waiters m) = rb_capacity m" "rb_capacity (m\<lparr>rb_head := h\<rparr>) = rb_capacity m"
  "rb_capacity (m\<lparr>rb_tail := t\<rparr>) = rb_capacity m" "rb_capacity (m\<lparr>rb_dropped := d\<rparr>) = rb_capacity m"
  by (simp_all add: rb_capacity_def set_reader_active_def set_slot_value_def notify_waiters_def)

lemma slot_ix_ops [simp]:
  "slot_ix k (set_reader_active i b m) = slot_ix k m" "slot_ix k (set_slot_value i v m) = slot_ix k m"
  "slot_ix k (notify_waiters m) = slot_ix k m" "slot_ix k (m\<lparr>rb_head := h\<rparr>) = slot_ix k m"
  "slot_ix k (m\<lparr>rb_tail := t\<rparr>) = slot_ix k m" "slot_ix k (m\<lparr>rb_dropped := d\<rparr>) = slot_ix k m"
  by (simp_all add: slot_ix_def)

lemma slot_ix_less: "0 < rb_capacity m \<Longrightarrow> slot_ix i m < rb_capacity m"
  by (simp add: slot_ix_def)

lemma counters_ops [simp]:
  "rb_tail (set_reader_active i b m) = rb_tail m" "rb_tail (set_slot_value i v m) = rb_tail m"
  "rb_head (set_reader_active i b m) = rb_head m" "rb_head (set_slot_value i v m) = rb_head m"
  "rb_dropped (set_reader_active i b m) = rb_dropped m" "rb_dropped (set_slot_value i v m) = rb_dropped m"
  "rb_wake_generation (set_reader_active i b m) = rb_wake_generation m"
  "rb_wake_generation (set_slot_value i v m) = rb_wake_generation m"
  "rb_tail (notify_waiters m) = rb_tail m" "rb_head (notify_waiters m) = rb_head m"
  "rb_dropped (notify_waiters m) = rb_dropped m" "rb_buffer (notify_waiters m) = rb_buffer m"
  "rb_wake_generation (notify_waiters m) = rb_wake_generation m + 1"
  by (simp_all add: set_reader_active_def set_slot_value_def notify_waiters_def)

lemma slot_ops [simp]:
  "slot_value (rb_buffer (set_reader_active i b m) ! j) = slot_value (rb_buffer m ! j)"
  "reader_active (rb_buffer (set_slot_value i v m) ! j) = reader_active (rb_buffer m ! j)"
  "i < rb_capacity m \<Longrightarrow> reader_active (rb_buffer (set_reader_active i b m) ! j) =
     (if j = i then b else reader_active (rb_buffer m ! j))"
  "i < rb_capacity m \<Longrightarrow> slot_value (rb_buffer (set_slot_value i v m) ! j) =
     (if j = i then v else slot_value (rb_buffer m ! j))"
proof -
  have len: "\<not> i < length (rb_buffer m) \<Longrightarrow> (rb_buffer m)[i := x] = rb_buffer m" for x
    by (simp add: list_update_beyond)
  show "slot_value (rb_buffer (set_reader_active i b m) ! j) = slot_value (rb_buffer m ! j)"
    by (cases "i < length (rb_buffer m)") (simp_all add: set_reader_active_def nth_list_update len)
  show "reader_active (rb_buffer (set_slot_value i v m) ! j) = reader_active (rb_buffer m ! j)"
    by (cases "i < length (rb_buffer m)") (simp_all add: set_slot_value_def nth_list_update len)
qed (simp_all add: set_reader_active_def set_slot_value_def rb_capacity_def nth_list_update)

subsection \<open>Invariant\<close>

text \<open>
  \<open>P\<close> are the published items and \<open>H\<close> the number of claimed transitions.  The consumer holds the
  \<open>reader_active\<close> flag of at most one slot.
\<close>

fun flag_holder :: "cpc \<Rightarrow> u64 option" where
  "flag_holder (C_cas h) = Some h"
| "flag_holder (C_retract h) = Some h"
| "flag_holder (C_read h) = Some h"
| "flag_holder (C_clear h) = Some h"
| "flag_holder _ = None"

definition counters_ok :: "'a ring \<Rightarrow> 'a list \<Rightarrow> nat \<Rightarrow> bool" where
  "counters_ok m P H \<longleftrightarrow>
     0 < rb_capacity m \<and> rb_capacity m < 2 ^ 64 \<and> unat (rb_tail m) = length P \<and> unat (rb_head m) = H \<and>
     H \<le> length P \<and> length P \<le> H + rb_capacity m"

definition slots_ok :: "'a ring \<Rightarrow> 'a list \<Rightarrow> nat \<Rightarrow> bool" where
  "slots_ok m P H \<longleftrightarrow>
     (\<forall>i. H \<le> i \<and> i < length P \<longrightarrow> slot_value (rb_buffer m ! (i mod rb_capacity m)) = P ! i)"

definition flags_ok :: "'a ring \<Rightarrow> cpc \<Rightarrow> bool" where
  "flags_ok m pc \<longleftrightarrow>
     (\<forall>j < rb_capacity m. reader_active (rb_buffer m ! j) \<longleftrightarrow> (\<exists>h. flag_holder pc = Some h \<and> slot_ix h m = j))"

fun pending_drop :: "'a ppc \<Rightarrow> u64" where
  "pending_drop (P_count _ _) = 1"
| "pending_drop _ = 0"

fun producer_ok :: "'a ring \<Rightarrow> 'a list \<Rightarrow> nat \<Rightarrow> 'a ppc \<Rightarrow> bool" where
  "producer_ok m P H (P_load_head x t) \<longleftrightarrow> t = rb_tail m"
| "producer_ok m P H (P_cas x t h) \<longleftrightarrow> t = rb_tail m \<and> unat h \<le> H \<and> length P = unat h + rb_capacity m"
| "producer_ok m P H (P_count x t) \<longleftrightarrow> t = rb_tail m \<and> length P < H + rb_capacity m"
| "producer_ok m P H (P_spin x t) \<longleftrightarrow> t = rb_tail m \<and> length P < H + rb_capacity m"
| "producer_ok m P H (P_write x t) \<longleftrightarrow> t = rb_tail m \<and> length P < H + rb_capacity m"
| "producer_ok m P H (P_store x t) \<longleftrightarrow> t = rb_tail m \<and> length P < H + rb_capacity m \<and>
     slot_value (rb_buffer m ! slot_ix t m) = x"
| "producer_ok m P H _ \<longleftrightarrow> True"

fun consumer_ok :: "'a ring \<Rightarrow> 'a list \<Rightarrow> nat \<Rightarrow> cpc \<Rightarrow> bool" where
  "consumer_ok m P H (C_load_tail h) \<longleftrightarrow> unat h \<le> H"
| "consumer_ok m P H (C_flag h) \<longleftrightarrow> unat h \<le> H \<and> unat h < length P"
| "consumer_ok m P H (C_cas h) \<longleftrightarrow> unat h \<le> H \<and> unat h < length P"
| "consumer_ok m P H (C_read h) \<longleftrightarrow> unat h < H \<and> slot_value (rb_buffer m ! slot_ix h m) = P ! unat h"
| "consumer_ok m P H _ \<longleftrightarrow> True"

definition excluded :: "'a ring \<Rightarrow> 'a ppc \<Rightarrow> cpc \<Rightarrow> bool" where
  "excluded m p c \<longleftrightarrow> (\<forall>x t h. p = P_write x t \<and> c = C_read h \<longrightarrow> slot_ix t m \<noteq> slot_ix h m)"

text \<open>The published items whose transition the consumer won, and the one it is about to read.\<close>

definition picked :: "'a list \<Rightarrow> bool list \<Rightarrow> 'a list" where
  "picked P cs = map fst (filter snd (zip P cs))"

fun in_flight :: "'a list \<Rightarrow> cpc \<Rightarrow> 'a list" where
  "in_flight P (C_read h) = [P ! unat h]"
| "in_flight P _ = []"

definition conc_inv :: "'a conc \<Rightarrow> bool" where
  "conc_inv s \<longleftrightarrow>
     counters_ok (mem s) (pushed_items s) (length (claims s)) \<and>
     slots_ok (mem s) (pushed_items s) (length (claims s)) \<and>
     flags_ok (mem s) (cpc s) \<and>
     rb_dropped (mem s) + pending_drop (ppc s) = of_nat (length (filter Not (claims s))) \<and>
     producer_ok (mem s) (pushed_items s) (length (claims s)) (ppc s) \<and>
     consumer_ok (mem s) (pushed_items s) (length (claims s)) (cpc s) \<and>
     excluded (mem s) (ppc s) (cpc s) \<and>
     picked (pushed_items s) (claims s) = delivered s @ in_flight (pushed_items s) (cpc s)"

lemma mod_eq_close:
  fixes i j c :: nat
  assumes "i mod c = j mod c" "i \<le> j" "j < i + c"
  shows "i = j"
proof -
  have "j - i < c" using assms(2,3) by linarith
  then have "j - i = 0" using mod_add_inj [of "j - i" c 0 i] assms(1,2) by simp
  then show ?thesis using assms(2) by simp
qed

lemma conc_init_inv:
  assumes "0 < cap" "cap < 2 ^ 64"
  shows "conc_inv (conc_init cap v)"
  using assms by (simp add: conc_inv_def counters_ok_def slots_ok_def flags_ok_def excluded_def picked_def
      conc_init_def ring_init_def rb_capacity_def)

lemma picked_push: "length cs \<le> length P \<Longrightarrow> picked (P @ [x]) cs = picked P cs"
  by (simp add: picked_def zip_append1)

lemma picked_claim: "length cs < length P \<Longrightarrow> picked P (cs @ [b]) = picked P cs @ (if b then [P ! length cs] else [])"
proof -
  assume l: "length cs < length P"
  then obtain P1 y P2 where P: "P = P1 @ y # P2" and len: "length P1 = length cs"
    by (metis id_take_nth_drop length_take less_imp_le_nat min.absorb2)
  moreover have "zip P cs = zip P1 cs" using P len by (simp add: zip_append1)
  ultimately show ?thesis by (simp add: picked_def nth_append)
qed

subsection \<open>Preservation by the calls and by \<open>wait_for_data\<close>\<close>

lemma memory_frame [simp]:
  "counters_ok (notify_waiters m) P H = counters_ok m P H"
  "counters_ok (set_reader_active i b m) P H = counters_ok m P H"
  "counters_ok (set_slot_value i v m) P H = counters_ok m P H"
  "counters_ok (m\<lparr>rb_dropped := d\<rparr>) P H = counters_ok m P H"
  "slots_ok (notify_waiters m) P H = slots_ok m P H"
  "slots_ok (set_reader_active i b m) P H = slots_ok m P H"
  "slots_ok (m\<lparr>rb_head := h\<rparr>) P H = slots_ok m P H"
  "slots_ok (m\<lparr>rb_tail := t\<rparr>) P H = slots_ok m P H"
  "slots_ok (m\<lparr>rb_dropped := d\<rparr>) P H = slots_ok m P H"
  "flags_ok (notify_waiters m) c = flags_ok m c"
  "flags_ok (set_slot_value i v m) c = flags_ok m c"
  "flags_ok (m\<lparr>rb_head := h\<rparr>) c = flags_ok m c"
  "flags_ok (m\<lparr>rb_tail := t\<rparr>) c = flags_ok m c"
  "flags_ok (m\<lparr>rb_dropped := d\<rparr>) c = flags_ok m c"
  "excluded (notify_waiters m) p c = excluded m p c"
  "excluded (set_reader_active i b m) p c = excluded m p c"
  "excluded (set_slot_value i v m) p c = excluded m p c"
  "excluded (m\<lparr>rb_head := h\<rparr>) p c = excluded m p c"
  "excluded (m\<lparr>rb_tail := t\<rparr>) p c = excluded m p c"
  "excluded (m\<lparr>rb_dropped := d\<rparr>) p c = excluded m p c"
  by (simp_all add: counters_ok_def slots_ok_def flags_ok_def excluded_def)

lemma producer_frame [simp]:
  "producer_ok (notify_waiters m) P H p = producer_ok m P H p"
  "producer_ok (set_reader_active i b m) P H p = producer_ok m P H p"
  "producer_ok (m\<lparr>rb_head := h\<rparr>) P H p = producer_ok m P H p"
  by (cases p; simp)+

lemma consumer_frame [simp]:
  "consumer_ok (notify_waiters m) P H c = consumer_ok m P H c"
  "consumer_ok (set_reader_active i b m) P H c = consumer_ok m P H c"
  "consumer_ok (m\<lparr>rb_head := h\<rparr>) P H c = consumer_ok m P H c"
  "consumer_ok (m\<lparr>rb_tail := t\<rparr>) P H c = consumer_ok m P H c"
  "consumer_ok (m\<lparr>rb_dropped := d\<rparr>) P H c = consumer_ok m P H c"
  by (cases c; simp)+

lemma excluded_trivial [simp]:
  "(\<And>h. c \<noteq> C_read h) \<Longrightarrow> excluded m p c"
  "(\<And>x t. p \<noteq> P_write x t) \<Longrightarrow> excluded m p c"
  by (simp_all add: excluded_def)

lemma calls_inv:
  "conc_inv s \<Longrightarrow> ppc s = P_idle \<Longrightarrow> conc_inv (call_push item s)"
  "conc_inv s \<Longrightarrow> cpc s = C_idle \<Longrightarrow> conc_inv (call_try_pop s)"
  "conc_inv s \<Longrightarrow> cpc s = C_idle \<Longrightarrow> conc_inv (call_wait s)"
  "conc_inv s \<Longrightarrow> conc_inv (external_notify s)"
  by (auto simp add: conc_inv_def call_push_def call_try_pop_def call_wait_def external_notify_def flags_ok_def)

lemma wait_inv: "conc_inv s \<Longrightarrow> conc_inv (wait_for_data_step b s)"
  by (cases "cpc s") (simp_all add: conc_inv_def wait_for_data_step_def flags_ok_def)


subsection \<open>Preservation by the consumer\<close>

lemma producer_mono: "producer_ok m P H p \<Longrightarrow> producer_ok m P (Suc H) p"
  by (cases p) auto

lemma consumer_mono: "consumer_ok m P H c \<Longrightarrow> consumer_ok m P (Suc H) c"
  by (cases c) auto

lemma slots_mono: "slots_ok m P H \<Longrightarrow> slots_ok m P (Suc H)"
  by (simp add: slots_ok_def)

text \<open>Advancing \<open>head_\<close> from a value below \<open>tail_\<close>.\<close>

lemma advance_head_ok:
  assumes "counters_ok m P H" and "H < length P"
  shows "counters_ok (m\<lparr>rb_head := rb_head m + 1\<rparr>) P (Suc H)"
proof -
  have "unat (rb_head m) < unat (rb_tail m)" using assms by (simp add: counters_ok_def)
  then have "rb_head m \<noteq> -1" by (auto simp: word_less_nat_alt [symmetric])
  then show ?thesis using assms unat_inc [of "rb_head m"] by (simp add: counters_ok_def)
qed

lemma try_pop_claim:
  assumes "conc_inv s" and pc: "cpc s = C_cas h" and won: "rb_head (mem s) = h"
  shows "conc_inv (try_pop_step s)"
proof -
  let ?m = "mem s" and ?P = "pushed_items s" and ?H = "length (claims s)"
  note inv = assms(1) [unfolded conc_inv_def pc]
  have H: "unat h = ?H" "?H < length ?P" using inv won by (auto simp: counters_ok_def)
  have "slot_value (rb_buffer ?m ! slot_ix h ?m) = ?P ! unat h"
    using inv H by (simp add: slots_ok_def slot_ix_def)
  moreover have "slot_ix t ?m \<noteq> slot_ix h ?m" if "ppc s = P_write x t" for x t
  proof
    assume "slot_ix t ?m = slot_ix h ?m"
    then have "?H = length ?P"
      using mod_eq_close [of ?H "rb_capacity ?m" "length ?P"] inv that H
      by (simp add: slot_ix_def counters_ok_def)
    then show False using H by simp
  qed
  ultimately show ?thesis
    using inv H won advance_head_ok [of ?m ?P ?H] producer_mono [of ?m ?P ?H] slots_mono [of ?m ?P ?H]
    by (simp add: conc_inv_def try_pop_step_def pc cas_head_def flags_ok_def excluded_def picked_claim)
qed

lemma try_pop_inv:
  assumes inv: "conc_inv s"
  shows "conc_inv (try_pop_step s)"
proof (cases "cpc s")
  case C_load_head
  then show ?thesis using inv by (simp add: conc_inv_def try_pop_step_def counters_ok_def flags_ok_def)
next
  case (C_load_tail h)
  have "rb_tail (mem s) \<noteq> h \<Longrightarrow> unat h < length (pushed_items s)"
    using inv C_load_tail by (force simp: conc_inv_def counters_ok_def word_unat_eq_iff)
  then show ?thesis using inv C_load_tail by (simp add: conc_inv_def try_pop_step_def flags_ok_def)
next
  case (C_flag h)
  have "slot_ix h (mem s) < rb_capacity (mem s)" using inv by (simp add: conc_inv_def counters_ok_def slot_ix_less)
  then show ?thesis using inv C_flag by (auto simp: conc_inv_def try_pop_step_def flags_ok_def)
next
  case (C_cas h)
  show ?thesis
  proof (cases "rb_head (mem s) = h")
    case True
    then show ?thesis using try_pop_claim [OF inv C_cas] by simp
  next
    case False
    then show ?thesis using inv C_cas by (simp add: conc_inv_def try_pop_step_def cas_head_def flags_ok_def)
  qed
next
  case (C_retract h)
  have "slot_ix h (mem s) < rb_capacity (mem s)" using inv by (simp add: conc_inv_def counters_ok_def slot_ix_less)
  then show ?thesis using inv C_retract by (auto simp: conc_inv_def try_pop_step_def flags_ok_def)
next
  case (C_read h)
  then show ?thesis using inv by (simp add: conc_inv_def try_pop_step_def flags_ok_def)
next
  case (C_clear h)
  have "slot_ix h (mem s) < rb_capacity (mem s)" using inv by (simp add: conc_inv_def counters_ok_def slot_ix_less)
  then show ?thesis using inv C_clear by (auto simp: conc_inv_def try_pop_step_def flags_ok_def)
qed (use inv in \<open>simp_all add: try_pop_step_def\<close>)

subsection \<open>Preservation by the producer\<close>

lemma full_iff:
  assumes "counters_ok m P H"
  shows "of_nat (rb_capacity m) \<le> rb_tail m - rb_head m \<longleftrightarrow> length P = H + rb_capacity m"
proof -
  have "rb_head m \<le> rb_tail m" using assms by (simp add: counters_ok_def word_le_nat_alt)
  then have "unat (rb_tail m - rb_head m) = length P - H"
    using assms by (simp add: unat_sub counters_ok_def)
  moreover have "unat (of_nat (rb_capacity m) :: u64) = rb_capacity m"
    using assms by (simp add: counters_ok_def unat_of_nat)
  ultimately show ?thesis using assms by (auto simp: word_le_nat_alt counters_ok_def)
qed

lemma push_write_inv:
  assumes "conc_inv s" and pc: "ppc s = P_write x t"
  shows "conc_inv (push_step s)"
proof -
  let ?m = "mem s" and ?P = "pushed_items s" and ?H = "length (claims s)"
  note inv = assms(1) [unfolded conc_inv_def pc]
  have ix: "slot_ix t ?m = length ?P mod rb_capacity ?m" "slot_ix t ?m < rb_capacity ?m"
    using inv by (simp_all add: counters_ok_def slot_ix_def)
  have "i mod rb_capacity ?m \<noteq> slot_ix t ?m" if "?H \<le> i" "i < length ?P" for i
  proof
    assume "i mod rb_capacity ?m = slot_ix t ?m"
    then have "i = length ?P"
      using mod_eq_close [of i "rb_capacity ?m" "length ?P"] inv that ix by simp
    then show False using that by simp
  qed
  then have "slots_ok (set_slot_value (slot_ix t ?m) x ?m) ?P ?H"
    using inv ix by (simp add: slots_ok_def)
  moreover have "consumer_ok (set_slot_value (slot_ix t ?m) x ?m) ?P ?H (cpc s)"
    using inv ix by (cases "cpc s") (auto simp: excluded_def)
  ultimately show ?thesis
    using inv ix by (simp add: conc_inv_def push_step_def pc)
qed

lemma push_store_inv:
  assumes "conc_inv s" and pc: "ppc s = P_store x t" and bound: "Suc (length (pushed_items s)) < 2 ^ 64"
  shows "conc_inv (push_step s)"
proof -
  let ?m = "mem s" and ?P = "pushed_items s" and ?H = "length (claims s)"
  note inv = assms(1) [unfolded conc_inv_def pc]
  have t: "t = rb_tail ?m" "unat t = length ?P" using inv by (simp_all add: counters_ok_def)
  then have "t \<noteq> -1" using bound by (auto simp: unsigned_minus_1_eq_mask mask_eq_exp_minus_1)
  then have tail: "unat (t + 1) = Suc (length ?P)" using unat_inc [of t] t by simp
  have "counters_ok (?m\<lparr>rb_tail := t + 1\<rparr>) (?P @ [x]) ?H"
    using inv tail by (simp add: counters_ok_def)
  moreover have "slots_ok ?m (?P @ [x]) ?H"
    using inv t by (auto simp: slots_ok_def nth_append less_Suc_eq slot_ix_def)
  moreover have "consumer_ok ?m (?P @ [x]) ?H (cpc s)"
    using inv by (cases "cpc s") (auto simp: nth_append counters_ok_def)
  moreover have "in_flight (?P @ [x]) (cpc s) = in_flight ?P (cpc s)"
    using inv by (cases "cpc s") (auto simp: nth_append counters_ok_def)
  moreover have "picked (?P @ [x]) (claims s) = picked ?P (claims s)"
    using inv by (intro picked_push) (simp add: counters_ok_def)
  ultimately show ?thesis using inv by (simp add: conc_inv_def push_step_def pc)
qed

lemma push_cas_inv:
  assumes "conc_inv s" and pc: "ppc s = P_cas x t h"
  shows "conc_inv (push_step s)"
proof (cases "rb_head (mem s) = h")
  case True
  note inv = assms(1) [unfolded conc_inv_def pc]
  have "unat h = length (claims s)" "length (claims s) < length (pushed_items s)"
    using inv True by (auto simp: counters_ok_def)
  then show ?thesis
    using inv True advance_head_ok [of "mem s" "pushed_items s" "length (claims s)"]
      consumer_mono [of "mem s" "pushed_items s" "length (claims s)"] slots_mono [of "mem s" "pushed_items s" "length (claims s)"]
    by (simp add: conc_inv_def push_step_def pc cas_head_def picked_claim)
next
  case False
  note inv = assms(1) [unfolded conc_inv_def pc]
  have "unat h \<noteq> length (claims s)" using inv False by (auto simp: counters_ok_def word_unat_eq_iff)
  then show ?thesis using inv False by (auto simp: conc_inv_def push_step_def pc cas_head_def)
qed

lemma push_inv:
  assumes inv: "conc_inv s" and bound: "length (pushed_items (push_step s)) < 2 ^ 64"
  shows "conc_inv (push_step s)"
proof (cases "ppc s")
  case (P_load_head x t)
  then show ?thesis
    using inv full_iff [of "mem s" "pushed_items s" "length (claims s)"]
    by (auto simp: conc_inv_def push_step_def counters_ok_def)
next
  case (P_cas x t h)
  then show ?thesis using push_cas_inv [OF inv] by simp
next
  case (P_spin x t)
  have "\<not> reader_active (rb_buffer (mem s) ! slot_ix t (mem s)) \<Longrightarrow> excluded (mem s) (P_write x t) (cpc s)"
    using inv slot_ix_less [of "mem s" t] by (auto simp: conc_inv_def flags_ok_def excluded_def counters_ok_def)
  then show ?thesis using inv P_spin by (simp add: conc_inv_def push_step_def)
next
  case (P_write x t)
  then show ?thesis using push_write_inv [OF inv] by simp
next
  case (P_store x t)
  then show ?thesis using push_store_inv [OF inv P_store] bound by (simp add: push_step_def)
qed (use inv in \<open>simp_all add: conc_inv_def push_step_def algebra_simps\<close>)


subsection \<open>Reachable states\<close>

inductive_cases conc_stepE: "conc_step s s'"

lemma pushed_push_step: "length (pushed_items s) \<le> length (pushed_items (push_step s))"
  by (cases "ppc s") (simp_all add: push_step_def cas_head_def Let_def)

lemma pushed_others [simp]:
  "pushed_items (call_push x s) = pushed_items s" "pushed_items (call_try_pop s) = pushed_items s"
  "pushed_items (call_wait s) = pushed_items s" "pushed_items (external_notify s) = pushed_items s"
  "pushed_items (try_pop_step s) = pushed_items s" "pushed_items (wait_for_data_step b s) = pushed_items s"
proof -
  show "pushed_items (try_pop_step s) = pushed_items s"
    by (cases "cpc s") (simp_all add: try_pop_step_def cas_head_def)
  show "pushed_items (wait_for_data_step b s) = pushed_items s"
    by (cases "cpc s") (simp_all add: wait_for_data_step_def)
qed (simp_all add: call_push_def call_try_pop_def call_wait_def external_notify_def)

lemma pushed_mono: "conc_step s s' \<Longrightarrow> length (pushed_items s) \<le> length (pushed_items s')"
  by (erule conc_stepE) (simp_all add: pushed_push_step)

lemma conc_step_inv:
  "conc_step s s' \<Longrightarrow> conc_inv s \<Longrightarrow> length (pushed_items s') < 2 ^ 64 \<Longrightarrow> conc_inv s'"
  by (erule conc_stepE) (simp_all add: calls_inv push_inv try_pop_inv wait_inv)

lemma conc_reach_inv:
  assumes "conc_reach cap v s" "0 < cap" "cap < 2 ^ 64" "length (pushed_items s) < 2 ^ 64"
  shows "conc_inv s"
  using assms
proof (induction rule: conc_reach.induct)
  case init
  then show ?case by (simp add: conc_init_inv)
next
  case (step s s')
  then show ?case using pushed_mono [OF step.hyps(2)] conc_step_inv [OF step.hyps(2)] by simp
qed

lemma sched_step_reach: "conc_reach cap v s \<Longrightarrow> conc_reach cap v (sched_step a s)"
proof (cases a)
  case (Consumer b)
  assume "conc_reach cap v s"
  then have "conc_reach cap v (wait_for_data_step b (try_pop_step s))"
    by (rule conc_reach.step [OF conc_reach.step [OF _ conc_step.try_pop] conc_step.wait_for_data])
  then show ?thesis using Consumer by simp
qed (auto intro: conc_reach.step [OF _ conc_step.call_push] conc_reach.step [OF _ conc_step.push]
    conc_reach.step [OF _ conc_step.call_try_pop] conc_reach.step [OF _ conc_step.call_wait]
    conc_reach.step [OF _ conc_step.external_notify])

lemma sched_reach: "conc_reach cap v (fold sched_step as (conc_init cap v))"
proof -
  have run: "conc_reach cap v s \<Longrightarrow> conc_reach cap v (fold sched_step as s)" for s
    by (induction as arbitrary: s) (simp_all add: sched_step_reach)
  show ?thesis by (rule run) (rule conc_reach.init)
qed

subsection \<open>Wake-ups\<close>

fun pending_gen :: "'a ppc \<Rightarrow> nat" where
  "pending_gen P_gen = 1"
| "pending_gen _ = 0"

fun waiter_ok :: "'a ring \<Rightarrow> 'a ppc \<Rightarrow> cpc \<Rightarrow> bool" where
  "waiter_ok m p (W_again g) \<longleftrightarrow> g \<le> rb_wake_generation m"
| "waiter_ok m p (W_again_tail g t) \<longleftrightarrow> g \<le> rb_wake_generation m \<and>
     (g = rb_wake_generation m \<and> pending_gen p = 0 \<longrightarrow> t = rb_tail m)"
| "waiter_ok m p (W_again_head g h) \<longleftrightarrow> g \<le> rb_wake_generation m \<and> h \<le> rb_head m"
| "waiter_ok m p (W_wait g) \<longleftrightarrow> g \<le> rb_wake_generation m \<and>
     (g = rb_wake_generation m \<and> pending_gen p = 0 \<longrightarrow> rb_tail m = rb_head m)"
| "waiter_ok m p _ \<longleftrightarrow> True"

definition wake_inv :: "'a conc \<Rightarrow> bool" where
  "wake_inv s \<longleftrightarrow>
     unat (rb_wake_generation (mem s)) + pending_gen (ppc s) = length (pushed_items s) + notified s \<and>
     waiter_ok (mem s) (ppc s) (cpc s)"

lemma bump_generation:
  fixes g g' :: u64
  assumes "unat g + 1 < 2 ^ 64"
  shows "unat (g + 1) = Suc (unat g)" and "g' \<le> g \<Longrightarrow> g' \<le> g + 1 \<and> g' \<noteq> g + 1"
proof -
  have "g \<noteq> -1" using assms by (auto simp: unsigned_minus_1_eq_mask mask_eq_exp_minus_1)
  then show "unat (g + 1) = Suc (unat g)" by (rule unat_inc)
  then show "g' \<le> g \<Longrightarrow> g' \<le> g + 1 \<and> g' \<noteq> g + 1" by (auto simp: word_le_nat_alt)
qed

lemma waiter_notify:
  assumes "unat (rb_wake_generation m) + 1 < 2 ^ 64" and "waiter_ok m p c"
  shows "waiter_ok (notify_waiters m) p' c"
  using assms(2) bump_generation(2) [OF assms(1)] by (cases c) auto

lemma waiter_head:
  assumes "counters_ok m P H" "H < length P" "waiter_ok m p c" "pending_gen p = pending_gen p'"
  shows "waiter_ok (m\<lparr>rb_head := rb_head m + 1\<rparr>) p' c"
proof -
  have "rb_head m \<le> rb_head m + 1" "rb_tail m \<noteq> rb_head m"
    using advance_head_ok [OF assms(1,2)] assms(1,2) by (auto simp: counters_ok_def word_le_nat_alt)
  then show ?thesis using assms(3,4) by (cases c) auto
qed

lemma push_wake:
  assumes inv: "conc_inv s" and wake: "wake_inv s"
    and bound: "length (pushed_items (push_step s)) + notified (push_step s) < 2 ^ 64"
  shows "wake_inv (push_step s)"
proof (cases "ppc s")
  case (P_cas x t h)
  have "rb_head (mem s) = h \<Longrightarrow> length (claims s) < length (pushed_items s)"
    using inv P_cas by (auto simp: conc_inv_def counters_ok_def)
  then show ?thesis
    using inv wake P_cas waiter_head [of "mem s" "pushed_items s" "length (claims s)" "ppc s" "cpc s" "P_count x t"]
    by (cases "cpc s") (auto simp: wake_inv_def push_step_def cas_head_def conc_inv_def)
next
  case (P_store x t)
  then show ?thesis using wake by (cases "cpc s") (simp_all add: wake_inv_def push_step_def)
next
  case P_gen
  then show ?thesis
    using wake bound waiter_notify [of "mem s" P_gen "cpc s" P_idle] bump_generation(1) [of "rb_wake_generation (mem s)"]
    by (simp add: wake_inv_def push_step_def)
qed (use wake in \<open>cases "cpc s"; simp add: wake_inv_def push_step_def Let_def\<close>)+

lemma try_pop_wake: "wake_inv s \<Longrightarrow> wake_inv (try_pop_step s)"
  by (cases "cpc s") (simp_all add: wake_inv_def try_pop_step_def cas_head_def)

lemma wait_wake:
  assumes inv: "conc_inv s" and wake: "wake_inv s"
  shows "wake_inv (wait_for_data_step b s)"
proof (cases "cpc s")
  case (W_again_head g h)
  have "rb_tail (mem s) = h \<Longrightarrow> h \<le> rb_head (mem s) \<Longrightarrow> rb_tail (mem s) = rb_head (mem s)"
    using inv by (auto simp: conc_inv_def counters_ok_def word_le_nat_alt word_unat_eq_iff)
  then show ?thesis using wake W_again_head by (auto simp: wake_inv_def wait_for_data_step_def)
qed (use wake in \<open>auto simp: wake_inv_def wait_for_data_step_def\<close>)

lemma notify_wake:
  assumes "wake_inv s" "length (pushed_items s) + notified (external_notify s) < 2 ^ 64"
  shows "wake_inv (external_notify s)"
  using assms waiter_notify [of "mem s" "ppc s" "cpc s" "ppc s"] bump_generation(1) [of "rb_wake_generation (mem s)"]
  by (simp add: wake_inv_def external_notify_def)

lemma calls_wake:
  "wake_inv s \<Longrightarrow> ppc s = P_idle \<Longrightarrow> wake_inv (call_push item s)"
  "wake_inv s \<Longrightarrow> wake_inv (call_try_pop s)"
  "wake_inv s \<Longrightarrow> wake_inv (call_wait s)"
proof -
  show "wake_inv s \<Longrightarrow> ppc s = P_idle \<Longrightarrow> wake_inv (call_push item s)"
    by (cases "cpc s") (simp_all add: wake_inv_def call_push_def)
qed (simp_all add: wake_inv_def call_try_pop_def call_wait_def)

lemma notified_mono: "conc_step s s' \<Longrightarrow> notified s \<le> notified s'"
proof -
  have "notified (push_step s) = notified s" by (cases "ppc s") (simp_all add: push_step_def cas_head_def Let_def)
  moreover have "notified (try_pop_step s) = notified s" by (cases "cpc s") (simp_all add: try_pop_step_def cas_head_def)
  moreover have "notified (wait_for_data_step b s) = notified s" for b
    by (cases "cpc s") (simp_all add: wait_for_data_step_def)
  ultimately show "conc_step s s' \<Longrightarrow> notified s \<le> notified s'"
    by (elim conc_stepE) (simp_all add: call_push_def call_try_pop_def call_wait_def external_notify_def)
qed

lemma conc_step_wake:
  "conc_step s s' \<Longrightarrow> conc_inv s \<Longrightarrow> wake_inv s \<Longrightarrow> length (pushed_items s') + notified s' < 2 ^ 64 \<Longrightarrow> wake_inv s'"
  by (erule conc_stepE) (simp_all add: calls_wake push_wake try_pop_wake wait_wake notify_wake)

lemma conc_reach_wake:
  assumes "conc_reach cap v s" "0 < cap" "cap < 2 ^ 64" "length (pushed_items s) + notified s < 2 ^ 64"
  shows "wake_inv s"
  using assms
proof (induction rule: conc_reach.induct)
  case init
  then show ?case by (simp add: wake_inv_def conc_init_def ring_init_def)
next
  case (step s s')
  have small: "length (pushed_items s) + notified s < 2 ^ 64"
    using step.prems pushed_mono [OF step.hyps(2)] notified_mono [OF step.hyps(2)] by linarith
  then have "conc_inv s" using conc_reach_inv [OF step.hyps(1) step.prems(1,2)] by simp
  then show ?case using conc_step_wake [OF step.hyps(2)] step.IH step.prems small by blast
qed


subsection \<open>Counting\<close>

lemma length_picked: "length cs \<le> length P \<Longrightarrow> length (picked P cs) + length (filter Not cs) = length cs"
proof (induction cs arbitrary: P)
  case (Cons c cs)
  then show ?case by (cases P) (auto simp: picked_def)
qed (simp add: picked_def)

lemma picked_subseq: "subseq (picked P cs) P"
proof (induction P arbitrary: cs)
  case (Cons x P)
  then show ?case by (cases cs) (auto simp: picked_def)
qed (simp add: picked_def)

lemma conc_capacity: "conc_reach cap v s \<Longrightarrow> rb_capacity (mem s) = cap"
proof (induction rule: conc_reach.induct)
  case init
  then show ?case by (simp add: conc_init_def ring_init_def rb_capacity_def)
next
  case (step s s')
  have "rb_capacity (mem (push_step s)) = rb_capacity (mem s)"
    by (cases "ppc s") (simp_all add: push_step_def cas_head_def Let_def)
  moreover have "rb_capacity (mem (try_pop_step s)) = rb_capacity (mem s)"
    by (cases "cpc s") (simp_all add: try_pop_step_def cas_head_def)
  moreover have "rb_capacity (mem (wait_for_data_step b s)) = rb_capacity (mem s)" for b
    by (cases "cpc s") (simp_all add: wait_for_data_step_def)
  ultimately show ?case using step
    by (elim conc_stepE) (simp_all add: call_push_def call_try_pop_def call_wait_def external_notify_def)
qed

subsection \<open>Some executions\<close>

text \<open>
  In a ring of one slot the producer overtakes a consumer that has announced its read but not yet
  claimed it, so that an eviction and a pop race for the same transition; the consumer wins, and
  the producer spins on the flag.  \<open>race_end\<close> is the state after both calls have finished, and
  \<open>asleep\<close> one in which the consumer is blocked while an item was just published.
\<close>

definition race_schedule :: "nat sched list" where
  "race_schedule =
     Call_push 7 # replicate 7 Producer @ [Call_try_pop, Consumer True, Consumer True, Consumer True,
       Call_push 8, Producer, Producer, Consumer True, Producer, Producer]"

definition race :: "nat conc" where
  "race = fold sched_step race_schedule (conc_init 1 0)"

definition race_end :: "nat conc" where
  "race_end = fold sched_step
     (race_schedule @ [Consumer True, Consumer True, Producer, Producer, Producer, Producer]) (conc_init 1 0)"

definition asleep :: "nat conc" where
  "asleep = fold sched_step
     (Call_wait # replicate 4 (Consumer True) @ Consumer False # Call_push 7 # replicate 5 Producer) (conc_init 2 0)"

lemma executions_reach: "conc_reach 1 0 race" "conc_reach 1 0 race_end" "conc_reach 2 0 asleep"
  unfolding race_def race_end_def asleep_def by (rule sched_reach)+

lemma race_fields: "cpc race = C_read 0" "ppc race = P_spin 8 1" "pushed_items race = [7]"
    "reader_active (rb_buffer (mem race) ! slot_ix 1 (mem race))"
  by (simp_all add: race_def race_schedule_def conc_init_def ring_init_def call_push_def call_try_pop_def call_wait_def push_step_def
      try_pop_step_def wait_for_data_step_def cas_head_def set_reader_active_def set_slot_value_def
      notify_waiters_def slot_ix_def rb_capacity_def Let_def numeral_eq_Suc)

lemma race_end_fields: "cpc race_end = C_idle" "ppc race_end = P_idle" "pushed_items race_end = [7, 8]"
    "delivered race_end = [7]"
  by (simp_all add: race_end_def race_schedule_def conc_init_def ring_init_def call_push_def call_try_pop_def call_wait_def push_step_def
      try_pop_step_def wait_for_data_step_def cas_head_def set_reader_active_def set_slot_value_def
      notify_waiters_def slot_ix_def rb_capacity_def Let_def numeral_eq_Suc)

lemma asleep_fields: "cpc asleep = W_wait 0" "rb_wake_generation (mem asleep) = 0" "rb_tail (mem asleep) = 1"
    "rb_head (mem asleep) = 0" "pushed_items asleep = [7]" "notified asleep = 0"
  by (simp_all add: asleep_def conc_init_def ring_init_def call_push_def call_try_pop_def call_wait_def push_step_def
      try_pop_step_def wait_for_data_step_def cas_head_def set_reader_active_def set_slot_value_def
      notify_waiters_def slot_ix_def rb_capacity_def Let_def numeral_eq_Suc)

subsection \<open>Properties\<close>

text \<open>
  Slots on sequentially consistent memory (see \<open>Ring_Weak\<close> for the orders of the code): in no interleaving are the producer about to write and the
  consumer about to read the value of the same slot, and the value that the consumer is about to read is
  the item whose transition it claimed.
\<close>

theorem no_slot_race:
  assumes "conc_reach cap v s" "0 < cap" "cap < 2 ^ 64" "length (pushed_items s) < 2 ^ 64"
    and "cpc s = C_read h"
  shows "\<not> (\<exists>x t. ppc s = P_write x t \<and> slot_ix t (mem s) = slot_ix h (mem s)) \<and>
         slot_value (rb_buffer (mem s) ! slot_ix h (mem s)) = pushed_items s ! unat h"
proof -
  have "conc_inv s" by (rule conc_reach_inv [OF assms(1-4)])
  then show ?thesis using assms(5) by (auto simp: conc_inv_def excluded_def)
qed

theorem no_slot_race_witness:
  "cpc race = C_read 0 \<and> ppc race = P_spin 8 1 \<and> slot_value (rb_buffer (mem race) ! slot_ix 0 (mem race)) = 7"
  using no_slot_race [OF executions_reach(1), of 0] race_fields by simp

text \<open>
  C3. Exactly-once accounting under every interleaving: the delivered values are a subsequence of the
  pushed items (no reordering, duplication or corruption), never more than the capacity are queued, and
  when both threads are between calls every pushed item is delivered, counted as dropped, or still queued.
\<close>

theorem concurrent_conservation:
  assumes "conc_reach cap v s" "0 < cap" "cap < 2 ^ 64" "length (pushed_items s) < 2 ^ 64"
  shows "subseq (delivered s) (pushed_items s) \<and>
         unat (rb_tail (mem s) - rb_head (mem s)) \<le> cap \<and>
         (ppc s = P_idle \<and> cpc s = C_idle \<longrightarrow>
            length (pushed_items s) = length (delivered s) + unat (dropped_updates_total (mem s)) +
              unat (rb_tail (mem s) - rb_head (mem s)))"
proof -
  have inv: "conc_inv s" by (rule conc_reach_inv [OF assms])
  let ?P = "pushed_items s" and ?H = "length (claims s)"
  have count: "unat (rb_tail (mem s) - rb_head (mem s)) = length ?P - ?H" and le: "?H \<le> length ?P"
    using inv by (auto simp: conc_inv_def counters_ok_def unat_sub word_le_nat_alt)
  have "subseq (delivered s) (delivered s @ in_flight ?P (cpc s))" by (rule subseq_rev_drop_many) simp
  then have sub: "subseq (delivered s) ?P"
    using inv picked_subseq [of ?P "claims s"] by (metis conc_inv_def subseq_order.trans)
  have few: "length (filter Not (claims s)) < 2 ^ 64"
    using le assms(4) length_filter_le [of Not "claims s"] by linarith
  then have "ppc s = P_idle \<Longrightarrow> unat (dropped_updates_total (mem s)) = length (filter Not (claims s))"
    using inv by (simp add: conc_inv_def dropped_updates_total_def unat_of_nat)
  then show ?thesis
    using sub count le inv length_picked [OF le] conc_capacity [OF assms(1)]
    by (auto simp: conc_inv_def counters_ok_def)
qed

theorem concurrent_conservation_witness:
  "pushed_items race_end = [7, 8] \<and> delivered race_end = [7] \<and>
   2 = 1 + unat (dropped_updates_total (mem race_end)) + unat (rb_tail (mem race_end) - rb_head (mem race_end))"
  using concurrent_conservation [OF executions_reach(2)] race_end_fields by simp

text \<open>
  The producer's spin is bounded: whenever it waits for \<open>reader_active\<close>, at most three steps of the
  consumer (which is inside \<open>try_pop\<close> and never blocks there) clear the flag of that slot.
\<close>

theorem spin_is_bounded:
  assumes "conc_reach cap v s" "0 < cap" "cap < 2 ^ 64" "length (pushed_items s) < 2 ^ 64"
    and "ppc s = P_spin x t"
  shows "\<exists>n \<le> 3. \<not> reader_active (rb_buffer (mem ((try_pop_step ^^ n) s)) ! slot_ix t (mem s))"
proof -
  have inv: "conc_inv s" by (rule conc_reach_inv [OF assms(1-4)])
  have ix: "slot_ix h (mem s) < rb_capacity (mem s)" for h
    using inv by (simp add: conc_inv_def counters_ok_def slot_ix_less)
  show ?thesis
  proof (cases "reader_active (rb_buffer (mem s) ! slot_ix t (mem s))")
    case True
    then obtain h where h: "flag_holder (cpc s) = Some h" "slot_ix h (mem s) = slot_ix t (mem s)"
      using inv ix by (auto simp: conc_inv_def flags_ok_def)
    have clear: "\<not> reader_active (rb_buffer (set_reader_active (slot_ix h (mem s)) False m) ! slot_ix t (mem s))"
      if "rb_capacity m = rb_capacity (mem s)" for m :: "'a ring"
      using h(2) ix that by simp
    consider "cpc s = C_cas h" | "cpc s = C_read h" | "cpc s = C_retract h \<or> cpc s = C_clear h"
      using h(1) by (cases "cpc s") auto
    then show ?thesis
    proof cases
      case 1
      then show ?thesis
        using clear [of "mem s"] clear [of "(mem s)\<lparr>rb_head := h + 1\<rparr>"]
        by (intro exI [of _ "if rb_head (mem s) = h then 3 else 2"])
          (simp add: try_pop_step_def cas_head_def numeral_eq_Suc)
    next
      case 2
      then show ?thesis using clear [of "mem s"]
        by (intro exI [of _ 2]) (simp add: try_pop_step_def numeral_eq_Suc)
    next
      case 3
      then show ?thesis using clear [of "mem s"]
        by (intro exI [of _ 1]) (auto simp: try_pop_step_def)
    qed
  qed auto
qed

theorem spin_is_bounded_witness:
  "reader_active (rb_buffer (mem race) ! slot_ix 1 (mem race)) \<and>
   (\<exists>n \<le> 3. \<not> reader_active (rb_buffer (mem ((try_pop_step ^^ n) race)) ! slot_ix 1 (mem race)))"
  using spin_is_bounded [OF executions_reach(1), of 8 1] race_fields by simp

text \<open>
  C28. \<open>wait_for_data\<close> never sleeps through a push: if the consumer is blocked although the queue is not
  empty, then the producer is between publishing its item and its notification, and the notification
  makes the wait return.
\<close>

theorem no_lost_push_wakeup:
  assumes "conc_reach cap v s" "0 < cap" "cap < 2 ^ 64" "length (pushed_items s) + notified s < 2 ^ 64"
    and "cpc s = W_wait (rb_wake_generation (mem s))" and "rb_tail (mem s) \<noteq> rb_head (mem s)"
  shows "ppc s = P_gen \<and> cpc (wait_for_data_step b (push_step s)) = C_idle"
proof -
  have wake: "wake_inv s" by (rule conc_reach_wake [OF assms(1-4)])
  then have gen: "ppc s = P_gen" using assms(5,6) by (cases "ppc s") (auto simp: wake_inv_def)
  then show ?thesis using assms(5) by (simp add: push_step_def wait_for_data_step_def)
qed

theorem no_lost_push_wakeup_witness:
  "cpc asleep = W_wait 0 \<and> ppc asleep = P_gen \<and> cpc (wait_for_data_step True (push_step asleep)) = C_idle"
  using no_lost_push_wakeup [OF executions_reach(3), of True] asleep_fields by simp

end
