(* ===== verification/Stage_Shutdown.thy ===== *)
theory Stage_Shutdown
  imports Ring_Concurrent
begin

text \<open>
  The shutdown handshake of \<open>io/pipeline_runner.cpp\<close> and \<open>io/async_network_reader.cpp\<close>.  A decoder thread and a
  publisher thread run the same loop on their input queue: drain it; when it was empty, load the
  \<open>done\<close> flag of the stage upstream (\<open>producer_done_\<close>, \<open>shard_decoder_done_[i]\<close>); when the flag is set, drain
  once more and leave when nothing came, otherwise block in \<open>wait_for_data()\<close>.  The stage upstream pushes,
  finally stores \<open>true\<close> to the flag and then calls \<open>notify_waiters()\<close>.  Every access to the queue is a step of
  \<open>Ring_Concurrent\<close>; the flag is one more atomic.  What is done with a popped item does not access the
  queue and is left out.
\<close>

datatype upstream_pc = U_running | U_notify | U_finished

datatype stage_pc = S_drain bool | S_check | S_final bool | S_wait | S_exit

record 'a stage =
  queue_state :: "'a conc"
  upstream_done :: bool
  upstream :: upstream_pc
  stage_pc :: stage_pc

definition stage_init :: "nat \<Rightarrow> 'a \<Rightarrow> 'a stage" where
  "stage_init cap v = \<lparr>queue_state = call_try_pop (conc_init cap v), upstream_done = False,
     upstream = U_running, stage_pc = S_drain False\<rparr>"

text \<open>\<open>try_pop\<close> returns true exactly when its last step was the one that clears the flag after the read.\<close>

definition popped :: "'a conc \<Rightarrow> bool" where
  "popped c \<longleftrightarrow> (case cpc c of C_clear _ \<Rightarrow> True | _ \<Rightarrow> False)"

definition consumer_step :: "bool \<Rightarrow> 'a stage \<Rightarrow> 'a stage" where
  "consumer_step tail_first s =
     (let c = queue_state s
      in case stage_pc s of
           S_drain did_work \<Rightarrow>
             (let c' = try_pop_step c
              in if cpc c' \<noteq> C_idle then s\<lparr>queue_state := c'\<rparr>
                 else if popped c then s\<lparr>queue_state := call_try_pop c', stage_pc := S_drain True\<rparr>
                 else if did_work then s\<lparr>queue_state := call_try_pop c', stage_pc := S_drain False\<rparr>
                 else s\<lparr>queue_state := c', stage_pc := S_check\<rparr>)
         | S_check \<Rightarrow>
             (if upstream_done s then s\<lparr>queue_state := call_try_pop c, stage_pc := S_final False\<rparr>
              else s\<lparr>queue_state := call_wait c, stage_pc := S_wait\<rparr>)
         | S_final did_work \<Rightarrow>
             (let c' = try_pop_step c
              in if cpc c' \<noteq> C_idle then s\<lparr>queue_state := c'\<rparr>
                 else if popped c then s\<lparr>queue_state := call_try_pop c', stage_pc := S_final True\<rparr>
                 else if did_work then s\<lparr>queue_state := call_try_pop c', stage_pc := S_drain False\<rparr>
                 else s\<lparr>queue_state := c', stage_pc := S_exit\<rparr>)
         | S_wait \<Rightarrow>
             (let c' = wait_for_data_step tail_first c
              in if cpc c' \<noteq> C_idle then s\<lparr>queue_state := c'\<rparr>
                 else s\<lparr>queue_state := call_try_pop c', stage_pc := S_drain False\<rparr>)
         | S_exit \<Rightarrow> s)"

definition upstream_push :: "'a \<Rightarrow> 'a stage \<Rightarrow> 'a stage" where
  "upstream_push item s = s\<lparr>queue_state := call_push item (queue_state s)\<rparr>"

definition upstream_step :: "'a stage \<Rightarrow> 'a stage" where
  "upstream_step s = s\<lparr>queue_state := push_step (queue_state s)\<rparr>"

definition upstream_finish :: "'a stage \<Rightarrow> 'a stage" where
  "upstream_finish s = s\<lparr>upstream_done := True, upstream := U_notify\<rparr>"

definition upstream_notify :: "'a stage \<Rightarrow> 'a stage" where
  "upstream_notify s = s\<lparr>queue_state := external_notify (queue_state s), upstream := U_finished\<rparr>"

inductive stage_step :: "'a stage \<Rightarrow> 'a stage \<Rightarrow> bool" where
  consumer: "stage_step s (consumer_step b s)"
| push: "upstream s = U_running \<Longrightarrow> ppc (queue_state s) = P_idle \<Longrightarrow> stage_step s (upstream_push x s)"
| producer: "stage_step s (upstream_step s)"
| finish: "upstream s = U_running \<Longrightarrow> ppc (queue_state s) = P_idle \<Longrightarrow> stage_step s (upstream_finish s)"
| notify: "upstream s = U_notify \<Longrightarrow> stage_step s (upstream_notify s)"

inductive stage_reach :: "nat \<Rightarrow> 'a \<Rightarrow> 'a stage \<Rightarrow> bool" for cap v where
  init: "stage_reach cap v (stage_init cap v)"
| step: "stage_reach cap v s \<Longrightarrow> stage_step s s' \<Longrightarrow> stage_reach cap v s'"

inductive_cases stage_stepE: "stage_step s s'"

subsection \<open>The queue under the handshake\<close>

lemma reach_call: "conc_reach cap v c \<Longrightarrow> cpc c = C_idle \<Longrightarrow> conc_reach cap v (call_try_pop c)"
  by (rule conc_reach.step [OF _ conc_step.call_try_pop])

lemma reach_wait: "conc_reach cap v c \<Longrightarrow> cpc c = C_idle \<Longrightarrow> conc_reach cap v (call_wait c)"
  by (rule conc_reach.step [OF _ conc_step.call_wait])

lemma reach_pop_step: "conc_reach cap v c \<Longrightarrow> conc_reach cap v (try_pop_step c)"
  by (rule conc_reach.step [OF _ conc_step.try_pop])

lemma reach_wait_step: "conc_reach cap v c \<Longrightarrow> conc_reach cap v (wait_for_data_step b c)"
  by (rule conc_reach.step [OF _ conc_step.wait_for_data])

text \<open>
  Program points: what the consumer does fits its place in the loop; after the flag is set the producer is
  idle for good, so that the final drain cannot lose a race for \<open>head_\<close>.
\<close>

fun final_ok :: "'a ring \<Rightarrow> cpc \<Rightarrow> bool" where
  "final_ok m (C_load_tail h) \<longleftrightarrow> h = rb_head m"
| "final_ok m (C_flag h) \<longleftrightarrow> h = rb_head m"
| "final_ok m (C_cas h) \<longleftrightarrow> h = rb_head m"
| "final_ok m C_load_head \<longleftrightarrow> True"
| "final_ok m (C_read h) \<longleftrightarrow> True"
| "final_ok m (C_clear h) \<longleftrightarrow> True"
| "final_ok m _ \<longleftrightarrow> False"

definition stage_inv :: "'a stage \<Rightarrow> bool" where
  "stage_inv s \<longleftrightarrow>
     upstream_done s = (upstream s \<noteq> U_running) \<and>
     (upstream_done s \<longrightarrow> ppc (queue_state s) = P_idle) \<and>
     (stage_pc s = S_check \<longrightarrow> cpc (queue_state s) = C_idle) \<and>
     (\<forall>d. stage_pc s = S_final d \<longrightarrow> upstream_done s \<and> final_ok (mem (queue_state s)) (cpc (queue_state s))) \<and>
     (stage_pc s = S_exit \<longrightarrow> upstream_done s \<and> cpc (queue_state s) = C_idle \<and>
        rb_tail (mem (queue_state s)) = rb_head (mem (queue_state s)))"

lemma final_step:
  assumes "final_ok (mem c) (cpc c)"
  shows "final_ok (mem (try_pop_step c)) (cpc (try_pop_step c)) \<or>
    cpc (try_pop_step c) = C_idle \<and> (popped c \<or> rb_tail (mem (try_pop_step c)) = rb_head (mem (try_pop_step c)))"
  using assms by (cases "cpc c") (auto simp: try_pop_step_def popped_def cas_head_def)

lemma final_not_idle: "final_ok m c \<Longrightarrow> c \<noteq> C_idle"
  by (cases c) auto

lemma ppc_consumer [simp]:
  "ppc (try_pop_step c) = ppc c" "ppc (wait_for_data_step b c) = ppc c" "ppc (call_try_pop c) = ppc c" "ppc (call_wait c) = ppc c"
proof -
  show "ppc (try_pop_step c) = ppc c" by (cases "cpc c") (simp_all add: try_pop_step_def cas_head_def)
  show "ppc (wait_for_data_step b c) = ppc c" by (cases "cpc c") (simp_all add: wait_for_data_step_def)
qed (simp_all add: call_try_pop_def call_wait_def)

lemma consumer_inv: "stage_inv s \<Longrightarrow> stage_inv (consumer_step b s)"
proof (cases "stage_pc s")
  case (S_final d)
  assume inv: "stage_inv s"
  then show ?thesis
    using S_final final_step [of "queue_state s"] final_not_idle
    by (auto simp: stage_inv_def consumer_step_def Let_def call_try_pop_def)
qed (auto simp: stage_inv_def consumer_step_def Let_def call_try_pop_def)

lemma cpc_push [simp]: "cpc (push_step c) = cpc c" "cpc (call_push x c) = cpc c" "cpc (external_notify c) = cpc c"
proof -
  show "cpc (push_step c) = cpc c" by (cases "ppc c") (simp_all add: push_step_def cas_head_def Let_def)
qed (simp_all add: call_push_def external_notify_def)

lemma final_ok_notify [simp]: "final_ok (notify_waiters m) c = final_ok m c"
  by (cases c) simp_all

lemma push_step_idle: "ppc c = P_idle \<Longrightarrow> push_step c = c"
  by (simp add: push_step_def)

lemma stage_step_inv: "stage_step s s' \<Longrightarrow> stage_inv s \<Longrightarrow> stage_inv s'"
proof (erule stage_stepE)
  assume "stage_inv s" "s' = upstream_step s"
  then show ?thesis
    using push_step_idle [of "queue_state s"] by (auto simp: stage_inv_def upstream_step_def)
next
  fix x
  assume "stage_inv s" "s' = upstream_push x s" "upstream s = U_running"
  then show ?thesis by (auto simp: stage_inv_def upstream_push_def)
next
  assume "stage_inv s" "s' = upstream_finish s" "upstream s = U_running" "ppc (queue_state s) = P_idle"
  then show ?thesis by (auto simp: stage_inv_def upstream_finish_def)
next
  assume "stage_inv s" "s' = upstream_notify s" "upstream s = U_notify"
  then show ?thesis by (auto simp: stage_inv_def upstream_notify_def external_notify_def)
qed (simp add: consumer_inv)

lemma stage_reach_inv: "stage_reach cap v s \<Longrightarrow> stage_inv s"
proof (induction rule: stage_reach.induct)
  case init
  then show ?case by (simp add: stage_inv_def stage_init_def)
next
  case (step s s')
  then show ?case by (simp add: stage_step_inv)
qed

lemma stage_queue_reach: "stage_reach cap v s \<Longrightarrow> conc_reach cap v (queue_state s)"
proof (induction rule: stage_reach.induct)
  case init
  have "cpc (conc_init cap v) = C_idle" by (simp add: conc_init_def)
  then show ?case using reach_call [OF conc_reach.init] by (simp add: stage_init_def)
next
  case (step s s')
  note inv = stage_reach_inv [OF step.hyps(1)]
  show ?case
    using step.hyps(2)
  proof (cases rule: stage_step.cases)
    case (consumer b)
    then show ?thesis
      using step.IH inv reach_pop_step [OF step.IH] reach_wait_step [OF step.IH, of b]
      by (cases "stage_pc s") (auto simp: consumer_step_def Let_def stage_inv_def reach_call reach_wait)
  next
    case (push x)
    then show ?thesis using conc_reach.step [OF step.IH conc_step.call_push] by (simp add: upstream_push_def)
  next
    case producer
    then show ?thesis using conc_reach.step [OF step.IH conc_step.push] by (simp add: upstream_step_def)
  next
    case finish
    then show ?thesis using step.IH by (simp add: upstream_finish_def)
  next
    case notify
    then show ?thesis using conc_reach.step [OF step.IH conc_step.external_notify] by (simp add: upstream_notify_def)
  qed
qed


subsection \<open>Schedules\<close>

datatype 'a stage_sched = Consumer_runs | Push_called 'a | Producer_runs | Finishes | Notifies

fun stage_event :: "'a stage_sched \<Rightarrow> 'a stage \<Rightarrow> 'a stage" where
  "stage_event Consumer_runs s = consumer_step True s"
| "stage_event (Push_called x) s =
     (if upstream s = U_running \<and> ppc (queue_state s) = P_idle then upstream_push x s else s)"
| "stage_event Producer_runs s = upstream_step s"
| "stage_event Finishes s =
     (if upstream s = U_running \<and> ppc (queue_state s) = P_idle then upstream_finish s else s)"
| "stage_event Notifies s = (if upstream s = U_notify then upstream_notify s else s)"

lemma stage_event_reach: "stage_reach cap v s \<Longrightarrow> stage_reach cap v (stage_event e s)"
  by (cases e) (auto intro: stage_reach.step [OF _ stage_step.consumer] stage_reach.step [OF _ stage_step.push]
      stage_reach.step [OF _ stage_step.producer] stage_reach.step [OF _ stage_step.finish]
      stage_reach.step [OF _ stage_step.notify])

lemma stage_run_reach: "stage_reach cap v (fold stage_event es (stage_init cap v))"
proof -
  have run: "stage_reach cap v s \<Longrightarrow> stage_reach cap v (fold stage_event es s)" for s
    by (induction es arbitrary: s) (simp_all add: stage_event_reach)
  show ?thesis by (rule run) (rule stage_reach.init)
qed

lemmas stage_eval = stage_init_def consumer_step_def popped_def upstream_push_def upstream_step_def upstream_finish_def
  upstream_notify_def conc_init_def ring_init_def call_push_def call_try_pop_def call_wait_def push_step_def
  try_pop_step_def wait_for_data_step_def external_notify_def cas_head_def set_reader_active_def set_slot_value_def
  notify_waiters_def slot_ix_def rb_capacity_def Let_def numeral_eq_Suc

text \<open>
  One item is pushed and drained, the flag is set and notified, and the consumer leaves (\<open>clean_exit\<close>); the
  consumer has fallen asleep on an empty queue when the flag is set (\<open>asleep_stage\<close>); the flag is set and
  notified between the consumer's load of the flag and its snapshot of the generation (\<open>hung_stage\<close>).
\<close>

definition clean_exit :: "nat stage" where
  "clean_exit = fold stage_event
     (Push_called 7 # replicate 7 Producer_runs @ [Finishes, Notifies] @ replicate 15 Consumer_runs) (stage_init 2 0)"

definition asleep_stage :: "nat stage" where
  "asleep_stage = fold stage_event (replicate 8 Consumer_runs @ [Finishes]) (stage_init 2 0)"

definition hung_stage :: "nat stage" where
  "hung_stage = fold stage_event
     (replicate 3 Consumer_runs @ [Finishes, Notifies] @ replicate 5 Consumer_runs) (stage_init 2 0)"

lemma clean_exit_fields: "stage_pc clean_exit = S_exit" "pushed_items (queue_state clean_exit) = [7]"
    "delivered (queue_state clean_exit) = [7]"
  by (simp_all add: clean_exit_def stage_eval)

lemma asleep_stage_fields: "stage_pc asleep_stage = S_wait" "upstream asleep_stage = U_notify"
    "cpc (queue_state asleep_stage) = W_wait 0" "rb_wake_generation (mem (queue_state asleep_stage)) = 0"
    "pushed_items (queue_state asleep_stage) = []" "notified (queue_state asleep_stage) = 0"
  by (simp_all add: asleep_stage_def stage_eval)

lemma hung_stage_fields: "stage_pc hung_stage = S_wait" "upstream hung_stage = U_finished" "upstream_done hung_stage"
    "cpc (queue_state hung_stage) = W_wait 1" "rb_wake_generation (mem (queue_state hung_stage)) = 1"
    "ppc (queue_state hung_stage) = P_idle"
  by (simp_all add: hung_stage_def stage_eval)


subsection \<open>Properties\<close>

text \<open>
  C32. A stage leaves its loop only when it is complete: in every interleaving, when the thread has exited,
  the stage upstream has finished, the queue is empty, and every item ever pushed was delivered to this
  thread or counted as dropped.
\<close>

theorem exit_only_when_drained:
  assumes "stage_reach cap v s" "0 < cap" "cap < 2 ^ 64" "length (pushed_items (queue_state s)) < 2 ^ 64"
    and "stage_pc s = S_exit"
  shows "upstream_done s \<and> rb_tail (mem (queue_state s)) = rb_head (mem (queue_state s)) \<and>
     length (pushed_items (queue_state s)) =
       length (delivered (queue_state s)) + unat (dropped_updates_total (mem (queue_state s)))"
proof -
  let ?c = "queue_state s"
  have inv: "conc_inv ?c" by (rule conc_reach_inv [OF stage_queue_reach [OF assms(1)] assms(2-4)])
  have stage: "upstream_done s" "cpc ?c = C_idle" "rb_tail (mem ?c) = rb_head (mem ?c)" "ppc ?c = P_idle"
    using stage_reach_inv [OF assms(1)] assms(5) by (auto simp: stage_inv_def)
  then have all: "length (claims ?c) = length (pushed_items ?c)"
    using inv by (auto simp: conc_inv_def counters_ok_def)
  have "length (filter Not (claims ?c)) < 2 ^ 64"
    using all assms(4) length_filter_le [of Not "claims ?c"] by linarith
  then have "unat (dropped_updates_total (mem ?c)) = length (filter Not (claims ?c))"
    using inv stage(4) by (simp add: conc_inv_def dropped_updates_total_def unat_of_nat)
  then show ?thesis
    using stage all inv length_picked [of "claims ?c" "pushed_items ?c"] by (simp add: conc_inv_def)
qed

theorem exit_only_when_drained_witness:
  "stage_pc clean_exit = S_exit \<and> upstream_done clean_exit \<and>
   1 = 1 + unat (dropped_updates_total (mem (queue_state clean_exit)))"
proof -
  have "stage_reach 2 0 clean_exit" unfolding clean_exit_def by (rule stage_run_reach)
  from exit_only_when_drained [OF this] show ?thesis using clean_exit_fields by simp
qed

text \<open>
  A consumer that is asleep when the flag is set is woken by the notification that follows and exits: from
  the notification on, six of its own steps lead it out of the loop.
\<close>

theorem sleeping_consumer_exits:
  assumes "stage_reach cap v s" "0 < cap" "cap < 2 ^ 64"
    and "length (pushed_items (queue_state s)) + notified (queue_state s) < 2 ^ 64 - 1"
    and "upstream s = U_notify" "stage_pc s = S_wait"
    and "cpc (queue_state s) = W_wait (rb_wake_generation (mem (queue_state s)))"
  shows "stage_pc ((consumer_step b ^^ 6) (upstream_notify s)) = S_exit"
proof -
  let ?c = "queue_state s"
  have wake: "wake_inv ?c"
    by (rule conc_reach_wake [OF stage_queue_reach [OF assms(1)] assms(2,3)]) (use assms(4) in simp)
  have done_set: "upstream_done s" "ppc ?c = P_idle"
    using stage_reach_inv [OF assms(1)] assms(5) by (auto simp: stage_inv_def)
  then have "rb_tail (mem ?c) = rb_head (mem ?c)"
    using wake assms(7) by (simp add: wake_inv_def)
  then show ?thesis
    using assms(5-7) done_set
    by (simp add: upstream_notify_def external_notify_def consumer_step_def wait_for_data_step_def try_pop_step_def
        call_try_pop_def popped_def Let_def numeral_eq_Suc)
qed

theorem sleeping_consumer_exits_witness:
  "stage_pc asleep_stage = S_wait \<and> stage_pc ((consumer_step True ^^ 6) (upstream_notify asleep_stage)) = S_exit"
proof -
  have "stage_reach 2 0 asleep_stage" unfolding asleep_stage_def by (rule stage_run_reach)
  from sleeping_consumer_exits [OF this] show ?thesis using asleep_stage_fields by simp
qed

text \<open>
  C33. The handshake can hang: there is an interleaving in which the consumer loads the flag before it is set and
  snapshots the wake generation after the notification.  It then blocks on an empty queue although the stage
  upstream has finished and will never notify again: the only possible step is to stay in this state, so that
  the thread never exits and \<open>join()\<close> never returns.
\<close>

theorem shutdown_wakeup_can_be_lost:
  "stage_reach 2 0 hung_stage \<and> upstream_done hung_stage \<and> upstream hung_stage = U_finished \<and>
   stage_pc hung_stage = S_wait \<and> {s'. stage_step hung_stage s'} = {hung_stage}"
proof -
  have reach: "stage_reach 2 0 hung_stage" unfolding hung_stage_def by (rule stage_run_reach)
  have stuck: "consumer_step b hung_stage = hung_stage" "upstream_step hung_stage = hung_stage" for b
    using hung_stage_fields by (simp_all add: consumer_step_def wait_for_data_step_def upstream_step_def push_step_def)
  have "stage_step hung_stage s' \<longleftrightarrow> s' = hung_stage" for s'
  proof
    assume "stage_step hung_stage s'"
    then show "s' = hung_stage" using stuck hung_stage_fields by (cases rule: stage_step.cases) auto
  next
    assume "s' = hung_stage"
    then show "stage_step hung_stage s'" using stage_step.producer [of hung_stage] stuck by simp
  qed
  then show ?thesis using reach hung_stage_fields by auto
qed

end
