(* ===== verification/Thread_Affinity.thy ===== *)
theory Thread_Affinity
  imports Prelude
begin

text \<open>
  Pinning of threads, \<open>affinity/thread_affinity_linux.cpp\<close> and \<open>affinity/thread_affinity_macos.cpp\<close>, and the tags that
  \<open>io/pipeline_runner.cpp\<close> gives to its threads.  The calls of the operating system are parameters: \<open>sched_getaffinity\<close> returns the mask of
  allowed processors or fails, and the other two report success for a request.  Nothing is assumed of them.
\<close>

subsection \<open>Linux\<close>

type_synonym AffinityTag = u32

definition CPU_SETSIZE :: nat where
  "CPU_SETSIZE = 1024"

text \<open>\<open>for (int cpu = 0; cpu < CPU_SETSIZE; ++cpu) if (CPU_ISSET(cpu, &available)) usable_cpus.push_back(cpu);\<close>\<close>

function usable_loop :: "nat \<Rightarrow> (nat \<Rightarrow> bool) \<Rightarrow> nat list \<Rightarrow> nat list" where
  "usable_loop cpu available usable =
     (if cpu < CPU_SETSIZE then usable_loop (cpu + 1) available (if available cpu then usable @ [cpu] else usable)
      else usable)"
  by pat_completeness auto
termination
  by (relation "measure (\<lambda>(cpu, available, usable). CPU_SETSIZE - cpu)") auto

declare usable_loop.simps [simp del]

definition usable_cpus :: "(nat \<Rightarrow> bool) \<Rightarrow> nat list" where
  "usable_cpus available = usable_loop 0 available []"

text \<open>The processor that is requested, \<open>None\<close> when the function returns before the request.\<close>

definition target_cpu :: "(nat \<Rightarrow> bool) option \<Rightarrow> AffinityTag \<Rightarrow> nat option" where
  "target_cpu available tag =
     (case available of
        None \<Rightarrow> None
      | Some allowed \<Rightarrow>
          (let cpus = usable_cpus allowed
           in if cpus = [] then None else Some (cpus ! (unat tag mod length cpus))))"

definition set_thread_affinity_tag :: "(nat \<Rightarrow> bool) option \<Rightarrow> ('t \<Rightarrow> nat \<Rightarrow> bool) \<Rightarrow> 't \<Rightarrow> AffinityTag \<Rightarrow> bool" where
  "set_thread_affinity_tag available setaffinity_np thread tag =
     (case target_cpu available tag of None \<Rightarrow> False | Some cpu \<Rightarrow> setaffinity_np thread cpu)"

subsection \<open>macOS\<close>

definition set_thread_affinity_tag_macos :: "('t \<Rightarrow> int \<Rightarrow> bool) \<Rightarrow> 't \<Rightarrow> AffinityTag \<Rightarrow> bool" where
  "set_thread_affinity_tag_macos policy_set_succeeds thread tag = policy_set_succeeds thread (sint tag)"

subsection \<open>Tags of the pipeline\<close>

definition kNetworkIoAffinityTag :: AffinityTag where
  "kNetworkIoAffinityTag = 1"

definition kShardAffinityTagBase :: AffinityTag where
  "kShardAffinityTagBase = 2"

definition shard_tag :: "nat \<Rightarrow> AffinityTag" where
  "shard_tag i = kShardAffinityTagBase + of_nat i"

subsection \<open>Properties\<close>

lemma usable_loop_eq: "usable_loop cpu available usable = usable @ filter available [cpu..<CPU_SETSIZE]"
proof (induction cpu available usable rule: usable_loop.induct)
  case (1 cpu available usable)
  then show ?case by (auto simp: usable_loop.simps [of cpu] upt_conv_Cons)
qed

lemma usable_cpus_eq: "usable_cpus available = filter available [0..<CPU_SETSIZE]"
  by (simp add: usable_cpus_def usable_loop_eq)

text \<open>Consecutive tags give different processors as long as there are enough of them.\<close>

lemma target_cpu_inj:
  assumes "t < length (usable_cpus allowed) + s" "s \<le> t" "s \<le> t'" "t' < length (usable_cpus allowed) + s" "t < 2 ^ 32" "t' < 2 ^ 32"
    and "target_cpu (Some allowed) (of_nat t) = target_cpu (Some allowed) (of_nat t')"
  shows "t = t'"
proof -
  let ?cpus = "usable_cpus allowed"
  have ne: "?cpus \<noteq> []" using assms(1,2) by auto
  have u: "unat (of_nat t :: u32) = t" "unat (of_nat t' :: u32) = t'" using assms(5,6) by (simp_all add: unat_of_nat)
  have "?cpus ! (t mod length ?cpus) = ?cpus ! (t' mod length ?cpus)"
    using assms(7) ne u by (simp add: target_cpu_def Let_def)
  moreover have "distinct ?cpus" by (simp add: usable_cpus_eq)
  ultimately have "t mod length ?cpus = t' mod length ?cpus" using ne by (simp add: nth_eq_iff_index_eq)
  then have dvd: "int (length ?cpus) dvd int t - int t'" by (metis mod_eq_dvd_iff of_nat_mod)
  moreover have "\<bar>int t - int t'\<bar> < int (length ?cpus)" using assms(1-4) by linarith
  ultimately show ?thesis by (metis dvd_imp_le_int eq_iff_diff_eq_0 leD of_nat_eq_iff abs_of_nat)
qed

text \<open>
  When the process may use at least one processor per shard and one more, the network thread and the shards are pinned to pairwise
  different processors, each of them one that the process may use; a shard's decoder and publisher thread get the same one.
\<close>

theorem shards_pinned_apart:
  assumes "n < length (usable_cpus allowed)" "i < n" "j < n"
  shows "\<exists>c d e. target_cpu (Some allowed) kNetworkIoAffinityTag = Some c \<and> target_cpu (Some allowed) (shard_tag i) = Some d \<and>
    target_cpu (Some allowed) (shard_tag j) = Some e \<and> allowed c \<and> allowed d \<and> allowed e \<and> c \<noteq> d \<and> (i \<noteq> j \<longrightarrow> d \<noteq> e)"
proof -
  let ?cpus = "usable_cpus allowed"
  have len: "length ?cpus \<le> 1024"
    using length_filter_le [of allowed "[0..<CPU_SETSIZE]"] by (simp add: usable_cpus_eq CPU_SETSIZE_def)
  have ne: "?cpus \<noteq> []" using assms(1) by auto
  have ex: "\<exists>c. target_cpu (Some allowed) tag = Some c \<and> allowed c" for tag
  proof -
    have "?cpus ! (unat tag mod length ?cpus) \<in> set ?cpus" using ne by simp
    then have "allowed (?cpus ! (unat tag mod length ?cpus))" by (simp add: usable_cpus_eq)
    then show ?thesis using ne by (simp add: target_cpu_def Let_def)
  qed
  have tags: "kNetworkIoAffinityTag = of_nat 1" "shard_tag i = of_nat (2 + i)" "shard_tag j = of_nat (2 + j)"
    by (simp_all add: kNetworkIoAffinityTag_def shard_tag_def kShardAffinityTagBase_def)
  have "target_cpu (Some allowed) (of_nat 1) \<noteq> target_cpu (Some allowed) (of_nat (2 + i))"
    using target_cpu_inj [of 1 allowed 1 "2 + i"] assms len ne by auto
  moreover have "i \<noteq> j \<Longrightarrow> target_cpu (Some allowed) (of_nat (2 + i)) \<noteq> target_cpu (Some allowed) (of_nat (2 + j))"
    using target_cpu_inj [of "2 + i" allowed 1 "2 + j"] assms len by auto
  ultimately show ?thesis using ex [of kNetworkIoAffinityTag] ex [of "shard_tag i"] ex [of "shard_tag j"] unfolding tags by metis
qed

lemma four_cpus: "usable_cpus (\<lambda>c. c \<in> {4..7}) = [4, 5, 6, 7]"
proof -
  have "[0..<CPU_SETSIZE] = [0..<4] @ [4..<8] @ [8..<CPU_SETSIZE]"
    by (rule nth_equalityI) (auto simp: CPU_SETSIZE_def nth_append simp del: upt_rec_numeral)
  moreover have "filter (\<lambda>c. c \<in> {4..7}) [0..<4] = []" "filter (\<lambda>c. c \<in> {4..7}) [8..<CPU_SETSIZE] = []"
    by (auto simp: filter_empty_conv simp del: upt_rec_numeral)
  moreover have "filter (\<lambda>c. c \<in> {4..7}) [4..<8] = [4, 5, 6, 7 :: nat]" by simp
  ultimately show ?thesis unfolding usable_cpus_eq by (simp only: filter_append append_Nil append_Nil2)
qed

theorem shards_pinned_apart_witness:
  "target_cpu (Some (\<lambda>c. c \<in> {4..7})) (shard_tag 0) \<noteq> target_cpu (Some (\<lambda>c. c \<in> {4..7})) (shard_tag 2)"
  using shards_pinned_apart [of 3 "\<lambda>c. c \<in> {4..7}" 0 2] four_cpus by auto

end
