(* ===== verification/Feed_Generator.thy ===== *)
theory Feed_Generator
  imports Complex_Main Shard_Demux
begin

text \<open>
  The simulated feed, \<open>io/feed_generator.hpp\<close> and \<open>io/feed_generator.cpp\<close>.  The engine \<open>std::mt19937_64\<close> and the algorithms of the
  standard distributions, which the language leaves to the implementation, are a parameter: a record of
  the draws the code makes.  \<open>rng_ok\<close> states what the standard promises of them, that a draw lies in the
  requested range.  A \<open>double\<close> is the rational number that it denotes; the thresholds of the code are the exact values of
  its floating-point literals.  \<open>None\<close> is undefined behaviour.
\<close>

subsection \<open>Model\<close>

record 'g rng_ops =
  seed_engine :: "u64 \<Rightarrow> 'g"
  uniform_int :: "nat \<Rightarrow> nat \<Rightarrow> 'g \<Rightarrow> nat \<times> 'g"
  uniform_real :: "'g \<Rightarrow> rat \<times> 'g"

definition rng_ok :: "'g rng_ops \<Rightarrow> bool" where
  "rng_ok R \<longleftrightarrow>
     (\<forall>lo hi g. lo \<le> hi \<longrightarrow> lo \<le> fst (uniform_int R lo hi g) \<and> fst (uniform_int R lo hi g) \<le> hi) \<and>
     (\<forall>g. 0 \<le> fst (uniform_real R g) \<and> fst (uniform_real R g) < 1)"

record Config =
  symbols :: "Symbol list"
  cfg_num_shards :: nat
  message_count :: u64
  packet_loss_rate :: rat
  seed :: u64

record Packet =
  exhausted :: bool
  bytes :: "byte list option"

record 'g FeedGenerator =
  config :: Config
  rng :: 'g
  emitted_count :: u64
  total_dropped :: u64
  next_order_id :: OrderId
  next_seq_per_shard :: "(nat \<times> SeqNum) list"
  resting_orders_per_symbol :: "OrderId list list"

definition feed_generator :: "'g rng_ops \<Rightarrow> Config \<Rightarrow> 'g FeedGenerator" where
  "feed_generator R cfg =
     \<lparr>config = cfg, rng = seed_engine R (seed cfg), emitted_count = 0, total_dropped = 0, next_order_id = 1,
      next_seq_per_shard = [], resting_orders_per_symbol = replicate (length (symbols cfg)) []\<rparr>"

text \<open>The literals \<open>0.5\<close>, \<open>0.65\<close> and \<open>0.85\<close>.\<close>

definition double_0_5 :: rat where
  "double_0_5 = 1 / 2"

definition double_0_65 :: rat where
  "double_0_65 = 5854679515581645 / 9007199254740992"

definition double_0_85 :: rat where
  "double_0_85 = 7656119366529843 / 9007199254740992"

text \<open>
  The four branches of \<open>generate_next_message\<close>: the message for sequence number \<open>seq\<close>, the new list of the
  symbol's resting orders and the next order identifier.
\<close>

definition generate_add :: "SeqNum \<Rightarrow> Symbol \<Rightarrow> OrderId list \<Rightarrow> OrderId \<Rightarrow> DecodedMessage \<times> OrderId list \<times> OrderId" where
  "generate_add seq symbol resting next_id =
     (let id = next_id;
          side = (if id mod 2 = 0 then Buy else Sell);
          price = Int64 (100 + id mod 50);
          qty = 10 + ucast (id mod 20)
      in (AddMsg \<lparr>add_seq_num = seq, add_order_id = id, add_symbol = symbol, add_side = side, add_price = price,
            add_quantity = qty, add_timestamp = seq\<rparr>, resting @ [id], next_id + 1))"

definition generate_cancel :: "SeqNum \<Rightarrow> nat \<Rightarrow> OrderId list \<Rightarrow> OrderId \<Rightarrow> DecodedMessage \<times> OrderId list \<times> OrderId" where
  "generate_cancel seq idx resting next_id =
     (CancelMsg \<lparr>cxl_seq_num = seq, cxl_order_id = resting ! idx, cxl_timestamp = seq\<rparr>,
      take idx resting @ drop (Suc idx) resting, next_id)"

definition generate_execute :: "SeqNum \<Rightarrow> nat \<Rightarrow> OrderId list \<Rightarrow> OrderId \<Rightarrow> DecodedMessage \<times> OrderId list \<times> OrderId" where
  "generate_execute seq idx resting next_id =
     (let id = resting ! idx;
          exec_qty = 1 + ucast (id mod 5)
      in (ExecuteMsg \<lparr>exe_seq_num = seq, exe_order_id = id, exe_executed_quantity = exec_qty, exe_timestamp = seq\<rparr>,
          resting, next_id))"

definition generate_replace :: "SeqNum \<Rightarrow> nat \<Rightarrow> OrderId list \<Rightarrow> OrderId \<Rightarrow> DecodedMessage \<times> OrderId list \<times> OrderId" where
  "generate_replace seq idx resting next_id =
     (let id = resting ! idx;
          new_id = next_id;
          new_price = Int64 (100 + new_id mod 50);
          new_qty = 10 + ucast (new_id mod 20)
      in (ReplaceMsg \<lparr>rep_seq_num = seq, rep_old_order_id = id, rep_new_order_id = new_id, rep_price = new_price,
            rep_quantity = new_qty, rep_timestamp = seq\<rparr>, resting[idx := new_id], next_id + 1))"

definition generate_next_message :: "'g rng_ops \<Rightarrow> 'g FeedGenerator \<Rightarrow> (byte list \<times> 'g FeedGenerator) option" where
  "generate_next_message R g = do {
     let cfg = config g;
     let (symbol_idx, r) = uniform_int R 0 (length (symbols cfg) - 1) (rng g);
     if length (symbols cfg) \<le> symbol_idx \<or> cfg_num_shards cfg = 0 then None
     else do {
       let symbol = symbols cfg ! symbol_idx;
       let shard = shard_for_symbol symbol (cfg_num_shards cfg);
       let seq = (case map_of (next_seq_per_shard g) shard of None \<Rightarrow> 0 | Some s \<Rightarrow> s) + 1;
       let resting = resting_orders_per_symbol g ! symbol_idx;
       let (roll, r) = uniform_real R r;
       let (add, idx, r) =
         (if resting = [] \<or> roll < double_0_5 then (True, 0, r)
          else let (idx, r) = uniform_int R 0 (length resting - 1) r in (False, idx, r));
       if \<not> add \<and> length resting \<le> idx then None
       else do {
         let (msg, resting, next_id) =
           (if add then generate_add seq symbol resting (next_order_id g)
            else if roll < double_0_65 then generate_cancel seq idx resting (next_order_id g)
            else if roll < double_0_85 then generate_execute seq idx resting (next_order_id g)
            else generate_replace seq idx resting (next_order_id g));
         (_, buf) \<leftarrow> encode msg (replicate (wire_size msg) 0);
         Some (buf, g\<lparr>rng := r, next_order_id := next_id,
           next_seq_per_shard := AList.update shard seq (next_seq_per_shard g),
           resting_orders_per_symbol := (resting_orders_per_symbol g)[symbol_idx := resting]\<rparr>) } } }"

definition next_packet :: "'g rng_ops \<Rightarrow> 'g FeedGenerator \<Rightarrow> (Packet \<times> 'g FeedGenerator) option" where
  "next_packet R g =
     (if message_count (config g) \<le> emitted_count g then Some (\<lparr>exhausted = True, bytes = None\<rparr>, g)
      else do {
        let g = g\<lparr>emitted_count := emitted_count g + 1\<rparr>;
        (buf, g) \<leftarrow> generate_next_message R g;
        let (loss, r) = uniform_real R (rng g);
        let g = g\<lparr>rng := r\<rparr>;
        if loss < packet_loss_rate (config g)
        then Some (\<lparr>exhausted = False, bytes = None\<rparr>, g\<lparr>total_dropped := total_dropped g + 1\<rparr>)
        else Some (\<lparr>exhausted = False, bytes = Some buf\<rparr>, g) })"

subsection \<open>The exchange's view\<close>

text \<open>
  The specification of a coherent feed: identifiers are new when they are added and live when they are referred to.  A step gives the
  symbol of the order that the message is about.
\<close>

fun exchange_step :: "DecodedMessage \<Rightarrow> (OrderId \<rightharpoonup> Symbol) \<Rightarrow> (Symbol \<times> (OrderId \<rightharpoonup> Symbol)) option" where
  "exchange_step (AddMsg m) orders =
     (if orders (add_order_id m) = None then Some (add_symbol m, orders(add_order_id m \<mapsto> add_symbol m)) else None)"
| "exchange_step (CancelMsg m) orders =
     map_option (\<lambda>t. (t, orders(cxl_order_id m := None))) (orders (cxl_order_id m))"
| "exchange_step (ExecuteMsg m) orders = map_option (\<lambda>t. (t, orders)) (orders (exe_order_id m))"
| "exchange_step (ReplaceMsg m) orders =
     (if orders (rep_new_order_id m) = None
      then map_option (\<lambda>t. (t, orders(rep_old_order_id m := None, rep_new_order_id m \<mapsto> t))) (orders (rep_old_order_id m))
      else None)"

fun exchange_run :: "DecodedMessage list \<Rightarrow> (OrderId \<rightharpoonup> Symbol) \<Rightarrow> (Symbol list \<times> (OrderId \<rightharpoonup> Symbol)) option" where
  "exchange_run [] orders = Some ([], orders)"
| "exchange_run (m # ms) orders = do {
     (t, orders) \<leftarrow> exchange_step m orders;
     (ts, orders) \<leftarrow> exchange_run ms orders;
     Some (t # ts, orders) }"

lemma exchange_run_snoc:
  "exchange_run (ms @ [m]) orders = do {
     (ts, orders) \<leftarrow> exchange_run ms orders; (t, orders) \<leftarrow> exchange_step m orders; Some (ts @ [t], orders) }"
  by (induction ms arbitrary: orders) (auto split: bind_splits)

subsection \<open>Resting orders\<close>

text \<open>
  The lists of resting orders agree with the orders that are live in the exchange's view, and every identifier so far
  is below the next one.
\<close>

definition rests :: "Symbol list \<Rightarrow> OrderId list list \<Rightarrow> OrderId \<Rightarrow> (OrderId \<rightharpoonup> Symbol) \<Rightarrow> bool" where
  "rests syms resting next_id orders \<longleftrightarrow> length resting = length syms \<and>
     (\<forall>k < length syms. distinct (resting ! k) \<and> (\<forall>oid \<in> set (resting ! k). oid < next_id)) \<and>
     (\<forall>j < length syms. \<forall>k < length syms. j \<noteq> k \<longrightarrow> set (resting ! j) \<inter> set (resting ! k) = {}) \<and>
     (\<forall>oid t. orders oid = Some t \<longleftrightarrow> (\<exists>k < length syms. syms ! k = t \<and> oid \<in> set (resting ! k)))"

lemma rests_fresh: "rests syms resting next_id orders \<Longrightarrow> next_id \<le> oid \<Longrightarrow> orders oid = None"
  unfolding rests_def by (metis leD option.exhaust)

lemma rests_live: "rests syms resting next_id orders \<Longrightarrow> k < length syms \<Longrightarrow> oid \<in> set (resting ! k) \<Longrightarrow> orders oid = Some (syms ! k)"
  unfolding rests_def by blast

text \<open>One list changes: the identifiers that leave it and those that enter it.\<close>

lemma rests_update:
  assumes r: "rests syms resting next_id orders" and k: "k < length syms"
    and new: "distinct new" "\<forall>oid \<in> set new. oid \<in> set (resting ! k) \<or> next_id \<le> oid \<and> oid < next_id'"
    and next_id: "next_id \<le> next_id'"
    and orders': "\<And>oid. orders' oid = (if oid \<in> set new then Some (syms ! k) else if oid \<in> set (resting ! k) then None else orders oid)"
  shows "rests syms (resting[k := new]) next_id' orders'"
proof -
  have len: "length resting = length syms" using r by (simp add: rests_def)
  have below: "oid < next_id'" if "j < length syms" "oid \<in> set (resting ! j)" for oid j
    using that r next_id unfolding rests_def by (metis less_le_trans)
  have own: "oid \<notin> set (resting ! j)" if "oid \<in> set new" "j < length syms" "j \<noteq> k" for oid j
    using that new(2) r k unfolding rests_def by (metis Int_iff empty_iff leD)
  have "distinct (resting[k := new] ! j) \<and> (\<forall>oid \<in> set (resting[k := new] ! j). oid < next_id')" if "j < length syms" for j
    using that new below r k len by (cases "j = k") (auto simp: rests_def)
  moreover have "set (resting[k := new] ! i) \<inter> set (resting[k := new] ! j) = {}"
    if "i < length syms" "j < length syms" "i \<noteq> j" for i j
    using that own r len by (cases "i = k"; cases "j = k") (auto simp: rests_def)
  moreover have "orders' oid = Some t \<longleftrightarrow> (\<exists>j < length syms. syms ! j = t \<and> oid \<in> set (resting[k := new] ! j))" for oid t
  proof (cases "oid \<in> set new")
    case True
    then show ?thesis using orders' k len own [OF True] by (auto simp: nth_list_update)
  next
    case False
    show ?thesis
    proof (cases "oid \<in> set (resting ! k)")
      case True
      then have "oid \<notin> set (resting ! j)" if "j < length syms" "j \<noteq> k" for j using r k that unfolding rests_def by blast
      then show ?thesis using False True orders' len k by (auto simp: nth_list_update)
    next
      case False': False
      then have "oid \<in> set (resting[k := new] ! j) \<longleftrightarrow> oid \<in> set (resting ! j)" if "j < length syms" for j
        using that False len by (cases "j = k") auto
      moreover have "orders' oid = orders oid" using False False' orders' by simp
      ultimately show ?thesis using r unfolding rests_def by auto
    qed
  qed
  ultimately show ?thesis using len by (simp add: rests_def)
qed

text \<open>Every branch of the generator makes a step of the exchange.\<close>

lemma rests_generate_add:
  assumes r: "rests syms resting next_id orders" and k: "k < length syms" and no_wrap: "next_id \<noteq> -1"
    and gen: "generate_add seq (syms ! k) (resting ! k) next_id = (m, new, next_id')"
  shows "\<exists>orders'. exchange_step m orders = Some (syms ! k, orders') \<and> rests syms (resting[k := new]) next_id' orders'"
proof -
  have next_id: "next_id < next_id + 1" "next_id \<le> next_id + 1" using unat_inc [OF no_wrap] by (simp_all add: word_less_nat_alt word_le_nat_alt)
  have "next_id \<notin> set (resting ! k)" "orders next_id = None" using r k rests_fresh [OF r] by (auto simp: rests_def)
  moreover have "rests syms (resting[k := resting ! k @ [next_id]]) (next_id + 1) (orders(next_id \<mapsto> syms ! k))"
    by (rule rests_update [OF r k]) (use r k next_id rests_live [OF r k] calculation in \<open>auto simp: rests_def\<close>)
  ultimately show ?thesis using gen by (auto simp: generate_add_def Let_def)
qed

lemma rests_generate_cancel:
  assumes r: "rests syms resting next_id orders" and k: "k < length syms" and idx: "idx < length (resting ! k)"
    and gen: "generate_cancel seq idx (resting ! k) next_id = (m, new, next_id')"
  shows "\<exists>orders'. exchange_step m orders = Some (syms ! k, orders') \<and> rests syms (resting[k := new]) next_id' orders'"
proof -
  let ?oid = "resting ! k ! idx"
  have d: "distinct (resting ! k)" using r k by (simp add: rests_def)
  have "rests syms (resting[k := take idx (resting ! k) @ drop (Suc idx) (resting ! k)]) next_id (orders(?oid := None))"
    by (rule rests_update [OF r k])
      (use remove_nth [OF d idx] idx rests_live [OF r k] in \<open>simp_all\<close>)
  moreover have "orders ?oid = Some (syms ! k)" using rests_live [OF r k] idx by simp
  ultimately show ?thesis using gen by (auto simp: generate_cancel_def)
qed

lemma rests_generate_execute:
  assumes r: "rests syms resting next_id orders" and k: "k < length syms" and idx: "idx < length (resting ! k)"
    and gen: "generate_execute seq idx (resting ! k) next_id = (m, new, next_id')"
  shows "\<exists>orders'. exchange_step m orders = Some (syms ! k, orders') \<and> rests syms (resting[k := new]) next_id' orders'"
  using assms rests_live [OF r k, of "resting ! k ! idx"] by (auto simp: generate_execute_def Let_def)

lemma rests_generate_replace:
  assumes r: "rests syms resting next_id orders" and k: "k < length syms" and idx: "idx < length (resting ! k)"
    and no_wrap: "next_id \<noteq> -1"
    and gen: "generate_replace seq idx (resting ! k) next_id = (m, new, next_id')"
  shows "\<exists>orders'. exchange_step m orders = Some (syms ! k, orders') \<and> rests syms (resting[k := new]) next_id' orders'"
proof -
  let ?oid = "resting ! k ! idx"
  have d: "distinct (resting ! k)" using r k by (simp add: rests_def)
  have next_id: "next_id < next_id + 1" "next_id \<le> next_id + 1" using unat_inc [OF no_wrap] by (simp_all add: word_less_nat_alt word_le_nat_alt)
  have fresh: "next_id \<notin> set (resting ! k)" "orders next_id = None" using r k rests_fresh [OF r] by (auto simp: rests_def)
  have "rests syms (resting[k := (resting ! k)[idx := next_id]]) (next_id + 1) (orders(?oid := None, next_id \<mapsto> syms ! k))"
    by (rule rests_update [OF r k])
      (use replace_nth [OF d idx fresh(1)] next_id rests_live [OF r k] idx in \<open>auto\<close>)
  moreover have "orders ?oid = Some (syms ! k)" using rests_live [OF r k] idx by simp
  ultimately show ?thesis using gen fresh by (auto simp: generate_replace_def Let_def)
qed

lemmas rests_generate = rests_generate_add rests_generate_cancel rests_generate_execute rests_generate_replace
lemmas generate_defs = generate_add_def generate_cancel_def generate_execute_def generate_replace_def

subsection \<open>The stream of generated messages\<close>

text \<open>The configuration that the generator works with: some well-formed symbols and at least one shard.\<close>

definition config_ok :: "Config \<Rightarrow> bool" where
  "config_ok cfg \<longleftrightarrow> symbols cfg \<noteq> [] \<and> (\<forall>t \<in> set (symbols cfg). symbol_ok t) \<and> 0 < cfg_num_shards cfg"

text \<open>The sequence numbers of the messages whose symbol belongs to shard \<open>i\<close>.\<close>

definition shard_seq_nums :: "nat \<Rightarrow> nat \<Rightarrow> DecodedMessage list \<Rightarrow> Symbol list \<Rightarrow> SeqNum list" where
  "shard_seq_nums n i ms ts = map (msg_seq_num \<circ> fst) (filter (\<lambda>(m, t). shard_for_symbol t n = i) (zip ms ts))"

definition numbered :: "SeqNum list \<Rightarrow> bool" where
  "numbered ss \<longleftrightarrow> ss = map of_nat [1..<Suc (length ss)]"

lemma numbered_snoc: "numbered ss \<Longrightarrow> numbered (ss @ [of_nat (length ss) + 1])"
  by (simp add: numbered_def add.commute)

definition feed_inv :: "Config \<Rightarrow> DecodedMessage list \<Rightarrow> Symbol list \<Rightarrow> 'g FeedGenerator \<Rightarrow> bool" where
  "feed_inv cfg ms ts g \<longleftrightarrow> config g = cfg \<and> length ts = length ms \<and> (\<forall>m \<in> set ms. msg_ok m) \<and>
     unat (next_order_id g) \<le> Suc (length ms) \<and>
     (\<exists>orders. exchange_run ms Map.empty = Some (ts, orders) \<and>
        rests (symbols cfg) (resting_orders_per_symbol g) (next_order_id g) orders) \<and>
     (\<forall>i. numbered (shard_seq_nums (cfg_num_shards cfg) i ms ts) \<and>
        (case map_of (next_seq_per_shard g) i of None \<Rightarrow> 0 | Some s \<Rightarrow> s) =
          of_nat (length (shard_seq_nums (cfg_num_shards cfg) i ms ts)))"

lemma feed_inv_init: "feed_inv cfg [] [] (feed_generator R cfg)"
  by (simp add: feed_inv_def feed_generator_def rests_def shard_seq_nums_def numbered_def)

lemma feed_inv_frame:
  "feed_inv cfg ms ts g \<Longrightarrow> feed_inv cfg ms ts (g\<lparr>rng := r\<rparr>)"
  "feed_inv cfg ms ts g \<Longrightarrow> feed_inv cfg ms ts (g\<lparr>emitted_count := e\<rparr>)"
  "feed_inv cfg ms ts g \<Longrightarrow> feed_inv cfg ms ts (g\<lparr>total_dropped := d\<rparr>)"
  by (simp_all add: feed_inv_def)

lemma shard_seq_nums_snoc:
  "length ts = length ms \<Longrightarrow> shard_seq_nums n i (ms @ [m]) (ts @ [t]) =
     shard_seq_nums n i ms ts @ (if shard_for_symbol t n = i then [msg_seq_num m] else [])"
  by (simp add: shard_seq_nums_def)

text \<open>Whatever the draws are, one message is generated from one of the symbols, by one of the branches.\<close>

lemma generate_next_message_cases:
  assumes R: "rng_ok R" and cfg: "config_ok (config g)"
    and len: "length (resting_orders_per_symbol g) = length (symbols (config g))"
  obtains k seq m new next_id r where
    "k < length (symbols (config g))"
    "seq = (case map_of (next_seq_per_shard g) (shard_for_symbol (symbols (config g) ! k) (cfg_num_shards (config g))) of
       None \<Rightarrow> 0 | Some s \<Rightarrow> s) + 1"
    "generate_add seq (symbols (config g) ! k) (resting_orders_per_symbol g ! k) (next_order_id g) = (m, new, next_id) \<or>
     (\<exists>idx < length (resting_orders_per_symbol g ! k).
        generate_cancel seq idx (resting_orders_per_symbol g ! k) (next_order_id g) = (m, new, next_id) \<or>
        generate_execute seq idx (resting_orders_per_symbol g ! k) (next_order_id g) = (m, new, next_id) \<or>
        generate_replace seq idx (resting_orders_per_symbol g ! k) (next_order_id g) = (m, new, next_id))"
    "generate_next_message R g = do { (_, buf) \<leftarrow> encode m (replicate (wire_size m) 0); Some (buf, g\<lparr>rng := r, next_order_id := next_id,
       next_seq_per_shard := AList.update (shard_for_symbol (symbols (config g) ! k) (cfg_num_shards (config g))) seq (next_seq_per_shard g),
       resting_orders_per_symbol := (resting_orders_per_symbol g)[k := new]\<rparr>) }"
proof -
  let ?cfg = "config g"
  obtain k r1 where k: "uniform_int R 0 (length (symbols ?cfg) - 1) (rng g) = (k, r1)" by fastforce
  have kl: "k < length (symbols ?cfg)"
    using R cfg k unfolding rng_ok_def config_ok_def
    by (metis (no_types, lifting) One_nat_def Suc_pred fst_conv le_imp_less_Suc le0 length_greater_0_conv)
  define seq where "seq = (case map_of (next_seq_per_shard g) (shard_for_symbol (symbols ?cfg ! k) (cfg_num_shards ?cfg)) of
       None \<Rightarrow> 0 | Some s \<Rightarrow> s) + 1"
  let ?rest = "resting_orders_per_symbol g ! k"
  obtain roll r2 where roll: "uniform_real R r1 = (roll, r2)" by fastforce
  obtain idx r3 where idx: "uniform_int R 0 (length ?rest - 1) r2 = (idx, r3)" by fastforce
  have n: "cfg_num_shards ?cfg \<noteq> 0" using cfg by (simp add: config_ok_def)
  show thesis
  proof (cases "?rest = [] \<or> roll < double_0_5")
    case True
    obtain m new next_id where m: "generate_add seq (symbols ?cfg ! k) ?rest (next_order_id g) = (m, new, next_id)"
      using prod_cases3 by blast
    show thesis
      by (rule that [OF kl seq_def disjI1 [OF m], of r2])
        (use True m kl n k roll in \<open>simp add: generate_next_message_def seq_def Let_def\<close>)
  next
    case False
    then have il: "idx < length ?rest"
      using R idx unfolding rng_ok_def
      by (metis (no_types, lifting) One_nat_def Suc_pred fst_conv le_imp_less_Suc le0 length_greater_0_conv)
    obtain m new next_id where m: "(if roll < double_0_65 then generate_cancel seq idx ?rest (next_order_id g)
        else if roll < double_0_85 then generate_execute seq idx ?rest (next_order_id g)
        else generate_replace seq idx ?rest (next_order_id g)) = (m, new, next_id)"
      using prod_cases3 by blast
    then have ex: "\<exists>idx < length ?rest. generate_cancel seq idx ?rest (next_order_id g) = (m, new, next_id) \<or>
        generate_execute seq idx ?rest (next_order_id g) = (m, new, next_id) \<or>
        generate_replace seq idx ?rest (next_order_id g) = (m, new, next_id)"
      using il by (auto split: if_splits)
    show thesis
      by (rule that [OF kl seq_def disjI2 [OF ex], of r3])
        (use False m il kl n k roll idx in \<open>simp add: generate_next_message_def seq_def [symmetric] Let_def split: if_splits\<close>)
  qed
qed

lemma generate_fields:
  "generate_add seq t resting next_id = (m, new, next_id') \<Longrightarrow>
     msg_seq_num m = seq \<and> (symbol_ok t \<longrightarrow> msg_ok m) \<and> next_id' = next_id + 1"
  "generate_cancel seq idx resting next_id = (m, new, next_id') \<Longrightarrow> msg_seq_num m = seq \<and> msg_ok m \<and> next_id' = next_id"
  "generate_execute seq idx resting next_id = (m, new, next_id') \<Longrightarrow> msg_seq_num m = seq \<and> msg_ok m \<and> next_id' = next_id"
  "generate_replace seq idx resting next_id = (m, new, next_id') \<Longrightarrow> msg_seq_num m = seq \<and> msg_ok m \<and> next_id' = next_id + 1"
  by (auto simp: generate_defs Let_def)

lemma generate_step:
  assumes R: "rng_ok R" and cfg: "config_ok cfg" and inv: "feed_inv cfg ms ts g" and len: "Suc (length ms) < 2 ^ 64 - 1"
  shows "\<exists>m t g'. generate_next_message R g = Some (wire m, g') \<and> feed_inv cfg (ms @ [m]) (ts @ [t]) g' \<and>
    emitted_count g' = emitted_count g \<and> total_dropped g' = total_dropped g"
proof -
  let ?n = "cfg_num_shards cfg" and ?syms = "symbols cfg" and ?resting = "resting_orders_per_symbol g"
  let ?next = "next_order_id g"
  have g: "config g = cfg" "length ts = length ms" using inv by (simp_all add: feed_inv_def)
  obtain orders where run: "exchange_run ms Map.empty = Some (ts, orders)" and rests: "rests ?syms ?resting ?next orders"
    using inv by (auto simp: feed_inv_def)
  have no_wrap: "?next \<noteq> -1"
    using inv len by (auto simp: feed_inv_def unsigned_minus_1_eq_mask mask_eq_exp_minus_1)
  have "length ?resting = length ?syms" using rests by (simp add: rests_def)
  then obtain k seq m new next_id r where k: "k < length ?syms"
    and seq: "seq = (case map_of (next_seq_per_shard g) (shard_for_symbol (?syms ! k) ?n) of None \<Rightarrow> 0 | Some s \<Rightarrow> s) + 1"
    and gen: "generate_add seq (?syms ! k) (?resting ! k) ?next = (m, new, next_id) \<or>
       (\<exists>idx < length (?resting ! k). generate_cancel seq idx (?resting ! k) ?next = (m, new, next_id) \<or>
          generate_execute seq idx (?resting ! k) ?next = (m, new, next_id) \<or>
          generate_replace seq idx (?resting ! k) ?next = (m, new, next_id))"
    and res: "generate_next_message R g = do { (_, buf) \<leftarrow> encode m (replicate (wire_size m) 0); Some (buf, g\<lparr>rng := r, next_order_id := next_id,
       next_seq_per_shard := AList.update (shard_for_symbol (?syms ! k) ?n) seq (next_seq_per_shard g),
       resting_orders_per_symbol := ?resting[k := new]\<rparr>) }"
    using generate_next_message_cases [OF R, of g] cfg unfolding g(1) by metis
  have t: "symbol_ok (?syms ! k)" using cfg k by (simp add: config_ok_def)
  have m: "msg_seq_num m = seq \<and> msg_ok m \<and> (next_id = ?next \<or> next_id = ?next + 1)"
    using gen generate_fields t by metis
  obtain orders' where step: "exchange_step m orders = Some (?syms ! k, orders')" and rests': "rests ?syms (?resting[k := new]) next_id orders'"
    using gen rests_generate [OF rests k] no_wrap by metis
  have next_id: "unat next_id \<le> Suc (Suc (length ms))"
    using m inv unat_inc [OF no_wrap] by (auto simp: feed_inv_def)
  let ?g = "g\<lparr>rng := r, next_order_id := next_id,
       next_seq_per_shard := AList.update (shard_for_symbol (?syms ! k) ?n) seq (next_seq_per_shard g),
       resting_orders_per_symbol := ?resting[k := new]\<rparr>"
  have "feed_inv cfg (ms @ [m]) (ts @ [?syms ! k]) ?g"
    unfolding feed_inv_def
    using inv m next_id rests' step run g seq
    by (auto simp: feed_inv_def exchange_run_snoc shard_seq_nums_snoc update_conv' numbered_snoc)
  moreover have "encode m (replicate (wire_size m) 0) = Some (Inr (wire_size m), wire m)"
    using encode_eq [of m] m length_wire [of m] by simp
  ultimately show ?thesis using res by auto
qed

text \<open>The packets of \<open>n\<close> calls of \<open>next\<close>.\<close>

fun feed_run :: "'g rng_ops \<Rightarrow> nat \<Rightarrow> 'g FeedGenerator \<Rightarrow> (Packet list \<times> 'g FeedGenerator) option" where
  "feed_run R 0 g = Some ([], g)"
| "feed_run R (Suc n) g = do { (p, g) \<leftarrow> next_packet R g; (ps, g) \<leftarrow> feed_run R n g; Some (p # ps, g) }"

text \<open>A packet carries the message that was generated, or was lost.\<close>

definition carries :: "Config \<Rightarrow> Packet \<Rightarrow> DecodedMessage \<Rightarrow> bool" where
  "carries cfg p m \<longleftrightarrow> \<not> exhausted p \<and> (bytes p = Some (wire m) \<or> bytes p = None \<and> 0 < packet_loss_rate cfg)"

definition lost :: "Packet list \<Rightarrow> nat" where
  "lost ps = length (filter (\<lambda>p. \<not> exhausted p \<and> bytes p = None) ps)"

lemma next_packet_step:
  assumes R: "rng_ok R" and cfg: "config_ok cfg" and inv: "feed_inv cfg ms ts g"
    and emitted: "unat (emitted_count g) = length ms" "length ms < unat (message_count cfg)" "Suc (length ms) < 2 ^ 64 - 1"
  shows "\<exists>p g' m t. next_packet R g = Some (p, g') \<and> feed_inv cfg (ms @ [m]) (ts @ [t]) g' \<and> carries cfg p m \<and>
    unat (emitted_count g') = Suc (length ms) \<and> total_dropped g' = total_dropped g + of_nat (lost [p])"
proof -
  let ?g = "g\<lparr>emitted_count := emitted_count g + 1\<rparr>"
  have c: "config g = cfg" using inv by (simp add: feed_inv_def)
  have "emitted_count g \<noteq> -1" using emitted(1,3) by (auto simp: unsigned_minus_1_eq_mask mask_eq_exp_minus_1)
  then have e: "unat (emitted_count g + 1) = Suc (length ms)" using unat_inc emitted(1) by metis
  obtain m t g1 where gen: "generate_next_message R ?g = Some (wire m, g1)" and inv1: "feed_inv cfg (ms @ [m]) (ts @ [t]) g1"
    and frame: "emitted_count g1 = emitted_count g + 1" "total_dropped g1 = total_dropped g"
    using generate_step [OF R cfg feed_inv_frame(2) [OF inv] emitted(3), of "emitted_count g + 1"] by auto
  obtain loss r where loss: "uniform_real R (rng g1) = (loss, r)" by fastforce
  have pos: "0 \<le> loss" using R loss unfolding rng_ok_def by (metis fst_conv)
  have more: "\<not> message_count (config g) \<le> emitted_count g" using emitted c by (simp add: word_le_nat_alt)
  have c1: "config g1 = cfg" using inv1 by (simp add: feed_inv_def)
  show ?thesis
  proof (cases "loss < packet_loss_rate cfg")
    case True
    then have "next_packet R g = Some (\<lparr>exhausted = False, bytes = None\<rparr>, g1\<lparr>rng := r, total_dropped := total_dropped g1 + 1\<rparr>)"
      using more gen loss c1 by (simp add: next_packet_def)
    moreover have "feed_inv cfg (ms @ [m]) (ts @ [t]) (g1\<lparr>rng := r, total_dropped := total_dropped g1 + 1\<rparr>)"
      using inv1 by (intro feed_inv_frame)
    moreover have "carries cfg \<lparr>exhausted = False, bytes = None\<rparr> m" using True pos by (simp add: carries_def)
    ultimately show ?thesis using e frame by (auto simp: lost_def)
  next
    case False
    then have "next_packet R g = Some (\<lparr>exhausted = False, bytes = Some (wire m)\<rparr>, g1\<lparr>rng := r\<rparr>)"
      using more gen loss c1 by (simp add: next_packet_def)
    moreover have "feed_inv cfg (ms @ [m]) (ts @ [t]) (g1\<lparr>rng := r\<rparr>)" using inv1 by (intro feed_inv_frame)
    moreover have "carries cfg \<lparr>exhausted = False, bytes = Some (wire m)\<rparr> m" by (simp add: carries_def)
    ultimately show ?thesis using e frame by (auto simp: lost_def)
  qed
qed

lemma feed_run_inv:
  assumes R: "rng_ok R" and cfg: "config_ok cfg" and inv: "feed_inv cfg ms ts g"
    and emitted: "unat (emitted_count g) = length ms" "length ms + n \<le> unat (message_count cfg)" "length ms + n < 2 ^ 64 - 1"
  shows "\<exists>ps g' ms' ts'. feed_run R n g = Some (ps, g') \<and> feed_inv cfg (ms @ ms') (ts @ ts') g' \<and> list_all2 (carries cfg) ps ms' \<and>
    length ps = n \<and> unat (emitted_count g') = length ms + n \<and> total_dropped g' = total_dropped g + of_nat (lost ps)"
  using inv emitted
proof (induction n arbitrary: g ms ts)
  case 0
  then show ?case by (auto simp: lost_def intro!: exI [of _ "[]"])
next
  case (Suc n)
  obtain p g1 m t where nxt: "next_packet R g = Some (p, g1)" and inv1: "feed_inv cfg (ms @ [m]) (ts @ [t]) g1"
    and p: "carries cfg p m" and e1: "unat (emitted_count g1) = Suc (length ms)" "total_dropped g1 = total_dropped g + of_nat (lost [p])"
    using next_packet_step [OF R cfg Suc.prems(1,2)] Suc.prems(3,4) by auto
  obtain ps g' ms' ts' where run: "feed_run R n g1 = Some (ps, g')" and inv': "feed_inv cfg ((ms @ [m]) @ ms') ((ts @ [t]) @ ts') g'"
    and ps: "list_all2 (carries cfg) ps ms'" "length ps = n"
    and e': "unat (emitted_count g') = length (ms @ [m]) + n" "total_dropped g' = total_dropped g1 + of_nat (lost ps)"
    using Suc.IH [OF inv1] e1(1) Suc.prems(3,4) by auto
  have "lost (p # ps) = lost [p] + lost ps" by (simp add: lost_def)
  then have "total_dropped g' = total_dropped g + of_nat (lost (p # ps))" using e' e1 by simp
  moreover have "list_all2 (carries cfg) (p # ps) (m # ms')" using p ps by simp
  moreover have "feed_inv cfg (ms @ m # ms') (ts @ t # ts') g'" using inv' by simp
  moreover have "feed_run R (Suc n) g = Some (p # ps, g')" using nxt run by simp
  ultimately show ?case using ps(2) e' by (metis add_Suc_right add_Suc length_Cons length_append_singleton)
qed

lemma feed_run_from_init:
  assumes "rng_ok R" "config_ok cfg" "n \<le> unat (message_count cfg)" "n < 2 ^ 64 - 1"
  obtains ps g ms ts where "feed_run R n (feed_generator R cfg) = Some (ps, g)" "feed_inv cfg ms ts g" "list_all2 (carries cfg) ps ms"
    "length ps = n" "unat (emitted_count g) = n" "total_dropped g = of_nat (lost ps)"
  using feed_run_inv [OF assms(1,2) feed_inv_init [of cfg R], of n] assms(3,4) by (auto simp: feed_generator_def)

end
