(* ===== verification/Feed_Properties.thy ===== *)
theory Feed_Properties
  imports Feed_Generator Shard_Properties
begin

text \<open>
  The feed and the pipeline together: what the generator emits is a coherent stream with gapless numbers per shard, the
  demultiplexer routes all of it, and where the pipeline nevertheless loses messages of a lossless feed.
\<close>

subsection \<open>Routing a coherent stream\<close>

definition route_of :: "nat \<Rightarrow> Symbol \<Rightarrow> OrderRoute" where
  "route_of n t = \<lparr>rt_shard_index = shard_for_symbol t n, rt_symbol = t\<rparr>"

text \<open>The routing table knows exactly the orders that are live in the exchange's view.\<close>

definition routes_match :: "nat \<Rightarrow> (OrderId \<times> OrderRoute) list \<Rightarrow> (OrderId \<rightharpoonup> Symbol) \<Rightarrow> bool" where
  "routes_match n routes orders \<longleftrightarrow> distinct (map fst routes) \<and> map_of routes = map_option (route_of n) \<circ> orders"

lemma route_exchange:
  assumes "exchange_step m orders = Some (t, orders')" "routes_match n routes orders"
  shows "\<exists>routes'. route_message n m routes = Inr (route_of n t, routes') \<and> routes_match n routes' orders'"
proof (cases m)
  case (AddMsg a)
  then show ?thesis
    using assms by (auto simp: routes_match_def route_of_def update_conv' distinct_update Let_def split: if_splits)
next
  case (CancelMsg c)
  then show ?thesis
    using assms by (auto simp: routes_match_def delete_conv' distinct_delete)
next
  case (ExecuteMsg x)
  then show ?thesis using assms by (auto simp: routes_match_def)
next
  case (ReplaceMsg r)
  then show ?thesis
    using assms by (auto simp: routes_match_def update_conv' delete_conv' distinct_update distinct_delete split: if_splits)
qed

lemma demux_routed:
  assumes ok: "sp_ok sp" and dec: "decode raw = Some (Inr m)"
    and route: "route_message (length (sp_shards sp)) m (sp_order_route sp) = Inr (route, routes')"
  obtains sp' qm q' where "demux now raw t sp = Some (Inr (rt_shard_index route), sp')" "sp_ok sp'" "sp_order_route sp' = routes'"
    "rt_shard_index route < length (sp_shards sp)" "qm_message qm = m" "qm_symbol qm = rt_symbol route"
    "push qm (sh_queue (sp_shards sp ! rt_shard_index route)) = Some q'"
    "sp_shards sp' = (sp_shards sp)[rt_shard_index route := (sp_shards sp ! rt_shard_index route)\<lparr>sh_queue := q'\<rparr>]"
proof (rule demux_effect [OF ok, of now raw t])
  fix e sp'
  assume "demux now raw t sp = Some (Inl e, sp')"
  then have False using dec route
    by (auto simp: demux_def clock_now_def Let_def split: if_splits bind_splits)
  then show thesis ..
next
  fix i sp' m' qm q'
  assume run: "demux now raw t sp = Some (Inr i, sp')" "sp_ok sp'" "i < length (sp_shards sp)"
  let ?qm = "\<lparr>qm_symbol = rt_symbol route, qm_message = m,
     qm_trace = trace_init\<lparr>t_received := t, t_decoded := now (sp_ticks sp), t_demuxed := now (Suc (sp_ticks sp))\<rparr>\<rparr>"
  obtain q1 where "i = rt_shard_index route" "push ?qm (sh_queue (sp_shards sp ! i)) = Some q1"
      "sp_shards sp' = (sp_shards sp)[i := (sp_shards sp ! i)\<lparr>sh_queue := q1\<rparr>]" "sp_order_route sp' = routes'"
    using run(1) dec route by (auto simp: demux_def clock_now_def Let_def split: if_splits bind_splits)
  then show thesis using that [of sp' ?qm q1] run by simp
qed

text \<open>The \<open>demux\<close> calls for the packets that arrived, the \<open>k\<close>-th of them at time \<open>arrival k\<close>.\<close>

fun deliver :: "(nat \<Rightarrow> time_point) \<Rightarrow> nat \<Rightarrow> Packet list \<Rightarrow> system_event list" where
  "deliver arrival k [] = []"
| "deliver arrival k (p # ps) = (case bytes p of None \<Rightarrow> [] | Some b \<Rightarrow> [Demux b (arrival k)]) @ deliver arrival (Suc k) ps"

definition shard_messages :: "nat \<Rightarrow> nat \<Rightarrow> DecodedMessage list \<Rightarrow> Symbol list \<Rightarrow> DecodedMessage list" where
  "shard_messages n i ms ts = map fst (filter (\<lambda>(m, t). shard_for_symbol t n = i) (zip ms ts))"

lemma system_demux_routed:
  assumes inv: "system_inv S" and n: "num_shards S = n" and m: "msg_ok m"
    and step: "exchange_step m orders = Some (t, orders')" and routes: "routes_match n (sp_order_route (pipeline S)) orders"
  obtains S' where "system_step now (Demux (wire m) arrival) S = Some S'" "system_inv S'" "num_shards S' = n"
    "routes_match n (sp_order_route (pipeline S')) orders'"
    "\<And>i. map qm_message (enqueued S' i) = map qm_message (enqueued S i) @ (if shard_for_symbol t n = i then [m] else [])"
proof -
  have ok: "sp_ok (pipeline S)" using inv by (simp add: system_inv_def)
  have dec: "decode (wire m) = Some (Inr m)" using decode_wire [OF m, of "[]"] by simp
  obtain routes' where route: "route_message n m (sp_order_route (pipeline S)) = Inr (route_of n t, routes')"
    and routes': "routes_match n routes' orders'"
    using route_exchange [OF step routes] by blast
  obtain sp' qm q' where run: "demux now (wire m) arrival (pipeline S) = Some (Inr (shard_for_symbol t n), sp')"
    and sp': "sp_order_route sp' = routes'" and i: "shard_for_symbol t n < num_shards S" and qm: "qm_message qm = m"
    and push: "push qm (sh_queue (shard_at S (shard_for_symbol t n))) = Some q'"
    and shards: "sp_shards sp' = (sp_shards (pipeline S))[shard_for_symbol t n := (shard_at S (shard_for_symbol t n))\<lparr>sh_queue := q'\<rparr>]"
    using demux_routed [OF ok dec route [folded n], of now arrival] unfolding route_of_def n by simp metis
  have rq: "ring_ok (sh_queue (shard_at S (shard_for_symbol t n)))" using ok i by (simp add: sp_ok_def shard_ok_def)
  have "last (rb_contents q') = qm"
    using push_ok [OF rq, of qm] push ring.capacity_pos [OF rq] by (metis last_newest option.inject)
  moreover obtain S' where S': "system_step now (Demux (wire m) arrival) S = Some S'" "system_inv S'" "num_shards S' = num_shards S"
    using demux_inv [OF inv] by blast
  ultimately show thesis
    using that [of S'] run sp' routes' n shards i qm by auto
qed

lemma deliver_routed:
  assumes "system_inv S" "num_shards S = n" "\<forall>m \<in> set ms. msg_ok m" "exchange_run ms orders = Some (ts, orders')"
    "routes_match n (sp_order_route (pipeline S)) orders" "map bytes ps = map (Some \<circ> wire) ms"
  shows "\<exists>S'. system_run now (deliver arrival k ps) S = Some S' \<and> system_inv S' \<and>
    (\<forall>i. map qm_message (enqueued S' i) = map qm_message (enqueued S i) @ shard_messages n i ms ts)"
  using assms
proof (induction ms arbitrary: S orders ts ps k)
  case Nil
  then show ?case by (auto simp: shard_messages_def)
next
  case (Cons m ms)
  obtain p ps' where ps: "ps = p # ps'" "bytes p = Some (wire m)" "map bytes ps' = map (Some \<circ> wire) ms" using Cons.prems(6) by auto
  obtain t orders1 ts' where step: "exchange_step m orders = Some (t, orders1)" and rest: "exchange_run ms orders1 = Some (ts', orders')"
    and ts: "ts = t # ts'"
    using Cons.prems(4) by (auto split: bind_splits)
  have m: "msg_ok m" "\<forall>m \<in> set ms. msg_ok m" using Cons.prems(3) by auto
  obtain S1 where S1: "system_step now (Demux (wire m) (arrival k)) S = Some S1" "system_inv S1" "num_shards S1 = n"
    "routes_match n (sp_order_route (pipeline S1)) orders1"
    and enq: "\<And>i. map qm_message (enqueued S1 i) = map qm_message (enqueued S i) @ (if shard_for_symbol t n = i then [m] else [])"
    using system_demux_routed [OF Cons.prems(1,2) m(1) step Cons.prems(5), of now "arrival k"] by metis
  obtain S' where "system_run now (deliver arrival (Suc k) ps') S1 = Some S'" "system_inv S'"
    "\<And>i. map qm_message (enqueued S' i) = map qm_message (enqueued S1 i) @ shard_messages n i ms ts'"
    using Cons.IH [OF S1(2,3) m(2) rest S1(4) ps(3)] by blast
  then show ?case using S1(1) enq ps(1,2) ts by (auto simp: shard_messages_def)
qed

subsection \<open>Properties of the feed\<close>

text \<open>
  C16. Whatever the random draws are, the generated messages form a coherent and well-formed exchange feed: identifiers are new when they are
  added, every other message refers to a live order, and the messages of the symbols of each shard are numbered
  1, 2, 3 and so on without a gap.  Every packet carries the bytes of its message or was lost, which happens only with a positive
  loss rate and is counted.
\<close>

theorem feed_is_coherent:
  assumes "rng_ok R" "config_ok cfg" "n \<le> unat (message_count cfg)" "n < 2 ^ 64 - 1"
  shows "\<exists>ps g ms ts orders. feed_run R n (feed_generator R cfg) = Some (ps, g) \<and> length ps = n \<and>
    list_all2 (carries cfg) ps ms \<and> total_dropped g = of_nat (lost ps) \<and> (\<forall>m \<in> set ms. msg_ok m) \<and>
    exchange_run ms Map.empty = Some (ts, orders) \<and> (\<forall>i. numbered (shard_seq_nums (cfg_num_shards cfg) i ms ts))"
proof -
  obtain ps g ms ts where "feed_run R n (feed_generator R cfg) = Some (ps, g)" "feed_inv cfg ms ts g" "list_all2 (carries cfg) ps ms"
    "length ps = n" "total_dropped g = of_nat (lost ps)"
    using feed_run_from_init [OF assms] by metis
  then show ?thesis unfolding feed_inv_def by blast
qed

text \<open>A scripted source of draws.\<close>

definition script_rng :: "nat list \<Rightarrow> nat list rng_ops" where
  "script_rng draws =
     \<lparr>seed_engine = \<lambda>_. draws,
      uniform_int = \<lambda>lo hi g. case g of [] \<Rightarrow> (lo, []) | x # xs \<Rightarrow> (lo + x mod (hi - lo + 1), xs),
      uniform_real = \<lambda>g. case g of [] \<Rightarrow> (0, []) | x # xs \<Rightarrow> (of_nat (x mod 100) / 100, xs)\<rparr>"

lemma script_rng_ok: "rng_ok (script_rng draws)"
proof -
  have "lo \<le> hi \<Longrightarrow> lo + x mod (hi - lo + 1) \<le> hi" for lo hi x :: nat
    using mod_less_divisor [of "hi - lo + 1" x] by linarith
  moreover have "(of_nat (x mod 100) :: rat) / 100 < 1" for x
    using mod_less_divisor [of 100 x] by (simp add: divide_less_eq)
  ultimately show ?thesis by (auto simp: rng_ok_def script_rng_def split: list.splits)
qed

definition demo_config :: Config where
  "demo_config = \<lparr>symbols = [make_symbol ''AAPL''], cfg_num_shards = 1, message_count = 100, packet_loss_rate = 0, seed = 42\<rparr>"

lemma demo_config_ok: "config_ok demo_config"
  by (simp add: config_ok_def demo_config_def)

theorem feed_is_coherent_witness:
  "rng_ok (script_rng []) \<and> config_ok demo_config \<and>
   (\<exists>ps g. feed_run (script_rng []) 3 (feed_generator (script_rng []) demo_config) = Some (ps, g) \<and> length ps = 3)"
  using feed_is_coherent [OF script_rng_ok demo_config_ok, of 3 "[]"] script_rng_ok demo_config_ok
  by (auto simp: demo_config_def)

text \<open>
  C14. A lossless feed is routed completely: when every packet of the feed is demultiplexed into a pipeline with the same number of
  shards, before any is processed, no message is refused, each shard is given exactly the messages of its own symbols, in order, and
  their sequence numbers are 1, 2, 3 and so on, as its gap detector expects.
\<close>

theorem lossless_feed_is_routed:
  assumes "rng_ok R" "config_ok cfg" "n \<le> unat (message_count cfg)" "n < 2 ^ 64 - 1" "packet_loss_rate cfg \<le> 0"
    and "sharded_pipeline (cfg_num_shards cfg) = Inr sp"
  shows "\<exists>ps g ms ts orders S. feed_run R n (feed_generator R cfg) = Some (ps, g) \<and>
    map bytes ps = map (Some \<circ> wire) ms \<and> length ms = n \<and> exchange_run ms Map.empty = Some (ts, orders) \<and>
    system_run now (deliver arrival 0 ps) (system_init sp) = Some S \<and>
    (\<forall>i. map qm_message (enqueued S i) = shard_messages (cfg_num_shards cfg) i ms ts \<and> numbered (seq_nums (enqueued S i)))"
proof -
  let ?n = "cfg_num_shards cfg"
  obtain ps g ms ts where run: "feed_run R n (feed_generator R cfg) = Some (ps, g)" and inv: "feed_inv cfg ms ts g"
    and ps: "list_all2 (carries cfg) ps ms" "length ps = n"
    using feed_run_from_init [OF assms(1-4)] by metis
  obtain orders where ms: "exchange_run ms Map.empty = Some (ts, orders)" "\<forall>m \<in> set ms. msg_ok m"
    using inv unfolding feed_inv_def by blast
  have bytes: "map bytes ps = map (Some \<circ> wire) ms"
    using ps(1) assms(5) by (induction rule: list_all2_induct) (auto simp: carries_def)
  have "routes_match ?n (sp_order_route (pipeline (system_init sp))) Map.empty" "num_shards (system_init sp) = ?n"
    using assms(6) sharded_pipeline_ok [OF assms(6)]
    by (auto simp: routes_match_def system_init_def sharded_pipeline_def split: if_splits)
  then obtain S where S: "system_run now (deliver arrival 0 ps) (system_init sp) = Some S"
    and enq: "\<forall>i. map qm_message (enqueued S i) = map qm_message (enqueued (system_init sp) i) @ shard_messages ?n i ms ts"
    using deliver_routed [OF system_init_inv [OF assms(6)] _ ms(2,1) _ bytes] by blast
  have "seq_nums (enqueued S i) = shard_seq_nums ?n i ms ts" for i
  proof -
    have "seq_nums (enqueued S i) = map msg_seq_num (map qm_message (enqueued S i))" by (simp add: seq_nums_def)
    also have "\<dots> = shard_seq_nums ?n i ms ts"
      using enq by (simp add: system_init_def shard_messages_def shard_seq_nums_def)
    finally show ?thesis .
  qed
  then have "numbered (seq_nums (enqueued S i))" for i using inv by (simp add: feed_inv_def)
  moreover have "length ms = n" using ps by (simp add: list_all2_lengthD)
  ultimately show ?thesis using run bytes ms S enq by (auto simp: system_init_def)
qed

theorem lossless_feed_is_routed_witness:
  "\<exists>ps g ms S. feed_run (script_rng []) 3 (feed_generator (script_rng []) demo_config) = Some (ps, g) \<and>
    map bytes ps = map (Some \<circ> wire) ms \<and> length ms = 3 \<and>
    system_run int (deliver int 0 ps) (system_init demo_pipeline) = Some S \<and> numbered (seq_nums (enqueued S 0))"
proof -
  have "sharded_pipeline (cfg_num_shards demo_config) = Inr demo_pipeline"
    using demo_pipeline_init by (simp add: demo_config_def)
  from lossless_feed_is_routed [OF script_rng_ok demo_config_ok _ _ _ this, of 3 "[]" int int] show ?thesis
    by (auto simp: demo_config_def)
qed

subsection \<open>A false gap on a lossless feed\<close>

text \<open>
  One shard that processes every message as soon as it is routed: its routing table, gap detector and books after the message.
\<close>

type_synonym shard_view = "(OrderId \<times> OrderRoute) list \<times> gap_detector \<times> (Symbol \<Rightarrow> OrderBook)"

fun lockstep :: "DecodedMessage \<Rightarrow> shard_view \<Rightarrow> shard_view" where
  "lockstep m (routes, gd, books) =
     (case route_message 1 m routes of
        Inl _ \<Rightarrow> (routes, gd, books)
      | Inr (route, routes') \<Rightarrow>
          (case apply_msg m (books (rt_symbol route)) of
             None \<Rightarrow> (routes, gd, books)
           | Some (_, b) \<Rightarrow> (cleanup_route m b routes', snd (observe (msg_seq_num m) gd), books(rt_symbol route := b))))"

definition shard_view :: "system \<Rightarrow> shard_view" where
  "shard_view S = (sp_order_route (pipeline S), sh_gap_detector (shard_at S 0), book_at (shard_at S 0))"

definition lockstep_ok :: "system \<Rightarrow> bool" where
  "lockstep_ok S \<longleftrightarrow> system_inv S \<and> num_shards S = 1 \<and> rb_contents (sh_queue (shard_at S 0)) = []"

lemma lockstep_sound:
  assumes ok: "lockstep_ok S" and m: "msg_ok m"
  shows "\<exists>S'. system_run now [Demux (wire m) t, Process 0] S = Some S' \<and> lockstep_ok S' \<and> shard_view S' = lockstep m (shard_view S)"
proof -
  have inv: "system_inv S" and n: "num_shards S = 1" and q: "rb_contents (sh_queue (shard_at S 0)) = []"
    using ok by (simp_all add: lockstep_ok_def)
  have sp: "sp_ok (pipeline S)" using inv by (simp add: system_inv_def)
  have dec: "decode (wire m) = Some (Inr m)" using decode_wire [OF m, of "[]"] by simp
  obtain S1 where S1: "system_step now (Demux (wire m) t) S = Some S1" "system_inv S1" "num_shards S1 = 1"
    using demux_inv [OF inv] n by metis
  obtain S2 where S2: "system_step now (Process 0) S1 = Some S2" "system_inv S2" "num_shards S2 = 1"
    using process_inv [OF S1(2)] S1(3) by metis
  have sp1: "sp_ok (pipeline S1)" using S1(2) by (simp add: system_inv_def)
  have "rb_contents (sh_queue (shard_at S2 0)) = [] \<and> shard_view S2 = lockstep m (shard_view S)"
  proof (cases "route_message 1 m (sp_order_route (pipeline S))")
    case (Inl e)
    then have "shard_view S1 = shard_view S" "rb_contents (sh_queue (shard_at S1 0)) = []"
      using S1(1) dec n q by (auto simp: demux_def clock_now_def shard_view_def Let_def)
    moreover have "try_pop (sh_queue (shard_at S1 0)) = (None, sh_queue (shard_at S1 0))"
      by (rule ring.pop_empty) (use sp1 S1(3) calculation(2) in \<open>simp_all add: sp_ok_def shard_ok_def\<close>)
    then have "S2 = S1" using S2(1) process_one_idle [OF sp1, of 0 now] S1(3) calculation(2) by simp
    ultimately show ?thesis using Inl by (simp add: shard_view_def)
  next
    case (Inr rr)
    then obtain route routes' where route: "route_message 1 m (sp_order_route (pipeline S)) = Inr (route, routes')" by (cases rr) auto
    obtain sp' qm q' where run: "demux now (wire m) t (pipeline S) = Some (Inr (rt_shard_index route), sp')" "sp_order_route sp' = routes'"
      and i: "rt_shard_index route < num_shards S" and qm: "qm_message qm = m" "qm_symbol qm = rt_symbol route"
      and push: "push qm (sh_queue (shard_at S (rt_shard_index route))) = Some q'"
      and shards: "sp_shards sp' = (sp_shards (pipeline S))[rt_shard_index route := (shard_at S (rt_shard_index route))\<lparr>sh_queue := q'\<rparr>]"
      using demux_routed [OF sp dec route [folded n], of now t] by metis
    have i0: "rt_shard_index route = 0" using i n by simp
    have rq: "ring_ok (sh_queue (shard_at S 0))" using sp n by (simp add: sp_ok_def shard_ok_def)
    have q': "rb_contents q' = [qm]"
      using push_ok [OF rq, of qm] push i0 q ring.capacity_pos [OF rq] by (auto simp: newest_def)
    have p1: "pipeline S1 = sp'" using S1(1) run i0 by auto
    then have c1: "rb_contents (sh_queue (shard_at S1 0)) = qm # []" using shards i0 n q' by simp
    obtain sp2 s' r b' where p2: "process_one now 0 (pipeline S1) = Some (True, sp2)" "sp_shards sp2 = (sp_shards (pipeline S1))[0 := s']"
      and s': "rb_contents (sh_queue s') = []" "sh_gap_detector s' = snd (observe (msg_seq_num m) (sh_gap_detector (shard_at S1 0)))"
        "apply_msg m (book_at (shard_at S1 0) (rt_symbol route)) = Some (r, b')"
        "book_at s' = (book_at (shard_at S1 0))(rt_symbol route := b')"
      and routes2: "sp_order_route sp2 = cleanup_route m b' (sp_order_route (pipeline S1))"
      using process_one_effect [OF sp1 _ c1, of now] S1(3) qm by (metis zero_less_one)
    have "pipeline S2 = sp2" using S2(1) p2(1) S1(3) by (auto split: option.splits)
    moreover have "book_at (shard_at S1 0) = book_at (shard_at S 0)" "sh_gap_detector (shard_at S1 0) = sh_gap_detector (shard_at S 0)"
      using p1 shards i0 n by simp_all
    ultimately show ?thesis
      using route s' routes2 p2(2) p1 run(2) S1(3) by (simp add: shard_view_def)
  qed
  then show ?thesis using S1(1) S2 by (simp add: lockstep_ok_def)
qed

fun lockstep_events :: "DecodedMessage list \<Rightarrow> system_event list" where
  "lockstep_events [] = []"
| "lockstep_events (m # ms) = Demux (wire m) 0 # Process 0 # lockstep_events ms"

lemma lockstep_run:
  "lockstep_ok S \<Longrightarrow> \<forall>m \<in> set ms. msg_ok m \<Longrightarrow>
    \<exists>S'. system_run now (lockstep_events ms) S = Some S' \<and> lockstep_ok S' \<and> shard_view S' = fold lockstep ms (shard_view S)"
proof (induction ms arbitrary: S)
  case (Cons m ms)
  obtain S1 where S1: "system_run now [Demux (wire m) 0, Process 0] S = Some S1" "lockstep_ok S1" "shard_view S1 = lockstep m (shard_view S)"
    using lockstep_sound [OF Cons.prems(1), of m now 0] Cons.prems(2) by (meson list.set_intros(1))
  then show ?case using Cons.IH [OF S1(2)] Cons.prems(2) by (auto split: bind_splits)
qed simp

text \<open>
  Eight draws of the generator: two orders, five executions of the second one (12 shares, 3 at a time), and
  another order.
\<close>

definition overrun_draws :: "nat list" where
  "overrun_draws = [0, 0, 0, 0, 0, 0, 0, 70, 3, 0, 0, 70, 3, 0, 0, 70, 3, 0, 0, 70, 3, 0, 0, 70, 3, 0, 0, 0, 0]"

definition overrun_add :: "u64 \<Rightarrow> u64 \<Rightarrow> Side \<Rightarrow> u64 \<Rightarrow> u32 \<Rightarrow> DecodedMessage" where
  "overrun_add seq oid side price qty = AddMsg \<lparr>add_seq_num = seq, add_order_id = oid, add_symbol = make_symbol ''AAPL'', add_side = side,
     add_price = Int64 price, add_quantity = qty, add_timestamp = seq\<rparr>"

definition overrun_execute :: "u64 \<Rightarrow> DecodedMessage" where
  "overrun_execute seq = ExecuteMsg \<lparr>exe_seq_num = seq, exe_order_id = 2, exe_executed_quantity = 3, exe_timestamp = seq\<rparr>"

definition overrun_messages :: "DecodedMessage list" where
  "overrun_messages = [overrun_add 1 1 Sell 101 11, overrun_add 2 2 Buy 102 12, overrun_execute 3, overrun_execute 4,
     overrun_execute 5, overrun_execute 6, overrun_execute 7, overrun_add 8 3 Sell 103 13]"

lemma encode_fresh: "msg_ok m \<Longrightarrow> encode m (replicate (wire_size m) 0) = Some (Inr (wire_size m), wire m)"
  using encode_eq [of m] length_wire [of m] by simp

definition demo_feed_state :: "nat list \<Rightarrow> u64 \<Rightarrow> u64 \<Rightarrow> (nat \<times> u64) list \<Rightarrow> u64 list \<Rightarrow> nat list FeedGenerator" where
  "demo_feed_state draws emitted oid seqs resting =
     \<lparr>config = demo_config, rng = draws, emitted_count = emitted, total_dropped = 0, next_order_id = oid,
      next_seq_per_shard = seqs, resting_orders_per_symbol = [resting]\<rparr>"

lemma demo_next_add:
  assumes "unat emitted < 100"
  shows "next_packet (script_rng d) (demo_feed_state (0 # 0 # 0 # draws) emitted oid seqs resting) =
     (let seq = (case map_of seqs 0 of None \<Rightarrow> 0 | Some s \<Rightarrow> s) + 1
      in Some (\<lparr>exhausted = False, bytes = Some (wire (overrun_add seq oid (if oid mod 2 = 0 then Buy else Sell) (100 + oid mod 50) (10 + ucast (oid mod 20))))\<rparr>,
           demo_feed_state draws (emitted + 1) (oid + 1) (AList.update 0 seq seqs) (resting @ [oid])))"
  using assms
  by (simp add: next_packet_def generate_next_message_def demo_feed_state_def demo_config_def script_rng_def word_le_nat_alt
      generate_add_def encode_fresh double_0_5_def overrun_add_def shard_for_symbol_def Let_def
      del: wire_size.simps encode.simps)

lemma demo_next_execute:
  assumes "unat emitted < 100"
  shows "next_packet (script_rng d) (demo_feed_state (0 # 70 # 3 # 0 # draws) emitted oid seqs [x, 2]) =
     (let seq = (case map_of seqs 0 of None \<Rightarrow> 0 | Some s \<Rightarrow> s) + 1
      in Some (\<lparr>exhausted = False, bytes = Some (wire (overrun_execute seq))\<rparr>,
           demo_feed_state draws (emitted + 1) oid (AList.update 0 seq seqs) [x, 2]))"
proof -
  have three: "(3 :: nat) mod Suc (Suc 0) = Suc 0" by (simp flip: numeral_2_eq_2)
  show ?thesis using assms
    by (simp add: three next_packet_def generate_next_message_def demo_feed_state_def demo_config_def script_rng_def word_le_nat_alt
      generate_execute_def encode_fresh double_0_5_def double_0_65_def double_0_85_def overrun_execute_def shard_for_symbol_def Let_def
      del: wire_size.simps encode.simps)
qed

lemma feed_run_numeral:
  "feed_run R (numeral k) g =
     do { (p, g) \<leftarrow> next_packet R g; (ps, g) \<leftarrow> feed_run R (pred_numeral k) g; Some (p # ps, g) }"
  by (simp add: numeral_eq_Suc)

lemma overrun_feed:
  "\<exists>g. feed_run (script_rng overrun_draws) 8 (feed_generator (script_rng overrun_draws) demo_config) =
     Some (map (\<lambda>m. \<lparr>exhausted = False, bytes = Some (wire m)\<rparr>) overrun_messages, g)"
proof -
  have init: "feed_generator (script_rng overrun_draws) demo_config = demo_feed_state overrun_draws 0 1 [] []"
    by (simp add: feed_generator_def script_rng_def demo_feed_state_def demo_config_def)
  have "\<exists>g. feed_run (script_rng d) 8 (demo_feed_state overrun_draws 0 1 [] []) =
     Some (map (\<lambda>m. \<lparr>exhausted = False, bytes = Some (wire m)\<rparr>) overrun_messages, g)" for d
    unfolding overrun_draws_def
    by (simp add: feed_run_numeral demo_next_add demo_next_execute overrun_messages_def)
  then show ?thesis unfolding init .
qed

lemma overrun_view:
  "fst (snd (fold lockstep overrun_messages ([], gap_detector_init, \<lambda>_. order_book_init))) =
     fold (\<lambda>seq. snd \<circ> observe seq) [1, 2, 3, 4, 5, 6, 8] gap_detector_init"
  by (simp add: overrun_messages_def overrun_add_def overrun_execute_def shard_for_symbol_def book_eval)

lemma demo_lockstep_ok: "lockstep_ok (system_init demo_pipeline)"
  using system_init_inv [OF demo_pipeline_init]
  by (simp add: lockstep_ok_def system_init_def demo_pipeline_def shard_init_def rb_contents_def rb_count_def ring_init_def)

text \<open>
  C34. A lossless feed can leave a shard stale.  The generator executes an order more often than its quantity allows; once the order is
  filled, the decoder thread removes its route, the next execution of it is refused as unroutable and never reaches the shard, and the message
  after it opens a sequence gap although no packet was lost and no queue has dropped anything.
\<close>

theorem lossless_feed_goes_stale:
  "\<exists>ps g S. packet_loss_rate demo_config = 0 \<and>
     feed_run (script_rng overrun_draws) 8 (feed_generator (script_rng overrun_draws) demo_config) = Some (ps, g) \<and>
     map bytes ps = map (Some \<circ> wire) overrun_messages \<and>
     system_run int (lockstep_events overrun_messages) (system_init demo_pipeline) = Some S \<and>
     state (sh_gap_detector (shard_at S 0)) = Stale \<and> sequence_gaps_total (sh_gap_detector (shard_at S 0)) = 1"
proof -
  have "\<forall>m \<in> set overrun_messages. msg_ok m"
    by (simp add: overrun_messages_def overrun_add_def overrun_execute_def)
  then obtain S where run: "system_run int (lockstep_events overrun_messages) (system_init demo_pipeline) = Some S"
    and view: "shard_view S = fold lockstep overrun_messages (shard_view (system_init demo_pipeline))"
    using lockstep_run [OF demo_lockstep_ok] by blast
  have "shard_view (system_init demo_pipeline) = ([], gap_detector_init, \<lambda>_. order_book_init)"
    by (simp add: shard_view_def system_init_def demo_pipeline_def shard_init_def book_at_def fun_eq_iff)
  then have gap: "sh_gap_detector (shard_at S 0) = fold (\<lambda>seq. snd \<circ> observe seq) [1, 2, 3, 4, 5, 6, 8] gap_detector_init"
    using arg_cong [OF view, of "\<lambda>v. fst (snd v)"] overrun_view by (simp add: shard_view_def)
  have "state (sh_gap_detector (shard_at S 0)) = Stale" "sequence_gaps_total (sh_gap_detector (shard_at S 0)) = 1"
    unfolding gap by (simp_all add: observe_def log_gap_def gap_detector_init_def state_def sequence_gaps_total_def Let_def)
  moreover obtain g where "feed_run (script_rng overrun_draws) 8 (feed_generator (script_rng overrun_draws) demo_config) =
      Some (map (\<lambda>m. \<lparr>exhausted = False, bytes = Some (wire m)\<rparr>) overrun_messages, g)"
    using overrun_feed by blast
  ultimately show ?thesis using run by (simp add: demo_config_def o_def)
qed

end
