(* ===== verification/Network_Reader.thy ===== *)
theory Network_Reader
  imports Feed_Properties
begin

text \<open>
  The network I/O thread, \<open>io/async_network_reader.hpp\<close> and \<open>io/async_network_reader.cpp\<close>: the reactor with its queue of
  scheduled resumptions, and the coroutine \<open>read_packets_async\<close> as the code that runs from one suspension to the next.  Other
  threads appear through two parameters: \<open>stop k\<close> is the value of the \<open>k\<close>-th load of \<open>stop_requested\<close>, and
  \<open>wall k\<close> the \<open>k\<close>-th reading of the clock by this thread.  \<open>None\<close> is undefined behaviour or a run that never ends.
\<close>

subsection \<open>Model\<close>

text \<open>There is one coroutine in the program.\<close>

datatype coroutine_handle = Read_packets_async

type_synonym scheduled_resume = "time_point \<times> coroutine_handle"

record 'g network =
  nt_feed :: "'g FeedGenerator"
  nt_pipeline :: ShardedPipeline
  nt_pending :: "scheduled_resume list"
  nt_producer_done :: bool
  nt_loads :: nat
  nt_ticks :: nat
  nt_sleeps :: "time_point list"

text \<open>
  \<open>std::priority_queue\<close> with the earliest time on top: the queue in the order in which its elements are removed.
  Elements with equal times are removed in an order that the library leaves open; here in the order of insertion.
\<close>

fun pq_push :: "scheduled_resume \<Rightarrow> scheduled_resume list \<Rightarrow> scheduled_resume list" where
  "pq_push x [] = [x]"
| "pq_push x (y # ys) = (if fst x < fst y then x # y # ys else y # pq_push x ys)"

definition schedule :: "time_point \<Rightarrow> coroutine_handle \<Rightarrow> 'g network \<Rightarrow> 'g network" where
  "schedule w h st = st\<lparr>nt_pending := pq_push (w, h) (nt_pending st)\<rparr>"

definition steady_now :: "(nat \<Rightarrow> time_point) \<Rightarrow> 'g network \<Rightarrow> time_point \<times> 'g network" where
  "steady_now wall st = (wall (nt_ticks st), st\<lparr>nt_ticks := Suc (nt_ticks st)\<rparr>)"

definition stop_requested :: "(nat \<Rightarrow> bool) \<Rightarrow> 'g network \<Rightarrow> bool \<times> 'g network" where
  "stop_requested stop st = (stop (nt_loads st), st\<lparr>nt_loads := Suc (nt_loads st)\<rparr>)"

definition kInterPacketDelay :: time_point where
  "kInterPacketDelay = 1000"

definition await_suspend :: "(nat \<Rightarrow> time_point) \<Rightarrow> time_point \<Rightarrow> coroutine_handle \<Rightarrow> 'g network \<Rightarrow> 'g network" where
  "await_suspend wall delay h st = (let (now, st) = steady_now wall st in schedule (now + delay) h st)"

definition notify_shards :: "ShardedPipeline \<Rightarrow> ShardedPipeline" where
  "notify_shards sp = sp\<lparr>sp_shards := map (\<lambda>s. s\<lparr>sh_queue := notify_waiters (sh_queue s)\<rparr>) (sp_shards sp)\<rparr>"

definition finish_reading :: "'g network \<Rightarrow> 'g network" where
  "finish_reading st = st\<lparr>nt_producer_done := True, nt_pipeline := notify_shards (nt_pipeline st)\<rparr>"

text \<open>The coroutine from the head of its loop to the next \<open>co_await\<close> or to its end.\<close>

definition read_packets_async :: "'g rng_ops \<Rightarrow> clock \<Rightarrow> (nat \<Rightarrow> time_point) \<Rightarrow> (nat \<Rightarrow> bool) \<Rightarrow> 'g network \<Rightarrow> 'g network option" where
  "read_packets_async R now wall stop st = do {
     let (stopped, st) = stop_requested stop st;
     if stopped then Some (finish_reading st)
     else do {
       (packet, feed) \<leftarrow> next_packet R (nt_feed st);
       let st = st\<lparr>nt_feed := feed\<rparr>;
       if exhausted packet then Some (finish_reading st)
       else do {
         st \<leftarrow> (case bytes packet of
                  None \<Rightarrow> Some st
                | Some b \<Rightarrow> do {
                    let (received, st) = steady_now wall st;
                    (_, sp) \<leftarrow> demux now b received (nt_pipeline st);
                    Some (st\<lparr>nt_pipeline := sp\<rparr>) });
         Some (await_suspend wall kInterPacketDelay Read_packets_async st) } } }"

fun resume :: "'g rng_ops \<Rightarrow> clock \<Rightarrow> (nat \<Rightarrow> time_point) \<Rightarrow> (nat \<Rightarrow> bool) \<Rightarrow> coroutine_handle \<Rightarrow> 'g network \<Rightarrow> 'g network option" where
  "resume R now wall stop Read_packets_async st = read_packets_async R now wall stop st"

definition wait_until_due :: "(nat \<Rightarrow> time_point) \<Rightarrow> (nat \<Rightarrow> bool) \<Rightarrow> time_point \<Rightarrow> 'g network \<Rightarrow> 'g network" where
  "wait_until_due wall stop w st =
     (let (stopped, st) = stop_requested stop st
      in if stopped then st
         else let (now, st) = steady_now wall st
              in if w > now then st\<lparr>nt_sleeps := nt_sleeps st @ [w]\<rparr> else st)"

partial_function (option) run_until :: "'g rng_ops \<Rightarrow> clock \<Rightarrow> (nat \<Rightarrow> time_point) \<Rightarrow> (nat \<Rightarrow> bool) \<Rightarrow> 'g network \<Rightarrow> 'g network option" where
  "run_until R now wall stop st =
     (case nt_pending st of
        [] \<Rightarrow> Some st
      | (w, h) # rest \<Rightarrow> do {
          st \<leftarrow> resume R now wall stop h (wait_until_due wall stop w (st\<lparr>nt_pending := rest\<rparr>));
          run_until R now wall stop st })"

definition network_init :: "'g FeedGenerator \<Rightarrow> ShardedPipeline \<Rightarrow> 'g network" where
  "network_init feed sp = \<lparr>nt_feed = feed, nt_pipeline = sp, nt_pending = [], nt_producer_done = False, nt_loads = 0, nt_ticks = 0, nt_sleeps = []\<rparr>"

text \<open>The body of the thread: calling the coroutine runs it to its first suspension, the reactor does the rest.\<close>

definition network_io_thread :: "'g rng_ops \<Rightarrow> clock \<Rightarrow> (nat \<Rightarrow> time_point) \<Rightarrow> (nat \<Rightarrow> bool) \<Rightarrow> 'g FeedGenerator \<Rightarrow> ShardedPipeline \<Rightarrow> 'g network option" where
  "network_io_thread R now wall stop feed sp = do {
     st \<leftarrow> read_packets_async R now wall stop (network_init feed sp);
     run_until R now wall stop st }"

subsection \<open>The plain loop\<close>

text \<open>What the thread is meant to do: demultiplex what arrives, in order, each with the time of its arrival.\<close>

fun demux_packets :: "clock \<Rightarrow> Packet list \<Rightarrow> time_point list \<Rightarrow> ShardedPipeline \<Rightarrow> ShardedPipeline option" where
  "demux_packets now (p # ps) (t # arrivals) sp =
     (case bytes p of
        None \<Rightarrow> demux_packets now ps arrivals sp
      | Some b \<Rightarrow> do { (_, sp) \<leftarrow> demux now b t sp; demux_packets now ps arrivals sp })"
| "demux_packets now _ _ sp = Some sp"

text \<open>The number of packets that are read: all of them, or those before the stop flag was seen at the head of the loop.\<close>

definition packets_read :: "(nat \<Rightarrow> bool) \<Rightarrow> u64 \<Rightarrow> nat \<Rightarrow> bool" where
  "packets_read stop count k \<longleftrightarrow> (\<forall>i < k. \<not> stop (2 * i)) \<and> (k = unat count \<or> k < unat count \<and> stop (2 * k))"

subsection \<open>Execution of the thread\<close>

lemma next_packet_exhausted:
  "unat (message_count (config g)) \<le> unat (emitted_count g) \<Longrightarrow> next_packet R g = Some (\<lparr>exhausted = True, bytes = None\<rparr>, g)"
  by (simp add: next_packet_def word_le_nat_alt)

lemma finish_reading_simps [simp]:
  "nt_pending (finish_reading st) = nt_pending st" "nt_producer_done (finish_reading st)" "nt_feed (finish_reading st) = nt_feed st"
  "nt_pipeline (finish_reading st) = notify_shards (nt_pipeline st)"
  by (simp_all add: finish_reading_def)

lemma run_until_idle: "nt_pending st = [] \<Longrightarrow> run_until R now wall stop st = Some st"
  by (subst run_until.simps) simp

text \<open>One turn of the coroutine that ends in a suspension, and the reactor's part up to the next turn.\<close>

lemma read_packet_turn:
  assumes "\<not> stop (nt_loads st)" "next_packet R (nt_feed st) = Some (p, feed)" "\<not> exhausted p" "nt_pending st = []" "sp_ok (nt_pipeline st)"
  obtains st' t sp where "read_packets_async R now wall stop st \<bind> run_until R now wall stop =
      read_packets_async R now wall stop st' \<bind> run_until R now wall stop"
    "nt_feed st' = feed" "nt_pipeline st' = sp" "nt_pending st' = []" "nt_loads st' = nt_loads st + 2"
    "demux_packets now [p] [t] (nt_pipeline st) = Some sp" "sp_ok sp"
proof -
  let ?st = "st\<lparr>nt_loads := Suc (nt_loads st), nt_feed := feed\<rparr>"
  obtain st1 sp where st1: "(case bytes p of None \<Rightarrow> Some ?st
      | Some b \<Rightarrow> do { let (received, st) = steady_now wall ?st; (_, sp) \<leftarrow> demux now b received (nt_pipeline st);
          Some (st\<lparr>nt_pipeline := sp\<rparr>) }) = Some st1"
    "nt_feed st1 = feed" "nt_pipeline st1 = sp" "nt_pending st1 = []" "nt_loads st1 = Suc (nt_loads st)"
    "demux_packets now [p] [wall (nt_ticks st)] (nt_pipeline st) = Some sp" "sp_ok sp"
  proof (cases "bytes p")
    case None
    then show thesis using that [of ?st "nt_pipeline st"] assms(4,5) by simp
  next
    case (Some b)
    obtain r sp where d: "demux now b (wall (nt_ticks st)) (nt_pipeline st) = Some (r, sp)" "sp_ok sp"
      using demux_effect [OF assms(5), of now b "wall (nt_ticks st)"] by metis
    then show thesis
      using that [of "?st\<lparr>nt_ticks := Suc (nt_ticks st), nt_pipeline := sp\<rparr>" sp] Some assms(4) by (simp add: steady_now_def)
  qed
  let ?st2 = "await_suspend wall kInterPacketDelay Read_packets_async st1"
  let ?w = "wall (nt_ticks st1) + kInterPacketDelay"
  let ?st3 = "wait_until_due wall stop ?w (?st2\<lparr>nt_pending := []\<rparr>)"
  have st2: "nt_pending ?st2 = [(?w, Read_packets_async)]"
    using st1(4) by (simp add: await_suspend_def steady_now_def schedule_def)
  have "read_packets_async R now wall stop st = Some ?st2"
    using assms(1-3) st1(1) by (simp add: read_packets_async_def stop_requested_def)
  moreover have "run_until R now wall stop ?st2 = read_packets_async R now wall stop ?st3 \<bind> run_until R now wall stop"
    by (subst run_until.simps) (simp add: st2)
  moreover have "nt_feed ?st3 = feed" "nt_pipeline ?st3 = sp" "nt_pending ?st3 = []" "nt_loads ?st3 = nt_loads st + 2"
    using st1(2-5) by (simp_all add: wait_until_due_def stop_requested_def steady_now_def await_suspend_def schedule_def Let_def)
  ultimately show thesis using that [of ?st3 sp "wall (nt_ticks st)"] st1(6,7) by simp
qed

lemma demux_packets_Cons:
  "demux_packets now [p] [t] sp = Some sp1 \<Longrightarrow> demux_packets now (p # ps) (t # arrivals) sp = demux_packets now ps arrivals sp1"
  by (auto split: option.splits bind_splits)

lemma network_from_head:
  assumes R: "rng_ok R" and cfg: "config_ok cfg" and count: "unat (message_count cfg) < 2 ^ 64 - 1"
    and inv: "feed_inv cfg ms ts (nt_feed st)" "unat (emitted_count (nt_feed st)) = length ms" "length ms \<le> unat (message_count cfg)"
    and st: "sp_ok (nt_pipeline st)" "nt_pending st = []" "nt_loads st = 2 * length ms"
  shows "\<exists>st' n ps arrivals sp'. read_packets_async R now wall stop st \<bind> run_until R now wall stop = Some st' \<and>
    feed_run R n (nt_feed st) = Some (ps, nt_feed st') \<and>
    (\<forall>j < n. \<not> stop (2 * (length ms + j))) \<and>
    (length ms + n = unat (message_count cfg) \<or> length ms + n < unat (message_count cfg) \<and> stop (2 * (length ms + n))) \<and>
    length arrivals = n \<and> demux_packets now ps arrivals (nt_pipeline st) = Some sp' \<and>
    nt_pipeline st' = notify_shards sp' \<and> nt_pending st' = [] \<and> nt_producer_done st'"
  using inv st
proof (induction "unat (message_count cfg) - length ms" arbitrary: ms ts st)
  case 0
  have "config (nt_feed st) = cfg" using 0 by (simp add: feed_inv_def)
  then have "next_packet R (nt_feed st) = Some (\<lparr>exhausted = True, bytes = None\<rparr>, nt_feed st)"
    using 0 by (intro next_packet_exhausted) simp
  then have "\<exists>st'. read_packets_async R now wall stop st \<bind> run_until R now wall stop = Some st' \<and> nt_feed st' = nt_feed st \<and>
      nt_pipeline st' = notify_shards (nt_pipeline st) \<and> nt_pending st' = [] \<and> nt_producer_done st'"
    using 0 by (simp add: read_packets_async_def stop_requested_def run_until_idle)
  then show ?case using 0 by (auto intro!: exI [of _ 0] exI [of _ "[]"])
next
  case (Suc x)
  show ?case
  proof (cases "stop (nt_loads st)")
    case True
    then have "\<exists>st'. read_packets_async R now wall stop st \<bind> run_until R now wall stop = Some st' \<and> nt_feed st' = nt_feed st \<and>
        nt_pipeline st' = notify_shards (nt_pipeline st) \<and> nt_pending st' = [] \<and> nt_producer_done st'"
      using Suc.prems by (simp add: read_packets_async_def stop_requested_def run_until_idle)
    moreover have "length ms < unat (message_count cfg)" using Suc.hyps(2) by linarith
    ultimately show ?thesis using True Suc.prems(6) by (auto intro!: exI [of _ 0] exI [of _ "[]"])
  next
    case False
    have more: "length ms < unat (message_count cfg)" using Suc.hyps(2) by linarith
    obtain p feed m t where p: "next_packet R (nt_feed st) = Some (p, feed)" and inv': "feed_inv cfg (ms @ [m]) (ts @ [t]) feed"
      and c: "carries cfg p m" and e: "unat (emitted_count feed) = Suc (length ms)"
      using next_packet_step [OF R cfg Suc.prems(1,2) more] more count by auto
    have live: "\<not> exhausted p" using c by (simp add: carries_def)
    obtain st1 at1 sp1 where turn: "read_packets_async R now wall stop st \<bind> run_until R now wall stop =
        read_packets_async R now wall stop st1 \<bind> run_until R now wall stop"
      and st1: "nt_feed st1 = feed" "nt_pipeline st1 = sp1" "nt_pending st1 = []" "nt_loads st1 = nt_loads st + 2"
      and d1: "demux_packets now [p] [at1] (nt_pipeline st) = Some sp1" "sp_ok sp1"
      using read_packet_turn [of stop st R p feed now wall] False p live Suc.prems(4,5) by metis
    have x: "x = unat (message_count cfg) - length (ms @ [m])" "length (ms @ [m]) \<le> unat (message_count cfg)"
      using Suc.hyps(2) more by simp_all
    obtain st' n ps arrivals sp' where run: "read_packets_async R now wall stop st1 \<bind> run_until R now wall stop = Some st'"
      and ps: "feed_run R n feed = Some (ps, nt_feed st')"
      and k: "\<forall>j < n. \<not> stop (2 * (length (ms @ [m]) + j))"
        "length (ms @ [m]) + n = unat (message_count cfg) \<or> length (ms @ [m]) + n < unat (message_count cfg) \<and> stop (2 * (length (ms @ [m]) + n))"
      and d: "length arrivals = n" "demux_packets now ps arrivals sp1 = Some sp'"
      and fin: "nt_pipeline st' = notify_shards sp'" "nt_pending st' = []" "nt_producer_done st'"
      using Suc.hyps(1) [OF x(1), of "ts @ [t]" st1] x(2) inv' e st1 d1(2) Suc.prems(6) by auto
    have "feed_run R (Suc n) (nt_feed st) = Some (p # ps, nt_feed st')" using p ps by simp
    moreover have "\<forall>j < Suc n. \<not> stop (2 * (length ms + j))"
      using k(1) False Suc.prems(6) by (auto simp: less_Suc_eq_0_disj)
    moreover have "demux_packets now (p # ps) (at1 # arrivals) (nt_pipeline st) = Some sp'"
      unfolding demux_packets_Cons [OF d1(1)] by (rule d(2))
    moreover have "length (at1 # arrivals) = Suc n" using d(1) by simp
    moreover have "length ms + Suc n = unat (message_count cfg) \<or>
        length ms + Suc n < unat (message_count cfg) \<and> stop (2 * (length ms + Suc n))" using k(2) by simp
    ultimately show ?thesis using turn run fin by metis
  qed
qed

text \<open>
  C15. The network thread ends for every feed and every behaviour of the stop flag, with nothing left scheduled and \<open>producer_done\<close> set, and the round trips
  through the reactor change nothing: it has read the packets up to the end of the feed or up to the first turn that saw the stop flag,
  and the pipeline is what the plain loop makes of them, with every queue notified at the end.
\<close>

theorem network_thread_equals_plain_loop:
  assumes "rng_ok R" "config_ok cfg" "unat (message_count cfg) < 2 ^ 64 - 1" "sharded_pipeline n = Inr sp"
  shows "\<exists>st k ps arrivals sp'. network_io_thread R now wall stop (feed_generator R cfg) sp = Some st \<and>
    nt_pending st = [] \<and> nt_producer_done st \<and> packets_read stop (message_count cfg) k \<and>
    feed_run R k (feed_generator R cfg) = Some (ps, nt_feed st) \<and> length arrivals = k \<and>
    demux_packets now ps arrivals sp = Some sp' \<and> nt_pipeline st = notify_shards sp'"
proof -
  let ?st = "network_init (feed_generator R cfg) sp"
  have "sp_ok sp" using sharded_pipeline_ok [OF assms(4)] by simp
  then show ?thesis
    using network_from_head [OF assms(1-3), of "[]" "[]" ?st now wall stop] feed_inv_init [of cfg R]
    by (simp add: network_io_thread_def network_init_def feed_generator_def packets_read_def) blast
qed

theorem network_thread_equals_plain_loop_witness:
  "\<exists>st k. network_io_thread (script_rng []) int int (\<lambda>i. i = 6) (feed_generator (script_rng []) demo_config) demo_pipeline = Some st \<and>
     nt_producer_done st \<and> packets_read (\<lambda>i. i = 6) (message_count demo_config) k"
  using network_thread_equals_plain_loop [OF script_rng_ok demo_config_ok _ demo_pipeline_init, of "[]" int int "\<lambda>i. i = 6"]
  by (auto simp: demo_config_def)

end
