(* ===== verification/Pipeline_Runner.thy ===== *)
theory Pipeline_Runner
  imports Thread_Affinity Network_Reader
begin

text \<open>
  The life cycle of \<open>PipelineRunner\<close>, \<open>io/pipeline_runner.hpp\<close> and \<open>io/pipeline_runner.cpp\<close>: construction, sinks, start, stop, join and
  destruction.  The bodies of its threads are modelled in \<open>Network_Reader\<close> and \<open>Stage_Shutdown\<close>; here a \<open>std::thread\<close> is joinable
  while it holds a body.  Parameters: \<open>pin\<close>, the result of \<open>set_thread_affinity_tag\<close>, and \<open>ends\<close>, which bodies come to their end.
\<close>

subsection \<open>Model\<close>

datatype thread_body = Network_io | Decoder nat | Publisher_loop nat

type_synonym std_thread = "thread_body option"

record 'g runner =
  rn_feed :: "'g FeedGenerator"
  rn_pipeline :: ShardedPipeline
  rn_stop_requested :: bool
  network_thread :: std_thread
  shard_threads :: "std_thread list"
  publisher_threads :: "std_thread list"
  delta_sinks :: "DeltaSink list"
  affinity_hints_applied :: u64
  affinity_hints_attempted :: u64
  started :: bool
  joined :: bool
  hints :: "(thread_body \<times> AffinityTag) list"

text \<open>
  What can go wrong: the exception of \<open>vector::at\<close>, a sink that is destroyed while the publisher thread of its shard holds a reference to it (undefined
  behaviour), \<open>std::terminate\<close> when a joinable thread is assigned to or destroyed, and a \<open>join\<close> that never returns.  The field \<open>hints\<close> records the
  affinity requests.
\<close>

datatype runner_error = Sink_out_of_range | Dangling_sink | Terminate | Hang

definition pipeline_runner :: "'g rng_ops \<Rightarrow> Config \<Rightarrow> nat \<Rightarrow> invalid_argument + 'g runner" where
  "pipeline_runner R cfg n =
     (case sharded_pipeline n of
        Inl e \<Rightarrow> Inl e
      | Inr sp \<Rightarrow> Inr \<lparr>rn_feed = feed_generator R cfg, rn_pipeline = sp, rn_stop_requested = False, network_thread = None,
          shard_threads = [], publisher_threads = [], delta_sinks = map (\<lambda>_. NullDeltaSink) (sp_shards sp),
          affinity_hints_applied = 0, affinity_hints_attempted = 0, started = False, joined = False, hints = []\<rparr>)"

definition set_delta_sink :: "nat \<Rightarrow> DeltaSink \<Rightarrow> 'g runner \<Rightarrow> runner_error + 'g runner" where
  "set_delta_sink shard_index sink r =
     (if length (delta_sinks r) \<le> shard_index then Inl Sink_out_of_range
      else if shard_index < length (publisher_threads r) \<and> publisher_threads r ! shard_index \<noteq> None then Inl Dangling_sink
      else Inr (r\<lparr>delta_sinks := (delta_sinks r)[shard_index := sink]\<rparr>))"

text \<open>\<open>++attempted; if (set_thread_affinity_tag(thread, tag)) ++applied;\<close> when affinity is enabled.\<close>

definition affinity_hint :: "(thread_body \<Rightarrow> AffinityTag \<Rightarrow> bool) \<Rightarrow> bool \<Rightarrow> thread_body \<Rightarrow> AffinityTag \<Rightarrow> 'g runner \<Rightarrow> 'g runner" where
  "affinity_hint pin enable_affinity body tag r =
     (if enable_affinity then
        r\<lparr>affinity_hints_attempted := affinity_hints_attempted r + 1,
          affinity_hints_applied := (if pin body tag then affinity_hints_applied r + 1 else affinity_hints_applied r),
          hints := hints r @ [(body, tag)]\<rparr>
      else r)"

function start_loop :: "(thread_body \<Rightarrow> AffinityTag \<Rightarrow> bool) \<Rightarrow> bool \<Rightarrow> nat \<Rightarrow> nat \<Rightarrow> 'g runner \<Rightarrow> 'g runner" where
  "start_loop pin enable_affinity i n r =
     (if i < n then
        (let r = r\<lparr>shard_threads := shard_threads r @ [Some (Decoder i)]\<rparr>;
             r = affinity_hint pin enable_affinity (Decoder i) (shard_tag i) r;
             r = r\<lparr>publisher_threads := publisher_threads r @ [Some (Publisher_loop i)]\<rparr>;
             r = affinity_hint pin enable_affinity (Publisher_loop i) (shard_tag i) r
         in start_loop pin enable_affinity (i + 1) n r)
      else r)"
  by pat_completeness auto
termination
  by (relation "measure (\<lambda>(pin, e, i, n, r). n - i)") auto

declare start_loop.simps [simp del]

text \<open>Assigning to \<open>network_io_thread_\<close> terminates the program when it is still joinable.\<close>

definition start :: "(thread_body \<Rightarrow> AffinityTag \<Rightarrow> bool) \<Rightarrow> bool \<Rightarrow> 'g runner \<Rightarrow> runner_error + 'g runner" where
  "start pin enable_affinity r =
     (let r = r\<lparr>started := True\<rparr>
      in if network_thread r \<noteq> None then Inl Terminate
         else
           let r = r\<lparr>network_thread := Some Network_io\<rparr>;
               r = affinity_hint pin enable_affinity Network_io kNetworkIoAffinityTag r
           in Inr (start_loop pin enable_affinity 0 (length (sp_shards (rn_pipeline r))) r))"

definition threads :: "'g runner \<Rightarrow> std_thread list" where
  "threads r = network_thread r # shard_threads r @ publisher_threads r"

definition join :: "(thread_body \<Rightarrow> bool) \<Rightarrow> 'g runner \<Rightarrow> runner_error + 'g runner" where
  "join ends r =
     (if joined r then Inr r
      else if list_all (\<lambda>t. case t of None \<Rightarrow> True | Some body \<Rightarrow> ends body) (threads r) then
        Inr (r\<lparr>network_thread := None, shard_threads := map (\<lambda>_. None) (shard_threads r),
               publisher_threads := map (\<lambda>_. None) (publisher_threads r), joined := True\<rparr>)
      else Inl Hang)"

definition stop :: "(thread_body \<Rightarrow> bool) \<Rightarrow> 'g runner \<Rightarrow> runner_error + 'g runner" where
  "stop ends r = join ends (r\<lparr>rn_stop_requested := True\<rparr>)"

text \<open>The destructor and the destruction of the members, which terminates the program when a thread is still joinable.\<close>

definition destroy :: "(thread_body \<Rightarrow> bool) \<Rightarrow> 'g runner \<Rightarrow> runner_error + unit" where
  "destroy ends r =
     (case (if started r \<and> \<not> joined r then stop ends r else Inr r) of
        Inl e \<Rightarrow> Inl e
      | Inr r \<Rightarrow> if list_all (\<lambda>t. t = None) (threads r) then Inr () else Inl Terminate)"

subsection \<open>Clients\<close>

datatype runner_call = Set_delta_sink nat DeltaSink | Start bool | Stop | Join

fun call :: "(thread_body \<Rightarrow> AffinityTag \<Rightarrow> bool) \<Rightarrow> (thread_body \<Rightarrow> bool) \<Rightarrow> runner_call \<Rightarrow> 'g runner \<Rightarrow> runner_error + 'g runner" where
  "call pin ends (Set_delta_sink i sink) r = set_delta_sink i sink r"
| "call pin ends (Start enable_affinity) r = start pin enable_affinity r"
| "call pin ends Stop r = stop ends r"
| "call pin ends Join r = join ends r"

fun calls :: "(thread_body \<Rightarrow> AffinityTag \<Rightarrow> bool) \<Rightarrow> (thread_body \<Rightarrow> bool) \<Rightarrow> runner_call list \<Rightarrow> 'g runner \<Rightarrow> runner_error + 'g runner" where
  "calls pin ends [] r = Inr r"
| "calls pin ends (c # cs) r = (case call pin ends c r of Inl e \<Rightarrow> Inl e | Inr r \<Rightarrow> calls pin ends cs r)"

subsection \<open>Start\<close>

lemma affinity_hint_frame [simp]:
  "rn_pipeline (affinity_hint pin e b t r) = rn_pipeline r" "network_thread (affinity_hint pin e b t r) = network_thread r"
  "shard_threads (affinity_hint pin e b t r) = shard_threads r" "publisher_threads (affinity_hint pin e b t r) = publisher_threads r"
  "started (affinity_hint pin e b t r) = started r" "joined (affinity_hint pin e b t r) = joined r"
  "delta_sinks (affinity_hint pin e b t r) = delta_sinks r"
  "hints (affinity_hint pin e b t r) = hints r @ (if e then [(b, t)] else [])"
  by (simp_all add: affinity_hint_def)

text \<open>The counters agree with the recorded requests.\<close>

definition counters_ok :: "(thread_body \<Rightarrow> AffinityTag \<Rightarrow> bool) \<Rightarrow> 'g runner \<Rightarrow> bool" where
  "counters_ok pin r \<longleftrightarrow> affinity_hints_attempted r = of_nat (length (hints r)) \<and>
     affinity_hints_applied r = of_nat (length (filter (\<lambda>(b, t). pin b t) (hints r)))"

lemma affinity_hint_counters: "counters_ok pin r \<Longrightarrow> counters_ok pin (affinity_hint pin e b t r)"
  by (simp add: counters_ok_def affinity_hint_def add.commute)

definition shard_hints :: "nat \<Rightarrow> nat \<Rightarrow> (thread_body \<times> AffinityTag) list" where
  "shard_hints i n = concat (map (\<lambda>k. [(Decoder k, shard_tag k), (Publisher_loop k, shard_tag k)]) [i..<n])"

lemma counters_ok_frame [simp]:
  "counters_ok pin (r\<lparr>shard_threads := xs\<rparr>) = counters_ok pin r" "counters_ok pin (r\<lparr>publisher_threads := xs\<rparr>) = counters_ok pin r"
  "counters_ok pin (r\<lparr>network_thread := x\<rparr>) = counters_ok pin r" "counters_ok pin (r\<lparr>started := b\<rparr>) = counters_ok pin r"
  "counters_ok pin (r\<lparr>joined := b\<rparr>) = counters_ok pin r" "counters_ok pin (r\<lparr>delta_sinks := ds\<rparr>) = counters_ok pin r"
  "counters_ok pin (r\<lparr>rn_stop_requested := b\<rparr>) = counters_ok pin r"
  by (simp_all add: counters_ok_def)

lemma start_loop_effect:
  "counters_ok pin r \<Longrightarrow>
   counters_ok pin (start_loop pin e i n r) \<and> delta_sinks (start_loop pin e i n r) = delta_sinks r \<and>
   network_thread (start_loop pin e i n r) = network_thread r \<and> joined (start_loop pin e i n r) = joined r \<and>
   started (start_loop pin e i n r) = started r \<and>
   shard_threads (start_loop pin e i n r) = shard_threads r @ map (Some \<circ> Decoder) [i..<n] \<and>
   publisher_threads (start_loop pin e i n r) = publisher_threads r @ map (Some \<circ> Publisher_loop) [i..<n] \<and>
   hints (start_loop pin e i n r) = hints r @ (if e then shard_hints i n else [])"
proof (induction pin e i n r rule: start_loop.induct)
  case (1 pin e i n r)
  show ?case
  proof (cases "i < n")
    case True
    then show ?thesis
      using "1.IH" [OF True refl refl refl refl] "1.prems"
      by (simp add: start_loop.simps [of pin e i] affinity_hint_counters upt_conv_Cons shard_hints_def Let_def)
  next
    case False
    then show ?thesis using "1.prems" by (simp add: start_loop.simps [of pin e i] shard_hints_def)
  qed
qed

subsection \<open>The life cycle\<close>

definition before_start :: "nat \<Rightarrow> 'g runner \<Rightarrow> bool" where
  "before_start n r \<longleftrightarrow> length (sp_shards (rn_pipeline r)) = n \<and> length (delta_sinks r) = n \<and> \<not> started r \<and> \<not> joined r \<and>
     network_thread r = None \<and> shard_threads r = [] \<and> publisher_threads r = [] \<and> hints r = [] \<and>
     affinity_hints_attempted r = 0 \<and> affinity_hints_applied r = 0"

text \<open>The bodies of the threads of a runner with \<open>n\<close> shards.\<close>

definition bodies :: "nat \<Rightarrow> thread_body list" where
  "bodies n = Network_io # map Decoder [0..<n] @ map Publisher_loop [0..<n]"

definition after_start :: "(thread_body \<Rightarrow> AffinityTag \<Rightarrow> bool) \<Rightarrow> nat \<Rightarrow> (thread_body \<times> AffinityTag) list \<Rightarrow> 'g runner \<Rightarrow> bool" where
  "after_start pin n hs r \<longleftrightarrow> length (delta_sinks r) = n \<and> started r \<and> hints r = hs \<and> counters_ok pin r \<and>
     (if joined r then list_all (\<lambda>t. t = None) (threads r) else threads r = map Some (bodies n))"

lemma runner_init: "pipeline_runner R cfg n = Inr r \<Longrightarrow> before_start n r"
  by (auto simp: pipeline_runner_def before_start_def sharded_pipeline_def split: sum.splits if_splits)

lemma before_start_sinks:
  "before_start n r \<Longrightarrow> \<forall>c \<in> set cs. \<exists>i sink. c = Set_delta_sink i sink \<and> i < n \<Longrightarrow>
    \<exists>r'. calls pin ends cs r = Inr r' \<and> before_start n r'"
proof (induction cs arbitrary: r)
  case (Cons c cs)
  obtain i sink where c: "c = Set_delta_sink i sink" "i < n" using Cons.prems(2) by auto
  have "before_start n (r\<lparr>delta_sinks := (delta_sinks r)[i := sink]\<rparr>)" using Cons.prems(1) by (simp add: before_start_def)
  then show ?case using Cons c by (auto simp: set_delta_sink_def before_start_def)
qed simp

lemma start_effect:
  assumes "before_start n r"
  shows "\<exists>r'. start pin e r = Inr r' \<and> after_start pin n (if e then (Network_io, kNetworkIoAffinityTag) # shard_hints 0 n else []) r' \<and>
    \<not> joined r' \<and> publisher_threads r' = map (Some \<circ> Publisher_loop) [0..<n]"
proof -
  let ?r = "affinity_hint pin e Network_io kNetworkIoAffinityTag (r\<lparr>started := True, network_thread := Some Network_io\<rparr>)"
  have "counters_ok pin ?r" using assms by (intro affinity_hint_counters) (simp add: counters_ok_def before_start_def)
  from start_loop_effect [OF this, of e 0 n] show ?thesis
    using assms by (simp add: start_def before_start_def after_start_def threads_def bodies_def Let_def)
qed

lemma threads_stop [simp]: "threads (r\<lparr>rn_stop_requested := b\<rparr>) = threads r"
  by (simp add: threads_def)

lemma join_effect:
  assumes "after_start pin n hs r" "list_all ends (bodies n)"
  shows "\<exists>r'. join ends r = Inr r' \<and> after_start pin n hs r' \<and> joined r'"
proof (cases "joined r")
  case False
  then have "threads r = map Some (bodies n)" using assms(1) by (simp add: after_start_def)
  then have "list_all (\<lambda>t. case t of None \<Rightarrow> True | Some body \<Rightarrow> ends body) (threads r)" using assms(2) by (simp add: list_all_iff)
  then have "join ends r = Inr (r\<lparr>network_thread := None, shard_threads := map (\<lambda>_. None) (shard_threads r),
      publisher_threads := map (\<lambda>_. None) (publisher_threads r), joined := True\<rparr>)" (is "_ = Inr ?r") using False by (simp add: join_def)
  moreover have "list_all (\<lambda>t. t = None) (threads ?r)" by (auto simp: threads_def list_all_iff)
  then have "after_start pin n hs ?r" using assms(1) by (simp add: after_start_def)
  ultimately show ?thesis by simp
qed (use assms(1) in \<open>simp add: join_def\<close>)

lemma stop_effect:
  assumes "after_start pin n hs r" "list_all ends (bodies n)"
  shows "\<exists>r'. stop ends r = Inr r' \<and> after_start pin n hs r' \<and> joined r'"
proof -
  have "after_start pin n hs (r\<lparr>rn_stop_requested := True\<rparr>)" using assms(1) by (simp add: after_start_def)
  then show ?thesis unfolding stop_def by (rule join_effect [OF _ assms(2)])
qed

lemma stop_hangs:
  assumes "after_start pin n hs r" "\<not> joined r" "\<not> list_all ends (bodies n)"
  shows "stop ends r = Inl Hang" "join ends r = Inl Hang"
  using assms by (auto simp: stop_def join_def after_start_def list_all_iff)

lemma after_start_calls:
  assumes "after_start pin n hs r" "list_all ends (bodies n)" "\<forall>c \<in> set cs. c = Stop \<or> c = Join"
  shows "\<exists>r'. calls pin ends cs r = Inr r' \<and> after_start pin n hs r'"
  using assms(1,3)
proof (induction cs arbitrary: r)
  case (Cons c cs)
  have "\<exists>r'. call pin ends c r = Inr r' \<and> after_start pin n hs r'"
    using Cons.prems stop_effect [OF Cons.prems(1) assms(2)] join_effect [OF Cons.prems(1) assms(2)] by (cases c) auto
  then show ?case using Cons.IH Cons.prems(2) by auto
qed simp

lemma calls_append: "calls pin ends (cs @ ds) r = (case calls pin ends cs r of Inl e \<Rightarrow> Inl e | Inr r \<Rightarrow> calls pin ends ds r)"
  by (induction cs arbitrary: r) (auto split: sum.splits)

lemma length_shard_hints: "length (shard_hints 0 n) = 2 * n"
  by (induction n) (simp_all add: shard_hints_def)

text \<open>
  C35. The life of a runner whose sinks are installed before it is started, as the header asks for.  If the bodies of its threads come to their end, it can be stopped
  and joined any number of times, or not at all, and is destroyed without leaving a thread behind; affinity hints were attempted for the network thread
  and the two threads of every shard, those of a shard with the same tag, or for none, and the counters are exact.  If one of the bodies does not come to its end,
  stopping and joining hang.  A sink installed after the start, while the publisher thread of its shard is not joined, destroys the one that the thread writes to.
\<close>

theorem runner_lifecycle:
  assumes "pipeline_runner R cfg n = Inr r0"
    and "\<forall>c \<in> set before. \<exists>i sink. c = Set_delta_sink i sink \<and> i < n"
    and "\<forall>c \<in> set after. c = Stop \<or> c = Join"
  shows "(list_all ends (bodies n) \<longrightarrow>
      (\<exists>r. calls pin ends (before @ Start enable # after) r0 = Inr r \<and> destroy ends r = Inr () \<and>
        hints r = (if enable then (Network_io, kNetworkIoAffinityTag) # shard_hints 0 n else []) \<and>
        affinity_hints_attempted r = (if enable then of_nat (2 * n + 1) else 0) \<and>
        affinity_hints_applied r = of_nat (length (filter (\<lambda>(b, t). pin b t) (hints r))))) \<and>
    (\<not> list_all ends (bodies n) \<longrightarrow> (\<forall>c \<in> {Stop, Join}. calls pin ends (before @ [Start enable, c]) r0 = Inl Hang)) \<and>
    (\<forall>i < n. calls pin ends (before @ [Start enable, Set_delta_sink i sink]) r0 = Inl Dangling_sink)"
proof -
  let ?hs = "if enable then (Network_io, kNetworkIoAffinityTag) # shard_hints 0 n else []"
  obtain r1 where r1: "calls pin ends before r0 = Inr r1" "before_start n r1"
    using before_start_sinks [OF runner_init [OF assms(1)] assms(2)] by blast
  obtain r2 where r2: "start pin enable r1 = Inr r2" "after_start pin n ?hs r2" "\<not> joined r2" "publisher_threads r2 = map (Some \<circ> Publisher_loop) [0..<n]"
    using start_effect [OF r1(2)] by blast
  have "\<exists>r. calls pin ends (before @ Start enable # after) r0 = Inr r \<and> destroy ends r = Inr () \<and> after_start pin n ?hs r" if ends: "list_all ends (bodies n)"
  proof -
    obtain r where r: "calls pin ends after r2 = Inr r" "after_start pin n ?hs r" using after_start_calls [OF r2(2) ends assms(3)] by blast
    have "destroy ends r = Inr ()" using r(2) stop_effect [OF r(2) ends] by (cases "joined r") (auto simp: destroy_def after_start_def)
    then show ?thesis using r1(1) r2(1) r by (auto simp: calls_append)
  qed
  moreover have "\<forall>i < n. calls pin ends (before @ [Start enable, Set_delta_sink i sink]) r0 = Inl Dangling_sink"
    using r1(1) r2 by (auto simp: calls_append set_delta_sink_def after_start_def)
  moreover have "\<forall>c \<in> {Stop, Join}. calls pin ends (before @ [Start enable, c]) r0 = Inl Hang" if "\<not> list_all ends (bodies n)"
    using r1(1) r2(1) stop_hangs [OF r2(2,3) that] by (simp add: calls_append)
  ultimately show ?thesis by (fastforce simp: after_start_def counters_ok_def length_shard_hints)
qed

lemma demo_runner: "\<exists>r0. pipeline_runner (script_rng []) demo_config 1 = Inr r0"
  using demo_pipeline_init by (simp add: pipeline_runner_def)

theorem runner_lifecycle_witness:
  "\<exists>r0 r. pipeline_runner (script_rng []) demo_config 1 = Inr r0 \<and>
     calls (\<lambda>_ _. False) (\<lambda>_. True) [Set_delta_sink 0 NullDeltaSink, Start True, Stop, Join] r0 = Inr r \<and>
     destroy (\<lambda>_. True) r = Inr () \<and> affinity_hints_attempted r = 3 \<and> affinity_hints_applied r = 0"
proof -
  obtain r0 where r0: "pipeline_runner (script_rng []) demo_config 1 = Inr r0" using demo_runner by blast
  have "list_all (\<lambda>_. True) (bodies 1)" by (simp add: list_all_iff)
  then have "\<exists>r. calls (\<lambda>_ _. False) (\<lambda>_. True) ([Set_delta_sink 0 NullDeltaSink] @ Start True # [Stop, Join]) r0 = Inr r \<and>
     destroy (\<lambda>_. True) r = Inr () \<and> affinity_hints_attempted r = 3 \<and> affinity_hints_applied r = 0"
    using runner_lifecycle [OF r0, of "[Set_delta_sink 0 NullDeltaSink]" "[Stop, Join]" "\<lambda>_. True" "\<lambda>_ _. False" True] by auto
  then show ?thesis using r0 by auto
qed

text \<open>
  Joining (or stopping) a runner before it is started makes the later \<open>join\<close> and the destructor believe that everything was joined: the threads that
  \<open>start\<close> then creates are still joinable when the runner is destroyed, and the program is terminated.
\<close>

theorem join_before_start_terminates:
  assumes "pipeline_runner R cfg n = Inr r0"
  shows "\<exists>r. calls pin (\<lambda>_. True) [Join, Start enable, Join] r0 = Inr r \<and> destroy (\<lambda>_. True) r = Inl Terminate"
proof -
  have b: "before_start n r0" using runner_init [OF assms] .
  let ?r1 = "r0\<lparr>joined := True\<rparr>"
  have j: "join (\<lambda>_. True) r0 = Inr ?r1" using b by (simp add: join_def before_start_def threads_def)
  let ?r = "affinity_hint pin enable Network_io kNetworkIoAffinityTag (?r1\<lparr>started := True, network_thread := Some Network_io\<rparr>)"
  have "counters_ok pin ?r" using b by (intro affinity_hint_counters) (simp add: counters_ok_def before_start_def)
  from start_loop_effect [OF this, of enable 0 n]
  obtain r2 where r2: "start pin enable ?r1 = Inr r2" "joined r2" "network_thread r2 = Some Network_io"
    using b by (simp add: start_def before_start_def Let_def)
  then have "destroy (\<lambda>_. True) r2 = Inl Terminate" by (simp add: destroy_def threads_def)
  then show ?thesis using j r2 by (simp add: join_def)
qed

theorem join_before_start_terminates_witness:
  "\<exists>r0 r. pipeline_runner (script_rng []) demo_config 1 = Inr r0 \<and>
     calls (\<lambda>_ _. True) (\<lambda>_. True) [Join, Start True, Join] r0 = Inr r \<and> destroy (\<lambda>_. True) r = Inl Terminate"
  using demo_runner join_before_start_terminates [of "script_rng []" demo_config 1 _ "\<lambda>_ _. True" True] by blast

end
