(* ===== verification/Pipeline_Threads.thy ===== *)
theory Pipeline_Threads
  imports Stage_Shutdown Pipeline_Runner
begin

text \<open>
  The threads that \<open>PipelineRunner::start\<close> creates, running together: the network thread, and a decoder and a publisher thread per
  shard.  A step of a thread is one operation of its body on the shared state (one turn of the network loop, one iteration of
  \<open>process_shard\<close> or \<open>drain_publisher_queue\<close>, one load or store of a flag, one notification), and a schedule is any sequence of steps
  and of stop requests.  The program points of the two loops are those of \<open>Stage_Shutdown\<close>; \<open>wait_for_data\<close> may return at any moment
  here, which includes every moment at which it does.
\<close>

subsection \<open>Model\<close>

datatype network_pc = N_loop | N_store | N_notify nat | N_end

datatype decoder_pc = D_loop stage_pc | D_store | D_notify | D_end

record 'g machine =
  mc_feed :: "'g FeedGenerator"
  mc_system :: system
  mc_stop :: bool
  mc_network :: network_pc
  mc_producer_done :: bool
  mc_decoders :: "decoder_pc list"
  mc_decoder_done :: "bool list"
  mc_publishers :: "stage_pc list"
  mc_sinks :: "(DeltaSink \<times> nat) list"
  mc_packets :: "Packet list"

text \<open>The state in which the threads of a started runner begin.  \<open>mc_packets\<close> records the packets read.\<close>

definition machine_init :: "'g runner \<Rightarrow> 'g machine" where
  "machine_init r = \<lparr>mc_feed = rn_feed r, mc_system = system_init (rn_pipeline r), mc_stop = rn_stop_requested r,
     mc_network = N_loop, mc_producer_done = False, mc_decoders = map (\<lambda>_. D_loop (S_drain False)) (shard_threads r),
     mc_decoder_done = map (\<lambda>_. False) (sp_shards (rn_pipeline r)), mc_publishers = map (\<lambda>_. S_drain False) (publisher_threads r),
     mc_sinks = map (\<lambda>sink. (sink, 0)) (delta_sinks r), mc_packets = []\<rparr>"

definition notify_input :: "nat \<Rightarrow> system \<Rightarrow> system" where
  "notify_input i S = S\<lparr>pipeline := (pipeline S)\<lparr>sp_shards :=
     (sp_shards (pipeline S))[i := (shard_at S i)\<lparr>sh_queue := notify_waiters (sh_queue (shard_at S i))\<rparr>]\<rparr>\<rparr>"

definition notify_output :: "nat \<Rightarrow> system \<Rightarrow> system" where
  "notify_output i S = S\<lparr>pipeline := (pipeline S)\<lparr>sp_shards :=
     (sp_shards (pipeline S))[i := (shard_at S i)\<lparr>sh_output_queue := notify_waiters (sh_output_queue (shard_at S i))\<rparr>]\<rparr>\<rparr>"

text \<open>The network thread: \<open>read_packets_async\<close> from one head of its loop to the next, then its end.\<close>

definition network_step :: "'g rng_ops \<Rightarrow> clock \<Rightarrow> time_point \<Rightarrow> 'g machine \<Rightarrow> 'g machine option" where
  "network_step R now t M =
     (case mc_network M of
        N_loop \<Rightarrow>
          (if mc_stop M then Some (M\<lparr>mc_network := N_store\<rparr>)
           else do {
             (packet, feed) \<leftarrow> next_packet R (mc_feed M);
             let M = M\<lparr>mc_feed := feed\<rparr>;
             if exhausted packet then Some (M\<lparr>mc_network := N_store\<rparr>)
             else do {
               let M = M\<lparr>mc_packets := mc_packets M @ [packet]\<rparr>;
               case bytes packet of
                 None \<Rightarrow> Some M
               | Some b \<Rightarrow> do { S \<leftarrow> system_step now (Demux b t) (mc_system M); Some (M\<lparr>mc_system := S\<rparr>) } } })
      | N_store \<Rightarrow> Some (M\<lparr>mc_producer_done := True, mc_network := N_notify 0\<rparr>)
      | N_notify i \<Rightarrow>
          (if i < num_shards (mc_system M) then Some (M\<lparr>mc_system := notify_input i (mc_system M), mc_network := N_notify (i + 1)\<rparr>)
           else Some (M\<lparr>mc_network := N_end\<rparr>))
      | N_end \<Rightarrow> Some M)"

text \<open>The common shape of the two loops: does this point take an element, and where does the loop go from it?\<close>

fun takes :: "stage_pc \<Rightarrow> bool" where
  "takes (S_drain _) \<longleftrightarrow> True"
| "takes (S_final _) \<longleftrightarrow> True"
| "takes _ \<longleftrightarrow> False"

fun loop_next :: "bool \<Rightarrow> bool \<Rightarrow> stage_pc \<Rightarrow> stage_pc" where
  "loop_next took done (S_drain did_work) = (if took then S_drain True else if did_work then S_drain False else S_check)"
| "loop_next took done S_check = (if done then S_final False else S_wait)"
| "loop_next took done (S_final did_work) = (if took then S_final True else if did_work then S_drain False else S_exit)"
| "loop_next took done S_wait = S_drain False"
| "loop_next took done S_exit = S_exit"

definition decoder_next :: "stage_pc \<Rightarrow> decoder_pc" where
  "decoder_next pc = (if pc = S_exit then D_store else D_loop pc)"

definition decoder_step :: "clock \<Rightarrow> nat \<Rightarrow> 'g machine \<Rightarrow> 'g machine option" where
  "decoder_step now i M =
     (if length (mc_decoders M) \<le> i then Some M
      else case mc_decoders M ! i of
        D_loop pc \<Rightarrow>
          (if takes pc then do {
             (took, _) \<leftarrow> process_one now i (pipeline (mc_system M));
             S \<leftarrow> system_step now (Process i) (mc_system M);
             Some (M\<lparr>mc_system := S, mc_decoders := (mc_decoders M)[i := decoder_next (loop_next took (mc_producer_done M) pc)]\<rparr>) }
           else Some (M\<lparr>mc_decoders := (mc_decoders M)[i := decoder_next (loop_next False (mc_producer_done M) pc)]\<rparr>))
      | D_store \<Rightarrow> Some (M\<lparr>mc_decoder_done := (mc_decoder_done M)[i := True], mc_decoders := (mc_decoders M)[i := D_notify]\<rparr>)
      | D_notify \<Rightarrow> Some (M\<lparr>mc_system := notify_output i (mc_system M), mc_decoders := (mc_decoders M)[i := D_end]\<rparr>)
      | D_end \<Rightarrow> Some M)"

definition publisher_step :: "clock \<Rightarrow> (nat \<Rightarrow> clock) \<Rightarrow> nat \<Rightarrow> 'g machine \<Rightarrow> 'g machine option" where
  "publisher_step now pub i M =
     (if length (mc_publishers M) \<le> i then Some M
      else
        let pc = mc_publishers M ! i; done = mc_decoder_done M ! i
        in if takes pc then
             (case fst (try_pop (sh_output_queue (shard_at (mc_system M) i))) of
                None \<Rightarrow> Some (M\<lparr>mc_publishers := (mc_publishers M)[i := loop_next False done pc]\<rparr>)
              | Some d \<Rightarrow> do {
                  S \<leftarrow> system_step now (Publish i) (mc_system M);
                  Some (M\<lparr>mc_system := S, mc_sinks := (mc_sinks M)[i := publish (pub i) d (mc_sinks M ! i)],
                          mc_publishers := (mc_publishers M)[i := loop_next True done pc]\<rparr>) })
           else Some (M\<lparr>mc_publishers := (mc_publishers M)[i := loop_next False done pc]\<rparr>))"

datatype thread_event = Stop_request | Network_runs time_point | Decoder_runs nat | Publisher_runs nat

fun machine_step :: "'g rng_ops \<Rightarrow> clock \<Rightarrow> (nat \<Rightarrow> clock) \<Rightarrow> thread_event \<Rightarrow> 'g machine \<Rightarrow> 'g machine option" where
  "machine_step R now pub Stop_request M = Some (M\<lparr>mc_stop := True\<rparr>)"
| "machine_step R now pub (Network_runs t) M = network_step R now t M"
| "machine_step R now pub (Decoder_runs i) M = decoder_step now i M"
| "machine_step R now pub (Publisher_runs i) M = publisher_step now pub i M"

fun machine_run :: "'g rng_ops \<Rightarrow> clock \<Rightarrow> (nat \<Rightarrow> clock) \<Rightarrow> thread_event list \<Rightarrow> 'g machine \<Rightarrow> 'g machine option" where
  "machine_run R now pub [] M = Some M"
| "machine_run R now pub (e # es) M = do { M \<leftarrow> machine_step R now pub e M; machine_run R now pub es M }"

definition finished :: "'g machine \<Rightarrow> bool" where
  "finished M \<longleftrightarrow> mc_network M = N_end \<and> list_all (\<lambda>pc. pc = D_end) (mc_decoders M) \<and> list_all (\<lambda>pc. pc = S_exit) (mc_publishers M)"

subsection \<open>Steps of the shared pipeline\<close>

lemma notify_ring [simp]:
  "rb_contents (notify_waiters q) = rb_contents q" "ring_ok (notify_waiters q) = ring_ok q" "rb_capacity (notify_waiters q) = rb_capacity q"
  "dropped_updates_total (notify_waiters q) = dropped_updates_total q" "rb_count (notify_waiters q) = rb_count q"
  by (simp_all add: notify_waiters_def rb_contents_def rb_count_def rb_slot_def rb_capacity_def ring_ok_def dropped_updates_total_def)

text \<open>What the threads of other shards can observe of a step: their own queues and histories do not change.\<close>

definition same_shard :: "nat \<Rightarrow> system \<Rightarrow> system \<Rightarrow> bool" where
  "same_shard j S S' \<longleftrightarrow> rb_contents (sh_queue (shard_at S' j)) = rb_contents (sh_queue (shard_at S j)) \<and>
     rb_contents (sh_output_queue (shard_at S' j)) = rb_contents (sh_output_queue (shard_at S j)) \<and>
     enqueued S' j = enqueued S j \<and> published S' j = published S j"

lemma notify_shard [simp]:
  "shard_ok n i (s\<lparr>sh_queue := notify_waiters (sh_queue s)\<rparr>) = shard_ok n i s"
  "shard_ok n i (s\<lparr>sh_output_queue := notify_waiters (sh_output_queue s)\<rparr>) = shard_ok n i s"
  "shard_history (s\<lparr>sh_queue := notify_waiters (sh_queue s)\<rparr>) enq proc snt pub = shard_history s enq proc snt pub"
  "shard_history (s\<lparr>sh_output_queue := notify_waiters (sh_output_queue s)\<rparr>) enq proc snt pub = shard_history s enq proc snt pub"
  by (simp_all add: shard_ok_def shard_history_def queue_history_def book_at_def)

lemma notify_effect:
  assumes "system_inv S" "i < num_shards S"
  shows "system_inv (notify_input i S)" "system_inv (notify_output i S)" "num_shards (notify_input i S) = num_shards S"
    "num_shards (notify_output i S) = num_shards S" "same_shard j S (notify_input i S)" "same_shard j S (notify_output i S)"
proof -
  show "system_inv (notify_input i S)" "system_inv (notify_output i S)"
    using assms by (auto simp: system_inv_def notify_input_def notify_output_def sp_ok_def nth_list_update)
  show "same_shard j S (notify_input i S)" "same_shard j S (notify_output i S)"
    using assms by (cases "i = j"; simp add: same_shard_def notify_input_def notify_output_def)+
qed (simp_all add: notify_input_def notify_output_def)

definition message_of :: "Packet \<Rightarrow> DecodedMessage list" where
  "message_of p = (case bytes p of None \<Rightarrow> [] | Some b \<Rightarrow> (case decode b of Some (Inr m) \<Rightarrow> [m] | _ \<Rightarrow> []))"

definition arrived :: "Packet list \<Rightarrow> DecodedMessage list" where
  "arrived ps = concat (map message_of ps)"

lemma demux_step_effect:
  assumes inv: "system_inv S"
  obtains S' where "system_step now (Demux b t) S = Some S'" "system_inv S'" "num_shards S' = num_shards S"
    "\<And>j. rb_contents (sh_output_queue (shard_at S' j)) = rb_contents (sh_output_queue (shard_at S j))" "published S' = published S"
    "\<And>j. enqueued S' j = enqueued S j \<or> (\<exists>qm. enqueued S' j = enqueued S j @ [qm] \<and> decode b = Some (Inr (qm_message qm)))"
proof -
  have ok: "sp_ok (pipeline S)" using inv by (simp add: system_inv_def)
  obtain S' where S': "system_step now (Demux b t) S = Some S'" "system_inv S'" "num_shards S' = num_shards S"
    using demux_inv [OF inv] by blast
  show thesis
  proof (cases rule: demux_effect [OF ok, of now b t])
    case (1 e sp')
    then show thesis using that [OF S'] S'(1) by auto
  next
    case (2 i sp' m qm q')
    have rq: "ring_ok (sh_queue (shard_at S i))" using ok 2(3) by (simp add: sp_ok_def shard_ok_def)
    have "last (rb_contents q') = qm"
      using push_ok [OF rq, of qm] 2(7) ring.capacity_pos [OF rq] by (metis last_newest option.inject)
    moreover have "sh_output_queue (sp_shards sp' ! j) = sh_output_queue (shard_at S j)" for j
      using 2(3,8) by (cases "i = j") auto
    ultimately show thesis using that [OF S'] S'(1) 2 by auto
  qed
qed

lemma process_step_effect:
  assumes inv: "system_inv S" and i: "i < num_shards S"
  obtains took sp S' where "process_one now i (pipeline S) = Some (took, sp)" "system_step now (Process i) S = Some S'" "system_inv S'"
    "num_shards S' = num_shards S" "\<And>j. j \<noteq> i \<Longrightarrow> same_shard j S S'" "enqueued S' = enqueued S" "published S' = published S"
    "\<not> took \<Longrightarrow> rb_contents (sh_queue (shard_at S i)) = []" "rb_contents (sh_queue (shard_at S i)) = [] \<Longrightarrow> \<not> took \<and> S' = S"
proof -
  have ok: "sp_ok (pipeline S)" using inv by (simp add: system_inv_def)
  have rq: "ring_ok (sh_queue (shard_at S i))" using ok i by (simp add: sp_ok_def shard_ok_def)
  obtain S' where S': "system_step now (Process i) S = Some S'" "system_inv S'" "num_shards S' = num_shards S"
    using process_inv [OF inv] by blast
  show thesis
  proof (cases "rb_contents (sh_queue (shard_at S i))")
    case Nil
    have "process_one now i (pipeline S) = Some (False, pipeline S)" using process_one_idle [OF ok i Nil] .
    moreover have "S' = S" using S'(1) calculation ring.pop_empty [OF rq Nil] i by simp
    ultimately show thesis using that [of False "pipeline S" S'] S' Nil by (simp add: same_shard_def)
  next
    case (Cons qm qs)
    obtain sp' s' where run: "process_one now i (pipeline S) = Some (True, sp')" "sp_shards sp' = (sp_shards (pipeline S))[i := s']"
      using process_one_effect [OF ok i Cons] by metis
    obtain q1 where "try_pop (sh_queue (shard_at S i)) = (Some qm, q1)" using ring.pop_contract [OF rq Cons] by blast
    then have "pipeline S' = sp'" "enqueued S' = enqueued S" "published S' = published S" using S'(1) run i by auto
    then show thesis using that [OF run(1) S'] run(2) Cons by (simp add: same_shard_def)
  qed
qed

lemma publish_step_effect:
  assumes inv: "system_inv S" and i: "i < num_shards S" and pop: "fst (try_pop (sh_output_queue (shard_at S i))) = Some d"
  obtains S' where "system_step now (Publish i) S = Some S'" "system_inv S'" "num_shards S' = num_shards S"
    "\<And>j. j \<noteq> i \<Longrightarrow> same_shard j S S'" "rb_contents (sh_queue (shard_at S' i)) = rb_contents (sh_queue (shard_at S i))"
    "enqueued S' = enqueued S" "published S' i = published S i @ [d]" "rb_contents (sh_output_queue (shard_at S i)) \<noteq> []"
proof -
  have ro: "ring_ok (sh_output_queue (shard_at S i))" using inv i by (auto simp: system_inv_def sp_ok_def shard_ok_def)
  have ne: "rb_contents (sh_output_queue (shard_at S i)) \<noteq> []" using ring.pop_empty [OF ro] pop by auto
  obtain q where q: "try_pop (sh_output_queue (shard_at S i)) = (Some d, q)" using pop by (cases "try_pop (sh_output_queue (shard_at S i))") auto
  obtain S' where S': "system_step now (Publish i) S = Some S'" "system_inv S'" "num_shards S' = num_shards S"
    using publish_inv [OF inv] by blast
  then show thesis using that [OF S'] q i ne by (auto simp: same_shard_def)
qed

subsection \<open>Invariant\<close>

text \<open>
  A decoder has left its loop only after the producer was done and its queue empty; a publisher likewise, after its decoder stored its
  flag, which it does after its last push.
\<close>

definition decoder_ok :: "bool \<Rightarrow> bool \<Rightarrow> decoder_pc \<Rightarrow> 'a list \<Rightarrow> bool" where
  "decoder_ok producer_done decoder_done pc input \<longleftrightarrow> decoder_done = (pc = D_notify \<or> pc = D_end) \<and>
     (case pc of D_loop (S_final _) \<Rightarrow> producer_done | D_loop S_exit \<Rightarrow> False | D_loop _ \<Rightarrow> True | _ \<Rightarrow> producer_done \<and> input = [])"

definition publisher_ok :: "bool \<Rightarrow> stage_pc \<Rightarrow> 'a list \<Rightarrow> bool" where
  "publisher_ok decoder_done pc output \<longleftrightarrow>
     (case pc of S_final _ \<Rightarrow> decoder_done | S_exit \<Rightarrow> decoder_done \<and> output = [] | _ \<Rightarrow> True)"

definition shard_threads_ok :: "(nat \<Rightarrow> clock) \<Rightarrow> DeltaSink list \<Rightarrow> 'g machine \<Rightarrow> nat \<Rightarrow> bool" where
  "shard_threads_ok pub sinks M i \<longleftrightarrow>
     decoder_ok (mc_producer_done M) (mc_decoder_done M ! i) (mc_decoders M ! i) (rb_contents (sh_queue (shard_at (mc_system M) i))) \<and>
     publisher_ok (mc_decoder_done M ! i) (mc_publishers M ! i) (rb_contents (sh_output_queue (shard_at (mc_system M) i))) \<and>
     mc_sinks M ! i = fold (publish (pub i)) (published (mc_system M) i) (sinks ! i, 0) \<and>
     subseq (map qm_message (enqueued (mc_system M) i)) (arrived (mc_packets M))"

definition feed_ok :: "'g rng_ops \<Rightarrow> Config \<Rightarrow> 'g machine \<Rightarrow> bool" where
  "feed_ok R cfg M \<longleftrightarrow>
     feed_run R (length (mc_packets M)) (feed_generator R cfg) = Some (mc_packets M, mc_feed M) \<and>
     (\<exists>ms ts. feed_inv cfg ms ts (mc_feed M) \<and> length ms = length (mc_packets M)) \<and>
     unat (emitted_count (mc_feed M)) = length (mc_packets M) \<and> length (mc_packets M) \<le> unat (message_count cfg) \<and>
     (mc_network M \<noteq> N_loop \<longrightarrow> mc_stop M \<or> length (mc_packets M) = unat (message_count cfg))"

definition machine_inv :: "'g rng_ops \<Rightarrow> Config \<Rightarrow> (nat \<Rightarrow> clock) \<Rightarrow> DeltaSink list \<Rightarrow> 'g machine \<Rightarrow> bool" where
  "machine_inv R cfg pub sinks M \<longleftrightarrow> (let n = num_shards (mc_system M) in
     system_inv (mc_system M) \<and> n = length sinks \<and> length (mc_decoders M) = n \<and> length (mc_decoder_done M) = n \<and>
     length (mc_publishers M) = n \<and> length (mc_sinks M) = n \<and> feed_ok R cfg M \<and>
     mc_producer_done M = (mc_network M \<noteq> N_loop \<and> mc_network M \<noteq> N_store) \<and>
     (\<forall>i < n. shard_threads_ok pub sinks M i))"

lemma machine_invD:
  assumes "machine_inv R cfg pub sinks M"
  shows "system_inv (mc_system M)" "num_shards (mc_system M) = length sinks" "length (mc_decoders M) = length sinks"
    "length (mc_decoder_done M) = length sinks" "length (mc_publishers M) = length sinks" "length (mc_sinks M) = length sinks"
    "feed_ok R cfg M" "mc_producer_done M = (mc_network M \<noteq> N_loop \<and> mc_network M \<noteq> N_store)"
    "i < length sinks \<Longrightarrow> shard_threads_ok pub sinks M i"
  using assms by (auto simp: machine_inv_def Let_def)

lemma machine_invI:
  assumes "system_inv (mc_system M)" "num_shards (mc_system M) = length sinks" "length (mc_decoders M) = length sinks"
    "length (mc_decoder_done M) = length sinks" "length (mc_publishers M) = length sinks" "length (mc_sinks M) = length sinks"
    "feed_ok R cfg M" "mc_producer_done M = (mc_network M \<noteq> N_loop \<and> mc_network M \<noteq> N_store)"
    "\<And>i. i < length sinks \<Longrightarrow> shard_threads_ok pub sinks M i"
  shows "machine_inv R cfg pub sinks M"
  using assms by (simp add: machine_inv_def)

lemma same_shard_threads:
  assumes "shard_threads_ok pub sinks M j" "same_shard j (mc_system M) (mc_system M')"
    "mc_producer_done M' = mc_producer_done M" "mc_decoder_done M' ! j = mc_decoder_done M ! j" "mc_decoders M' ! j = mc_decoders M ! j"
    "mc_publishers M' ! j = mc_publishers M ! j" "mc_sinks M' ! j = mc_sinks M ! j" "mc_packets M' = mc_packets M"
  shows "shard_threads_ok pub sinks M' j"
  using assms by (simp add: shard_threads_ok_def same_shard_def)

lemma feed_ok_frame:
  assumes "feed_ok R cfg M" "mc_packets M' = mc_packets M" "mc_feed M' = mc_feed M" "mc_network M' = mc_network M" "mc_stop M' = mc_stop M"
  shows "feed_ok R cfg M'"
  using assms by (simp add: feed_ok_def)

lemma feed_run_snoc:
  "feed_run R n g = Some (ps, g1) \<Longrightarrow> next_packet R g1 = Some (p, g2) \<Longrightarrow> feed_run R (Suc n) g = Some (ps @ [p], g2)"
proof (induction n arbitrary: g ps)
  case (Suc n)
  then obtain q h qs where "next_packet R g = Some (q, h)" "feed_run R n h = Some (qs, g1)" "ps = q # qs"
    by (auto split: bind_splits)
  then show ?case using Suc.IH [of h qs] Suc.prems(2) by (subst feed_run.simps(2)) (simp del: feed_run.simps)
qed auto

subsection \<open>Preservation\<close>

lemma arrival_inv:
  assumes R: "rng_ok R" and cfg: "config_ok cfg" "unat (message_count cfg) < 2 ^ 64 - 1" and inv: "machine_inv R cfg pub sinks M"
    and loop: "mc_network M = N_loop" "\<not> mc_stop M" "length (mc_packets M) < unat (message_count cfg)"
  shows "\<exists>M'. network_step R now t M = Some M' \<and> machine_inv R cfg pub sinks M'"
proof -
  note D = machine_invD [OF inv]
  obtain ms ts where feed: "feed_inv cfg ms ts (mc_feed M)" "length ms = length (mc_packets M)" using D(7) by (auto simp: feed_ok_def)
  obtain p feed' m t' where p: "next_packet R (mc_feed M) = Some (p, feed')" and inv': "feed_inv cfg (ms @ [m]) (ts @ [t']) feed'"
    and c: "carries cfg p m" and e: "unat (emitted_count feed') = Suc (length ms)"
    using next_packet_step [OF R cfg(1) feed(1)] D(7) feed(2) loop(3) cfg(2) by (auto simp: feed_ok_def)
  have live: "\<not> exhausted p" using c by (simp add: carries_def)
  let ?M = "M\<lparr>mc_feed := feed', mc_packets := mc_packets M @ [p]\<rparr>"
  have run: "feed_run R (Suc (length (mc_packets M))) (feed_generator R cfg) = Some (mc_packets M @ [p], feed')"
    using D(7) p by (intro feed_run_snoc) (auto simp: feed_ok_def)
  have fo: "feed_ok R cfg (?M\<lparr>mc_system := S\<rparr>)" for S
    unfolding feed_ok_def using run e feed(2) loop by (auto intro!: exI [of _ "ms @ [m]"] exI [of _ "ts @ [t']"] inv')
  show ?thesis
  proof (cases "bytes p")
    case None
    have "shard_threads_ok pub sinks ?M i" if "i < length sinks" for i
      using D(9) [OF that] by (auto simp: shard_threads_ok_def arrived_def)
    moreover have "feed_ok R cfg ?M" using fo [of "mc_system M"] by (simp add: feed_ok_def)
    ultimately have "machine_inv R cfg pub sinks ?M" using D by (intro machine_invI) auto
    then show ?thesis using loop p live None by (simp add: network_step_def)
  next
    case (Some b)
    obtain S where S: "system_step now (Demux b t) (mc_system M) = Some S" "system_inv S" "num_shards S = num_shards (mc_system M)"
      "\<And>j. rb_contents (sh_output_queue (shard_at S j)) = rb_contents (sh_output_queue (shard_at (mc_system M) j))"
      "published S = published (mc_system M)"
      "\<And>j. enqueued S j = enqueued (mc_system M) j \<or>
         (\<exists>qm. enqueued S j = enqueued (mc_system M) j @ [qm] \<and> decode b = Some (Inr (qm_message qm)))"
      using demux_step_effect [OF D(1), of now b t] by blast
    have "shard_threads_ok pub sinks (?M\<lparr>mc_system := S\<rparr>) i" if "i < length sinks" for i
    proof -
      have ok: "shard_threads_ok pub sinks M i" using D(9) [OF that] .
      have "subseq (map qm_message (enqueued S i)) (arrived (mc_packets M @ [p]))"
        using ok S(6) [of i] Some by (auto simp: shard_threads_ok_def arrived_def message_of_def)
      moreover have "decoder_ok (mc_producer_done M) (mc_decoder_done M ! i) (mc_decoders M ! i) xs" for xs :: "QueuedMessage list"
        using ok D(8) loop(1) by (auto simp: shard_threads_ok_def decoder_ok_def split: decoder_pc.splits stage_pc.splits)
      ultimately show ?thesis using ok S(4,5) by (simp add: shard_threads_ok_def)
    qed
    then have "machine_inv R cfg pub sinks (?M\<lparr>mc_system := S\<rparr>)" using D S(2,3) fo by (intro machine_invI) auto
    then show ?thesis using loop p live Some S(1) by (simp add: network_step_def Let_def del: system_step.simps)
  qed
qed

lemma network_inv:
  assumes R: "rng_ok R" and cfg: "config_ok cfg" "unat (message_count cfg) < 2 ^ 64 - 1" and inv: "machine_inv R cfg pub sinks M"
  shows "\<exists>M'. network_step R now t M = Some M' \<and> machine_inv R cfg pub sinks M'"
proof (cases "mc_network M = N_loop \<and> \<not> mc_stop M \<and> length (mc_packets M) < unat (message_count cfg)")
  case True
  then show ?thesis using arrival_inv [OF assms] by blast
next
  case other: False
  note D = machine_invD [OF inv]
  show ?thesis
  proof (cases "mc_network M")
    case N_loop
    have "config (mc_feed M) = cfg" using D(7) by (auto simp: feed_ok_def feed_inv_def)
    then have "\<not> mc_stop M \<longrightarrow> next_packet R (mc_feed M) = Some (\<lparr>exhausted = True, bytes = None\<rparr>, mc_feed M)"
      using D(7) other N_loop by (intro impI next_packet_exhausted) (auto simp: feed_ok_def)
    moreover have "machine_inv R cfg pub sinks (M\<lparr>mc_network := N_store\<rparr>)"
      using D other N_loop by (intro machine_invI) (auto simp: feed_ok_def shard_threads_ok_def)
    ultimately show ?thesis using N_loop by (simp add: network_step_def)
  next
    case N_store
    have "shard_threads_ok pub sinks (M\<lparr>mc_producer_done := True, mc_network := N_notify 0\<rparr>) i" if "i < length sinks" for i
      using D(9) [OF that] by (auto simp: shard_threads_ok_def decoder_ok_def split: decoder_pc.splits stage_pc.splits)
    then have "machine_inv R cfg pub sinks (M\<lparr>mc_producer_done := True, mc_network := N_notify 0\<rparr>)"
      using D N_store by (intro machine_invI) (auto simp: feed_ok_def)
    then show ?thesis using N_store by (simp add: network_step_def)
  next
    case (N_notify k)
    show ?thesis
    proof (cases "k < num_shards (mc_system M)")
      case True
      let ?M = "M\<lparr>mc_system := notify_input k (mc_system M), mc_network := N_notify (k + 1)\<rparr>"
      have "machine_inv R cfg pub sinks ?M"
        using D N_notify notify_effect [OF D(1) True]
        by (intro machine_invI) (auto simp: feed_ok_def intro: same_shard_threads [of pub sinks M])
      then show ?thesis using N_notify True by (simp add: network_step_def)
    next
      case False
      have "machine_inv R cfg pub sinks (M\<lparr>mc_network := N_end\<rparr>)"
        using D N_notify by (intro machine_invI) (auto simp: feed_ok_def shard_threads_ok_def)
      then show ?thesis using N_notify False by (simp add: network_step_def)
    qed
  next
    case N_end
    then show ?thesis using inv by (simp add: network_step_def)
  qed
qed

text \<open>A step of a shard's own threads concerns only that shard.\<close>

lemma shard_step_inv:
  assumes inv: "machine_inv R cfg pub sinks M" and S: "system_inv (mc_system M')" "num_shards (mc_system M') = num_shards (mc_system M)"
    and other: "\<And>j. j \<noteq> i \<Longrightarrow> same_shard j (mc_system M) (mc_system M') \<and> mc_decoder_done M' ! j = mc_decoder_done M ! j \<and>
      mc_decoders M' ! j = mc_decoders M ! j \<and> mc_publishers M' ! j = mc_publishers M ! j \<and> mc_sinks M' ! j = mc_sinks M ! j"
    and len: "length (mc_decoders M') = length (mc_decoders M)" "length (mc_decoder_done M') = length (mc_decoder_done M)"
      "length (mc_publishers M') = length (mc_publishers M)" "length (mc_sinks M') = length (mc_sinks M)"
    and same: "mc_packets M' = mc_packets M" "mc_feed M' = mc_feed M" "mc_network M' = mc_network M" "mc_stop M' = mc_stop M"
      "mc_producer_done M' = mc_producer_done M"
    and own: "shard_threads_ok pub sinks M' i"
  shows "machine_inv R cfg pub sinks M'"
proof -
  note D = machine_invD [OF inv]
  have "shard_threads_ok pub sinks M' j" if "j < length sinks" for j
    using own other same_shard_threads [OF D(9) [OF that]] same by (cases "j = i") auto
  then show ?thesis using D S len same feed_ok_frame [OF D(7)] by (intro machine_invI) auto
qed

lemma decoder_ok_next:
  assumes "decoder_ok producer_done decoder_done (D_loop pc) input" "takes pc \<and> \<not> took \<Longrightarrow> input' = []"
  shows "decoder_ok producer_done decoder_done (decoder_next (loop_next took producer_done pc)) input'"
  using assms by (cases pc) (auto simp: decoder_ok_def decoder_next_def)

lemma publisher_ok_next:
  assumes "publisher_ok decoder_done pc output" "takes pc \<and> \<not> took \<Longrightarrow> output' = []" "\<not> takes pc \<Longrightarrow> output' = output"
  shows "publisher_ok decoder_done (loop_next took decoder_done pc) output'"
  using assms by (cases pc) (auto simp: publisher_ok_def)

lemma decoder_inv:
  assumes inv: "machine_inv R cfg pub sinks M"
  shows "\<exists>M'. decoder_step now i M = Some M' \<and> machine_inv R cfg pub sinks M'"
proof (cases "i < length sinks")
  case i: True
  note D = machine_invD [OF inv]
  have ok: "shard_threads_ok pub sinks M i" using D(9) [OF i] .
  have n: "i < num_shards (mc_system M)" using i D(2) by simp
  show ?thesis
  proof (cases "mc_decoders M ! i")
    case (D_loop pc)
    show ?thesis
    proof (cases "takes pc")
      case True
      obtain took sp S where S: "process_one now i (pipeline (mc_system M)) = Some (took, sp)" "system_step now (Process i) (mc_system M) = Some S"
        "system_inv S" "num_shards S = num_shards (mc_system M)" "\<And>j. j \<noteq> i \<Longrightarrow> same_shard j (mc_system M) S"
        "enqueued S = enqueued (mc_system M)" "published S = published (mc_system M)"
        "\<not> took \<Longrightarrow> rb_contents (sh_queue (shard_at (mc_system M) i)) = []"
        "rb_contents (sh_queue (shard_at (mc_system M) i)) = [] \<Longrightarrow> \<not> took \<and> S = mc_system M"
        using process_step_effect [OF D(1) n, of now] by blast
      let ?M = "M\<lparr>mc_system := S, mc_decoders := (mc_decoders M)[i := decoder_next (loop_next took (mc_producer_done M) pc)]\<rparr>"
      have run: "decoder_step now i M = Some ?M" using D_loop True S(1,2) i D(3) by (simp add: decoder_step_def del: system_step.simps)
      have "\<not> mc_decoder_done M ! i" using ok D_loop by (simp add: shard_threads_ok_def decoder_ok_def)
      then have "publisher_ok (mc_decoder_done M ! i) (mc_publishers M ! i) xs" for xs :: "BookDelta list"
        using ok by (auto simp: shard_threads_ok_def publisher_ok_def split: stage_pc.splits)
      moreover have "decoder_ok (mc_producer_done M) (mc_decoder_done M ! i) (decoder_next (loop_next took (mc_producer_done M) pc))
          (rb_contents (sh_queue (shard_at S i)))"
      proof (rule decoder_ok_next)
        show "decoder_ok (mc_producer_done M) (mc_decoder_done M ! i) (D_loop pc) (rb_contents (sh_queue (shard_at (mc_system M) i)))"
          using ok unfolding shard_threads_ok_def D_loop by blast
        show "rb_contents (sh_queue (shard_at S i)) = []" if "takes pc \<and> \<not> took"
          using that S(8,9) by metis
      qed
      ultimately have "shard_threads_ok pub sinks ?M i" using ok S(6,7) i D(3) by (simp add: shard_threads_ok_def)
      then have "machine_inv R cfg pub sinks ?M" by (intro shard_step_inv [OF inv, of ?M i]) (simp_all add: S(2-5))
      then show ?thesis using run by blast
    next
      case False
      let ?M = "M\<lparr>mc_decoders := (mc_decoders M)[i := decoder_next (loop_next False (mc_producer_done M) pc)]\<rparr>"
      have "shard_threads_ok pub sinks ?M i"
        using ok D_loop False i D(3) decoder_ok_next [of "mc_producer_done M" _ pc _ False] by (auto simp: shard_threads_ok_def)
      then have "machine_inv R cfg pub sinks ?M" by (intro shard_step_inv [OF inv, of ?M i]) (simp_all add: D same_shard_def)
      then show ?thesis using D_loop False i D(3) by (simp add: decoder_step_def)
    qed
  next
    case D_store
    let ?M = "M\<lparr>mc_decoder_done := (mc_decoder_done M)[i := True], mc_decoders := (mc_decoders M)[i := D_notify]\<rparr>"
    have "shard_threads_ok pub sinks ?M i"
      using ok D_store i D(3,4) by (auto simp: shard_threads_ok_def decoder_ok_def publisher_ok_def split: stage_pc.splits)
    then have "machine_inv R cfg pub sinks ?M" by (intro shard_step_inv [OF inv, of ?M i]) (simp_all add: D same_shard_def)
    then show ?thesis using D_store i D(3) by (simp add: decoder_step_def)
  next
    case D_notify
    let ?M = "M\<lparr>mc_system := notify_output i (mc_system M), mc_decoders := (mc_decoders M)[i := D_end]\<rparr>"
    note E = notify_effect [OF D(1) n]
    have "shard_threads_ok pub sinks ?M i"
      using ok D_notify i D(3) E(6) [of i] by (auto simp: shard_threads_ok_def decoder_ok_def same_shard_def)
    then have "machine_inv R cfg pub sinks ?M" by (intro shard_step_inv [OF inv, of ?M i]) (simp_all add: E)
    then show ?thesis using D_notify i D(3) by (simp add: decoder_step_def)
  next
    case D_end
    then show ?thesis using inv i D(3) by (simp add: decoder_step_def)
  qed
qed (use inv machine_invD(3) [OF inv] in \<open>simp add: decoder_step_def\<close>)

lemma publisher_inv:
  assumes inv: "machine_inv R cfg pub sinks M"
  shows "\<exists>M'. publisher_step now pub i M = Some M' \<and> machine_inv R cfg pub sinks M'"
proof (cases "i < length sinks")
  case i: True
  note D = machine_invD [OF inv]
  have ok: "shard_threads_ok pub sinks M i" using D(9) [OF i] .
  have n: "i < num_shards (mc_system M)" using i D(2) by simp
  let ?pc = "mc_publishers M ! i" and ?q = "sh_output_queue (shard_at (mc_system M) i)"
  have ro: "ring_ok ?q" using D(1) n by (auto simp: system_inv_def sp_ok_def shard_ok_def)
  show ?thesis
  proof (cases "takes ?pc \<and> fst (try_pop ?q) \<noteq> None")
    case True
    then obtain d where d: "fst (try_pop ?q) = Some d" by auto
    obtain S where S: "system_step now (Publish i) (mc_system M) = Some S" "system_inv S" "num_shards S = num_shards (mc_system M)"
      "\<And>j. j \<noteq> i \<Longrightarrow> same_shard j (mc_system M) S"
      "rb_contents (sh_queue (shard_at S i)) = rb_contents (sh_queue (shard_at (mc_system M) i))"
      "enqueued S = enqueued (mc_system M)" "published S i = published (mc_system M) i @ [d]" "rb_contents ?q \<noteq> []"
      using publish_step_effect [OF D(1) n d, of now] by blast
    let ?M = "M\<lparr>mc_system := S, mc_sinks := (mc_sinks M)[i := publish (pub i) d (mc_sinks M ! i)],
      mc_publishers := (mc_publishers M)[i := loop_next True (mc_decoder_done M ! i) ?pc]\<rparr>"
    have "publisher_step now pub i M = Some ?M" using True d S(1) i D(5) by (simp add: publisher_step_def del: system_step.simps)
    moreover have "shard_threads_ok pub sinks ?M i"
      using ok True S(5-7) i D(5,6)
        publisher_ok_next [of "mc_decoder_done M ! i" ?pc "rb_contents ?q" True "rb_contents (sh_output_queue (shard_at S i))"]
      by (simp add: shard_threads_ok_def)
    then have "machine_inv R cfg pub sinks ?M" by (intro shard_step_inv [OF inv, of ?M i]) (simp_all add: S(2-5))
    ultimately show ?thesis by blast
  next
    case False
    let ?M = "M\<lparr>mc_publishers := (mc_publishers M)[i := loop_next False (mc_decoder_done M ! i) ?pc]\<rparr>"
    have "publisher_step now pub i M = Some ?M" using False i D(5) by (auto simp: publisher_step_def Let_def)
    moreover have "takes ?pc \<longrightarrow> rb_contents ?q = []"
      using False ring.pop_contract [OF ro] by (cases "rb_contents ?q") fastforce+
    then have "shard_threads_ok pub sinks ?M i"
      using ok i D(5) publisher_ok_next [of "mc_decoder_done M ! i" ?pc "rb_contents ?q" False "rb_contents ?q"] by (simp add: shard_threads_ok_def)
    then have "machine_inv R cfg pub sinks ?M" by (intro shard_step_inv [OF inv, of ?M i]) (simp_all add: D same_shard_def)
    ultimately show ?thesis by blast
  qed
qed (use inv machine_invD(5) [OF inv] in \<open>simp add: publisher_step_def\<close>)

lemma machine_step_inv:
  assumes "rng_ok R" "config_ok cfg" "unat (message_count cfg) < 2 ^ 64 - 1" "machine_inv R cfg pub sinks M"
  shows "\<exists>M'. machine_step R now pub e M = Some M' \<and> machine_inv R cfg pub sinks M'"
proof (cases e)
  case Stop_request
  have "machine_inv R cfg pub sinks (M\<lparr>mc_stop := True\<rparr>)"
    using machine_invD [OF assms(4)] by (intro machine_invI) (auto simp: feed_ok_def shard_threads_ok_def)
  then show ?thesis using Stop_request by simp
qed (use network_inv [OF assms] decoder_inv [OF assms(4)] publisher_inv [OF assms(4)] in auto)

lemma machine_run_inv:
  assumes "rng_ok R" "config_ok cfg" "unat (message_count cfg) < 2 ^ 64 - 1"
  shows "machine_inv R cfg pub sinks M \<Longrightarrow> \<exists>M'. machine_run R now pub es M = Some M' \<and> machine_inv R cfg pub sinks M'"
proof (induction es arbitrary: M)
  case (Cons e es)
  obtain M1 where "machine_step R now pub e M = Some M1" "machine_inv R cfg pub sinks M1"
    using machine_step_inv [OF assms Cons.prems] by blast
  then show ?case using Cons.IH [of M1] by auto
qed simp

subsection \<open>From the start of the runner\<close>

definition fresh :: "'g rng_ops \<Rightarrow> Config \<Rightarrow> nat \<Rightarrow> 'g runner \<Rightarrow> bool" where
  "fresh R cfg n r \<longleftrightarrow> before_start n r \<and> rn_feed r = feed_generator R cfg \<and> sharded_pipeline n = Inr (rn_pipeline r) \<and> \<not> rn_stop_requested r"

lemma fresh_init: "pipeline_runner R cfg n = Inr r \<Longrightarrow> fresh R cfg n r"
  using runner_init [of R cfg n r] by (auto simp: fresh_def pipeline_runner_def split: sum.splits)

lemma fresh_sinks:
  "fresh R cfg n r \<Longrightarrow> \<forall>c \<in> set cs. \<exists>i sink. c = Set_delta_sink i sink \<Longrightarrow> calls pin ends cs r = Inr r' \<Longrightarrow> fresh R cfg n r'"
proof (induction cs arbitrary: r)
  case (Cons c cs)
  obtain i sink where c: "c = Set_delta_sink i sink" using Cons.prems(2) by auto
  have "fresh R cfg n (r\<lparr>delta_sinks := (delta_sinks r)[i := sink]\<rparr>)" using Cons.prems(1) by (simp add: fresh_def before_start_def)
  then show ?case using Cons c by (auto simp: set_delta_sink_def split: if_splits)
qed simp

lemma start_loop_frame:
  "rn_feed (start_loop pin e i n r) = rn_feed r \<and> rn_pipeline (start_loop pin e i n r) = rn_pipeline r \<and>
   rn_stop_requested (start_loop pin e i n r) = rn_stop_requested r"
proof (induction pin e i n r rule: start_loop.induct)
  case (1 pin e i n r)
  have hint: "rn_feed (affinity_hint pin e b t x) = rn_feed x" "rn_stop_requested (affinity_hint pin e b t x) = rn_stop_requested x" for b t x
    by (simp_all add: affinity_hint_def)
  show ?case
    using "1.IH" [OF _ refl refl refl refl] by (cases "i < n") (simp_all add: start_loop.simps [of pin e i] Let_def hint)
qed

lemma started_runner:
  assumes "pipeline_runner R cfg n = Inr r0" "\<forall>c \<in> set before. \<exists>i sink. c = Set_delta_sink i sink"
    and "calls pin ends (before @ [Start enable]) r0 = Inr r"
  shows "rn_feed r = feed_generator R cfg \<and> sharded_pipeline n = Inr (rn_pipeline r) \<and> \<not> rn_stop_requested r \<and>
    length (shard_threads r) = n \<and> length (publisher_threads r) = n \<and> length (delta_sinks r) = n"
proof -
  obtain r1 where r1: "calls pin ends before r0 = Inr r1" "start pin enable r1 = Inr r"
    using assms(3) by (auto simp: calls_append split: sum.splits)
  have fr: "fresh R cfg n r1" using fresh_sinks [OF fresh_init [OF assms(1)] assms(2) r1(1)] .
  let ?r = "affinity_hint pin enable Network_io kNetworkIoAffinityTag (r1\<lparr>started := True, network_thread := Some Network_io\<rparr>)"
  have "counters_ok pin ?r" using fr by (intro affinity_hint_counters) (simp add: counters_ok_def fresh_def before_start_def)
  from start_loop_effect [OF this, of enable 0 n] start_loop_frame [of pin enable 0 n ?r] show ?thesis
    using fr r1(2) by (auto simp: start_def fresh_def before_start_def Let_def affinity_hint_def split: if_splits)
qed

lemma machine_init_inv:
  assumes "pipeline_runner R cfg n = Inr r0" "\<forall>c \<in> set before. \<exists>i sink. c = Set_delta_sink i sink"
    and "calls pin ends (before @ [Start enable]) r0 = Inr r"
  shows "machine_inv R cfg pub (delta_sinks r) (machine_init r) \<and> length (delta_sinks r) = n"
proof -
  note st = started_runner [OF assms]
  have inv: "system_inv (system_init (rn_pipeline r))" using system_init_inv st by blast
  have len: "length (sp_shards (rn_pipeline r)) = n" using sharded_pipeline_ok st by blast
  have q: "rb_contents (sh_queue (sp_shards (rn_pipeline r) ! i)) = []" if "i < n" for i
    using inv len that by (auto simp: system_inv_def system_init_def shard_history_def queue_history_def)
  have "feed_ok R cfg (machine_init r)"
    using st feed_inv_init [of cfg R] by (auto simp: feed_ok_def machine_init_def feed_generator_def)
  then show ?thesis
    using st inv len
    by (auto intro!: machine_invI simp: machine_init_def system_init_def shard_threads_ok_def decoder_ok_def publisher_ok_def)
qed

subsection \<open>Properties\<close>

text \<open>
  Shard \<open>i\<close> is complete: both queues are empty; the messages processed came out of the feed, in order; every message enqueued was processed or
  counted as dropped, and every level delta sent was published or counted; the sink has received exactly the published deltas, in
  order; each book is what its processed messages make of an empty book; and when no delta was dropped, the published deltas of a symbol
  are exactly those of its messages.
\<close>

definition shard_complete :: "clock \<Rightarrow> DeltaSink \<Rightarrow> nat \<Rightarrow> 'g machine \<Rightarrow> bool" where
  "shard_complete pub sink i M \<longleftrightarrow> (let S = mc_system M; s = shard_at S i in
     rb_contents (sh_queue s) = [] \<and> rb_contents (sh_output_queue s) = [] \<and>
     subseq (map qm_message (processed S i)) (arrived (mc_packets M)) \<and>
     (\<exists>k. dropped_updates_total (sh_queue s) = of_nat k \<and> length (enqueued S i) = length (processed S i) + k) \<and>
     (\<exists>k. dropped_updates_total (sh_output_queue s) = of_nat k \<and> length (sent S i) = length (published S i) + k) \<and>
     mc_sinks M ! i = fold (publish pub) (published S i) (sink, 0) \<and>
     (\<forall>ticker. \<exists>rs. apply_all (messages_for ticker (processed S i)) order_book_init = Some (rs, book_at s ticker) \<and>
        (length (sent S i) = length (published S i) \<longrightarrow>
           map delta_level (filter (\<lambda>d. bd_symbol d = ticker) (published S i)) = successful_deltas rs)))"

lemma published_levels:
  "map snd (filter (\<lambda>d. fst d = ticker) (map delta_key ds)) = map delta_level (filter (\<lambda>d. bd_symbol d = ticker) ds)"
  by (induction ds) (auto simp: delta_key_def)

lemma finished_shard:
  assumes inv: "machine_inv R cfg pub sinks M" and fin: "finished M" and i: "i < length sinks"
  shows "shard_complete (pub i) (sinks ! i) i M"
proof -
  note D = machine_invD [OF inv]
  let ?S = "mc_system M"
  have ok: "shard_threads_ok pub sinks M i" using D(9) [OF i] .
  have "mc_decoders M ! i = D_end" "mc_publishers M ! i = S_exit"
    using fin i D(3,5) by (auto simp: finished_def list_all_length)
  then have empty: "rb_contents (sh_queue (shard_at ?S i)) = []" "rb_contents (sh_output_queue (shard_at ?S i)) = []"
    using ok by (simp_all add: shard_threads_ok_def decoder_ok_def publisher_ok_def)
  have hist: "shard_history (shard_at ?S i) (enqueued ?S i) (processed ?S i) (sent ?S i) (published ?S i)"
    using D(1,2) i by (simp add: system_inv_def)
  have "subseq (map qm_message (processed ?S i)) (map qm_message (enqueued ?S i))"
    using hist empty by (intro subseq_map) (simp add: shard_history_def queue_history_def)
  then have "subseq (map qm_message (processed ?S i)) (arrived (mc_packets M))"
    using ok subseq_order.trans by (auto simp: shard_threads_ok_def)
  moreover have "map delta_key (published ?S i) = sent ?S i" if "length (sent ?S i) = length (published ?S i)"
    using hist empty that subseq_same_length [of "map delta_key (published ?S i)" "sent ?S i"]
    by (simp add: shard_history_def queue_history_def)
  moreover have "\<exists>rs. apply_all (messages_for ticker (processed ?S i)) order_book_init = Some (rs, book_at (shard_at ?S i) ticker) \<and>
      map snd (filter (\<lambda>d. fst d = ticker) (sent ?S i)) = successful_deltas rs" for ticker
    using hist by (simp add: shard_history_def)
  ultimately have "\<exists>rs. apply_all (messages_for ticker (processed ?S i)) order_book_init = Some (rs, book_at (shard_at ?S i) ticker) \<and>
      (length (sent ?S i) = length (published ?S i) \<longrightarrow>
         map delta_level (filter (\<lambda>d. bd_symbol d = ticker) (published ?S i)) = successful_deltas rs)" for ticker
    unfolding published_levels [symmetric] by metis
  moreover note \<open>subseq (map qm_message (processed ?S i)) (arrived (mc_packets M))\<close>
  ultimately show ?thesis
    using hist empty ok by (simp add: shard_complete_def Let_def shard_history_def queue_history_def shard_threads_ok_def)
qed

text \<open>
  C2. The whole program, under every schedule of its threads and of stop requests: it runs without undefined behaviour, and when all
  threads have come to their end, the packets read are those of the feed, up to its end or until a stop was requested, and every shard
  is complete: nothing is left in a queue, everything that was enqueued was processed or counted as dropped, in the order of the feed, the
  books reflect exactly the processed messages, and the sinks have received exactly the deltas that were not counted as dropped.
\<close>

theorem finished_run_is_complete:
  assumes "rng_ok R" "config_ok cfg" "unat (message_count cfg) < 2 ^ 64 - 1" "pipeline_runner R cfg n = Inr r0"
    and "\<forall>c \<in> set before. \<exists>i sink. c = Set_delta_sink i sink" "calls pin ends (before @ [Start enable]) r0 = Inr r"
  shows "\<exists>M. machine_run R now pub es (machine_init r) = Some M \<and> (finished M \<longrightarrow>
    feed_run R (length (mc_packets M)) (feed_generator R cfg) = Some (mc_packets M, mc_feed M) \<and>
    (mc_stop M \<or> length (mc_packets M) = unat (message_count cfg)) \<and>
    (\<forall>i < n. shard_complete (pub i) (delta_sinks r ! i) i M))"
proof -
  obtain M where run: "machine_run R now pub es (machine_init r) = Some M" and inv: "machine_inv R cfg pub (delta_sinks r) M"
    using machine_run_inv [OF assms(1-3)] machine_init_inv [OF assms(4-6), of pub] by blast
  have "feed_ok R cfg M" using machine_invD(7) [OF inv] .
  then show ?thesis
    using run finished_shard [OF inv] machine_init_inv [OF assms(4-6), of pub] by (auto simp: feed_ok_def finished_def)
qed

text \<open>A run that is stopped at once, on a pipeline of one shard.\<close>

definition stopped_schedule :: "thread_event list" where
  "stopped_schedule = Stop_request # replicate 4 (Network_runs 0) @ replicate 5 (Decoder_runs 0) @ replicate 3 (Publisher_runs 0)"

definition stopped_machine :: "nat list machine" where
  "stopped_machine = machine_init \<lparr>rn_feed = feed_generator (script_rng []) demo_config, rn_pipeline = demo_pipeline, rn_stop_requested = False,
     network_thread = Some Network_io, shard_threads = [Some (Decoder 0)], publisher_threads = [Some (Publisher_loop 0)],
     delta_sinks = [NullDeltaSink], affinity_hints_applied = 0, affinity_hints_attempted = 0, started = True, joined = False, hints = []\<rparr>"

lemma stopped_run: "\<exists>M. machine_run (script_rng []) int (\<lambda>_. int) stopped_schedule stopped_machine = Some M \<and> finished M"
proof -
  have idle: "try_pop (ring_init c v) = (None, ring_init c v)" "try_pop (notify_waiters (ring_init c v)) = (None, notify_waiters (ring_init c v))" for c v
    by (simp_all add: try_pop_def ring_init_def notify_waiters_def)
  show ?thesis
    by (simp add: stopped_schedule_def stopped_machine_def machine_init_def network_step_def decoder_step_def publisher_step_def
        numeral_eq_Suc system_init_def demo_pipeline_def notify_input_def notify_output_def shard_init_def process_one_def idle
        decoder_next_def finished_def delta_queue_init_def)
qed

theorem finished_run_is_complete_witness:
  "\<exists>r0 r M. pipeline_runner (script_rng []) demo_config 1 = Inr r0 \<and>
     calls (\<lambda>_ _. False) (\<lambda>_. True) [Set_delta_sink 0 NullDeltaSink, Start False] r0 = Inr r \<and>
     machine_run (script_rng []) int (\<lambda>_. int) stopped_schedule (machine_init r) = Some M \<and> finished M \<and>
     shard_complete int NullDeltaSink 0 M"
proof -
  obtain r0 where r0: "pipeline_runner (script_rng []) demo_config 1 = Inr r0" using demo_runner by blast
  obtain r where r: "calls (\<lambda>_ _. False) (\<lambda>_. True) [Set_delta_sink 0 NullDeltaSink, Start False] r0 = Inr r"
      "machine_init r = stopped_machine" "delta_sinks r = [NullDeltaSink]"
    using r0 demo_pipeline_init
    by (auto simp: pipeline_runner_def set_delta_sink_def start_def affinity_hint_def start_loop.simps [of _ _ 0] start_loop.simps [of _ _ "Suc 0"] demo_pipeline_def
        stopped_machine_def machine_init_def Let_def)
  have count: "unat (message_count demo_config) < 2 ^ 64 - 1" by (simp add: demo_config_def)
  have "\<exists>M. machine_run (script_rng []) int (\<lambda>_. int) stopped_schedule (machine_init r) = Some M \<and> finished M \<and>
      shard_complete int NullDeltaSink 0 M"
    using finished_run_is_complete [OF script_rng_ok demo_config_ok count r0, of "[Set_delta_sink 0 NullDeltaSink]" "\<lambda>_ _. False" "\<lambda>_. True"
        False r int "\<lambda>_. int" stopped_schedule] r stopped_run by auto
  then show ?thesis using r0 r(1) by blast
qed

end
