(* ===== verification/Latency_Bench.thy ===== *)
theory Latency_Bench
  imports Pipeline_Threads Double_Rounding
begin

text \<open>
  The latency benchmark, \<open>bench/latency_bench.cpp\<close>: its symbols, the run of the pipeline with a recording sink per shard, the columns made of
  the recorded samples, and the statistics of a column.  What is printed is a value here.  Doubles are rational numbers, with the
  rounding of \<open>Double_Rounding\<close>.
\<close>

subsection \<open>Model\<close>

definition kNumShards :: nat where
  "kNumShards = 8"

definition kMessageCount :: u64 where
  "kMessageCount = 1000000"

text \<open>The literals \<open>0.0005\<close>, \<open>0.99\<close> and \<open>0.999\<close>; \<open>0.50\<close> is \<open>double_0_5\<close>.\<close>

definition kPacketLossRate :: rat where
  "kPacketLossRate = 1152921504606847 / 2305843009213693952"

definition double_0_99 :: rat where
  "double_0_99 = 4458563631096791 / 4503599627370496"

definition double_0_999 :: rat where
  "double_0_999 = 8998192055486251 / 9007199254740992"

text \<open>The loop that fills \<open>buf\<close> with letters.\<close>

fun draw_letters :: "'g rng_ops \<Rightarrow> nat \<Rightarrow> 'g \<Rightarrow> string \<times> 'g" where
  "draw_letters R 0 g = ([], g)"
| "draw_letters R (Suc n) g =
     (let (k, g) = uniform_int R 0 25 g; (buf, g) = draw_letters R n g in (char_of (65 + k) # buf, g))"

partial_function (option) symbols_loop :: "'g rng_ops \<Rightarrow> 'g \<Rightarrow> string list \<Rightarrow> Symbol list \<Rightarrow> Symbol list option" where
  "symbols_loop R g seen syms =
     (if length syms < 64 then
        (let (buf, g) = draw_letters R 4 g
         in if buf \<in> set seen then symbols_loop R g seen syms
            else symbols_loop R g (buf # seen) (syms @ [make_symbol buf]))
      else Some syms)"

definition sixty_four_symbols :: "'g rng_ops \<Rightarrow> Symbol list option" where
  "sixty_four_symbols R = symbols_loop R (seed_engine R 4242) [] []"

definition feed_config :: "Symbol list \<Rightarrow> Config" where
  "feed_config syms = \<lparr>symbols = syms, cfg_num_shards = kNumShards, message_count = kMessageCount,
     packet_loss_rate = kPacketLossRate, seed = 4242\<rparr>"

definition percentile :: "int list \<Rightarrow> rat \<Rightarrow> rat" where
  "percentile sorted_ns p =
     (if sorted_ns = [] then 0
      else
        let rank = nat \<lceil>to_double (p * to_double (of_nat (length sorted_ns)))\<rceil>;
            rank = max 1 (min rank (length sorted_ns))
        in to_double (of_int (sorted_ns ! (rank - 1))))"

record StageColumn =
  sc_name :: string
  sc_ns :: "int list"

text \<open>\<open>std::accumulate\<close> on \<open>std::int64_t\<close>; an overflow is undefined.\<close>

fun accumulate :: "int list \<Rightarrow> int \<Rightarrow> int option" where
  "accumulate [] acc = Some acc"
| "accumulate (x # xs) acc = (if - (2 ^ 63) \<le> acc + x \<and> acc + x < 2 ^ 63 then accumulate xs (acc + x) else None)"

record stage_stats =
  st_mean :: rat
  st_p50 :: rat
  st_p99 :: rat
  st_p999 :: rat
  st_max :: rat
  st_n :: nat

datatype report_line = No_samples string | Stats string stage_stats

definition report_stage :: "StageColumn \<Rightarrow> report_line option" where
  "report_stage col =
     (if sc_ns col = [] then Some (No_samples (sc_name col))
      else do {
        let sorted = sort (sc_ns col);
        sum_ns \<leftarrow> accumulate sorted 0;
        Some (Stats (sc_name col)
          \<lparr>st_mean = to_double (to_double (of_int sum_ns) / to_double (of_nat (length sorted))),
           st_p50 = percentile sorted double_0_5, st_p99 = percentile sorted double_0_99, st_p999 = percentile sorted double_0_999,
           st_max = to_double (of_int (last sorted)), st_n = length sorted\<rparr>) })"

text \<open>The eight columns of \<open>main\<close>, and the loop over the samples of all sinks.\<close>

definition stage_columns :: "(string \<times> (LatencySample \<Rightarrow> int)) list" where
  "stage_columns = [(''receive_to_decode'', receive_to_decode), (''decode_to_demux'', decode_to_demux), (''input_queue_wait'', input_queue_wait),
     (''book_update'', book_update), (''output_queue_wait'', output_queue_wait), (''publish'', publish_time),
     (''tick_to_book_update'', tick_to_book_update), (''end_to_end'', end_to_end)]"

definition push_sample :: "LatencySample \<Rightarrow> StageColumn list \<Rightarrow> StageColumn list" where
  "push_sample s cols = map2 (\<lambda>(_, f) col. col\<lparr>sc_ns := sc_ns col @ [f s]\<rparr>) stage_columns cols"

definition merge_samples :: "LatencySample list list \<Rightarrow> StageColumn list" where
  "merge_samples sinks = fold (fold push_sample) sinks (map (\<lambda>(name, _). \<lparr>sc_name = name, sc_ns = []\<rparr>) stage_columns)"

fun samples :: "DeltaSink \<Rightarrow> LatencySample list" where
  "samples (LatencyRecordingSink inner xs) = xs"
| "samples _ = []"

text \<open>The calls of \<open>main\<close> on its runner up to \<open>start()\<close>.\<close>

definition bench_calls :: "runner_call list" where
  "bench_calls = map (\<lambda>i. Set_delta_sink i (LatencyRecordingSink NullDeltaSink [])) [0..<kNumShards] @ [Start True]"

subsection \<open>Percentiles\<close>

text \<open>
  The product with the literal of a fraction \<open>a / b\<close> may be rounded, but its ceiling is that of the exact product: the literal lies below the
  fraction by a tiny amount, and rounding never passes an integer.
\<close>

lemma ceiling_product:
  fixes n :: nat and p :: rat
  assumes p: "0 < p" "p \<le> of_nat a / of_nat b" "of_nat a / of_nat b - p \<le> 1 / 2 ^ 56" and a: "0 < a" "a < b" "b \<le> 1000"
    and n: "0 < n" "n \<le> 2 ^ 40"
  shows "\<lceil>to_double (p * to_double (of_nat n))\<rceil> = int ((a * n + b - 1) div b)"
proof -
  let ?x = "p * of_nat n :: rat" and ?k = "int ((a * n + b - 1) div b)"
  have b: "0 < b" using a by simp
  have dn: "to_double (of_nat n) = of_nat n" using to_double_int [of "int n"] n by simp
  have N: "0 < (of_nat n :: rat)" "(of_nat n :: rat) \<le> 2 ^ 40"
    using n of_nat_le_iff [of n "2 ^ 40", where 'a = rat] by simp_all
  have "b * ((a * n + b - 1) div b) \<ge> a * n"
    using mod_less_divisor [OF b, of "a * n + b - 1"] mult_div_mod_eq [of b "a * n + b - 1"] by linarith
  then have up: "of_nat a * of_nat n \<le> (of_nat b * of_int ?k :: rat)"
    by (simp flip: of_nat_mult)
  have "b * ((a * n + b - 1) div b) \<le> a * n + b - 1"
    by (simp add: mult.commute)
  then have "b * ((a * n + b - 1) div b) + 1 \<le> a * n + b" using b by linarith
  then have lo: "of_nat b * of_int ?k + 1 \<le> (of_nat a * of_nat n + of_nat b :: rat)"
    by (metis (mono_tags) of_int_of_nat_eq of_nat_1 of_nat_add of_nat_le_iff of_nat_mult)
  have B: "0 < (of_nat b :: rat)" "(of_nat b :: rat) \<le> 1000" using b a by simp_all
  have "?x \<le> of_nat a / of_nat b * of_nat n" using p(2) N(1) by (intro mult_right_mono) auto
  also have "\<dots> \<le> of_int ?k" using up B(1) by (simp add: field_simps)
  finally have x_up: "?x \<le> of_int ?k" .
  have xpos: "0 < ?x" using p(1) N(1) by simp
  have "of_nat a / of_nat b < (1 :: rat)" using a B(1) by simp
  then have "p < 1" using p(2) by linarith
  then have x_n: "?x \<le> of_nat n" using N(1) by simp
  then have x53: "?x \<le> 2 ^ 40" "?x < 2 ^ 53" using N(2) order_trans [OF x_n N(2)] by simp_all
  have "of_nat a / of_nat b * of_nat n - ?x \<le> 1 / 65536"
    using mult_mono [OF p(3) N(2)] N(1) p(2) by (simp add: left_diff_distrib)
  moreover have "of_int ?k - 1 + 1 / 1000 \<le> of_nat a / of_nat b * (of_nat n :: rat)"
  proof -
    have "1 / 1000 \<le> 1 / (of_nat b :: rat)" using B by (simp add: field_simps)
    moreover have "of_int ?k - 1 + 1 / of_nat b \<le> of_nat a / of_nat b * (of_nat n :: rat)" using divide_right_mono [OF lo, of "of_nat b"] B(1) by (simp add: add_divide_distrib)
    ultimately show ?thesis by linarith
  qed
  moreover have "\<bar>to_double ?x - ?x\<bar> \<le> 1 / 8192"
  proof -
    have "2 ^ 40 * 2 powi (-53) = (1 / 8192 :: rat)" by (simp add: power_int_minus)
    then show ?thesis
      using to_double_error [OF xpos] mult_right_mono [OF x53(1), of "2 powi (-53)"] by simp
  qed
  ultimately have "of_int ?k - 1 < to_double ?x" by linarith
  moreover have "to_double ?x \<le> of_int ?k" using to_double_le [OF xpos x_up x53(2)] .
  ultimately show ?thesis unfolding dn by (simp add: ceiling_eq_iff)
qed

definition nearest_rank :: "nat \<Rightarrow> nat \<Rightarrow> int list \<Rightarrow> int" where
  "nearest_rank a b xs = sort xs ! ((a * length xs + b - 1) div b - 1)"

lemma sort_Nil_iff [simp]: "sort xs = [] \<longleftrightarrow> xs = []"
  by (metis length_0_conv length_sort)

lemma percentile_literal:
  assumes p: "0 < p" "p \<le> of_nat a / of_nat b" "of_nat a / of_nat b - p \<le> 1 / 2 ^ 56" and a: "0 < a" "a < b" "b \<le> 1000"
    and xs: "xs \<noteq> []" "length xs \<le> 2 ^ 40"
  shows "percentile (sort xs) p = to_double (of_int (nearest_rank a b xs))"
proof -
  let ?n = "length xs" let ?r = "(a * ?n + b - 1) div b"
  have n: "0 < ?n" using xs(1) by simp
  have "b \<le> a * ?n + b - 1" using a(1) n by (cases "a * ?n") auto
  then have "1 \<le> ?r" using a by (simp add: div_greater_zero_iff Suc_le_eq)
  moreover have "a * ?n + b - 1 < b * ?n + b" using mult_le_mono1 [of a b ?n] a by linarith
  then have "?r < ?n + 1" using a by (simp add: div_less_iff_less_mult algebra_simps)
  ultimately have "max 1 (min ?r ?n) = ?r" by simp
  then show ?thesis
    using ceiling_product [OF p a n xs(2)] xs(1) by (simp add: percentile_def nearest_rank_def)
qed

lemma sort_nth_le_last: "i < length xs \<Longrightarrow> sort xs ! i \<le> last (sort (xs :: int list))"
  using sorted_nth_mono [OF sorted_sort, of i "length xs - 1" xs] by (cases "xs = []") (auto simp: last_conv_nth)

subsection \<open>Samples and columns\<close>

lemma push_samples:
  "fold push_sample ss (map (\<lambda>(name, f). \<lparr>sc_name = name, sc_ns = g f\<rparr>) stage_columns) =
     map (\<lambda>(name, f). \<lparr>sc_name = name, sc_ns = g f @ map f ss\<rparr>) stage_columns"
proof (induction ss arbitrary: g)
  case (Cons s ss)
  have "push_sample s (map (\<lambda>(name, f). \<lparr>sc_name = name, sc_ns = g f\<rparr>) stage_columns) =
      map (\<lambda>(name, f). \<lparr>sc_name = name, sc_ns = g f @ [f s]\<rparr>) stage_columns"
    by (simp add: push_sample_def stage_columns_def)
  then show ?case using Cons.IH [of "\<lambda>f. g f @ [f s]"] by simp
qed simp

lemma merge_samples_eq:
  "merge_samples sinks = map (\<lambda>(name, f). \<lparr>sc_name = name, sc_ns = map f (concat sinks)\<rparr>) stage_columns"
proof -
  have "fold (fold push_sample) sinks (map (\<lambda>(name, f). \<lparr>sc_name = name, sc_ns = g f\<rparr>) stage_columns) =
      map (\<lambda>(name, f). \<lparr>sc_name = name, sc_ns = g f @ map f (concat sinks)\<rparr>) stage_columns" for g :: "(LatencySample \<Rightarrow> int) \<Rightarrow> int list"
  proof (induction sinks arbitrary: g)
    case (Cons ss sinks)
    show ?case using Cons.IH [of "\<lambda>f. g f @ map f ss"] by (simp add: push_samples)
  qed simp
  from this [of "\<lambda>_. []"] show ?thesis by (simp add: merge_samples_def)
qed

text \<open>A recording sink takes one sample per published delta, whose stages add up.\<close>

definition breakdown :: "LatencySample \<Rightarrow> bool" where
  "breakdown s \<longleftrightarrow> receive_to_decode s + decode_to_demux s + input_queue_wait s + book_update s = tick_to_book_update s \<and>
     tick_to_book_update s + output_queue_wait s + publish_time s = end_to_end s"

lemma recorded:
  "list_all breakdown xs \<Longrightarrow> \<exists>inner ys k'. fold (publish now) ds (LatencyRecordingSink sink xs, k) = (LatencyRecordingSink inner ys, k') \<and>
     length ys = length xs + length ds \<and> list_all breakdown ys"
proof (induction ds arbitrary: sink xs k)
  case (Cons d ds)
  obtain inner k1 where p: "publish now d (sink, Suc k) = (inner, k1)" by fastforce
  let ?s = "latency_sample (now k) (now k1) (bd_trace d)"
  have "list_all breakdown (xs @ [?s])" using Cons.prems breakdown_def [of ?s] by (simp add: latency_sample_def)
  then show ?case using Cons.IH [of "xs @ [?s]" inner "Suc k1"] p by simp
qed simp

subsection \<open>Symbols\<close>

lemma draw_letters_length: "draw_letters R n g = (buf, g') \<Longrightarrow> length buf = n"
  by (induction n arbitrary: g buf) (auto split: prod.splits)

lemma make_symbol_word: "length w = 4 \<Longrightarrow> make_symbol w = w @ replicate 4 (CHR 0x00)"
  by (simp add: make_symbol_eq kSymbolLen_def)

definition symbols_ok :: "string list \<Rightarrow> Symbol list \<Rightarrow> bool" where
  "symbols_ok seen syms \<longleftrightarrow> distinct seen \<and> (\<forall>w \<in> set seen. length w = 4) \<and> syms = map make_symbol (rev seen) \<and> length syms \<le> 64"

lemma symbols_ok_Cons:
  "symbols_ok seen syms \<Longrightarrow> length syms < 64 \<Longrightarrow> buf \<notin> set seen \<Longrightarrow> length buf = 4 \<Longrightarrow>
     symbols_ok (buf # seen) (syms @ [make_symbol buf])"
  by (simp add: symbols_ok_def)

lemma symbols_ok_result:
  assumes "symbols_ok seen syms"
  shows "distinct syms" "\<forall>s \<in> set syms. symbol_ok s"
proof -
  have "inj_on make_symbol (set seen)" using assms by (auto simp: symbols_ok_def inj_on_def make_symbol_word)
  then show "distinct syms" using assms by (simp add: symbols_ok_def distinct_map)
  show "\<forall>s \<in> set syms. symbol_ok s" using assms by (auto simp: symbols_ok_def make_symbol_word symbol_ok_def kSymbolLen_def)
qed

text \<open>The first \<open>n\<close> words that the engine draws; the loop ends as soon as 64 different ones have come.\<close>

fun words :: "'g rng_ops \<Rightarrow> nat \<Rightarrow> 'g \<Rightarrow> string list" where
  "words R 0 g = []"
| "words R (Suc n) g = (let (buf, g) = draw_letters R 4 g in buf # words R n g)"

lemma symbols_loop_result:
  "symbols_ok seen syms \<Longrightarrow> 64 \<le> card (set (words R n g) \<union> set seen) \<Longrightarrow>
     \<exists>seen' syms'. symbols_loop R g seen syms = Some syms' \<and> length syms' = 64 \<and> symbols_ok seen' syms'"
proof (induction n arbitrary: g seen syms)
  case 0
  then have "length syms = 64" by (auto simp: symbols_ok_def distinct_card)
  then show ?case using 0 by (subst symbols_loop.simps) auto
next
  case (Suc n)
  obtain buf g' where w: "draw_letters R 4 g = (buf, g')" by fastforce
  show ?case
  proof (cases "length syms < 64")
    case True
    have card: "64 \<le> card (set (words R n g') \<union> set (buf # seen))" using Suc.prems(2) w by simp
    show ?thesis
    proof (cases "buf \<in> set seen")
      case old: True
      then have "64 \<le> card (set (words R n g') \<union> set seen)" using card by (simp add: insert_absorb)
      from Suc.IH [OF Suc.prems(1) this] show ?thesis using True w old by (subst symbols_loop.simps) simp
    next
      case new: False
      from Suc.IH [OF symbols_ok_Cons [OF Suc.prems(1) True new draw_letters_length [OF w]] card] show ?thesis
        using True w new by (subst symbols_loop.simps) simp
    qed
  next
    case False
    then have "length syms = 64" using Suc.prems(1) by (auto simp: symbols_ok_def)
    then show ?thesis using Suc.prems(1) by (subst symbols_loop.simps) auto
  qed
qed

lemma sixty_four_symbols_result:
  assumes "64 \<le> card (set (words R n (seed_engine R 4242)))"
  shows "\<exists>syms. sixty_four_symbols R = Some syms \<and> length syms = 64 \<and> distinct syms \<and> config_ok (feed_config syms)"
proof -
  obtain seen syms where "sixty_four_symbols R = Some syms" "length syms = 64" "symbols_ok seen syms"
    using symbols_loop_result [of "[]" "[]" R n "seed_engine R 4242"] assms by (auto simp: sixty_four_symbols_def symbols_ok_def)
  then show ?thesis using symbols_ok_result by (fastforce simp: config_ok_def feed_config_def kNumShards_def)
qed

subsection \<open>The sinks of the run\<close>

lemma set_sinks:
  "publisher_threads r = [] \<Longrightarrow> k \<le> length (delta_sinks r) \<Longrightarrow> calls pin ends (map (\<lambda>i. Set_delta_sink i s) [0..<k]) r =
     Inr (r\<lparr>delta_sinks := replicate k s @ drop k (delta_sinks r)\<rparr>)"
proof (induction k)
  case (Suc k)
  have "(replicate k s @ drop k (delta_sinks r))[k := s] = replicate (Suc k) s @ drop (Suc k) (delta_sinks r)"
    using Suc.prems(2) by (simp add: list_update_append Cons_nth_drop_Suc [symmetric] replicate_append_same)
  then show ?case using Suc by (simp add: calls_append set_delta_sink_def)
qed simp

lemma bench_sinks:
  assumes "pipeline_runner R cfg kNumShards = Inr r0" "calls pin ends bench_calls r0 = Inr r"
  shows "delta_sinks r = replicate kNumShards (LatencyRecordingSink NullDeltaSink [])"
proof -
  let ?s = "LatencyRecordingSink NullDeltaSink []"
  have fr: "before_start kNumShards r0" using runner_init [OF assms(1)] .
  let ?r1 = "r0\<lparr>delta_sinks := replicate kNumShards ?s\<rparr>"
  have "start pin True ?r1 = Inr r"
    using assms(2) set_sinks [of r0 kNumShards pin ends ?s] fr by (auto simp: bench_calls_def calls_append before_start_def split: sum.splits)
  moreover let ?r = "affinity_hint pin True Network_io kNetworkIoAffinityTag (?r1\<lparr>started := True, network_thread := Some Network_io\<rparr>)"
  have "counters_ok pin ?r" using fr by (intro affinity_hint_counters) (simp add: counters_ok_def before_start_def)
  from start_loop_effect [OF this, of True 0 kNumShards] have "delta_sinks (start_loop pin True 0 kNumShards ?r) = delta_sinks ?r" by blast
  ultimately show ?thesis using fr by (auto simp: start_def before_start_def Let_def)
qed

subsection \<open>Properties\<close>

lemma recorded_sinks:
  assumes inv: "machine_inv R cfg pub (replicate n (LatencyRecordingSink NullDeltaSink [])) M" and i: "i < n"
  shows "length (samples (fst (mc_sinks M ! i))) = length (published (mc_system M) i) \<and> list_all breakdown (samples (fst (mc_sinks M ! i)))"
proof -
  have "mc_sinks M ! i = fold (publish (pub i)) (published (mc_system M) i) (LatencyRecordingSink NullDeltaSink [], 0)"
    using machine_invD(9) [OF inv, of i] i by (simp add: shard_threads_ok_def)
  then show ?thesis using recorded [of "[]" "pub i" "published (mc_system M) i" NullDeltaSink 0] by auto
qed

text \<open>
  C37. The latency benchmark measures every delta: if the random engine eventually draws 64 different words, the benchmark gets 64 different
  symbols and a valid configuration, and under every schedule of the threads the eight columns are the eight components of the
  merged samples of all shards, one sample per published delta, in each of which the stages add up to the two totals.
\<close>

theorem latency_bench_samples:
  assumes "rng_ok R" "64 \<le> card (set (words R k (seed_engine R 4242)))"
  shows "\<exists>syms. sixty_four_symbols R = Some syms \<and> length syms = 64 \<and> distinct syms \<and>
    (\<forall>r0 r es. pipeline_runner R (feed_config syms) kNumShards = Inr r0 \<longrightarrow> calls pin ends bench_calls r0 = Inr r \<longrightarrow>
      (\<exists>M. machine_run R now pub es (machine_init r) = Some M \<and>
        (let recorded_samples = map (samples \<circ> fst) (mc_sinks M)
         in map length recorded_samples = map (\<lambda>i. length (published (mc_system M) i)) [0..<kNumShards] \<and>
            list_all breakdown (concat recorded_samples) \<and>
            map sc_ns (merge_samples recorded_samples) = map (\<lambda>(_, f). map f (concat recorded_samples)) stage_columns)))"
proof -
  obtain syms where syms: "sixty_four_symbols R = Some syms" "length syms = 64" "distinct syms" "config_ok (feed_config syms)"
    using sixty_four_symbols_result [OF assms(2)] by blast
  have count: "unat (message_count (feed_config syms)) < 2 ^ 64 - 1" by (simp add: feed_config_def kMessageCount_def)
  have "\<exists>M. machine_run R now pub es (machine_init r) = Some M \<and>
        (let recorded_samples = map (samples \<circ> fst) (mc_sinks M)
         in map length recorded_samples = map (\<lambda>i. length (published (mc_system M) i)) [0..<kNumShards] \<and>
            list_all breakdown (concat recorded_samples) \<and>
            map sc_ns (merge_samples recorded_samples) = map (\<lambda>(_, f). map f (concat recorded_samples)) stage_columns)"
    if r0: "pipeline_runner R (feed_config syms) kNumShards = Inr r0" and r: "calls pin ends bench_calls r0 = Inr r" for r0 r es
  proof -
    have "machine_inv R (feed_config syms) pub (delta_sinks r) (machine_init r)"
      using machine_init_inv [OF r0 _ r [unfolded bench_calls_def]] by auto
    then obtain M where M: "machine_run R now pub es (machine_init r) = Some M"
      and inv: "machine_inv R (feed_config syms) pub (replicate kNumShards (LatencyRecordingSink NullDeltaSink [])) M"
      using machine_run_inv [OF assms(1) syms(4) count] bench_sinks [OF r0 r] by metis
    have len: "length (mc_sinks M) = kNumShards" using machine_invD(6) [OF inv] by simp
    have "map length (map (samples \<circ> fst) (mc_sinks M)) = map (\<lambda>i. length (published (mc_system M) i)) [0..<kNumShards]"
      using recorded_sinks [OF inv] len by (auto intro: nth_equalityI)
    moreover have "list_all breakdown (concat (map (samples \<circ> fst) (mc_sinks M)))"
      using recorded_sinks [OF inv] len by (auto simp: list_all_iff in_set_conv_nth [of _ "mc_sinks M"])
    moreover have "map sc_ns (merge_samples (map (samples \<circ> fst) (mc_sinks M))) =
          map (\<lambda>(_, f). map f (concat (map (samples \<circ> fst) (mc_sinks M)))) stage_columns"
      by (simp add: merge_samples_eq stage_columns_def)
    ultimately show ?thesis using M unfolding Let_def by blast
  qed
  then show ?thesis using syms(1-3) by blast
qed

text \<open>An engine that counts in base 26: its words are all different.\<close>

definition counting_rng :: "nat rng_ops" where
  "counting_rng = \<lparr>seed_engine = \<lambda>_. 0,
     uniform_int = \<lambda>lo hi g. (lo + g div 4 div 26 ^ (g mod 4) mod (hi - lo + 1), Suc g), uniform_real = \<lambda>g. (0, g)\<rparr>"

lemma counting_rng_ok: "rng_ok counting_rng"
proof -
  have "lo + x mod Suc (hi - lo) \<le> hi" if "lo \<le> hi" for lo hi x :: nat
    using that mod_less_divisor [of "Suc (hi - lo)" x] by linarith
  then show ?thesis by (simp add: rng_ok_def counting_rng_def)
qed

definition counting_letter :: "nat \<Rightarrow> char" where
  "counting_letter g = char_of (65 + g div 4 div 26 ^ (g mod 4) mod 26)"

definition counting_word :: "nat \<Rightarrow> string" where
  "counting_word j = map counting_letter [4 * j..<4 * j + 4]"

lemma counting_letters: "draw_letters counting_rng n g = (map counting_letter [g..<g + n], g + n)"
proof (induction n arbitrary: g)
  case (Suc n)
  have "uniform_int counting_rng 0 25 g = (g div 4 div 26 ^ (g mod 4) mod 26, Suc g)" by (simp add: counting_rng_def)
  then show ?case using Suc [of "Suc g"] by (simp add: counting_letter_def upt_conv_Cons del: upt_Suc)
qed simp

lemma counting_words_eq: "words counting_rng n (4 * j) = map counting_word [j..<j + n]"
proof (induction n arbitrary: j)
  case (Suc n)
  show ?case
    using Suc [of "Suc j"] counting_letters [of 4 "4 * j"] by (simp add: upt_conv_Cons counting_word_def add.commute del: upt_Suc)
qed simp

lemma counting_letter_inj:
  assumes "char_of (65 + a) = (char_of (65 + b) :: char)" "a < 26" "b < (26 :: nat)"
  shows "a = b"
proof -
  have "of_char (char_of (65 + a) :: char) = (of_char (char_of (65 + b) :: char) :: nat)" using assms(1) by simp
  then show ?thesis using assms(2,3) by simp
qed

lemma counting_words: "card (set (words counting_rng 64 (seed_engine counting_rng 4242))) = 64"
proof -
  have first: "counting_word j ! 0 = char_of (65 + j mod 26)" "counting_word j ! 1 = char_of (65 + j div 26 mod 26)" for j
  proof -
    have "(4 * j + 1) div 4 = j" "(4 * j + 1) mod 4 = 1" by simp_all
    then have "counting_letter (4 * j + 1) = char_of (65 + j div 26 mod 26)" by (simp only: counting_letter_def power_one_right)
    then show "counting_word j ! 1 = char_of (65 + j div 26 mod 26)" by (simp add: counting_word_def del: upt_Suc)
  qed (simp add: counting_word_def counting_letter_def del: upt_Suc)
  have "inj_on counting_word {0..<64}"
  proof (rule inj_onI)
    fix i j
    assume ij: "i \<in> {0..<64}" "j \<in> {0..<64}" "counting_word i = counting_word j"
    have "i mod 26 = j mod 26" by (rule counting_letter_inj) (use ij(3) first(1) [of i] first(1) [of j] in auto)
    moreover have "i div 26 mod 26 = j div 26 mod 26" by (rule counting_letter_inj) (use ij(3) first(2) [of i] first(2) [of j] in auto)
    moreover have "i div 26 < 26" "j div 26 < 26" using ij(1,2) by auto
    ultimately show "i = j" by (metis div_mult_mod_eq mod_less)
  qed
  then have "card (set (map counting_word [0..<0 + 64])) = 64" by (simp add: card_image)
  moreover have "seed_engine counting_rng 4242 = 4 * 0" by (simp add: counting_rng_def)
  ultimately show ?thesis using counting_words_eq [of 64 0] by simp
qed

lemma bench_started: "\<exists>r0 r. pipeline_runner R (feed_config syms) kNumShards = Inr r0 \<and> calls pin ends bench_calls r0 = Inr r"
proof -
  obtain r0 where r0: "pipeline_runner R (feed_config syms) kNumShards = Inr r0"
    by (auto simp: pipeline_runner_def sharded_pipeline_def kNumShards_def kMaxShards_def)
  let ?sinks = "map (\<lambda>i. Set_delta_sink i (LatencyRecordingSink NullDeltaSink [])) [0..<kNumShards]"
  obtain r1 where r1: "calls pin ends ?sinks r0 = Inr r1" "before_start kNumShards r1"
    using before_start_sinks [OF runner_init [OF r0], of ?sinks pin ends] by auto
  then show ?thesis using r0 start_effect [OF r1(2), of pin True] by (auto simp: bench_calls_def calls_append)
qed

theorem latency_bench_samples_witness:
  "\<exists>syms r0 r M. sixty_four_symbols counting_rng = Some syms \<and> length syms = 64 \<and>
     pipeline_runner counting_rng (feed_config syms) kNumShards = Inr r0 \<and> calls (\<lambda>_ _. False) (\<lambda>_. True) bench_calls r0 = Inr r \<and>
     machine_run counting_rng int (\<lambda>_. int) [Network_runs 0, Decoder_runs 0, Publisher_runs 0] (machine_init r) = Some M \<and>
     map length (map (samples \<circ> fst) (mc_sinks M)) = map (\<lambda>i. length (published (mc_system M) i)) [0..<kNumShards]"
proof -
  have "64 \<le> card (set (words counting_rng 64 (seed_engine counting_rng 4242)))" by (simp add: counting_words)
  from latency_bench_samples [OF counting_rng_ok this, of "\<lambda>_ _. False" "\<lambda>_. True" int "\<lambda>_. int"] show ?thesis
    unfolding Let_def using bench_started [of counting_rng _ "\<lambda>_ _. False" "\<lambda>_. True"] by metis
qed

text \<open>
  C36. The percentiles of a report are the exact nearest-rank percentiles of the samples although they are computed in floating point: for up to
  \<open>2 ^ 40\<close> samples whose sum does not overflow, the index computed from the products with the literals 0.50, 0.99 and 0.999 is the one of
  the exact fractions, and the reported maximum is the largest sample.
\<close>

theorem report_is_nearest_rank:
  assumes "sc_ns col \<noteq> []" "length (sc_ns col) \<le> 2 ^ 40" "accumulate (sort (sc_ns col)) 0 = Some sum_ns"
  shows "\<exists>stats. report_stage col = Some (Stats (sc_name col) stats) \<and>
     st_p50 stats = to_double (of_int (nearest_rank 1 2 (sc_ns col))) \<and>
     st_p99 stats = to_double (of_int (nearest_rank 99 100 (sc_ns col))) \<and>
     st_p999 stats = to_double (of_int (nearest_rank 999 1000 (sc_ns col))) \<and>
     st_max stats = to_double (of_int (Max (set (sc_ns col)))) \<and> st_n stats = length (sc_ns col)"
proof -
  let ?xs = "sc_ns col"
  have "percentile (sort ?xs) double_0_5 = to_double (of_int (nearest_rank 1 2 ?xs))"
    "percentile (sort ?xs) double_0_99 = to_double (of_int (nearest_rank 99 100 ?xs))"
    "percentile (sort ?xs) double_0_999 = to_double (of_int (nearest_rank 999 1000 ?xs))"
    using assms(1,2) by (intro percentile_literal; simp add: double_0_5_def double_0_99_def double_0_999_def)+
  moreover have "last (sort ?xs) = Max (set ?xs)"
  proof (rule Max_eqI [symmetric])
    show "y \<le> last (sort ?xs)" if "y \<in> set ?xs" for y
      using that sort_nth_le_last [of _ ?xs] by (metis in_set_conv_nth length_sort set_sort)
    show "last (sort ?xs) \<in> set ?xs" using assms(1) last_in_set [of "sort ?xs"] by (metis length_0_conv length_sort set_sort)
  qed simp
  ultimately show ?thesis using assms(1,3) by (simp add: report_stage_def)
qed

theorem report_is_nearest_rank_witness:
  "\<exists>stats. report_stage \<lparr>sc_name = ''publish'', sc_ns = [5, 3, 9, 4]\<rparr> = Some (Stats ''publish'' stats) \<and>
     st_p50 stats = to_double 4 \<and> st_p99 stats = to_double 9 \<and> st_n stats = 4"
  using report_is_nearest_rank [of "\<lparr>sc_name = ''publish'', sc_ns = [5, 3, 9, 4]\<rparr>" 21] by (auto simp: nearest_rank_def)

end
