(* ===== verification/Pinning_Bench.thy ===== *)
theory Pinning_Bench
  imports Latency_Bench Console_Output
begin

text \<open>
  The pinning benchmark, \<open>bench/pinning_bench.cpp\<close>: runs of the pipeline with and without affinity hints, and the statistics of the two series.  Parameters are the random
  engine, the steady clock (\<open>now k\<close> is its \<open>k\<close>-th reading), the result of every affinity request, and which threads come to their end.  What is printed is a
  value; doubles are rational numbers as in \<open>Double_Rounding\<close>.
\<close>

subsection \<open>Model\<close>

definition kNumShards_pinning :: nat where
  "kNumShards_pinning = 8"

definition kMessageCount_pinning :: nat where
  "kMessageCount_pinning = 1000000"

text \<open>The literal \<open>0.0005\<close>.\<close>

definition kPacketLossRate_pinning :: rat where
  "kPacketLossRate_pinning = 1152921504606847 / 2305843009213693952"

definition kRunsPerVariant :: nat where
  "kRunsPerVariant = 5"

text \<open>The same code as in the latency benchmark.\<close>

definition sixty_four_symbols_pinning :: "'g rng_ops \<Rightarrow> Symbol list option" where
  "sixty_four_symbols_pinning R = symbols_loop R (seed_engine R 4242) [] []"

record RunResult =
  elapsed :: int
  rr_affinity_applied :: u64
  rr_affinity_attempted :: u64

definition run_config :: "Symbol list \<Rightarrow> u64 \<Rightarrow> Config" where
  "run_config syms sd = \<lparr>symbols = syms, cfg_num_shards = kNumShards_pinning, message_count = of_nat kMessageCount_pinning,
     packet_loss_rate = kPacketLossRate_pinning, seed = sd\<rparr>"

text \<open>
  \<open>run_once\<close>, from the number \<open>k\<close> of the next clock reading to that after it.  It fails with the exception of the constructor, with a hanging \<open>join\<close> or with the
  termination of the program; the runner is destroyed at the end.  The drawing of symbols may not come to an end.
\<close>

definition run_once :: "'g rng_ops \<Rightarrow> clock \<Rightarrow> (thread_body \<Rightarrow> bool) \<Rightarrow> (thread_body \<Rightarrow> AffinityTag \<Rightarrow> bool) \<Rightarrow> bool \<Rightarrow> u64 \<Rightarrow> nat \<Rightarrow>
    ((invalid_argument + runner_error) + RunResult \<times> nat) option" where
  "run_once R now ends pin enable_affinity sd k = do {
     syms \<leftarrow> sixty_four_symbols_pinning R;
     Some (case pipeline_runner R (run_config syms sd) kNumShards_pinning of
         Inl e \<Rightarrow> Inl (Inl e)
       | Inr runner \<Rightarrow>
           (let start_at = now k
            in case start pin enable_affinity runner of
                Inl e \<Rightarrow> Inl (Inr e)
              | Inr runner \<Rightarrow>
                  (case join ends runner of
                     Inl e \<Rightarrow> Inl (Inr e)
                   | Inr runner \<Rightarrow>
                       (let end_at = now (k + 1);
                            result = \<lparr>elapsed = end_at - start_at, rr_affinity_applied = affinity_hints_applied runner,
                                      rr_affinity_attempted = affinity_hints_attempted runner\<rparr>
                        in case destroy ends runner of Inl e \<Rightarrow> Inl (Inr e) | Inr _ \<Rightarrow> Inr (result, k + 2))))) }"

text \<open>The variables of \<open>main\<close>, with the number of clock readings so far, and its loop.\<close>

record pinning_state =
  pinned_runs :: "int list"
  unpinned_runs :: "int list"
  affinity_applied_total :: u64
  affinity_attempted_total :: u64
  readings :: nat

definition pinning_init :: pinning_state where
  "pinning_init = \<lparr>pinned_runs = [], unpinned_runs = [], affinity_applied_total = 0, affinity_attempted_total = 0, readings = 0\<rparr>"

function pinning_loop :: "'g rng_ops \<Rightarrow> clock \<Rightarrow> (thread_body \<Rightarrow> bool) \<Rightarrow> (nat \<Rightarrow> thread_body \<Rightarrow> AffinityTag \<Rightarrow> bool) \<Rightarrow> nat \<Rightarrow> nat \<Rightarrow> pinning_state \<Rightarrow>
    ((invalid_argument + runner_error) + pinning_state) option" where
  "pinning_loop R now ends pin i n s =
     (if i < n then
        (let sd = of_nat (1000 + i)
         in case run_once R now ends (pin i) True sd (readings s) of
              None \<Rightarrow> None
            | Some (Inl e) \<Rightarrow> Some (Inl e)
            | Some (Inr (pinned_result, k)) \<Rightarrow>
                (let s = s\<lparr>pinned_runs := pinned_runs s @ [elapsed pinned_result],
                           affinity_applied_total := affinity_applied_total s + rr_affinity_applied pinned_result,
                           affinity_attempted_total := affinity_attempted_total s + rr_affinity_attempted pinned_result\<rparr>
                 in case run_once R now ends (pin i) False sd k of
                      None \<Rightarrow> None
                    | Some (Inl e) \<Rightarrow> Some (Inl e)
                    | Some (Inr (unpinned_result, k)) \<Rightarrow>
                        pinning_loop R now ends pin (i + 1) n
                          (s\<lparr>unpinned_runs := unpinned_runs s @ [elapsed unpinned_result], readings := k\<rparr>)))
      else Some (Inr s))"
  by pat_completeness auto
termination
  by (relation "measure (\<lambda>(R, now, ends, pin, i, n, s). n - i)") auto

declare pinning_loop.simps [simp del]

definition pinning_runs :: "'g rng_ops \<Rightarrow> clock \<Rightarrow> (thread_body \<Rightarrow> bool) \<Rightarrow> (nat \<Rightarrow> thread_body \<Rightarrow> AffinityTag \<Rightarrow> bool) \<Rightarrow>
    ((invalid_argument + runner_error) + pinning_state) option" where
  "pinning_runs R now ends pin = pinning_loop R now ends pin 0 kRunsPerVariant pinning_init"

text \<open>\<open>std::accumulate\<close> from \<open>0.0\<close>, and the loop of the squared deviations.\<close>

definition accumulate_double :: "rat list \<Rightarrow> rat" where
  "accumulate_double xs = foldl (\<lambda>acc x. to_double (acc + x)) 0 xs"

definition squared_deviations :: "rat \<Rightarrow> rat list \<Rightarrow> rat" where
  "squared_deviations mean xs =
     foldl (\<lambda>variance v. to_double (variance + to_double (to_double (v - mean) * to_double (v - mean)))) 0 xs"

text \<open>\<open>std::sqrt\<close>: the square root, rounded to the nearest double.\<close>

fun isqrt :: "nat \<Rightarrow> nat" where
  "isqrt n = (if n = 0 then 0 else let r = 2 * isqrt (n div 4) in if (r + 1)\<^sup>2 \<le> n then r + 1 else r)"

declare isqrt.simps [simp del]

definition sqrt_double :: "rat \<Rightarrow> rat" where
  "sqrt_double x =
     (if x \<le> 0 then 0
      else
        let u = 2 powi (binary_exponent x div 2 - 52);
            n = isqrt (nat \<lfloor>x / u\<^sup>2\<rfloor>)
        in if (2 * of_nat n + 1)\<^sup>2 * u\<^sup>2 < 4 * x then (of_nat n + 1) * u else of_nat n * u)"

record Stats =
  mean_ms :: rat
  stddev_ms :: rat
  min_ms :: rat
  max_ms :: rat
  mean_ns_per_msg :: rat

text \<open>\<open>summarize\<close>; the division by the size and the extrema need at least one run.\<close>

definition summarize :: "int list \<Rightarrow> Stats option" where
  "summarize runs =
     (if runs = [] then None
      else
        let ms = map to_ms runs;
            sum = accumulate_double ms;
            mean = to_double (sum / to_double (of_nat (length ms)));
            variance = to_double (squared_deviations mean ms / to_double (of_nat (length ms)))
        in Some \<lparr>mean_ms = mean, stddev_ms = sqrt_double variance, min_ms = Min (set ms), max_ms = Max (set ms),
                 mean_ns_per_msg = to_double (to_double (mean * 1000000) / to_double (of_nat kMessageCount_pinning))\<rparr>)"

text \<open>The last numbers that \<open>main\<close> prints: \<open>delta_pct\<close>, where the division by an unpinned mean of zero is no number, and the verdict.\<close>

definition delta_pct :: "Stats \<Rightarrow> Stats \<Rightarrow> rat option" where
  "delta_pct pinned unpinned =
     (if mean_ms unpinned = 0 then None
      else Some (to_double (to_double (to_double (mean_ms unpinned - mean_ms pinned) / mean_ms unpinned) * 100)))"

definition verdict :: "rat \<Rightarrow> string" where
  "verdict delta = (if 0 \<le> delta then ''faster'' else ''slower'')"

subsection \<open>The runs\<close>

lemma isqrt_correct: "(isqrt n)\<^sup>2 \<le> n \<and> n < (isqrt n + 1)\<^sup>2"
proof (induction n rule: isqrt.induct)
  case (1 n)
  show ?case
  proof (cases "n = 0")
    case False
    let ?r = "isqrt (n div 4)"
    have IH: "?r\<^sup>2 \<le> n div 4" "n div 4 < (?r + 1)\<^sup>2" using "1.IH" [OF False] by auto
    have "(2 * ?r)\<^sup>2 \<le> n" using IH(1) by (simp add: power2_eq_square)
    moreover have "n < (2 * ?r + 2)\<^sup>2"
    proof -
      have "n div 4 + 1 \<le> (?r + 1)\<^sup>2" using IH(2) by simp
      then have "4 * (n div 4) + 4 \<le> (2 * ?r + 2)\<^sup>2" by (simp add: power2_eq_square)
      then show ?thesis by presburger
    qed
    ultimately show ?thesis using False by (simp add: isqrt.simps [of n] Let_def)
  qed (simp add: isqrt.simps)
qed

text \<open>The hints of a run, and one run.\<close>

definition run_hints :: "(thread_body \<times> AffinityTag) list" where
  "run_hints = (Network_io, kNetworkIoAffinityTag) # shard_hints 0 kNumShards_pinning"

lemma run_once_result:
  assumes syms: "64 \<le> card (set (words R n (seed_engine R 4242)))" and ends: "\<forall>b. ends b"
  shows "run_once R now ends pin enable sd k = Some (Inr (\<lparr>elapsed = now (k + 1) - now k,
      rr_affinity_applied = (if enable then of_nat (length (filter (\<lambda>(b, t). pin b t) run_hints)) else 0),
      rr_affinity_attempted = (if enable then 17 else 0)\<rparr>, k + 2))"
proof -
  obtain syms where s: "sixty_four_symbols_pinning R = Some syms"
    using sixty_four_symbols_result [OF syms] by (auto simp: sixty_four_symbols_def sixty_four_symbols_pinning_def)
  obtain r0 where r0: "pipeline_runner R (run_config syms sd) kNumShards_pinning = Inr r0"
    by (simp add: pipeline_runner_def sharded_pipeline_def kNumShards_pinning_def kMaxShards_def)
  let ?hs = "if enable then run_hints else []"
  obtain r1 where r1: "start pin enable r0 = Inr r1" "after_start pin kNumShards_pinning ?hs r1"
    using start_effect [OF runner_init [OF r0], of pin enable] unfolding run_hints_def by blast
  obtain r2 where r2: "join ends r1 = Inr r2" "after_start pin kNumShards_pinning ?hs r2" "joined r2"
    using join_effect [OF r1(2), of ends] ends by (auto simp: list_all_iff)
  have "destroy ends r2 = Inr ()" using r2(2,3) by (auto simp: destroy_def after_start_def)
  moreover have "affinity_hints_attempted r2 = (if enable then 17 else 0)"
    "affinity_hints_applied r2 = (if enable then of_nat (length (filter (\<lambda>(b, t). pin b t) run_hints)) else 0)"
    using r2(2) by (auto simp: after_start_def counters_ok_def run_hints_def length_shard_hints kNumShards_pinning_def)
  ultimately show ?thesis using s r0 r1(1) r2(1) by (simp add: run_once_def Let_def)
qed

lemma pinning_loop_result:
  assumes syms: "64 \<le> card (set (words R n (seed_engine R 4242)))" and ends: "\<forall>b. ends b" and "i \<le> m" "readings s = 4 * i"
  shows "pinning_loop R now ends pin i m s = Some (Inr \<lparr>
      pinned_runs = pinned_runs s @ map (\<lambda>i. now (4 * i + 1) - now (4 * i)) [i..<m],
      unpinned_runs = unpinned_runs s @ map (\<lambda>i. now (4 * i + 3) - now (4 * i + 2)) [i..<m],
      affinity_applied_total = affinity_applied_total s + of_nat (\<Sum>i \<leftarrow> [i..<m]. length (filter (\<lambda>(b, t). pin i b t) run_hints)),
      affinity_attempted_total = affinity_attempted_total s + of_nat (17 * (m - i)), readings = 4 * m\<rparr>)"
  using assms(3,4)
proof (induction "m - i" arbitrary: i s)
  case 0
  then show ?case by (cases s) (simp add: pinning_loop.simps [of R now ends pin i])
next
  case (Suc x)
  then have i: "i < m" by simp
  note run = run_once_result [OF syms ends]
  let ?s = "s\<lparr>pinned_runs := pinned_runs s @ [now (4 * i + 1) - now (4 * i)],
      affinity_applied_total := affinity_applied_total s + of_nat (length (filter (\<lambda>(b, t). pin i b t) run_hints)),
      affinity_attempted_total := affinity_attempted_total s + 17,
      unpinned_runs := unpinned_runs s @ [now (4 * i + 3) - now (4 * i + 2)], readings := 4 * i + 4\<rparr>"
  have "pinning_loop R now ends pin i m s = pinning_loop R now ends pin (i + 1) m ?s"
    using i Suc.prems(2) by (simp add: pinning_loop.simps [of R now ends pin i] run Let_def numeral_eq_Suc)
  also have "\<dots> = Some (Inr \<lparr>
      pinned_runs = pinned_runs ?s @ map (\<lambda>i. now (4 * i + 1) - now (4 * i)) [i + 1..<m],
      unpinned_runs = unpinned_runs ?s @ map (\<lambda>i. now (4 * i + 3) - now (4 * i + 2)) [i + 1..<m],
      affinity_applied_total = affinity_applied_total ?s + of_nat (\<Sum>i \<leftarrow> [i + 1..<m]. length (filter (\<lambda>(b, t). pin i b t) run_hints)),
      affinity_attempted_total = affinity_attempted_total ?s + of_nat (17 * (m - (i + 1))), readings = 4 * m\<rparr>)"
    by (rule Suc.hyps(1)) (use Suc.hyps(2) i in simp_all)
  also have "m - i = Suc (m - (i + 1))" using i by simp
  ultimately show ?case using i by (simp add: upt_conv_Cons algebra_simps)
qed

subsection \<open>The accuracy of the statistics\<close>

text \<open>\<open>y\<close> is \<open>x\<close> after at most \<open>n\<close> roundings.\<close>

definition eps :: rat where
  "eps = 2 powi (-53)"

definition close_to :: "nat \<Rightarrow> rat \<Rightarrow> rat \<Rightarrow> bool" where
  "close_to n x y \<longleftrightarrow> 0 \<le> x \<and> x * (1 - eps) ^ n \<le> y \<and> y \<le> x * (1 + eps) ^ n"

lemma eps_bounds: "0 < eps" "eps < 1"
  by (simp_all add: eps_def power_int_minus)

lemma close_nonneg: "close_to n x y \<Longrightarrow> 0 \<le> y"
proof -
  assume "close_to n x y"
  then have "0 \<le> x * (1 - eps) ^ n" "x * (1 - eps) ^ n \<le> y" using eps_bounds by (auto simp: close_to_def)
  then show ?thesis by linarith
qed

lemma close_refl: "0 \<le> x \<Longrightarrow> close_to 0 x x"
  by (simp add: close_to_def)

lemma close_mono:
  assumes "close_to n x y" "n \<le> m"
  shows "close_to m x y"
proof -
  have "(1 - eps) ^ m \<le> (1 - eps) ^ n" "(1 + eps) ^ n \<le> (1 + eps) ^ m"
    using assms(2) eps_bounds by (auto intro: power_decreasing power_increasing)
  then have "x * (1 - eps) ^ m \<le> x * (1 - eps) ^ n" "x * (1 + eps) ^ n \<le> x * (1 + eps) ^ m"
    using assms(1) by (auto simp: close_to_def intro: mult_left_mono)
  then show ?thesis using assms(1) unfolding close_to_def by linarith
qed

lemma close_round:
  assumes "close_to n x y"
  shows "close_to (Suc n) x (to_double y)"
proof (cases "y = 0")
  case True
  then show ?thesis using close_mono [OF assms, of "Suc n"] by simp
next
  case False
  then have y: "0 < y" using close_nonneg [OF assms] by simp
  have "y * (1 - eps) \<le> to_double y" "to_double y \<le> y * (1 + eps)"
    using to_double_error [OF y, folded eps_def] by (simp_all add: right_diff_distrib distrib_left abs_le_iff)
  moreover have "x * (1 - eps) ^ n * (1 - eps) \<le> y * (1 - eps)" "y * (1 + eps) \<le> x * (1 + eps) ^ n * (1 + eps)"
    using assms eps_bounds by (auto simp: close_to_def intro!: mult_right_mono)
  ultimately show ?thesis using assms by (simp add: close_to_def mult.assoc mult.commute [of "1 - eps"] mult.commute [of "1 + eps"])
qed

lemma close_add: "close_to n x y \<Longrightarrow> close_to n x' y' \<Longrightarrow> close_to n (x + x') (y + y')"
  by (simp add: close_to_def distrib_right)

lemma close_divide: "close_to n x y \<Longrightarrow> 0 < c \<Longrightarrow> close_to n (x / c) (y / c)"
  by (auto simp: close_to_def divide_right_mono)

lemma to_ms_close: "0 \<le> r \<Longrightarrow> close_to 2 (of_int r / 1000000) (to_ms r)"
proof -
  assume "0 \<le> r"
  then have "close_to (Suc 0) (of_int r) (to_double (of_int r))" by (intro close_round close_refl) simp
  from close_round [OF close_divide [OF this, of 1000000]] show ?thesis by (simp add: to_ms_def numeral_2_eq_2)
qed

lemma accumulate_close:
  assumes "\<forall>r \<in> set runs. 0 \<le> r" "close_to n x acc" "2 \<le> n"
  shows "close_to (n + length runs) (x + (\<Sum>r \<leftarrow> runs. of_int r / 1000000)) (foldl (\<lambda>acc x. to_double (acc + x)) acc (map to_ms runs))"
  using assms
proof (induction runs arbitrary: n x acc)
  case (Cons r runs)
  have "close_to n (of_int r / 1000000) (to_ms r)" using close_mono [OF to_ms_close [of r]] Cons.prems by simp
  from Cons.IH [OF _ close_round [OF close_add [OF Cons.prems(2) this]]] Cons.prems show ?case by (simp add: add.assoc)
qed simp

lemma mono_to_ms: "mono to_ms"
proof (rule monoI)
  fix x y :: int
  assume "x \<le> y"
  then have "to_double (of_int x) / 1000000 \<le> to_double (of_int y) / 1000000"
    by (intro divide_right_mono monoD [OF mono_to_double]) simp_all
  then show "to_ms x \<le> to_ms y" unfolding to_ms_def by (rule monoD [OF mono_to_double])
qed

lemma summarize_accuracy:
  assumes "runs \<noteq> []" "\<forall>r \<in> set runs. 0 \<le> r" "length runs < 2 ^ 53"
  shows "\<exists>st. summarize runs = Some st \<and> min_ms st = to_ms (Min (set runs)) \<and> max_ms st = to_ms (Max (set runs)) \<and>
    close_to (length runs + 3) ((\<Sum>r \<leftarrow> runs. of_int r / 1000000) / of_nat (length runs)) (mean_ms st)"
proof -
  have "int (length runs) < 2 ^ 53" using assms(3) by simp
  then have len: "to_double (of_nat (length runs)) = of_nat (length runs)" using to_double_int [of "int (length runs)"] by simp
  have "close_to 2 0 0" by (simp add: close_to_def)
  from accumulate_close [OF assms(2) this] have "close_to (2 + length runs) (\<Sum>r \<leftarrow> runs. of_int r / 1000000) (accumulate_double (map to_ms runs))"
    by (simp add: accumulate_double_def)
  from close_round [OF close_divide [OF this, of "of_nat (length runs)"]]
  have "close_to (length runs + 3) ((\<Sum>r \<leftarrow> runs. of_int r / 1000000) / of_nat (length runs))
      (to_double (accumulate_double (map to_ms runs) / of_nat (length runs)))"
    using assms(1) by (simp add: numeral_3_eq_3)
  moreover have "Min (to_ms ` set runs) = to_ms (Min (set runs))" "Max (to_ms ` set runs) = to_ms (Max (set runs))"
    using mono_Min_commute [OF mono_to_ms, of "set runs"] mono_Max_commute [OF mono_to_ms, of "set runs"] assms(1) by simp_all
  ultimately show ?thesis using assms(1) by (simp add: summarize_def Let_def len)
qed

text \<open>
  What the benchmark measures: five pinned and five unpinned runs in turn, each timed by its own two clock readings; affinity hints are attempted for the 17 threads of each pinned
  run, 85 in all, and never in an unpinned one, and the accepted ones are counted exactly.  The extrema that it reports are those of the runs, and the mean is, but for at most eight
  roundings, the exact one.
\<close>

definition measured :: "clock \<Rightarrow> (nat \<Rightarrow> thread_body \<Rightarrow> AffinityTag \<Rightarrow> bool) \<Rightarrow> pinning_state \<Rightarrow> Stats \<Rightarrow> Stats \<Rightarrow> bool" where
  "measured now pin s pinned unpinned \<longleftrightarrow>
    pinned_runs s = map (\<lambda>i. now (4 * i + 1) - now (4 * i)) [0..<5] \<and> unpinned_runs s = map (\<lambda>i. now (4 * i + 3) - now (4 * i + 2)) [0..<5] \<and>
    affinity_attempted_total s = 85 \<and>
    affinity_applied_total s = of_nat (\<Sum>i \<leftarrow> [0..<5]. length (filter (\<lambda>(b, t). pin i b t) ((Network_io, kNetworkIoAffinityTag) # shard_hints 0 8))) \<and>
    summarize (pinned_runs s) = Some pinned \<and> summarize (unpinned_runs s) = Some unpinned \<and>
    min_ms pinned = to_ms (Min (set (pinned_runs s))) \<and> max_ms pinned = to_ms (Max (set (pinned_runs s))) \<and>
    min_ms unpinned = to_ms (Min (set (unpinned_runs s))) \<and> max_ms unpinned = to_ms (Max (set (unpinned_runs s))) \<and>
    close_to 8 ((\<Sum>r \<leftarrow> pinned_runs s. of_int r / 1000000) / 5) (mean_ms pinned) \<and>
    close_to 8 ((\<Sum>r \<leftarrow> unpinned_runs s. of_int r / 1000000) / 5) (mean_ms unpinned)"

lemma pinning_runs_measured:
  assumes "64 \<le> card (set (words R n (seed_engine R 4242)))" "\<forall>b. ends b" "mono now"
  shows "\<exists>s pinned unpinned. pinning_runs R now ends pin = Some (Inr s) \<and> measured now pin s pinned unpinned"
proof -
  let ?p = "map (\<lambda>i. now (4 * i + 1) - now (4 * i)) [0..<5]" and ?u = "map (\<lambda>i. now (4 * i + 3) - now (4 * i + 2)) [0..<5]"
  let ?s = "\<lparr>pinned_runs = ?p, unpinned_runs = ?u,
    affinity_applied_total = of_nat (\<Sum>i \<leftarrow> [0..<5]. length (filter (\<lambda>(b, t). pin i b t) run_hints)), affinity_attempted_total = 85, readings = 20\<rparr>"
  have run: "pinning_runs R now ends pin = Some (Inr ?s)"
    using pinning_loop_result [OF assms(1,2), of 0 5 pinning_init now pin] by (simp add: pinning_runs_def kRunsPerVariant_def pinning_init_def)
  have "\<forall>r \<in> set ?p. 0 \<le> r" "\<forall>r \<in> set ?u. 0 \<le> r" using monoD [OF assms(3)] by auto
  from summarize_accuracy [OF _ this(1)] summarize_accuracy [OF _ this(2)]
  obtain pinned unpinned where
    "summarize ?p = Some pinned" "min_ms pinned = to_ms (Min (set ?p))" "max_ms pinned = to_ms (Max (set ?p))"
    "close_to (length ?p + 3) ((\<Sum>r \<leftarrow> ?p. of_int r / 1000000) / of_nat (length ?p)) (mean_ms pinned)"
    "summarize ?u = Some unpinned" "min_ms unpinned = to_ms (Min (set ?u))" "max_ms unpinned = to_ms (Max (set ?u))"
    "close_to (length ?u + 3) ((\<Sum>r \<leftarrow> ?u. of_int r / 1000000) / of_nat (length ?u)) (mean_ms unpinned)"
    by auto
  then show ?thesis using run by (intro exI [of _ ?s] exI [of _ pinned] exI [of _ unpinned]) (simp add: measured_def run_hints_def kNumShards_pinning_def)
qed

subsection \<open>The square root and the verdict\<close>

lemma sqrt_double_ulp:
  assumes "0 < x"
  defines "u \<equiv> 2 powi (binary_exponent x div 2 - 52) :: rat"
  defines "n \<equiv> isqrt (nat \<lfloor>x / u\<^sup>2\<rfloor>)"
  shows "0 < u" "(of_nat n)\<^sup>2 * u\<^sup>2 \<le> x" "x < (of_nat n + 1)\<^sup>2 * u\<^sup>2" "2 ^ 52 \<le> n"
proof -
  let ?e = "binary_exponent x" and ?k = "nat \<lfloor>x / u\<^sup>2\<rfloor>"
  show u: "0 < u" by (simp add: u_def)
  have q: "0 \<le> x / u\<^sup>2" using assms(1) by simp
  have k: "of_nat ?k \<le> x / u\<^sup>2" "x / u\<^sup>2 < of_nat ?k + 1"
    using q floor_correct [of "x / u\<^sup>2"] by (simp_all add: of_nat_nat)
  note n = isqrt_correct [of ?k, folded n_def]
  have "(of_nat (n\<^sup>2) :: rat) \<le> of_nat ?k" using n by (simp only: of_nat_le_iff)
  then have "(of_nat n)\<^sup>2 \<le> x / u\<^sup>2" using k(1) by simp
  then show "(of_nat n)\<^sup>2 * u\<^sup>2 \<le> x" using u by (simp add: pos_le_divide_eq)
  have "?k + 1 \<le> (n + 1)\<^sup>2" using n by simp
  then have "(of_nat (?k + 1) :: rat) \<le> of_nat ((n + 1)\<^sup>2)" by (simp only: of_nat_le_iff)
  then have "x / u\<^sup>2 < (of_nat n + 1)\<^sup>2" using k(2) by (simp add: power2_eq_square algebra_simps)
  then show "x < (of_nat n + 1)\<^sup>2 * u\<^sup>2" using u by (simp add: pos_divide_less_eq)
  have "u\<^sup>2 = 2 powi (2 * (?e div 2) - 104)" by (simp add: u_def power2_eq_square flip: power_int_add)
  then have "2 ^ 104 * u\<^sup>2 = 2 powi (2 * (?e div 2))" using power_int_add [of "2 :: rat" 104 "2 * (?e div 2) - 104"] by simp
  also have "\<dots> \<le> 2 powi ?e" by (intro power_int_increasing) auto
  also have "\<dots> \<le> x" using binary_exponent [OF assms(1)] by simp
  finally have "2 ^ 104 \<le> x / u\<^sup>2" using u by (simp add: pos_le_divide_eq)
  then have "(2 :: nat) ^ 104 \<le> ?k" by (simp add: le_nat_iff le_floor_iff)
  then have "((2 :: nat) ^ 52)\<^sup>2 < (n + 1)\<^sup>2" using n by simp
  then have "(2 :: nat) ^ 52 < n + 1" by (rule power_less_imp_less_base) simp
  then show "2 ^ 52 \<le> n" by simp
qed

lemma sqrt_double_nearest:
  assumes x: "0 < x"
  shows "\<exists>u. 0 < u \<and> u \<le> sqrt_double x / 2 ^ 52 \<and> (sqrt_double x - u / 2)\<^sup>2 \<le> x \<and> x \<le> (sqrt_double x + u / 2)\<^sup>2"
proof -
  define u :: rat where "u = 2 powi (binary_exponent x div 2 - 52)"
  define n where "n = isqrt (nat \<lfloor>x / u\<^sup>2\<rfloor>)"
  let ?n = "of_nat n :: rat"
  note n = sqrt_double_ulp [OF x, folded u_def, folded n_def]
  have N: "2 ^ 52 \<le> ?n" using n(4) of_nat_le_iff [of "2 ^ 52" n, where 'a = rat] by simp
  have s: "sqrt_double x = (if (2 * ?n + 1)\<^sup>2 * u\<^sup>2 < 4 * x then (?n + 1) * u else ?n * u)"
    using x by (simp add: sqrt_double_def Let_def u_def n_def)
  have half: "(?n * u + u / 2)\<^sup>2 * 4 = (2 * ?n + 1)\<^sup>2 * u\<^sup>2" "(?n * u - u / 2)\<^sup>2 \<le> ?n\<^sup>2 * u\<^sup>2" "((?n + 1) * u)\<^sup>2 \<le> ((?n + 1) * u + u / 2)\<^sup>2"
  proof -
    show "(?n * u + u / 2)\<^sup>2 * 4 = (2 * ?n + 1)\<^sup>2 * u\<^sup>2" by (simp add: power2_eq_square field_simps)
    have "0 \<le> ?n * u - u / 2" using N n(1) mult_right_mono [of 1 ?n u] by simp
    then show "(?n * u - u / 2)\<^sup>2 \<le> ?n\<^sup>2 * u\<^sup>2" using n(1) power_mono [of "?n * u - u / 2" "?n * u" 2] by (simp add: power_mult_distrib)
    show "((?n + 1) * u)\<^sup>2 \<le> ((?n + 1) * u + u / 2)\<^sup>2" using n(1) N by (intro power_mono) auto
  qed
  have "2 ^ 52 * u \<le> sqrt_double x"
    using mult_right_mono [OF N, of u] n(1) by (auto simp: s distrib_right)
  moreover have "(sqrt_double x - u / 2)\<^sup>2 \<le> x \<and> x \<le> (sqrt_double x + u / 2)\<^sup>2"
  proof (cases "(2 * ?n + 1)\<^sup>2 * u\<^sup>2 < 4 * x")
    case True
    have "(?n + 1) * u - u / 2 = ?n * u + u / 2" by (simp add: distrib_right)
    moreover have "x \<le> ((?n + 1) * u)\<^sup>2" using n(3) by (simp add: power_mult_distrib)
    moreover have "sqrt_double x = (?n + 1) * u" using s True by simp
    ultimately show ?thesis using half(1,3) True by (simp only:) linarith
  next
    case False
    then show ?thesis using half(1,2) n(2) s by simp
  qed
  ultimately show ?thesis using n(1) by (intro exI [of _ u]) (simp add: field_simps)
qed

lemma to_double_nonneg: "0 \<le> to_double x \<longleftrightarrow> 0 \<le> x"
  using to_double_pos [of x] to_double_neg [of x] by (cases x "0 :: rat" rule: linorder_cases) auto

definition variance_of :: "int list \<Rightarrow> Stats \<Rightarrow> rat" where
  "variance_of runs st = to_double (squared_deviations (mean_ms st) (map to_ms runs) / to_double (of_nat (length runs)))"

lemma summarize_stddev: "summarize runs = Some st \<Longrightarrow> stddev_ms st = sqrt_double (variance_of runs st)"
  by (auto simp: summarize_def variance_of_def Let_def split: if_splits)

lemma squared_deviations_nonneg: "0 \<le> squared_deviations mean xs"
proof -
  have "0 \<le> v \<Longrightarrow> 0 \<le> foldl (\<lambda>v x. to_double (v + to_double (to_double (x - mean) * to_double (x - mean)))) v xs" for v
    by (induction xs arbitrary: v) (simp_all add: to_double_nonneg)
  then show ?thesis by (simp add: squared_deviations_def)
qed

lemma variance_nonneg: "0 \<le> variance_of runs st"
  by (simp add: variance_of_def to_double_nonneg squared_deviations_nonneg zero_le_divide_iff)

text \<open>
  The standard deviation that \<open>summarize\<close> reports is the square root of the variance it has computed, rounded to the nearest double (the square root lies within half a unit \<open>u\<close> in the last
  place), and the verdict that is printed is right: \<open>faster\<close> exactly when the mean of the pinned runs is at most that of the unpinned ones.
\<close>

theorem pinning_statistics:
  assumes "summarize runs = Some pinned" "summarize runs' = Some unpinned" "0 < mean_ms unpinned"
  shows "(if variance_of runs pinned = 0 then stddev_ms pinned = 0
      else \<exists>u. 0 < u \<and> u \<le> stddev_ms pinned / 2 ^ 52 \<and> (stddev_ms pinned - u / 2)\<^sup>2 \<le> variance_of runs pinned \<and>
        variance_of runs pinned \<le> (stddev_ms pinned + u / 2)\<^sup>2) \<and>
    (\<exists>d. delta_pct pinned unpinned = Some d \<and> (verdict d = ''faster'' \<longleftrightarrow> mean_ms pinned \<le> mean_ms unpinned))"
proof
  show "if variance_of runs pinned = 0 then stddev_ms pinned = 0
      else \<exists>u. 0 < u \<and> u \<le> stddev_ms pinned / 2 ^ 52 \<and> (stddev_ms pinned - u / 2)\<^sup>2 \<le> variance_of runs pinned \<and>
        variance_of runs pinned \<le> (stddev_ms pinned + u / 2)\<^sup>2"
    using sqrt_double_nearest [of "variance_of runs pinned"] variance_nonneg [of runs pinned] summarize_stddev [OF assms(1)]
    by (simp add: sqrt_double_def [of 0])
  let ?q = "to_double (mean_ms unpinned - mean_ms pinned)"
  have "0 \<le> to_double (to_double (?q / mean_ms unpinned) * 100) \<longleftrightarrow> 0 \<le> mean_ms unpinned - mean_ms pinned"
    using assms(3) by (simp add: to_double_nonneg zero_le_divide_iff zero_le_mult_iff)
  then show "\<exists>d. delta_pct pinned unpinned = Some d \<and> (verdict d = ''faster'' \<longleftrightarrow> mean_ms pinned \<le> mean_ms unpinned)"
    using assms(3) by (simp add: delta_pct_def verdict_def)
qed

theorem pinning_statistics_witness:
  "\<exists>p q d u. summarize [1000000, 3000000] = Some p \<and> summarize [4000000] = Some q \<and> variance_of [1000000, 3000000] p = 1 \<and>
    0 < u \<and> (stddev_ms p - u / 2)\<^sup>2 \<le> 1 \<and> 1 \<le> (stddev_ms p + u / 2)\<^sup>2 \<and> delta_pct p q = Some d \<and> verdict d = ''faster''"
proof -
  have one: "to_double 1 = 1" "to_double 2 = 2" "to_double 3 = 3" "to_double 4 = 4" "to_double (- 1) = - 1"
    using to_double_int [of 1] to_double_int [of 2] to_double_int [of 3] to_double_int [of 4] to_double_minus [of 1] by simp_all
  have ms: "to_ms 1000000 = 1" "to_ms 3000000 = 3" "to_ms 4000000 = 4"
    using to_double_int [of 1000000] to_double_int [of 3000000] to_double_int [of 4000000] one by (simp_all add: to_ms_def)
  obtain p where p: "summarize [1000000, 3000000] = Some p" "mean_ms p = 2" by (simp add: summarize_def accumulate_double_def ms one Let_def)
  obtain q where q: "summarize [4000000] = Some q" "mean_ms q = 4" by (simp add: summarize_def accumulate_double_def ms one Let_def)
  have v: "variance_of [1000000, 3000000] p = 1" by (simp add: variance_of_def squared_deviations_def p(2) ms one)
  show ?thesis using pinning_statistics [OF p(1) q(1)] p q v by auto
qed

end
