(* ===== verification/Benchmark_Output.thy ===== *)
theory Benchmark_Output
  imports Pinning_Bench "HOL-Library.Sublist" "HOL-Library.Multiset"
begin

text \<open>
  What \<open>bench/latency_bench.cpp\<close> and \<open>bench/pinning_bench.cpp\<close> print, from the recorded samples and from the runs; the pinning benchmark as a whole
  program.  The numbers of the printed tables can be read back.
\<close>

subsection \<open>The latency benchmark\<close>

fun print_stage :: "report_line \<Rightarrow> string" where
  "print_stage (No_samples name) = pad_right 20 name @ '' (no samples)'' @ newline"
| "print_stage (Stats name st) =
     table_row 20 name [(12, fixed 0 (st_mean st)), (12, fixed 0 (st_p50 st)), (12, fixed 0 (st_p99 st)), (12, fixed 0 (st_p999 st)),
       (12, fixed 0 (st_max st)), (12, show_nat (st_n st))]"

definition latency_header :: string where
  "latency_header =
     ''Phase 10 latency benchmark: '' @ show_nat kNumShards @ '' shards, '' @ show_nat (unat kMessageCount) @ '' messages, '' @
     fixed 2 (to_double (kPacketLossRate * 100)) @ ''% packet loss'' @ newline @ newline"

definition total_samples :: "LatencySample list list \<Rightarrow> nat" where
  "total_samples sinks = foldl (\<lambda>n samples. n + length samples) 0 sinks"

definition latency_titles :: string where
  "latency_titles = table_row 20 ''Stage (ns)'' [(12, ''mean''), (12, ''p50''), (12, ''p99''), (12, ''p99.9''), (12, ''max''), (12, ''n'')]"

definition latency_rule :: string where
  "latency_rule = table_row 20 ''---'' (replicate 6 (12, ''---''))"

definition latency_trailer :: string where
  "latency_trailer = newline @
     ''tick_to_book_update is the PRIMARY metric (t_received -> book apply() returned); end_to_end additionally '' @
     ''includes the publish stage (this run's inner sink is a no-op NullDeltaSink, so 'publish' above measures '' @
     ''the LatencyRecordingSink wrapper's own overhead, not real downstream I/O -- see bench/pinning_bench.cpp '' @
     ''for latency under a real FileDeltaSink-equivalent path).'' @ newline"

text \<open>The output of \<open>main\<close> for the samples that the sinks of the shards have recorded; undefined when a sum of latencies overflows.\<close>

definition latency_output :: "LatencySample list list \<Rightarrow> string option" where
  "latency_output sinks = do {
     lines \<leftarrow> those (map report_stage (merge_samples sinks));
     let rows = map print_stage lines;
     Some (latency_header @ show_nat (total_samples sinks) @ '' total delta samples recorded across '' @ show_nat kNumShards @ '' shards'' @ newline @ newline @
       latency_titles @ concat (take 6 rows) @ latency_rule @ concat (drop 6 rows) @ latency_trailer) }"

subsection \<open>The pinning benchmark\<close>

definition print_runs :: "string \<Rightarrow> int list \<Rightarrow> string" where
  "print_runs label runs = label @ '' runs (ms): '' @ concat (map (\<lambda>r. fixed 2 (to_ms r) @ '' '') runs) @ newline"

definition pinning_header :: string where
  "pinning_header =
     ''Phase 8 pinning benchmark: '' @ show_nat kNumShards_pinning @ '' shards, '' @ show_nat kMessageCount_pinning @ '' messages/run, '' @
     fixed 1 (to_double (kPacketLossRate_pinning * 100)) @ ''% packet loss, '' @ show_nat kRunsPerVariant @ '' runs per variant'' @ newline @ newline"

definition rejection_note :: string where
  "rejection_note =
     ''-> 0 accepted: on this machine, thread_policy_set(THREAD_AFFINITY_POLICY) is being rejected outright '' @
     ''(KERN_NOT_SUPPORTED), not merely ignored as a soft hint -- see thread_affinity.hpp. Any timing delta '' @
     ''below reflects code-path/scheduling noise from the enable_affinity branch itself, NOT an actual '' @
     ''pinning effect, since no pinning ever took place.'' @ newline"

definition affinity_lines :: "pinning_state \<Rightarrow> string" where
  "affinity_lines s =
     ''Affinity hints actually accepted by the kernel (KERN_SUCCESS): '' @ show_nat (unat (affinity_applied_total s)) @ '' / '' @
     show_nat (unat (affinity_attempted_total s)) @ '' attempted, across all '' @ show_nat kRunsPerVariant @ '' pinned '' @
     ''runs (network I/O thread + '' @ show_nat kNumShards_pinning @ '' shard threads each).'' @ newline @
     (if affinity_applied_total s = 0 \<and> 0 < affinity_attempted_total s then rejection_note else '''')"

definition stats_row :: "string \<Rightarrow> Stats \<Rightarrow> string" where
  "stats_row label st =
     table_row 24 label [(12, fixed 2 (mean_ms st)), (12, fixed 2 (stddev_ms st)), (12, fixed 2 (min_ms st)), (12, fixed 2 (max_ms st)),
       (16, fixed 1 (mean_ns_per_msg st))]"

text \<open>The percentage \<open>std::fabs(delta_pct)\<close> and the verdict; a division by a mean of zero gives an infinity or no number, which is not \<open>>= 0.0\<close>.\<close>

definition print_delta :: "Stats \<Rightarrow> Stats \<Rightarrow> string \<times> string" where
  "print_delta pinned unpinned =
     (case delta_pct pinned unpinned of
        Some d \<Rightarrow> (fixed 2 \<bar>d\<bar>, verdict d)
      | None \<Rightarrow> if mean_ms pinned = 0 then (''nan'', ''slower'') else (''inf'', if mean_ms pinned < 0 then ''faster'' else ''slower''))"

definition delta_line :: "Stats \<Rightarrow> Stats \<Rightarrow> string" where
  "delta_line pinned unpinned =
     (let (pct, word) = print_delta pinned unpinned
      in newline @ ''Mean delta: pinned is '' @ pct @ ''% '' @ word @ '' than unpinned ('' @ fixed 2 (mean_ms pinned) @ '' ms vs '' @
         fixed 2 (mean_ms unpinned) @ '' ms).'' @ newline)"

definition pinning_caveat :: string where
  "pinning_caveat = newline @
     ''Caveat (see thread_affinity.hpp): macOS's THREAD_AFFINITY_POLICY is an advisory'' @ newline @
     ''scheduler hint, not Linux's pthread_setaffinity_np hard pin. A delta within roughly'' @ newline @
     ''one run's stddev of zero is NOT strong evidence pinning helps or hurts on this'' @ newline @
     ''platform -- it may simply mean the scheduler didn't act on the hint this run. Only a'' @ newline @
     ''delta that's large and consistent relative to the stddev above should be read as a'' @ newline @
     ''real effect.'' @ newline"

definition pinning_report :: "pinning_state \<Rightarrow> Stats \<Rightarrow> Stats \<Rightarrow> string" where
  "pinning_report s pinned unpinned =
     pinning_header @ print_runs ''Pinned  '' (pinned_runs s) @ print_runs ''Unpinned'' (unpinned_runs s) @ newline @
     affinity_lines s @ newline @
     table_row 24 ''Variant'' [(12, ''Mean (ms)''), (12, ''Stddev(ms)''), (12, ''Min (ms)''), (12, ''Max (ms)''), (16, ''ns/message'')] @
     stats_row ''Pinned (affinity on)'' pinned @ stats_row ''Unpinned (affinity off)'' unpinned @
     delta_line pinned unpinned @ pinning_caveat"

text \<open>The output of the program when \<open>main\<close> returns.\<close>

definition pinning_main :: "'g rng_ops \<Rightarrow> clock \<Rightarrow> (thread_body \<Rightarrow> bool) \<Rightarrow> (nat \<Rightarrow> thread_body \<Rightarrow> AffinityTag \<Rightarrow> bool) \<Rightarrow>
    ((invalid_argument + runner_error) + string) option" where
  "pinning_main R now ends pin =
     (case pinning_runs R now ends pin of
        None \<Rightarrow> None
      | Some (Inl e) \<Rightarrow> Some (Inl e)
      | Some (Inr s) \<Rightarrow> do {
          pinned \<leftarrow> summarize (pinned_runs s);
          unpinned \<leftarrow> summarize (unpinned_runs s);
          Some (Inr (pinning_report s pinned unpinned)) })"

subsection \<open>The report of the latency benchmark\<close>

text \<open>With latencies that are not negative and whose sums fit, the report has a line for each of the eight stages.\<close>

lemma accumulate_fits:
  "\<forall>x \<in> set xs. 0 \<le> x \<Longrightarrow> 0 \<le> acc \<Longrightarrow> acc + sum_list xs < 2 ^ 63 \<Longrightarrow> accumulate xs acc = Some (acc + sum_list xs)"
proof (induction xs arbitrary: acc)
  case (Cons x xs)
  then have "0 \<le> sum_list xs" by (intro sum_list_nonneg) auto
  then show ?case using Cons.IH [of "acc + x"] Cons.prems by (simp add: add.assoc)
qed simp

lemma report_stage_defined:
  assumes "\<forall>x \<in> set (sc_ns col). 0 \<le> x" "sum_list (sc_ns col) < 2 ^ 63"
  shows "\<exists>l. report_stage col = Some l"
proof (cases "sc_ns col = []")
  case False
  have "sum_list (sort (sc_ns col)) = sum_list (sc_ns col)" by (metis sum_mset_sum_list mset_sort)
  then have "accumulate (sort (sc_ns col)) 0 = Some (sum_list (sc_ns col))" using assms accumulate_fits [of "sort (sc_ns col)" 0] by simp
  then show ?thesis using False by (simp add: report_stage_def Let_def)
qed (simp add: report_stage_def)

lemma those_map_defined: "\<forall>x \<in> set xs. \<exists>y. f x = Some y \<Longrightarrow> \<exists>ys. those (map f xs) = Some ys \<and> length ys = length xs"
  by (induction xs) auto

lemma total_samples_eq: "total_samples sinks = length (concat sinks)"
proof -
  have "foldl (\<lambda>n samples. n + length samples) k sinks = k + length (concat sinks)" for k by (induction sinks arbitrary: k) simp_all
  then show ?thesis by (simp add: total_samples_def)
qed

lemma latency_output_complete:
  assumes "\<forall>(name, f) \<in> set stage_columns. (\<forall>s \<in> set (concat sinks). 0 \<le> f s) \<and> (\<Sum>s \<leftarrow> concat sinks. f s) < 2 ^ 63"
  shows "\<exists>lines. those (map report_stage (merge_samples sinks)) = Some lines \<and> length lines = 8 \<and>
    latency_output sinks = Some (latency_header @ show_nat (length (concat sinks)) @ '' total delta samples recorded across '' @ show_nat kNumShards @ '' shards'' @
      newline @ newline @ latency_titles @ concat (map print_stage (take 6 lines)) @ latency_rule @ concat (map print_stage (drop 6 lines)) @ latency_trailer)"
proof -
  have "\<forall>col \<in> set (merge_samples sinks). \<exists>l. report_stage col = Some l"
    using assms by (fastforce simp: merge_samples_eq intro: report_stage_defined)
  then obtain lines where "those (map report_stage (merge_samples sinks)) = Some lines" "length lines = length (merge_samples sinks)"
    using those_map_defined by blast
  then show ?thesis by (simp add: latency_output_def total_samples_eq take_map drop_map merge_samples_eq stage_columns_def)
qed

subsection \<open>The numbers of the tables\<close>

definition shows_number :: "nat \<times> rat \<Rightarrow> string \<Rightarrow> bool" where
  "shows_number dx f \<longleftrightarrow> (case dx of (d, x) \<Rightarrow> \<bar>read_fixed d f - x\<bar> \<le> 1 / (2 * 10 ^ d))"

lemma shows_fixed: "shows_number (d, x) (fixed d x)"
  by (simp add: shows_number_def read_fixed_error)

lemma read_fixed_show_nat: "read_fixed 0 (show_nat n) = of_nat n"
proof -
  have "CHR ''-'' \<notin> set (show_nat n)" using show_nat_all_digits [of n] not_digits(1) by (auto simp: list_all_iff)
  then show ?thesis by (simp add: read_fixed_def digits_filter [OF show_nat_all_digits] read_show_nat)
qed

text \<open>
  C40. The tables of both benchmarks can be read back: the words of a row after its label are the numbers of that row, each within half a unit of the last decimal that is
  printed, and the number of samples exactly.
\<close>

theorem table_rows_roundtrip:
  assumes "length label \<le> 24" "length name \<le> 20"
  shows "list_all2 shows_number [(2, mean_ms st), (2, stddev_ms st), (2, min_ms st), (2, max_ms st), (1, mean_ns_per_msg st)]
      (row_fields 24 (stats_row label st)) \<and>
    (\<exists>fields n. row_fields 20 (print_stage (Stats name ls)) = fields @ [n] \<and> read_nat n = st_n ls \<and>
      list_all2 shows_number [(0, st_mean ls), (0, st_p50 ls), (0, st_p99 ls), (0, st_p999 ls), (0, st_max ls)] fields)"
proof -
  have "row_fields 24 (stats_row label st) =
      [fixed 2 (mean_ms st), fixed 2 (stddev_ms st), fixed 2 (min_ms st), fixed 2 (max_ms st), fixed 1 (mean_ns_per_msg st)]"
    unfolding stats_row_def by (subst table_row_roundtrip [OF assms(1)]) (simp_all add: solid_fixed)
  moreover have "row_fields 20 (print_stage (Stats name ls)) =
      [fixed 0 (st_mean ls), fixed 0 (st_p50 ls), fixed 0 (st_p99 ls), fixed 0 (st_p999 ls), fixed 0 (st_max ls)] @ [show_nat (st_n ls)]"
    unfolding print_stage.simps by (subst table_row_roundtrip [OF assms(2)]) (simp_all add: solid_fixed solid_show_nat)
  ultimately show ?thesis by (simp add: shows_fixed read_show_nat)
qed

theorem table_rows_roundtrip_witness:
  "\<exists>st. row_fields 24 (stats_row ''Pinned (affinity on)'' st) \<noteq> [] \<and> mean_ms st = 1 / 8 \<and>
    shows_number (2, 1 / 8) (row_fields 24 (stats_row ''Pinned (affinity on)'' st) ! 0)"
proof -
  let ?st = "\<lparr>mean_ms = 1 / 8, stddev_ms = 0, min_ms = 1 / 8, max_ms = 1 / 8, mean_ns_per_msg = 1 / 8\<rparr>"
  have "length ''Pinned (affinity on)'' \<le> 24" "length ''publish'' \<le> 20" by simp_all
  from table_rows_roundtrip [OF this, of ?st undefined, THEN conjunct1]
  have "row_fields 24 (stats_row ''Pinned (affinity on)'' ?st) \<noteq> []" "shows_number (2, 1 / 8) (row_fields 24 (stats_row ''Pinned (affinity on)'' ?st) ! 0)"
    by (auto simp: list_all2_Cons1)
  then show ?thesis by (intro exI [of _ ?st]) simp
qed

subsection \<open>The program of the pinning benchmark\<close>

lemma digit_chars:
  "char_of (48 :: nat) = CHR ''0''" "char_of (49 :: nat) = CHR ''1''" "char_of (53 :: nat) = CHR ''5''" "char_of (56 :: nat) = CHR ''8''"
  by code_simp+

text \<open>The packet loss rate of 0.05 per cent is printed with one decimal only.\<close>

lemma printed_loss_rate: "fixed 1 (to_double (kPacketLossRate_pinning * 100)) = ''0.1''"
proof -
  have x: "kPacketLossRate_pinning * 100 = 28823037615171175 / 576460752303423488" by (simp add: kPacketLossRate_pinning_def)
  have "binary_exponent (28823037615171175 / 576460752303423488) = - 5" by code_simp
  moreover have "\<lfloor>28823037615171175 / 4 :: rat\<rfloor> = 7205759403792793" by (rule floor_unique) simp_all
  ultimately have "to_double (28823037615171175 / 576460752303423488) = 7205759403792794 / 2 ^ 57"
    by (simp add: to_double_def ulp_def round_half_even_def Let_def power_int_minus)
  moreover have "\<lfloor>7205759403792794 / 2 ^ 57 * 10 :: rat\<rfloor> = 0" by (rule floor_unique) simp_all
  then have "round_half_even (\<bar>7205759403792794 / 2 ^ 57\<bar> * 10 ^ 1) = 1" by (simp add: round_half_even_def)
  then have "fixed 1 (7205759403792794 / 2 ^ 57) = show_nat 0 @ CHR ''.'' # show_nat 1"
    unfolding fixed_def by (simp only: Let_def) (simp add: zero_pad_def show_nat.simps)
  ultimately show ?thesis unfolding x by (simp only:) (simp add: show_nat.simps digit_chars)
qed

lemma u64_eq_0: "n < 2 ^ 64 \<Longrightarrow> (of_nat n :: u64) = 0 \<longleftrightarrow> n = 0"
  by (auto simp: word_of_nat_eq_0_iff dest: nat_dvd_not_less)

lemma pinning_header_text:
  "pinning_header = ''Phase 8 pinning benchmark: 8 shards, 1000000 messages/run, 0.1% packet loss, 5 runs per variant'' @ newline @ newline"
proof -
  have "show_nat kNumShards_pinning = ''8''" "show_nat kMessageCount_pinning = ''1000000''" "show_nat kRunsPerVariant = ''5''"
    by (simp_all add: kNumShards_pinning_def kMessageCount_pinning_def kRunsPerVariant_def show_nat.simps digit_chars)
  then show ?thesis by (simp add: pinning_header_def printed_loss_rate [simplified])
qed

lemma rejection_note_printed:
  "sublist rejection_note (affinity_lines s) \<longleftrightarrow> affinity_applied_total s = 0 \<and> 0 < affinity_attempted_total s"
proof
  assume *: "affinity_applied_total s = 0 \<and> 0 < affinity_attempted_total s"
  obtain before where "affinity_lines s = before @ rejection_note" unfolding affinity_lines_def if_P [OF *] by (metis append_assoc)
  then show "sublist rejection_note (affinity_lines s)" by simp
next
  assume sub: "sublist rejection_note (affinity_lines s)"
  show "affinity_applied_total s = 0 \<and> 0 < affinity_attempted_total s"
  proof (rule ccontr)
    assume no: "\<not> (affinity_applied_total s = 0 \<and> 0 < affinity_attempted_total s)"
    have "CHR ''>'' \<notin> set (show_nat n)" for n using show_nat_all_digits [of n] by (auto simp: list_all_iff is_digit_def)
    then have "CHR ''>'' \<notin> set (affinity_lines s)" unfolding affinity_lines_def if_not_P [OF no] by simp
    moreover have "CHR ''>'' \<in> set rejection_note" by (simp add: rejection_note_def)
    ultimately show False using set_mono_sublist [OF sub] by blast
  qed
qed

text \<open>
  C39. The pinning benchmark as a program, when 64 different symbols come and the threads end: it prints the report of its measurements (five pinned and five unpinned runs in turn, each
  timed by its own two clock readings; 85 affinity hints, all of them in the pinned runs, and the exact number of accepted ones; the extrema of the runs, and their means but for at most eight roundings).
  The note that no hint was accepted is printed exactly when none of the 85 requests was; and the first line says 0.1 per cent of packet loss, though the rate is 0.05 per cent.
\<close>

theorem pinning_benchmark:
  assumes "64 \<le> card (set (words R n (seed_engine R 4242)))" "\<forall>b. ends b" "mono now"
  shows "\<exists>s pinned unpinned. pinning_main R now ends pin = Some (Inr (pinning_report s pinned unpinned)) \<and> measured now pin s pinned unpinned \<and>
    (sublist rejection_note (affinity_lines s) \<longleftrightarrow>
      (\<forall>i < 5. \<forall>(b, t) \<in> set ((Network_io, kNetworkIoAffinityTag) # shard_hints 0 8). \<not> pin i b t)) \<and>
    prefix ''Phase 8 pinning benchmark: 8 shards, 1000000 messages/run, 0.1% packet loss, 5 runs per variant'' (pinning_report s pinned unpinned)"
proof -
  let ?hints = "(Network_io, kNetworkIoAffinityTag) # shard_hints 0 8"
  obtain s pinned unpinned where s: "pinning_runs R now ends pin = Some (Inr s)" "measured now pin s pinned unpinned"
    using pinning_runs_measured [OF assms] by blast
  let ?n = "\<Sum>i \<leftarrow> [0..<5]. length (filter (\<lambda>(b, t). pin i b t) ?hints)"
  have m: "affinity_applied_total s = of_nat ?n" "affinity_attempted_total s = 85" "summarize (pinned_runs s) = Some pinned" "summarize (unpinned_runs s) = Some unpinned"
    using s(2) unfolding measured_def by blast+
  have "?n \<le> (\<Sum>i \<leftarrow> [0..<5]. 17)"
  proof (rule sum_list_mono)
    show "length (filter (\<lambda>(b, t). pin i b t) ?hints) \<le> 17" for i
      using length_filter_le [of "\<lambda>(b, t). pin i b t" ?hints] by (simp add: length_shard_hints del: filter.simps)
  qed
  also have "\<dots> < 2 ^ 64" by (simp add: sum_list_triv)
  finally have "?n < 2 ^ 64" .
  then have "affinity_applied_total s = 0 \<longleftrightarrow> ?n = 0" unfolding m(1) by (rule u64_eq_0)
  also have "\<dots> \<longleftrightarrow> (\<forall>i < 5. \<forall>(b, t) \<in> set ?hints. \<not> pin i b t)"
    by (auto simp: sum_list_eq_0_iff filter_empty_conv simp del: upt_Suc filter.simps)
  finally have "sublist rejection_note (affinity_lines s) \<longleftrightarrow> (\<forall>i < 5. \<forall>(b, t) \<in> set ?hints. \<not> pin i b t)"
    using m(2) by (simp add: rejection_note_printed)
  moreover have "pinning_main R now ends pin = Some (Inr (pinning_report s pinned unpinned))" using s(1) m(3,4) by (simp add: pinning_main_def)
  moreover have "prefix ''Phase 8 pinning benchmark: 8 shards, 1000000 messages/run, 0.1% packet loss, 5 runs per variant'' (pinning_report s pinned unpinned)"
    unfolding pinning_report_def pinning_header_text append_assoc by (rule prefixI) (rule refl)
  ultimately show ?thesis using s(2) by blast
qed

theorem pinning_benchmark_witness:
  "\<exists>s p u. pinning_main counting_rng (\<lambda>k. int (k * k)) (\<lambda>_. True) (\<lambda>_ _ _. False) = Some (Inr (pinning_report s p u)) \<and>
    pinned_runs s = [1, 9, 17, 25, 33] \<and> affinity_attempted_total s = 85 \<and> sublist rejection_note (affinity_lines s)"
proof -
  have "64 \<le> card (set (words counting_rng 64 (seed_engine counting_rng 4242)))" "\<forall>b :: thread_body. (\<lambda>_. True) b" "mono (\<lambda>k. int (k * k))"
    using counting_words by (auto simp: mono_def mult_mono)
  from pinning_benchmark [OF this, of "\<lambda>_ _ _. False"]
  obtain s p u where s: "pinning_main counting_rng (\<lambda>k. int (k * k)) (\<lambda>_. True) (\<lambda>_ _ _. False) = Some (Inr (pinning_report s p u))"
    "measured (\<lambda>k. int (k * k)) (\<lambda>_ _ _. False) s p u" "sublist rejection_note (affinity_lines s)" by auto
  have "[0..<5] = [0, 1, 2, 3, 4 :: nat]" by (simp add: upt_rec)
  then have "pinned_runs s = [1, 9, 17, 25, 33]" "affinity_attempted_total s = 85" using s(2) by (simp_all add: measured_def)
  then show ?thesis using s by blast
qed

end
