(* ===== verification/Release_Acquire.thy ===== *)
theory Release_Acquire
  imports Main
begin

text \<open>
  The memory of C++ programs whose atomic operations are relaxed, acquire, release or both, as far as the ring buffer uses it: every location has its modification order, a list of the
  messages written to it, and every thread a view, which says for each location the newest message the thread has to know of.  A load may return every message that is not older than
  the view.  A release write puts the view of its thread into the message; an acquire load that returns the message adds that view to the one of the reader, so that what happened
  before the write happens before what follows the load.  A read-modify-write takes the last message and
  continues its release sequence.  A store becomes the last message; that is all there is for a location that only one thread stores to, or that is changed only by
  read-modify-write operations.
\<close>

type_synonym 'l view = "'l \<Rightarrow> nat"
type_synonym ('l, 'v) history = "'l \<Rightarrow> ('v \<times> 'l view) list"

datatype memory_order = Relaxed | Acquire | Release | Acq_rel

fun acquires :: "memory_order \<Rightarrow> bool" where
  "acquires ord = (ord = Acquire \<or> ord = Acq_rel)"

fun releases :: "memory_order \<Rightarrow> bool" where
  "releases ord = (ord = Release \<or> ord = Acq_rel)"

text \<open>The join of two views, and the view that knows nothing.\<close>

definition join_views :: "'l view \<Rightarrow> 'l view \<Rightarrow> 'l view" where
  "join_views V W = (\<lambda>l. max (V l) (W l))"

definition no_view :: "'l view" where
  "no_view = (\<lambda>_. 0)"

text \<open>A load of the message number \<open>i\<close>; \<open>None\<close> when the thread cannot read it (any more, or yet).\<close>

definition ra_load :: "memory_order \<Rightarrow> 'l \<Rightarrow> nat \<Rightarrow> ('l, 'v) history \<Rightarrow> 'l view \<Rightarrow> ('v \<times> 'l view) option" where
  "ra_load ord l i h V =
     (if V l \<le> i \<and> i < length (h l) then Some (fst (h l ! i), join_views (V(l := i)) (if acquires ord then snd (h l ! i) else no_view)) else None)"

definition ra_store :: "memory_order \<Rightarrow> 'l \<Rightarrow> 'v \<Rightarrow> ('l, 'v) history \<Rightarrow> 'l view \<Rightarrow> ('l, 'v) history \<times> 'l view" where
  "ra_store ord l v h V =
     (let n = length (h l); V' = V(l := n)
      in (h(l := h l @ [(v, if releases ord then V' else no_view(l := n))]), V'))"

text \<open>A read-modify-write operation that changes the last message to \<open>v\<close>.\<close>

definition ra_rmw :: "memory_order \<Rightarrow> 'l \<Rightarrow> 'v \<Rightarrow> ('l, 'v) history \<Rightarrow> 'l view \<Rightarrow> ('l, 'v) history \<times> 'l view" where
  "ra_rmw ord l v h V =
     (let n = length (h l); W = snd (last (h l));
          V' = (join_views V (if acquires ord then W else no_view))(l := n)
      in (h(l := h l @ [(v, join_views (if releases ord then V' else no_view(l := n)) W)]), V'))"

definition newest_message :: "'l \<Rightarrow> ('l, 'v) history \<Rightarrow> 'v" where
  "newest_message l h = fst (last (h l))"

subsection \<open>Views\<close>

lemma join_apply [simp]: "join_views V W l = max (V l) (W l)"
  by (simp add: join_views_def)

lemma no_view_apply [simp]: "no_view l = 0"
  by (simp add: no_view_def)

lemma join_no_view [simp]: "join_views V no_view = V"
  by (simp add: fun_eq_iff)

definition messages :: "('l, 'v) history \<Rightarrow> 'l view set" where
  "messages h = {snd (h l ! i) |l i. i < length (h l)}"

lemma message_in: "i < length (h l) \<Longrightarrow> snd (h l ! i) \<in> messages h"
  unfolding messages_def by blast

lemma last_message: "h l \<noteq> [] \<Longrightarrow> snd (last (h l)) \<in> messages h"
  by (simp add: last_conv_nth message_in)

lemma messages_append: "messages (h(l := h l @ [(v, V)])) = insert V (messages h)"
proof (rule set_eqI)
  fix W
  have *: "(\<exists>l' i. W = snd ((h(l := h l @ [(v, V)])) l' ! i) \<and> i < length ((h(l := h l @ [(v, V)])) l')) \<longleftrightarrow> W = V \<or> (\<exists>l' i. W = snd (h l' ! i) \<and> i < length (h l'))"
    (is "?L \<longleftrightarrow> ?R")
  proof
    assume ?L
    then show ?R by (auto simp: nth_append less_Suc_eq split: if_splits)
  next
    assume ?R
    then show ?L
    proof
      assume "W = V"
      then show ?L by (intro exI [of _ l] exI [of _ "length (h l)"]) simp
    next
      assume "\<exists>l' i. W = snd (h l' ! i) \<and> i < length (h l')"
      then obtain l' i where i: "W = snd (h l' ! i)" "i < length (h l')" by blast
      then show ?L by (intro exI [of _ l'] exI [of _ i]) (auto simp: nth_append)
    qed
  qed
  then show "W \<in> messages (h(l := h l @ [(v, V)])) \<longleftrightarrow> W \<in> insert V (messages h)" by (simp add: messages_def)
qed

text \<open>The effect of the operations on a view, when every message knows itself.\<close>

definition knows_itself :: "('l, 'v) history \<Rightarrow> bool" where
  "knows_itself h \<longleftrightarrow> (\<forall>l i. i < length (h l) \<longrightarrow> snd (h l ! i) l = i)"

lemma load_acquire:
  assumes "ra_load ord l i h V = Some (v, V')" "acquires ord" "knows_itself h"
  shows "V l \<le> i" "i < length (h l)" "v = fst (h l ! i)" "V' = join_views V (snd (h l ! i))"
proof -
  show i: "V l \<le> i" "i < length (h l)" and v: "v = fst (h l ! i)" using assms(1) by (auto simp: ra_load_def split: if_splits)
  have "V' = join_views (V(l := i)) (snd (h l ! i))" using assms(1,2) by (auto simp: ra_load_def split: if_splits)
  moreover have "snd (h l ! i) l = i" using assms(3) i(2) by (simp add: knows_itself_def)
  ultimately show "V' = join_views V (snd (h l ! i))" using i(1) by (auto simp: fun_eq_iff max_def)
qed

lemma load_any:
  assumes "ra_load ord l i h V = Some (v, V')"
  shows "V l \<le> i" "i < length (h l)" "v = fst (h l ! i)" "V' = V(l := i) \<or> V' = join_views (V(l := i)) (snd (h l ! i))"
  using assms by (auto simp: ra_load_def split: if_splits)

lemma knows_itself_append: "knows_itself h \<Longrightarrow> V l = length (h l) \<Longrightarrow> knows_itself (h(l := h l @ [(v, V)]))"
  by (auto simp: knows_itself_def nth_append)

end
