(* ===== verification/Ring_Weak.thy ===== *)
theory Ring_Weak
  imports Ring_Concurrent Release_Acquire
begin

text \<open>
  The ring buffer of \<open>concurrency/spsc_ring_buffer.hpp\<close> with the memory orders of its atomic operations, on the memory of \<open>Release_Acquire\<close>.  The program points are
  those of \<open>Ring_Concurrent\<close>.  A slot's \<open>value\<close> is not atomic: an access that does not happen after the conflicting ones before it is a data race.  To tell, the views also
  count the writes and the reads of each slot.  Two orders are parameters: \<open>source_orders\<close> are those of the code, \<open>acquire_orders\<close> a repair that is not in the code.  \<open>notify_waiters\<close> is called by the producer's thread, as in the
  program.
\<close>

subsection \<open>State\<close>

datatype wloc = L_tail | L_head | L_dropped | L_generation | L_flag nat | L_value nat | L_reads nat

record weak_orders =
  wo_head_load :: memory_order
  wo_cas_failure :: memory_order

text \<open>The load of \<open>head_\<close> in \<open>try_pop\<close>, and the failing compare-exchange in \<open>push\<close>.\<close>

definition source_orders :: weak_orders where
  "source_orders = \<lparr>wo_head_load = Relaxed, wo_cas_failure = Relaxed\<rparr>"

definition acquire_orders :: weak_orders where
  "acquire_orders = \<lparr>wo_head_load = Acquire, wo_cas_failure = Acquire\<rparr>"

record 'a weak =
  wk_cap :: nat
  wk_hist :: "(wloc, u64) history"
  wk_values :: "nat \<Rightarrow> 'a list"
  wk_reads :: "nat \<Rightarrow> nat"
  wk_pview :: "wloc view"
  wk_cview :: "wloc view"
  wk_ppc :: "'a ppc"
  wk_cpc :: cpc
  wk_pushed :: "'a list"
  wk_claims :: "bool list"
  wk_flags :: "nat list"
  wk_delivered :: "'a list"
  wk_race :: bool

definition weak_init :: "nat \<Rightarrow> 'a \<Rightarrow> 'a weak" where
  "weak_init cap v = \<lparr>wk_cap = cap, wk_hist = (\<lambda>_. [(0, no_view)]), wk_values = (\<lambda>_. [v]), wk_reads = (\<lambda>_. 0), wk_pview = no_view, wk_cview = no_view,
     wk_ppc = P_idle, wk_cpc = C_idle, wk_pushed = [], wk_claims = [], wk_flags = [], wk_delivered = [], wk_race = False\<rparr>"

definition wk_slot :: "u64 \<Rightarrow> 'a weak \<Rightarrow> nat" where
  "wk_slot i s = unat i mod wk_cap s"

subsection \<open>Accesses\<close>

text \<open>A load by the producer or the consumer, of the message number \<open>k\<close>, and what follows on the value.\<close>

definition p_load :: "memory_order \<Rightarrow> wloc \<Rightarrow> nat \<Rightarrow> (u64 \<Rightarrow> 'a ppc) \<Rightarrow> 'a weak \<Rightarrow> 'a weak option" where
  "p_load ord l k f s = map_option (\<lambda>(v, V). s\<lparr>wk_pview := V, wk_ppc := f v\<rparr>) (ra_load ord l k (wk_hist s) (wk_pview s))"

definition c_load :: "memory_order \<Rightarrow> wloc \<Rightarrow> nat \<Rightarrow> (u64 \<Rightarrow> cpc) \<Rightarrow> 'a weak \<Rightarrow> 'a weak option" where
  "c_load ord l k f s = map_option (\<lambda>(v, V). s\<lparr>wk_cview := V, wk_cpc := f v\<rparr>) (ra_load ord l k (wk_hist s) (wk_cview s))"

definition p_store :: "memory_order \<Rightarrow> wloc \<Rightarrow> u64 \<Rightarrow> 'a weak \<Rightarrow> 'a weak" where
  "p_store ord l v s = (let (h, V) = ra_store ord l v (wk_hist s) (wk_pview s) in s\<lparr>wk_hist := h, wk_pview := V\<rparr>)"

definition c_store :: "memory_order \<Rightarrow> wloc \<Rightarrow> u64 \<Rightarrow> 'a weak \<Rightarrow> 'a weak" where
  "c_store ord l v s = (let (h, V) = ra_store ord l v (wk_hist s) (wk_cview s) in s\<lparr>wk_hist := h, wk_cview := V\<rparr>)"

definition p_rmw :: "memory_order \<Rightarrow> wloc \<Rightarrow> u64 \<Rightarrow> 'a weak \<Rightarrow> 'a weak" where
  "p_rmw ord l v s = (let (h, V) = ra_rmw ord l v (wk_hist s) (wk_pview s) in s\<lparr>wk_hist := h, wk_pview := V\<rparr>)"

definition c_rmw :: "memory_order \<Rightarrow> wloc \<Rightarrow> u64 \<Rightarrow> 'a weak \<Rightarrow> 'a weak" where
  "c_rmw ord l v s = (let (h, V) = ra_rmw ord l v (wk_hist s) (wk_cview s) in s\<lparr>wk_hist := h, wk_cview := V\<rparr>)"

text \<open>\<open>compare_exchange_strong\<close> finds the expected value only in the last message of \<open>head_\<close>; any other value it may load makes it fail.\<close>

definition cas_succeeds :: "nat \<Rightarrow> u64 \<Rightarrow> 'a weak \<Rightarrow> bool" where
  "cas_succeeds k expected s \<longleftrightarrow> k + 1 = length (wk_hist s L_head) \<and> fst (wk_hist s L_head ! k) = expected"

definition cas_fails :: "nat \<Rightarrow> u64 \<Rightarrow> 'a weak \<Rightarrow> bool" where
  "cas_fails k expected s \<longleftrightarrow> k < length (wk_hist s L_head) \<and> fst (wk_hist s L_head ! k) \<noteq> expected"

definition write_value :: "nat \<Rightarrow> 'a \<Rightarrow> 'a weak \<Rightarrow> 'a weak" where
  "write_value i x s =
     (let n = length (wk_values s i)
      in s\<lparr>wk_race := wk_race s \<or> wk_pview s (L_value i) \<noteq> n - 1 \<or> wk_pview s (L_reads i) \<noteq> wk_reads s i,
           wk_values := (wk_values s)(i := wk_values s i @ [x]), wk_pview := (wk_pview s)(L_value i := n)\<rparr>)"

definition read_value :: "nat \<Rightarrow> 'a weak \<Rightarrow> 'a weak" where
  "read_value i s =
     s\<lparr>wk_race := wk_race s \<or> wk_cview s (L_value i) \<noteq> length (wk_values s i) - 1,
       wk_delivered := wk_delivered s @ [last (wk_values s i)],
       wk_reads := (wk_reads s)(i := wk_reads s i + 1), wk_cview := (wk_cview s)(L_reads i := wk_reads s i + 1)\<rparr>"

subsection \<open>The producer\<close>

definition weak_push_step :: "weak_orders \<Rightarrow> nat \<Rightarrow> 'a weak \<Rightarrow> 'a weak option" where
  "weak_push_step ords k s =
     (case wk_ppc s of
        P_idle \<Rightarrow> None
      | P_load_tail item \<Rightarrow> p_load Relaxed L_tail k (\<lambda>tail. P_load_head item tail) s
      | P_load_head item tail \<Rightarrow>
          p_load Acquire L_head k (\<lambda>head. if of_nat (wk_cap s) \<le> tail - head then P_cas item tail head else P_spin item tail) s
      | P_cas item tail head \<Rightarrow>
          if cas_succeeds k head s then
            Some (p_rmw Acq_rel L_head (head + 1)
              (s\<lparr>wk_ppc := P_count item tail, wk_claims := wk_claims s @ [False], wk_flags := wk_flags s @ [0]\<rparr>))
          else if cas_fails k head s then p_load (wo_cas_failure ords) L_head k (\<lambda>_. P_spin item tail) s
          else None
      | P_count item tail \<Rightarrow> Some (p_rmw Relaxed L_dropped (newest_message L_dropped (wk_hist s) + 1) (s\<lparr>wk_ppc := P_spin item tail\<rparr>))
      | P_spin item tail \<Rightarrow>
          p_load Acquire (L_flag (wk_slot tail s)) k (\<lambda>active. if active \<noteq> 0 then P_spin item tail else P_write item tail) s
      | P_write item tail \<Rightarrow> Some (write_value (wk_slot tail s) item (s\<lparr>wk_ppc := P_store item tail\<rparr>))
      | P_store item tail \<Rightarrow>
          Some (p_store Release L_tail (tail + 1) (s\<lparr>wk_ppc := P_gen, wk_pushed := wk_pushed s @ [item]\<rparr>))
      | P_gen \<Rightarrow> Some (p_rmw Release L_generation (newest_message L_generation (wk_hist s) + 1) (s\<lparr>wk_ppc := P_idle\<rparr>)))"

subsection \<open>The consumer\<close>

text \<open>At a successful compare-exchange the ghost field \<open>wk_flags\<close> records the number of the flag message that announced the read.\<close>

definition weak_try_pop_step :: "weak_orders \<Rightarrow> nat \<Rightarrow> 'a weak \<Rightarrow> 'a weak option" where
  "weak_try_pop_step ords k s =
     (case wk_cpc s of
        C_load_head \<Rightarrow> c_load (wo_head_load ords) L_head k C_load_tail s
      | C_load_tail head \<Rightarrow> c_load Acquire L_tail k (\<lambda>tail. if tail = head then C_idle else C_flag head) s
      | C_flag head \<Rightarrow> Some (c_store Release (L_flag (wk_slot head s)) 1 (s\<lparr>wk_cpc := C_cas head\<rparr>))
      | C_cas head \<Rightarrow>
          if cas_succeeds k head s then
            Some (c_rmw Acq_rel L_head (head + 1)
              (s\<lparr>wk_cpc := C_read head, wk_claims := wk_claims s @ [True], wk_flags := wk_flags s @ [wk_cview s (L_flag (wk_slot head s))]\<rparr>))
          else if cas_fails k head s then c_load Relaxed L_head k (\<lambda>_. C_retract head) s
          else None
      | C_retract head \<Rightarrow> Some (c_store Release (L_flag (wk_slot head s)) 0 (s\<lparr>wk_cpc := C_idle\<rparr>))
      | C_read head \<Rightarrow> Some (read_value (wk_slot head s) (s\<lparr>wk_cpc := C_clear head\<rparr>))
      | C_clear head \<Rightarrow> Some (c_store Release (L_flag (wk_slot head s)) 0 (s\<lparr>wk_cpc := C_idle\<rparr>))
      | _ \<Rightarrow> None)"

definition weak_wait_step :: "bool \<Rightarrow> nat \<Rightarrow> 'a weak \<Rightarrow> 'a weak option" where
  "weak_wait_step tail_first k s =
     (case wk_cpc s of
        W_first \<Rightarrow> if tail_first then c_load Acquire L_tail k W_first_tail s else c_load Relaxed L_head k W_first_head s
      | W_first_tail tail \<Rightarrow> c_load Relaxed L_head k (\<lambda>head. if tail \<noteq> head then C_idle else W_gen) s
      | W_first_head head \<Rightarrow> c_load Acquire L_tail k (\<lambda>tail. if tail \<noteq> head then C_idle else W_gen) s
      | W_gen \<Rightarrow> c_load Acquire L_generation k W_again s
      | W_again g \<Rightarrow> if tail_first then c_load Acquire L_tail k (W_again_tail g) s else c_load Relaxed L_head k (W_again_head g) s
      | W_again_tail g tail \<Rightarrow> c_load Relaxed L_head k (\<lambda>head. if tail \<noteq> head then C_idle else W_wait g) s
      | W_again_head g head \<Rightarrow> c_load Acquire L_tail k (\<lambda>tail. if tail \<noteq> head then C_idle else W_wait g) s
      | W_wait g \<Rightarrow> c_load Acquire L_generation k (\<lambda>g'. if g' \<noteq> g then C_idle else W_wait g) s
      | _ \<Rightarrow> None)"

subsection \<open>Executions\<close>

datatype 'a weak_event = Wk_push 'a | Wk_notify | Wk_producer nat | Wk_try_pop | Wk_wait | Wk_consumer bool nat

fun weak_step :: "weak_orders \<Rightarrow> 'a weak_event \<Rightarrow> 'a weak \<Rightarrow> 'a weak option" where
  "weak_step ords (Wk_push x) s = (if wk_ppc s = P_idle then Some (s\<lparr>wk_ppc := P_load_tail x\<rparr>) else None)"
| "weak_step ords Wk_notify s = (if wk_ppc s = P_idle then Some (s\<lparr>wk_ppc := P_gen\<rparr>) else None)"
| "weak_step ords (Wk_producer k) s = weak_push_step ords k s"
| "weak_step ords Wk_try_pop s = (if wk_cpc s = C_idle then Some (s\<lparr>wk_cpc := C_load_head\<rparr>) else None)"
| "weak_step ords Wk_wait s = (if wk_cpc s = C_idle then Some (s\<lparr>wk_cpc := W_first\<rparr>) else None)"
| "weak_step ords (Wk_consumer b k) s = (case weak_try_pop_step ords k s of None \<Rightarrow> weak_wait_step b k s | Some s' \<Rightarrow> Some s')"

fun weak_run :: "weak_orders \<Rightarrow> 'a weak_event list \<Rightarrow> 'a weak \<Rightarrow> 'a weak option" where
  "weak_run ords [] s = Some s"
| "weak_run ords (e # es) s = (case weak_step ords e s of None \<Rightarrow> None | Some s' \<Rightarrow> weak_run ords es s')"

subsection \<open>The orders of the code are too weak\<close>

text \<open>
  Two executions on a buffer of one slot.  In both the first item has been pushed.  \<open>lost_eviction\<close>: the consumer announces its read of it, the producer finds the buffer full, the consumer
  wins \<open>head_\<close>, and the producer, whose compare-exchange fails, need not see the announcement.  \<open>stale_tail\<close>: the producer evicts the first item to make room for a second one; the
  consumer sees the new \<open>head_\<close> with the initial \<open>tail_\<close>, takes the difference for items and claims the one that is not written yet.  \<open>handover\<close> pushes one item and pops it.
\<close>

definition first_push :: "nat weak_event list" where
  "first_push = Wk_push 7 # replicate 6 (Wk_producer 0)"

definition handover :: "nat weak_event list" where
  "handover = first_push @ [Wk_try_pop, Wk_consumer True 0, Wk_consumer True 1, Wk_consumer True 0, Wk_consumer True 0, Wk_consumer True 0, Wk_consumer True 0]"

definition lost_eviction :: "nat weak_event list" where
  "lost_eviction = first_push @
     [Wk_try_pop, Wk_consumer True 0, Wk_consumer True 1, Wk_consumer True 0,
      Wk_push 8, Wk_producer 1, Wk_producer 0,
      Wk_consumer True 0, Wk_producer 1, Wk_producer 0,
      Wk_consumer True 0, Wk_producer 0]"

definition stale_tail :: "nat weak_event list" where
  "stale_tail = first_push @
     [Wk_push 8, Wk_producer 1, Wk_producer 0, Wk_producer 0, Wk_producer 0, Wk_producer 0,
      Wk_try_pop, Wk_consumer True 1, Wk_consumer True 0, Wk_consumer True 0, Wk_consumer True 1,
      Wk_consumer True 0, Wk_producer 0]"

lemmas weak_eval = weak_init_def weak_push_step_def weak_try_pop_step_def p_load_def c_load_def p_store_def c_store_def p_rmw_def c_rmw_def
  cas_succeeds_def cas_fails_def write_value_def read_value_def wk_slot_def newest_message_def ra_load_def ra_store_def ra_rmw_def Let_def

lemma lost_eviction_races:
  assumes "wo_cas_failure ords = Relaxed"
  shows "\<exists>s. weak_run ords lost_eviction (weak_init 1 0) = Some s \<and> wk_race s"
  using assms by (simp add: lost_eviction_def first_push_def weak_eval numeral_eq_Suc)

lemma stale_tail_races:
  assumes "wo_head_load ords = Relaxed"
  shows "\<exists>s. weak_run ords stale_tail (weak_init 1 0) = Some s \<and> wk_race s \<and> wk_pushed s = [7] \<and> wk_claims s = [False, True] \<and> wk_delivered s = [7]"
  using assms by (simp add: stale_tail_def first_push_def weak_eval numeral_eq_Suc)

text \<open>
  C6.  The two relaxed loads of the code, of \<open>head_\<close> in \<open>try_pop\<close> and by the failing compare-exchange in \<open>push\<close>, are both too weak: each of them alone lets the
  producer overwrite a slot's value while the consumer reads it, whatever the other one is.  The relaxed load of \<open>head_\<close> also lets the consumer claim index 1 when one item has been
  pushed, and deliver the item that was already dropped.
\<close>

theorem source_orders_race:
  "(\<exists>s. weak_run source_orders lost_eviction (weak_init 1 0) = Some s \<and> wk_race s) \<and>
   (\<exists>s. weak_run (source_orders\<lparr>wo_head_load := Acquire\<rparr>) lost_eviction (weak_init 1 0) = Some s \<and> wk_race s) \<and>
   (\<exists>s. weak_run source_orders stale_tail (weak_init 1 0) = Some s \<and> wk_race s \<and> wk_pushed s = [7] \<and> wk_claims s = [False, True] \<and> wk_delivered s = [7]) \<and>
   (\<exists>s. weak_run (source_orders\<lparr>wo_cas_failure := Acquire\<rparr>) stale_tail (weak_init 1 0) = Some s \<and> wk_race s)"
proof (intro conjI)
  show "\<exists>s. weak_run source_orders lost_eviction (weak_init 1 0) = Some s \<and> wk_race s"
    "\<exists>s. weak_run (source_orders\<lparr>wo_head_load := Acquire\<rparr>) lost_eviction (weak_init 1 0) = Some s \<and> wk_race s"
    by (rule lost_eviction_races, simp add: source_orders_def)+
  show "\<exists>s. weak_run source_orders stale_tail (weak_init 1 0) = Some s \<and> wk_race s \<and> wk_pushed s = [7] \<and> wk_claims s = [False, True] \<and> wk_delivered s = [7]"
    by (rule stale_tail_races) (simp add: source_orders_def)
  show "\<exists>s. weak_run (source_orders\<lparr>wo_cas_failure := Acquire\<rparr>) stale_tail (weak_init 1 0) = Some s \<and> wk_race s"
    using stale_tail_races [of "source_orders\<lparr>wo_cas_failure := Acquire\<rparr>"] by (auto simp: source_orders_def)
qed

end
