(* ===== verification/Ring_Weak_Safety.thy ===== *)
theory Ring_Weak_Safety
  imports Ring_Weak
begin

text \<open>
  The invariant of the ring buffer on the weak memory, and a repair: with the load of \<open>head_\<close> in \<open>try_pop\<close> and the failing compare-exchange of \<open>push\<close> as acquire operations, which they
  are not in the code, the ring buffer is free of data races on the weak memory, and what
  it delivers is right.  The invariant says what the views know: a view that knows a value of \<open>tail_\<close> knows the writes of all items before it, and a view that knows a value of \<open>head_\<close>
  knows the announcements of all reads that were claimed before it.
\<close>

subsection \<open>Writes per slot\<close>

text \<open>How many of the first \<open>n\<close> items go to slot \<open>i\<close>.\<close>

fun laps :: "nat \<Rightarrow> nat \<Rightarrow> nat \<Rightarrow> nat" where
  "laps cap i 0 = 0"
| "laps cap i (Suc n) = laps cap i n + (if n mod cap = i then 1 else 0)"

lemma laps_mono: "n \<le> m \<Longrightarrow> laps cap i n \<le> laps cap i m"
  by (induction m) (auto simp: le_Suc_eq)

lemma laps_window: "h < n \<Longrightarrow> n \<le> h + cap \<Longrightarrow> laps cap (h mod cap) n = laps cap (h mod cap) (Suc h)"
proof (induction n)
  case (Suc n)
  show ?case
  proof (cases "n = h")
    case False
    then have "n mod cap \<noteq> h mod cap" using Suc.prems mod_eq_close [of h cap n] by auto
    then show ?thesis using Suc False by simp
  qed simp
qed simp

lemma laps_inj: "j < n \<Longrightarrow> laps cap (j mod cap) j < laps cap (j mod cap) n"
  using laps_mono [of "Suc j" n cap "j mod cap"] by simp

subsection \<open>The invariant\<close>

fun in_progress :: "'a ppc \<Rightarrow> 'a list" where
  "in_progress (P_store x t) = [x]"
| "in_progress _ = []"

definition items :: "'a weak \<Rightarrow> 'a list" where
  "items s = wk_pushed s @ in_progress (wk_ppc s)"

text \<open>The newest message of each location.\<close>

fun latest :: "'a weak \<Rightarrow> wloc \<Rightarrow> nat" where
  "latest s (L_value i) = laps (wk_cap s) i (length (items s))"
| "latest s (L_reads i) = wk_reads s i"
| "latest s l = length (wk_hist s l) - 1"

definition known :: "'a weak \<Rightarrow> wloc view \<Rightarrow> bool" where
  "known s V \<longleftrightarrow> (\<forall>l. V l \<le> latest s l) \<and> (\<forall>i. laps (wk_cap s) i (V L_tail) \<le> V (L_value i)) \<and>
     (\<forall>j < V L_head. wk_flags s ! j \<le> V (L_flag (j mod wk_cap s)))"

definition all_known :: "'a weak \<Rightarrow> bool" where
  "all_known s \<longleftrightarrow> known s (wk_pview s) \<and> known s (wk_cview s) \<and> (\<forall>V \<in> messages (wk_hist s). known s V)"

definition histories_ok :: "'a weak \<Rightarrow> bool" where
  "histories_ok s \<longleftrightarrow> 0 < wk_cap s \<and> wk_cap s < 2 ^ 64 \<and> length (wk_pushed s) < 2 ^ 64 \<and> length (wk_claims s) \<le> length (wk_pushed s) \<and>
     length (wk_flags s) = length (wk_claims s) \<and> knows_itself (wk_hist s) \<and> (\<forall>l. wk_hist s l \<noteq> []) \<and>
     length (wk_hist s L_tail) = Suc (length (wk_pushed s)) \<and> (\<forall>j \<le> length (wk_pushed s). fst (wk_hist s L_tail ! j) = of_nat j) \<and>
     length (wk_hist s L_head) = Suc (length (wk_claims s)) \<and>
     (\<forall>j \<le> length (wk_claims s). fst (wk_hist s L_head ! j) = of_nat j \<and> j \<le> snd (wk_hist s L_head ! j) L_tail)"

definition values_ok :: "'a weak \<Rightarrow> bool" where
  "values_ok s \<longleftrightarrow> (\<forall>i. length (wk_values s i) = Suc (laps (wk_cap s) i (length (items s)))) \<and>
     (\<forall>j < length (items s). wk_values s (j mod wk_cap s) ! Suc (laps (wk_cap s) (j mod wk_cap s) j) = items s ! j)"

text \<open>The flag of a slot is raised and lowered in turn; the consumer is the only one to do so.\<close>

definition raised :: "nat \<Rightarrow> 'a weak \<Rightarrow> bool" where
  "raised i s \<longleftrightarrow> (\<exists>h. flag_holder (wk_cpc s) = Some h \<and> wk_slot h s = i)"

definition flags_alternate :: "'a weak \<Rightarrow> bool" where
  "flags_alternate s \<longleftrightarrow> (\<forall>i. even (length (wk_hist s (L_flag i))) = raised i s) \<and>
     (\<forall>i e. e < length (wk_hist s (L_flag i)) \<longrightarrow> (fst (wk_hist s (L_flag i) ! e) = 0) = even e) \<and>
     (\<forall>j < length (wk_claims s). wk_claims s ! j \<longrightarrow> odd (wk_flags s ! j))"

definition own_views :: "'a weak \<Rightarrow> bool" where
  "own_views s \<longleftrightarrow> wk_pview s L_tail = length (wk_pushed s) \<and> (\<forall>i. wk_pview s (L_value i) = latest s (L_value i)) \<and>
     (\<forall>i. wk_cview s (L_flag i) = latest s (L_flag i)) \<and> (\<forall>i. wk_cview s (L_reads i) = latest s (L_reads i)) \<and>
     length (wk_pushed s) \<le> wk_cap s + wk_pview s L_head"

text \<open>All reads of slot \<open>i\<close> that were claimed were announced before message \<open>e\<close> of its flag.\<close>

definition announced :: "nat \<Rightarrow> nat \<Rightarrow> 'a weak \<Rightarrow> bool" where
  "announced i e s \<longleftrightarrow> (\<forall>j < length (wk_claims s). wk_claims s ! j \<and> j mod wk_cap s = i \<longrightarrow> wk_flags s ! j < e)"

definition reads_done :: "'a weak \<Rightarrow> bool" where
  "reads_done s \<longleftrightarrow> (\<forall>i e. e < length (wk_hist s (L_flag i)) \<longrightarrow> even e \<longrightarrow> announced i e s \<longrightarrow>
     wk_reads s i \<le> snd (wk_hist s (L_flag i) ! e) (L_reads i))"

fun pc_producer :: "'a weak \<Rightarrow> 'a ppc \<Rightarrow> bool" where
  "pc_producer s P_idle = True"
| "pc_producer s (P_load_tail x) = True"
| "pc_producer s (P_load_head x t) = (unat t = length (wk_pushed s))"
| "pc_producer s (P_cas x t h) = (unat t = length (wk_pushed s) \<and> unat h = wk_pview s L_head \<and> wk_cap s + wk_pview s L_head \<le> length (wk_pushed s))"
| "pc_producer s (P_count x t) = (unat t = length (wk_pushed s) \<and> length (wk_pushed s) < wk_cap s + wk_pview s L_head)"
| "pc_producer s (P_spin x t) = (unat t = length (wk_pushed s) \<and> length (wk_pushed s) < wk_cap s + wk_pview s L_head)"
| "pc_producer s (P_write x t) = (unat t = length (wk_pushed s) \<and> length (wk_pushed s) < wk_cap s + wk_pview s L_head \<and>
     wk_reads s (wk_slot t s) \<le> wk_pview s (L_reads (wk_slot t s)) \<and> announced (wk_slot t s) (wk_pview s (L_flag (wk_slot t s))) s)"
| "pc_producer s (P_store x t) = (unat t = length (wk_pushed s) \<and> length (wk_pushed s) < wk_cap s + wk_pview s L_head)"
| "pc_producer s P_gen = True"

fun pc_consumer :: "'a weak \<Rightarrow> cpc \<Rightarrow> bool" where
  "pc_consumer s (C_load_tail h) = (unat h \<le> wk_cview s L_tail)"
| "pc_consumer s (C_flag h) = (unat h < wk_cview s L_tail)"
| "pc_consumer s (C_cas h) = (unat h < wk_cview s L_tail)"
| "pc_consumer s (C_read h) = (unat h < wk_cview s L_tail \<and> unat h < length (wk_claims s) \<and> wk_claims s ! unat h \<and>
     wk_flags s ! unat h = latest s (L_flag (wk_slot h s)) \<and> length (items s) \<le> unat h + wk_cap s)"
| "pc_consumer s _ = True"

definition weak_inv :: "'a weak \<Rightarrow> bool" where
  "weak_inv s \<longleftrightarrow> histories_ok s \<and> values_ok s \<and> flags_alternate s \<and> all_known s \<and> own_views s \<and> reads_done s \<and>
     pc_producer s (wk_ppc s) \<and> pc_consumer s (wk_cpc s) \<and> \<not> wk_race s \<and>
     picked (wk_pushed s) (wk_claims s) = wk_delivered s @ in_flight (wk_pushed s) (wk_cpc s)"

lemma weak_invD:
  assumes "weak_inv s"
  shows "histories_ok s" "values_ok s" "flags_alternate s" "all_known s" "own_views s" "reads_done s" "pc_producer s (wk_ppc s)"
    "pc_consumer s (wk_cpc s)" "\<not> wk_race s" "picked (wk_pushed s) (wk_claims s) = wk_delivered s @ in_flight (wk_pushed s) (wk_cpc s)"
  using assms by (simp_all add: weak_inv_def)

lemma weak_init_inv:
  assumes "0 < cap" "cap < 2 ^ 64"
  shows "weak_inv (weak_init cap v)"
proof -
  have "known (weak_init cap v) no_view" by (simp add: known_def)
  then have "all_known (weak_init cap v)" by (simp add: all_known_def messages_def weak_init_def)
  moreover have "histories_ok (weak_init cap v)" using assms by (simp add: histories_ok_def weak_init_def knows_itself_def)
  moreover have "values_ok (weak_init cap v)" by (simp add: values_ok_def weak_init_def items_def)
  moreover have "flags_alternate (weak_init cap v)" by (simp add: flags_alternate_def raised_def weak_init_def)
  moreover have "own_views (weak_init cap v)" by (simp add: own_views_def weak_init_def items_def)
  moreover have "reads_done (weak_init cap v)" by (simp add: reads_done_def weak_init_def)
  ultimately show ?thesis unfolding weak_inv_def by (simp add: picked_def) (simp add: weak_init_def)
qed

subsection \<open>What views know\<close>

lemma known_join: "known s V \<Longrightarrow> known s W \<Longrightarrow> known s (join_views V W)"
proof -
  assume V: "known s V" and W: "known s W"
  have "laps (wk_cap s) i (max (V L_tail) (W L_tail)) \<le> max (V (L_value i)) (W (L_value i))" for i
    using V W by (cases "V L_tail \<le> W L_tail") (auto simp: known_def max_def le_max_iff_disj intro: order_trans)
  moreover have "wk_flags s ! j \<le> max (V (L_flag (j mod wk_cap s))) (W (L_flag (j mod wk_cap s)))" if "j < max (V L_head) (W L_head)" for j
    using V W that by (auto simp: known_def less_max_iff_disj le_max_iff_disj)
  ultimately show ?thesis using V W by (simp add: known_def)
qed

lemma known_mono:
  assumes "known s V" "wk_cap s' = wk_cap s" "\<And>l. latest s l \<le> latest s' l" "\<And>j. j < V L_head \<Longrightarrow> wk_flags s' ! j = wk_flags s ! j"
  shows "known s' V"
  using assms unfolding known_def by (metis order_trans)

lemma known_no_view: "known s (no_view(l := n)) \<longleftrightarrow> n \<le> latest s l \<and> (l = L_tail \<longrightarrow> (\<forall>i. laps (wk_cap s) i n = 0)) \<and> (l = L_head \<longrightarrow> (\<forall>j < n. wk_flags s ! j = 0))"
  unfolding known_def by (cases l) (auto simp: fun_upd_def)

lemma message_known: "all_known s \<Longrightarrow> i < length (wk_hist s l) \<Longrightarrow> known s (snd (wk_hist s l ! i))"
  using message_in [of i "wk_hist s" l] by (simp add: all_known_def)

subsection \<open>Loads\<close>

text \<open>A step that only lets the producer know more, and one that only lets the consumer know more.\<close>

lemma items_load [simp]:
  "items (s\<lparr>wk_cview := V, wk_cpc := c\<rparr>) = items s"
  "in_progress (wk_ppc s) = [] \<Longrightarrow> in_progress pc = [] \<Longrightarrow> items (s\<lparr>wk_pview := V, wk_ppc := pc\<rparr>) = items s"
  by (simp_all add: items_def)

lemma latest_load [simp]:
  "latest (s\<lparr>wk_cview := V, wk_cpc := c\<rparr>) l = latest s l"
  "in_progress (wk_ppc s) = [] \<Longrightarrow> in_progress pc = [] \<Longrightarrow> latest (s\<lparr>wk_pview := V, wk_ppc := pc\<rparr>) l = latest s l"
  by (cases l; simp)+

lemma known_load [simp]:
  "known (s\<lparr>wk_cview := V, wk_cpc := c\<rparr>) W = known s W"
  "in_progress (wk_ppc s) = [] \<Longrightarrow> in_progress pc = [] \<Longrightarrow> known (s\<lparr>wk_pview := V, wk_ppc := pc\<rparr>) W = known s W"
  by (simp_all add: known_def)

lemma slot_load [simp]: "wk_slot h (s\<lparr>wk_cview := V, wk_cpc := c\<rparr>) = wk_slot h s" "wk_slot h (s\<lparr>wk_pview := V, wk_ppc := pc\<rparr>) = wk_slot h s"
  by (simp_all add: wk_slot_def)

lemma announced_load [simp]: "announced i e (s\<lparr>wk_cview := V, wk_cpc := c\<rparr>) = announced i e s" "announced i e (s\<lparr>wk_pview := V, wk_ppc := pc\<rparr>) = announced i e s"
  by (simp_all add: announced_def)

lemma pc_consumer_load [simp]: "in_progress (wk_ppc s) = [] \<Longrightarrow> in_progress pc = [] \<Longrightarrow> pc_consumer (s\<lparr>wk_pview := V, wk_ppc := pc\<rparr>) c = pc_consumer s c"
  by (cases c) simp_all

lemma pc_producer_load [simp]: "pc_producer (s\<lparr>wk_cview := V, wk_cpc := c\<rparr>) pc = pc_producer s pc"
  by (cases pc) simp_all

lemma producer_view_inv:
  assumes inv: "weak_inv s" and V: "known s V" "\<And>l. wk_pview s l \<le> V l"
    and pc: "in_progress (wk_ppc s) = []" "in_progress pc = []" "pc_producer (s\<lparr>wk_pview := V, wk_ppc := pc\<rparr>) pc"
  shows "weak_inv (s\<lparr>wk_pview := V, wk_ppc := pc\<rparr>)"
proof -
  note i = weak_invD [OF inv]
  have le: "V l \<le> latest s l" for l using V(1) by (simp add: known_def)
  have "V L_tail = length (wk_pushed s)" using V(2) [of L_tail] le [of L_tail] i(1,5) by (simp add: own_views_def histories_ok_def)
  moreover have "V (L_value j) = latest s (L_value j)" for j using V(2) [of "L_value j"] le [of "L_value j"] i(5) by (auto simp: own_views_def)
  ultimately have "own_views (s\<lparr>wk_pview := V, wk_ppc := pc\<rparr>)"
    using i(5) V(2) [of L_head] pc by (auto simp: own_views_def)
  then show ?thesis
    using i V(1) pc by (simp add: weak_inv_def histories_ok_def values_ok_def flags_alternate_def raised_def all_known_def reads_done_def)
qed

lemma consumer_view_inv:
  assumes inv: "weak_inv s" and V: "known s V" "\<And>l. wk_cview s l \<le> V l"
    and pc: "flag_holder c = flag_holder (wk_cpc s)" "in_flight (wk_pushed s) c = in_flight (wk_pushed s) (wk_cpc s)" "pc_consumer (s\<lparr>wk_cview := V, wk_cpc := c\<rparr>) c"
  shows "weak_inv (s\<lparr>wk_cview := V, wk_cpc := c\<rparr>)"
proof -
  note i = weak_invD [OF inv]
  have le: "V l \<le> latest s l" for l using V(1) by (simp add: known_def)
  have "V (L_flag j) = latest s (L_flag j)" "V (L_reads j) = latest s (L_reads j)" for j
    using V(2) [of "L_flag j"] le [of "L_flag j"] V(2) [of "L_reads j"] le [of "L_reads j"] i(5) by (auto simp: own_views_def)
  then have "own_views (s\<lparr>wk_cview := V, wk_cpc := c\<rparr>)" using i(5) by (auto simp: own_views_def)
  then show ?thesis
    using i V(1) pc by (simp add: weak_inv_def histories_ok_def values_ok_def flags_alternate_def raised_def all_known_def reads_done_def)
qed

lemma p_load_acquire:
  assumes "p_load ord l k f s = Some s'" "acquires ord" "weak_inv s"
  obtains V where "s' = s\<lparr>wk_pview := V, wk_ppc := f (fst (wk_hist s l ! k))\<rparr>" "known s V" "\<And>l'. wk_pview s l' \<le> V l'" "V l = k"
    "wk_pview s l \<le> k" "k < length (wk_hist s l)" "\<And>l'. snd (wk_hist s l ! k) l' \<le> V l'"
proof -
  note i = weak_invD [OF assms(3)]
  have kn: "knows_itself (wk_hist s)" using i(1) by (simp add: histories_ok_def)
  obtain v V where ld: "ra_load ord l k (wk_hist s) (wk_pview s) = Some (v, V)" "s' = s\<lparr>wk_pview := V, wk_ppc := f v\<rparr>"
    using assms(1) by (auto simp: p_load_def)
  note a = load_acquire [OF ld(1) assms(2) kn]
  have "known s V" unfolding a(4) using i(4) message_known [OF i(4) a(2)] by (intro known_join) (simp_all add: all_known_def)
  moreover have "V l = k" using a kn by (simp add: knows_itself_def)
  ultimately show thesis using that [of V] ld(2) a by simp
qed

lemma c_load_acquire:
  assumes "c_load ord l k f s = Some s'" "acquires ord" "weak_inv s"
  obtains V where "s' = s\<lparr>wk_cview := V, wk_cpc := f (fst (wk_hist s l ! k))\<rparr>" "known s V" "\<And>l'. wk_cview s l' \<le> V l'" "V l = k"
    "wk_cview s l \<le> k" "k < length (wk_hist s l)" "\<And>l'. snd (wk_hist s l ! k) l' \<le> V l'"
proof -
  note i = weak_invD [OF assms(3)]
  have kn: "knows_itself (wk_hist s)" using i(1) by (simp add: histories_ok_def)
  obtain v V where ld: "ra_load ord l k (wk_hist s) (wk_cview s) = Some (v, V)" "s' = s\<lparr>wk_cview := V, wk_cpc := f v\<rparr>"
    using assms(1) by (auto simp: c_load_def)
  note a = load_acquire [OF ld(1) assms(2) kn]
  have "known s V" unfolding a(4) using i(4) message_known [OF i(4) a(2)] by (intro known_join) (simp_all add: all_known_def)
  moreover have "V l = k" using a kn by (simp add: knows_itself_def)
  ultimately show thesis using that [of V] ld(2) a by simp
qed

text \<open>The consumer knows every announcement, so that a relaxed load of \<open>head_\<close> does it no harm.\<close>

lemma flags_bounded:
  assumes "weak_inv s" "j < length (wk_claims s)"
  shows "wk_flags s ! j \<le> latest s (L_flag (j mod wk_cap s))"
proof -
  note i = weak_invD [OF assms(1)]
  have n: "length (wk_claims s) < length (wk_hist s L_head)" using i(1) by (simp add: histories_ok_def)
  let ?W = "snd (wk_hist s L_head ! length (wk_claims s))"
  have "?W L_head = length (wk_claims s)" using i(1) n by (simp add: histories_ok_def knows_itself_def)
  then have "wk_flags s ! j \<le> ?W (L_flag (j mod wk_cap s))" using message_known [OF i(4) n] assms(2) by (simp add: known_def)
  also have "\<dots> \<le> latest s (L_flag (j mod wk_cap s))" using message_known [OF i(4) n] unfolding known_def by blast
  finally show ?thesis .
qed

lemma c_load_head_relaxed:
  assumes "c_load Relaxed L_head k f s = Some s'" "weak_inv s"
  obtains V where "s' = s\<lparr>wk_cview := V, wk_cpc := f (fst (wk_hist s L_head ! k))\<rparr>" "known s V" "\<And>l'. wk_cview s l' \<le> V l'" "V L_tail = wk_cview s L_tail"
    "k < length (wk_hist s L_head)"
proof -
  note i = weak_invD [OF assms(2)]
  obtain v V where ld: "ra_load Relaxed L_head k (wk_hist s) (wk_cview s) = Some (v, V)" "s' = s\<lparr>wk_cview := V, wk_cpc := f v\<rparr>"
    using assms(1) by (auto simp: c_load_def)
  have k: "wk_cview s L_head \<le> k" "k < length (wk_hist s L_head)" "v = fst (wk_hist s L_head ! k)" "V = (wk_cview s)(L_head := k)"
    using ld(1) by (auto simp: ra_load_def split: if_splits)
  have c: "known s (wk_cview s)" using i(4) by (simp add: all_known_def)
  have "wk_flags s ! j \<le> wk_cview s (L_flag (j mod wk_cap s))" if "j < k" for j
    using flags_bounded [OF assms(2), of j] that k(2) i(1,5) by (simp add: histories_ok_def own_views_def)
  then have "known s V" using c k(1,2) unfolding k(4) known_def by auto
  moreover have "wk_cview s l' \<le> V l'" for l' using k(1,4) by simp
  ultimately show thesis using that [of V] ld(2) k by simp
qed

lemma head_message:
  assumes "weak_inv s" "k < length (wk_hist s L_head)"
  shows "k \<le> length (wk_claims s)" "unat (fst (wk_hist s L_head ! k)) = k" "k \<le> snd (wk_hist s L_head ! k) L_tail"
proof -
  have h: "histories_ok s" using weak_invD(1) [OF assms(1)] .
  then show k: "k \<le> length (wk_claims s)" using assms(2) by (simp add: histories_ok_def)
  then have "k < 2 ^ 64" using h by (simp add: histories_ok_def)
  then show "unat (fst (wk_hist s L_head ! k)) = k" "k \<le> snd (wk_hist s L_head ! k) L_tail"
    using h k by (simp_all add: histories_ok_def unat_of_nat take_bit_nat_eq_self)
qed

lemma tail_message:
  assumes "weak_inv s" "k < length (wk_hist s L_tail)"
  shows "k \<le> length (wk_pushed s)" "unat (fst (wk_hist s L_tail ! k)) = k"
proof -
  have h: "histories_ok s" using weak_invD(1) [OF assms(1)] .
  then show k: "k \<le> length (wk_pushed s)" using assms(2) by (simp add: histories_ok_def)
  then have "k < 2 ^ 64" using h by (simp add: histories_ok_def)
  then show "unat (fst (wk_hist s L_tail ! k)) = k" using h k by (simp add: histories_ok_def unat_of_nat take_bit_nat_eq_self)
qed

lemma push_load_tail_inv:
  assumes inv: "weak_inv s" and pc: "wk_ppc s = P_load_tail x" and step: "weak_push_step ords k s = Some s'"
  shows "weak_inv s'"
proof -
  note i = weak_invD [OF inv]
  obtain v V where ld: "ra_load Relaxed L_tail k (wk_hist s) (wk_pview s) = Some (v, V)" "s' = s\<lparr>wk_pview := V, wk_ppc := P_load_head x v\<rparr>"
    using step pc by (auto simp: weak_push_step_def p_load_def)
  have k: "wk_pview s L_tail \<le> k" "k < length (wk_hist s L_tail)" "v = fst (wk_hist s L_tail ! k)" "V = (wk_pview s)(L_tail := k)"
    using ld(1) by (auto simp: ra_load_def split: if_splits)
  have "k = length (wk_pushed s)" using k(1) tail_message(1) [OF inv k(2)] i(5) by (simp add: own_views_def)
  then have "V = wk_pview s" "unat v = length (wk_pushed s)" using k(3,4) i(5) tail_message(2) [OF inv k(2)] by (auto simp: own_views_def)
  then show ?thesis unfolding ld(2) using pc i(4) by (intro producer_view_inv [OF inv]) (simp_all add: all_known_def)
qed

lemma push_load_head_inv:
  assumes inv: "weak_inv s" and pc: "wk_ppc s = P_load_head x t" and step: "weak_push_step ords k s = Some s'"
  shows "weak_inv s'"
proof -
  note i = weak_invD [OF inv]
  let ?pc = "\<lambda>head. if of_nat (wk_cap s) \<le> t - head then P_cas x t head else P_spin x t"
  have "p_load Acquire L_head k ?pc s = Some s'" using step pc by (simp add: weak_push_step_def)
  then obtain V where V: "s' = s\<lparr>wk_pview := V, wk_ppc := ?pc (fst (wk_hist s L_head ! k))\<rparr>" "known s V" "\<And>l'. wk_pview s l' \<le> V l'" "V L_head = k"
    "k < length (wk_hist s L_head)"
    by (rule p_load_acquire [OF _ _ inv]) auto
  let ?h = "fst (wk_hist s L_head ! k)"
  note h = head_message [OF inv V(5)]
  have t: "unat t = length (wk_pushed s)" using i(7) pc by simp
  have le: "k \<le> length (wk_pushed s)" using h(1) i(1) by (simp add: histories_ok_def)
  have "of_nat (wk_cap s) \<le> t - ?h \<longleftrightarrow> wk_cap s \<le> length (wk_pushed s) - k"
    using i(1) t h(2) le by (simp add: histories_ok_def word_le_nat_alt unat_sub unat_of_nat take_bit_nat_eq_self)
  then have full: "of_nat (wk_cap s) \<le> t - ?h \<longleftrightarrow> wk_cap s + k \<le> length (wk_pushed s)" using le i(1) by (auto simp: histories_ok_def)
  show ?thesis unfolding V(1) using V(2,3,4) pc t full h(2) by (intro producer_view_inv [OF inv]) auto
qed

lemma push_cas_fails_inv:
  assumes inv: "weak_inv s" and pc: "wk_ppc s = P_cas x t h" and step: "p_load Acquire L_head k (\<lambda>_. P_spin x t) s = Some s'" and fails: "cas_fails k h s"
  shows "weak_inv s'"
proof -
  note i = weak_invD [OF inv]
  obtain V where V: "s' = s\<lparr>wk_pview := V, wk_ppc := P_spin x t\<rparr>" "known s V" "\<And>l'. wk_pview s l' \<le> V l'" "V L_head = k"
    "wk_pview s L_head \<le> k" "k < length (wk_hist s L_head)"
    using step by (rule p_load_acquire [OF _ _ inv]) auto
  have "k \<noteq> wk_pview s L_head" using fails head_message(2) [OF inv V(6)] i(7) pc by (auto simp: cas_fails_def word_unat_eq_iff)
  then have "length (wk_pushed s) < wk_cap s + k" using V(5) i(5) by (auto simp: own_views_def)
  then show ?thesis unfolding V(1) using V(2,3,4) pc i(7) by (intro producer_view_inv [OF inv]) auto
qed

lemma earlier_lap:
  fixes j n c :: nat
  assumes "j mod c = n mod c" "j < n"
  shows "j + c \<le> n"
  using mod_eq_close [of j c n] assms by force

lemma push_spin_inv:
  assumes inv: "weak_inv s" and pc: "wk_ppc s = P_spin x t" and step: "weak_push_step ords k s = Some s'"
  shows "weak_inv s'"
proof -
  note i = weak_invD [OF inv]
  let ?i = "wk_slot t s" and ?pc = "\<lambda>active. if active \<noteq> 0 then P_spin x t else P_write x t"
  have "p_load Acquire (L_flag ?i) k ?pc s = Some s'" using step pc by (simp add: weak_push_step_def)
  then obtain V where V: "s' = s\<lparr>wk_pview := V, wk_ppc := ?pc (fst (wk_hist s (L_flag ?i) ! k))\<rparr>" "known s V" "\<And>l'. wk_pview s l' \<le> V l'" "V (L_flag ?i) = k"
    "wk_pview s (L_flag ?i) \<le> k" "k < length (wk_hist s (L_flag ?i))" "\<And>l'. snd (wk_hist s (L_flag ?i) ! k) l' \<le> V l'"
    by (rule p_load_acquire [OF _ _ inv]) auto
  have t: "unat t = length (wk_pushed s)" "length (wk_pushed s) < wk_cap s + wk_pview s L_head" using i(7) pc by simp_all
  have more: "length (wk_pushed s) < wk_cap s + V L_head" using t(2) V(3) [of L_head] by simp
  have "wk_reads s ?i \<le> V (L_reads ?i) \<and> announced ?i k s" if "fst (wk_hist s (L_flag ?i) ! k) = 0"
  proof -
    have ev: "even k" using that V(6) i(3) by (auto simp: flags_alternate_def)
    have "wk_flags s ! j < k" if j: "j < length (wk_claims s)" "wk_claims s ! j" "j mod wk_cap s = ?i" for j
    proof -
      have "j < length (wk_pushed s)" using j(1) i(1) by (simp add: histories_ok_def)
      then have "j < wk_pview s L_head" using earlier_lap [of j "wk_cap s" "length (wk_pushed s)"] j(3) t by (simp add: wk_slot_def)
      moreover have "known s (wk_pview s)" using i(4) by (simp add: all_known_def)
      ultimately have "wk_flags s ! j \<le> wk_pview s (L_flag ?i)" using j(3) unfolding known_def by metis
      moreover have "odd (wk_flags s ! j)" using j i(3) by (simp add: flags_alternate_def)
      ultimately show ?thesis using V(5) ev by (metis le_neq_implies_less order_trans)
    qed
    then have "announced ?i k s" by (simp add: announced_def)
    moreover from this have "wk_reads s ?i \<le> snd (wk_hist s (L_flag ?i) ! k) (L_reads ?i)" using i(6) V(6) ev by (simp add: reads_done_def)
    ultimately show ?thesis using V(7) [of "L_reads ?i"] by simp
  qed
  then show ?thesis unfolding V(1) using V(2,3,4) pc t(1) more by (intro producer_view_inv [OF inv]) auto
qed

lemma pop_load_head_inv:
  assumes inv: "weak_inv s" and pc: "wk_cpc s = C_load_head" and step: "c_load Acquire L_head k C_load_tail s = Some s'"
  shows "weak_inv s'"
proof -
  obtain V where V: "s' = s\<lparr>wk_cview := V, wk_cpc := C_load_tail (fst (wk_hist s L_head ! k))\<rparr>" "known s V" "\<And>l'. wk_cview s l' \<le> V l'"
    "k < length (wk_hist s L_head)" "\<And>l'. snd (wk_hist s L_head ! k) l' \<le> V l'"
    using step by (rule c_load_acquire [OF _ _ inv]) auto
  have "unat (fst (wk_hist s L_head ! k)) \<le> V L_tail" using head_message [OF inv V(4)] V(5) [of L_tail] by simp
  then show ?thesis unfolding V(1) using V(2,3) pc by (intro consumer_view_inv [OF inv]) auto
qed

lemma pop_load_tail_inv:
  assumes inv: "weak_inv s" and pc: "wk_cpc s = C_load_tail h" and step: "weak_try_pop_step ords k s = Some s'"
  shows "weak_inv s'"
proof -
  note i = weak_invD [OF inv]
  let ?pc = "\<lambda>tail. if tail = h then C_idle else C_flag h"
  have "c_load Acquire L_tail k ?pc s = Some s'" using step pc by (simp add: weak_try_pop_step_def)
  then obtain V where V: "s' = s\<lparr>wk_cview := V, wk_cpc := ?pc (fst (wk_hist s L_tail ! k))\<rparr>" "known s V" "\<And>l'. wk_cview s l' \<le> V l'" "V L_tail = k"
    "wk_cview s L_tail \<le> k" "k < length (wk_hist s L_tail)"
    by (rule c_load_acquire [OF _ _ inv]) auto
  have "unat h < k" if "fst (wk_hist s L_tail ! k) \<noteq> h"
    using that tail_message(2) [OF inv V(6)] V(5) i(8) pc by (auto simp: word_unat_eq_iff)
  then show ?thesis unfolding V(1) using V(2,3,4) pc by (intro consumer_view_inv [OF inv]) auto
qed

lemma pop_cas_fails_inv:
  assumes inv: "weak_inv s" and pc: "wk_cpc s = C_cas h" and step: "c_load Relaxed L_head k (\<lambda>_. C_retract h) s = Some s'"
  shows "weak_inv s'"
proof -
  obtain V where V: "s' = s\<lparr>wk_cview := V, wk_cpc := C_retract h\<rparr>" "known s V" "\<And>l'. wk_cview s l' \<le> V l'"
    using step by (rule c_load_head_relaxed [OF _ inv]) auto
  then show ?thesis unfolding V(1) using V(2,3) pc by (intro consumer_view_inv [OF inv]) auto
qed

text \<open>The loads of \<open>wait_for_data\<close>.\<close>

fun waiting :: "cpc \<Rightarrow> bool" where
  "waiting (C_load_head) = False"
| "waiting (C_load_tail h) = False"
| "waiting (C_flag h) = False"
| "waiting (C_cas h) = False"
| "waiting (C_retract h) = False"
| "waiting (C_read h) = False"
| "waiting (C_clear h) = False"
| "waiting _ = True"

lemma waiting_pc: "waiting c \<Longrightarrow> flag_holder c = None" "waiting c \<Longrightarrow> in_flight xs c = []" "waiting c \<Longrightarrow> pc_consumer s c"
  by (cases c; simp)+

lemma wait_load_inv:
  assumes inv: "weak_inv s" and pc: "waiting (wk_cpc s)" "\<And>v. waiting (f v)"
    and step: "c_load Acquire l k f s = Some s' \<or> c_load Relaxed L_head k f s = Some s'"
  shows "weak_inv s'"
proof -
  obtain V v where V: "s' = s\<lparr>wk_cview := V, wk_cpc := f v\<rparr>" "known s V" "\<And>l'. wk_cview s l' \<le> V l'"
    using step
  proof
    assume "c_load Acquire l k f s = Some s'"
    then show thesis by (rule c_load_acquire [OF _ _ inv]) (auto intro: that)
  next
    assume "c_load Relaxed L_head k f s = Some s'"
    then show thesis by (rule c_load_head_relaxed [OF _ inv]) (auto intro: that)
  qed
  show ?thesis unfolding V(1) using V(2,3) pc by (intro consumer_view_inv [OF inv]) (simp_all add: waiting_pc)
qed

lemma wait_step_inv:
  assumes inv: "weak_inv s" and step: "weak_wait_step b k s = Some s'"
  shows "weak_inv s'"
proof (cases "wk_cpc s")
  case W_first
  then show ?thesis using wait_load_inv [OF inv, of W_first_tail L_tail k s'] wait_load_inv [OF inv, of W_first_head L_tail k s'] step
    by (auto simp: weak_wait_step_def split: if_splits)
next
  case (W_again g)
  then show ?thesis using wait_load_inv [OF inv, of "W_again_tail g" L_tail k s'] wait_load_inv [OF inv, of "W_again_head g" L_tail k s'] step
    by (auto simp: weak_wait_step_def split: if_splits)
qed (use step in \<open>auto simp: weak_wait_step_def intro!: wait_load_inv [OF inv] split: if_splits\<close>)

subsection \<open>Raising and lowering a flag\<close>

lemma flag_store_inv:
  fixes s :: "'a weak"
  assumes inv: "weak_inv s" and v: "(v = 0) = even (length (wk_hist s (L_flag i)))"
    and c: "\<And>j. (\<exists>h. flag_holder c = Some h \<and> wk_slot h s = j) = (if j = i then \<not> raised i s else raised j s)"
      "in_flight (wk_pushed s) c = in_flight (wk_pushed s) (wk_cpc s)" "\<And>s' :: 'a weak. wk_cview s' L_tail = wk_cview s L_tail \<Longrightarrow> pc_consumer s' c"
  shows "weak_inv (c_store Release (L_flag i) v (s\<lparr>wk_cpc := c\<rparr>))"
proof -
  note i = weak_invD [OF inv]
  let ?n = "length (wk_hist s (L_flag i))"
  let ?V = "(wk_cview s)(L_flag i := ?n)"
  let ?s = "s\<lparr>wk_cpc := c, wk_hist := (wk_hist s)(L_flag i := wk_hist s (L_flag i) @ [(v, ?V)]), wk_cview := ?V\<rparr>"
  have s': "c_store Release (L_flag i) v (s\<lparr>wk_cpc := c\<rparr>) = ?s" by (simp add: c_store_def ra_store_def Let_def)
  have items: "items ?s = items s" by (simp add: items_def)
  have latest: "latest ?s l = (if l = L_flag i then ?n else latest s l)" for l by (cases l) (auto simp: items)
  have up: "latest s l \<le> latest ?s l" for l unfolding latest by simp
  have old: "known s V \<Longrightarrow> known ?s V" for V by (rule known_mono [OF _ _ up]) simp_all
  have own: "wk_cview s (L_flag i) \<le> ?n" using i(5) by (simp add: own_views_def)
  have "known s (wk_cview s)" using i(4) by (simp add: all_known_def)
  then have "known ?s ?V" using own unfolding known_def latest by (auto intro: order_trans)
  then have "all_known ?s" using i(4) old by (simp add: all_known_def messages_append)
  moreover have "histories_ok ?s" using i(1) knows_itself_append [of "wk_hist s" ?V "L_flag i" v] by (simp add: histories_ok_def)
  moreover have "values_ok ?s" using i(2) by (simp add: values_ok_def items)
  moreover have "own_views ?s" using i(5) by (simp add: own_views_def items)
  moreover have "reads_done ?s" using i(5,6) by (auto simp: reads_done_def announced_def nth_append own_views_def less_Suc_eq)
  moreover have "flags_alternate ?s"
  proof -
    have "raised j ?s = (if j = i then \<not> raised i s else raised j s)" for j using c(1) [of j] by (simp add: raised_def wk_slot_def)
    then show ?thesis using i(3) v by (auto simp: flags_alternate_def nth_append less_Suc_eq)
  qed
  moreover have "pc_producer ?s (wk_ppc s)" using i(7) by (cases "wk_ppc s") (auto simp: wk_slot_def announced_def)
  moreover have "pc_consumer ?s c" by (rule c(3)) simp
  ultimately show ?thesis unfolding s' weak_inv_def using i(9,10) c(2) by simp
qed

lemma slot_frame: "wk_slot h (s\<lparr>wk_cpc := c\<rparr>) = wk_slot h s"
  by (simp add: wk_slot_def)

lemma pop_flag_inv:
  assumes inv: "weak_inv s" and pc: "wk_cpc s = C_flag h"
  shows "weak_inv (c_store Release (L_flag (wk_slot h s)) 1 (s\<lparr>wk_cpc := C_cas h\<rparr>))"
proof -
  note i = weak_invD [OF inv]
  have r: "\<not> raised j s" for j using pc by (simp add: raised_def)
  then have "odd (length (wk_hist s (L_flag (wk_slot h s))))" using i(3) by (simp add: flags_alternate_def)
  then show ?thesis using i(8) pc r by (intro flag_store_inv [OF inv]) auto
qed

lemma pop_lower_inv:
  assumes inv: "weak_inv s" and pc: "wk_cpc s = C_retract h \<or> wk_cpc s = C_clear h"
  shows "weak_inv (c_store Release (L_flag (wk_slot h s)) 0 (s\<lparr>wk_cpc := C_idle\<rparr>))"
proof -
  note i = weak_invD [OF inv]
  have r: "raised j s \<longleftrightarrow> j = wk_slot h s" for j using pc by (auto simp: raised_def)
  then have "even (length (wk_hist s (L_flag (wk_slot h s))))" using i(3) by (simp add: flags_alternate_def)
  then show ?thesis using pc r by (intro flag_store_inv [OF inv]) auto
qed

subsection \<open>Claiming the oldest item\<close>

text \<open>The winner of the compare-exchange on \<open>head_\<close> knows what the previous winner knew.\<close>

lemma cas_succeeds_head:
  assumes inv: "weak_inv s" and cas: "cas_succeeds k h s"
  shows "unat h = length (wk_claims s)" "h + 1 = of_nat (Suc (length (wk_claims s)))" "snd (last (wk_hist s L_head)) L_head = length (wk_claims s)"
    "known s (snd (last (wk_hist s L_head)))"
proof -
  note i = weak_invD [OF inv]
  have n: "length (wk_hist s L_head) = Suc (length (wk_claims s))" using i(1) by (simp add: histories_ok_def)
  have k: "k = length (wk_claims s)" "fst (wk_hist s L_head ! k) = h" using cas n by (auto simp: cas_succeeds_def)
  then show u: "unat h = length (wk_claims s)" using head_message(2) [OF inv, of k] n by simp
  have "h = of_nat (unat h)" by simp
  then show "h + 1 = of_nat (Suc (length (wk_claims s)))" unfolding u by (simp add: add.commute)
  have "last (wk_hist s L_head) = wk_hist s L_head ! length (wk_claims s)" using n last_conv_nth [of "wk_hist s L_head"] by fastforce
  then show "snd (last (wk_hist s L_head)) L_head = length (wk_claims s)" "known s (snd (last (wk_hist s L_head)))"
    using n i(1) message_known [OF i(4)] by (simp_all add: histories_ok_def knows_itself_def)
qed

lemma head_rmw:
  assumes inv: "weak_inv s" and cas: "cas_succeeds k h s" and V: "V' = (join_views V (snd (last (wk_hist s L_head))))(L_head := Suc (length (wk_claims s)))"
  shows "ra_rmw Acq_rel L_head (h + 1) (wk_hist s) V = ((wk_hist s)(L_head := wk_hist s L_head @ [(of_nat (Suc (length (wk_claims s))), V')]), V')"
proof -
  have n: "length (wk_hist s L_head) = Suc (length (wk_claims s))" using weak_invD(1) [OF inv] by (simp add: histories_ok_def)
  have "join_views V' (snd (last (wk_hist s L_head))) = V'" using cas_succeeds_head(3) [OF inv cas] V by (auto simp: fun_eq_iff)
  then show ?thesis unfolding ra_rmw_def Let_def n cas_succeeds_head(2) [OF inv cas] using V by (simp del: of_nat_Suc)
qed

text \<open>What a successful compare-exchange keeps, whoever executed it.\<close>

lemma claim_added:
  assumes inv: "weak_inv s" and J: "known s J" "J L_head = length (wk_claims s)" "length (wk_claims s) < J L_tail"
    and f: "f \<le> J (L_flag (length (wk_claims s) mod wk_cap s))"
    and V: "V = J(L_head := Suc (length (wk_claims s)))"
    and s': "wk_cap s' = wk_cap s" "wk_pushed s' = wk_pushed s" "items s' = items s" "wk_values s' = wk_values s" "wk_reads s' = wk_reads s"
      "wk_claims s' = wk_claims s @ [b]" "wk_flags s' = wk_flags s @ [f]"
      "wk_hist s' = (wk_hist s)(L_head := wk_hist s L_head @ [(of_nat (Suc (length (wk_claims s))), V)])"
  shows "histories_ok s'" "values_ok s'" "known s' V" "\<And>W. known s W \<Longrightarrow> known s' W" "reads_done s'" "\<And>W. W \<in> messages (wk_hist s') \<Longrightarrow> known s' W"
    "\<And>l. latest s' l = (if l = L_head then Suc (length (wk_claims s)) else latest s l)"
proof -
  note i = weak_invD [OF inv]
  let ?C = "length (wk_claims s)"
  have n: "length (wk_hist s L_head) = Suc ?C" "length (wk_flags s) = ?C" using i(1) by (simp_all add: histories_ok_def)
  show latest: "latest s' l = (if l = L_head then Suc ?C else latest s l)" for l by (cases l) (simp_all add: s' n)
  have up: "latest s l \<le> latest s' l" for l unfolding latest using n by simp
  have "J L_tail \<le> latest s L_tail" using J(1) unfolding known_def by blast
  then have lt: "?C < length (wk_pushed s)" using J(3) i(1) by (simp add: histories_ok_def)
  have bound: "W L_head \<le> ?C" if "known s W" for W
  proof -
    have "W L_head \<le> latest s L_head" using that unfolding known_def by blast
    then show ?thesis using n by simp
  qed
  show old: "known s W \<Longrightarrow> known s' W" for W using bound [of W] n by (intro known_mono [OF _ _ up]) (simp_all add: s' nth_append)
  show kV: "known s' V" using J(1,2) f n unfolding known_def latest V by (auto simp: s' nth_append less_Suc_eq)
  then show "W \<in> messages (wk_hist s') \<Longrightarrow> known s' W" for W using i(4) old by (auto simp: s' messages_append all_known_def)
  have "knows_itself (wk_hist s')" unfolding s' using i(1) n V by (intro knows_itself_append) (simp_all add: histories_ok_def)
  moreover have "fst (wk_hist s' L_head ! j) = of_nat j \<and> j \<le> snd (wk_hist s' L_head ! j) L_tail" if "j \<le> Suc ?C" for j
    using that i(1) n J(3) V by (auto simp: s' histories_ok_def nth_append le_Suc_eq)
  ultimately show "histories_ok s'" using i(1) lt by (simp add: histories_ok_def s' del: of_nat_Suc)
  show "values_ok s'" using i(2) by (simp add: values_ok_def s')
  have "announced a e s' \<Longrightarrow> announced a e s" for a e using n by (auto simp: announced_def s' nth_append less_Suc_eq split: if_splits)
  then show "reads_done s'" using i(6) by (auto simp: reads_done_def s')
qed

lemma views_bounded:
  assumes "weak_inv s"
  shows "wk_pview s L_head \<le> length (wk_claims s)" "wk_cview s L_head \<le> length (wk_claims s)" "wk_cview s L_tail \<le> length (wk_pushed s)"
proof -
  note i = weak_invD [OF assms]
  have "wk_pview s l \<le> latest s l" "wk_cview s l \<le> latest s l" for l using i(4) unfolding all_known_def known_def by blast+
  from this [of L_head] this [of L_tail] show "wk_pview s L_head \<le> length (wk_claims s)" "wk_cview s L_head \<le> length (wk_claims s)" "wk_cview s L_tail \<le> length (wk_pushed s)"
    using i(1) by (simp_all add: histories_ok_def)
qed

lemma items_bounded:
  assumes "weak_inv s"
  shows "length (items s) \<le> length (wk_claims s) + wk_cap s"
  using views_bounded(1) [OF assms] weak_invD(5,7) [OF assms] by (cases "wk_ppc s") (auto simp: items_def own_views_def)

text \<open>An index that the consumer claims is not in the slot that the producer waits for: that one is known to be free.\<close>

lemma claim_elsewhere:
  assumes inv: "weak_inv s" and pc: "pc_producer s pc" and less: "length (wk_claims s) < length (wk_pushed s)"
    and t: "wk_cap t = wk_cap s" "wk_pushed t = wk_pushed s" "wk_pview t = wk_pview s" "wk_reads t = wk_reads s" "wk_claims t = wk_claims s @ [b]" "wk_flags t = wk_flags s @ [f]"
  shows "pc_producer t pc"
proof (cases pc)
  case (P_write x u)
  have n: "length (wk_flags s) = length (wk_claims s)" using weak_invD(1) [OF inv] by (simp add: histories_ok_def)
  have u: "unat u = length (wk_pushed s)" "length (wk_pushed s) < wk_cap s + wk_pview s L_head" "announced (wk_slot u s) (wk_pview s (L_flag (wk_slot u s))) s"
    using pc P_write by simp_all
  then have "length (wk_claims s) mod wk_cap s \<noteq> wk_slot u s"
    using earlier_lap [of "length (wk_claims s)" "wk_cap s" "length (wk_pushed s)"] less views_bounded(1) [OF inv] by (auto simp: wk_slot_def)
  then have "announced (wk_slot u s) (wk_pview s (L_flag (wk_slot u s))) t" using u(3) n by (auto simp: announced_def t nth_append less_Suc_eq)
  moreover have "wk_slot u t = wk_slot u s" by (simp add: wk_slot_def t)
  ultimately show ?thesis using pc P_write t by simp
qed (use pc t in \<open>simp_all\<close>)

lemma pop_cas_succeeds_inv:
  assumes inv: "weak_inv s" and pc: "wk_cpc s = C_cas h" and cas: "cas_succeeds k h s"
  shows "weak_inv (c_rmw Acq_rel L_head (h + 1)
     (s\<lparr>wk_cpc := C_read h, wk_claims := wk_claims s @ [True], wk_flags := wk_flags s @ [wk_cview s (L_flag (wk_slot h s))]\<rparr>))" (is "weak_inv ?t")
proof -
  note i = weak_invD [OF inv] and head = cas_succeeds_head [OF inv cas]
  let ?C = "length (wk_claims s)" and ?f = "wk_cview s (L_flag (wk_slot h s))"
  define J where "J = join_views (wk_cview s) (snd (last (wk_hist s L_head)))"
  define V where "V = J(L_head := Suc ?C)"
  have cv: "known s (wk_cview s)" using i(4) by (simp add: all_known_def)
  note le = views_bounded(2,3) [OF inv]
  have slot: "wk_slot h s = ?C mod wk_cap s" using head(1) by (simp add: wk_slot_def)
  have less: "?C < wk_cview s L_tail" using i(8) pc head(1) by simp
  have n: "length (wk_hist s L_head) = Suc ?C" "length (wk_flags s) = ?C" using i(1) by (simp_all add: histories_ok_def)
  define T where "T = s\<lparr>wk_cpc := C_read h, wk_claims := wk_claims s @ [True], wk_flags := wk_flags s @ [?f],
      wk_hist := (wk_hist s)(L_head := wk_hist s L_head @ [(of_nat (Suc ?C), V)]), wk_cview := V\<rparr>"
  have t: "?t = T" using head_rmw [OF inv cas, of V "wk_cview s"] by (simp add: c_rmw_def T_def V_def J_def)
  have J: "known s J" "J L_head = ?C" "?C < J L_tail" "?f \<le> J (L_flag (?C mod wk_cap s))"
    using known_join [OF cv head(4)] le head(3) less by (simp_all add: slot J_def)
  have items: "items T = items s" unfolding T_def by (simp add: items_def)
  have a: "histories_ok T" "values_ok T" "known T V" "\<And>W. known s W \<Longrightarrow> known T W" "reads_done T" "\<And>W. W \<in> messages (wk_hist T) \<Longrightarrow> known T W"
    "\<And>l. latest T l = (if l = L_head then Suc ?C else latest s l)"
    by (rule claim_added [OF inv J V_def, of T True, OF _ _ items]; simp add: T_def)+
  have pv: "known s (wk_pview s)" using i(4) by (simp add: all_known_def)
  have "wk_hist s (L_flag (wk_slot h s)) \<noteq> []" using i(1) by (simp add: histories_ok_def)
  then have odd: "odd ?f" using i(3,5) pc by (simp add: flags_alternate_def raised_def own_views_def)
  have raised: "raised j T = raised j s" for j unfolding T_def using pc by (simp add: raised_def wk_slot_def)
  have "flags_alternate T" using i(3) odd n raised unfolding flags_alternate_def by (auto simp: T_def nth_append less_Suc_eq)
  moreover have "wk_pview T = wk_pview s" "wk_cview T = V" by (simp_all add: T_def)
  then have "all_known T" using a(3,4,6) pv by (simp add: all_known_def)
  moreover have "own_views T"
  proof -
    have "J (L_flag j) = latest s (L_flag j)" "J (L_reads j) = latest s (L_reads j)" for j
      using J(1) i(5) unfolding known_def own_views_def by (metis J_def join_apply max.cobounded1 order_antisym)+
    then show ?thesis using i(5) unfolding own_views_def a(7) unfolding T_def by (simp add: V_def)
  qed
  moreover have "pc_producer T (wk_ppc s)" by (rule claim_elsewhere [OF inv i(7)]) (use less le in \<open>simp_all add: T_def\<close>)
  moreover have "pc_consumer T (C_read h)"
    using items_bounded [OF inv] less head(1) n i(5) unfolding pc_consumer.simps items a(7) unfolding T_def by (auto simp: wk_slot_def nth_append own_views_def V_def J_def)
  moreover have "picked (wk_pushed s) (wk_claims s @ [True]) = wk_delivered s @ in_flight (wk_pushed s) (C_read h)"
    using less le(2) head(1) i(10) pc by (simp add: picked_claim)
  ultimately show ?thesis unfolding t weak_inv_def using a(1,2,5) i(9) by (simp add: T_def)
qed

lemma push_cas_succeeds_inv:
  assumes inv: "weak_inv s" and pc: "wk_ppc s = P_cas x u h" and cas: "cas_succeeds k h s"
  shows "weak_inv (p_rmw Acq_rel L_head (h + 1) (s\<lparr>wk_ppc := P_count x u, wk_claims := wk_claims s @ [False], wk_flags := wk_flags s @ [0]\<rparr>))" (is "weak_inv ?t")
proof -
  note i = weak_invD [OF inv] and head = cas_succeeds_head [OF inv cas]
  let ?C = "length (wk_claims s)"
  define J where "J = join_views (wk_pview s) (snd (last (wk_hist s L_head)))"
  define V where "V = J(L_head := Suc ?C)"
  have n: "length (wk_flags s) = ?C" using i(1) by (simp add: histories_ok_def)
  have p: "unat u = length (wk_pushed s)" "wk_pview s L_head = ?C" "wk_cap s + ?C \<le> length (wk_pushed s)" "wk_pview s L_tail = length (wk_pushed s)" "0 < wk_cap s"
    using i(1,5,7) pc head(1) by (simp_all add: own_views_def histories_ok_def)
  define T where "T = s\<lparr>wk_ppc := P_count x u, wk_claims := wk_claims s @ [False], wk_flags := wk_flags s @ [0],
      wk_hist := (wk_hist s)(L_head := wk_hist s L_head @ [(of_nat (Suc ?C), V)]), wk_pview := V\<rparr>"
  have t: "?t = T" using head_rmw [OF inv cas, of V "wk_pview s"] by (simp add: p_rmw_def T_def V_def J_def)
  have known: "known s (wk_pview s)" "known s (wk_cview s)" using i(4) by (simp_all add: all_known_def)
  have J: "known s J" "J L_head = ?C" "?C < J L_tail" "0 \<le> J (L_flag (?C mod wk_cap s))"
    using known_join [OF known(1) head(4)] p head(3) by (simp_all add: J_def less_max_iff_disj)
  have items: "items T = items s" unfolding T_def using pc by (simp add: items_def)
  have a: "histories_ok T" "values_ok T" "known T V" "\<And>W. known s W \<Longrightarrow> known T W" "reads_done T" "\<And>W. W \<in> messages (wk_hist T) \<Longrightarrow> known T W"
    "\<And>l. latest T l = (if l = L_head then Suc ?C else latest s l)"
    by (rule claim_added [OF inv J V_def, of T False, OF _ _ items]; simp add: T_def)+
  have raised: "raised j T = raised j s" for j unfolding T_def by (simp add: raised_def wk_slot_def)
  have "flags_alternate T" using i(3) n raised unfolding flags_alternate_def by (auto simp: T_def nth_append less_Suc_eq)
  moreover have "wk_pview T = V" "wk_cview T = wk_cview s" by (simp_all add: T_def)
  then have "all_known T" using a(3,4,6) known by (simp add: all_known_def)
  moreover have own: "own_views T"
  proof -
    have "J l \<le> latest s l" "wk_pview s l \<le> J l" for l using J(1) by (auto simp: known_def J_def)
    then have "J (L_value j) = latest s (L_value j)" "J L_tail = length (wk_pushed s)" for j
      using i(1,5) p(4) unfolding own_views_def histories_ok_def by (metis order_antisym latest.simps(3) diff_Suc_1)+
    then show ?thesis using i(5) p(2) unfolding own_views_def a(7) unfolding T_def by (simp add: V_def)
  qed
  moreover have "pc_producer T (P_count x u)" using p i(5) by (simp add: T_def V_def own_views_def)
  moreover have "pc_consumer T (wk_cpc s)"
    using i(8) n unfolding items by (cases "wk_cpc s") (auto simp: T_def wk_slot_def nth_append items_def)
  moreover have "picked (wk_pushed s) (wk_claims s @ [False]) = wk_delivered s @ in_flight (wk_pushed s) (wk_cpc s)"
    using p i(10) by (simp add: picked_claim)
  ultimately show ?thesis unfolding t weak_inv_def using a(1,2,5) i(9) by (simp add: T_def)
qed

subsection \<open>Counting and announcing a push\<close>

text \<open>\<open>dropped_\<close> and the generation are counters that no other part of the invariant depends on.\<close>

lemma counter_inv:
  fixes s :: "'a weak"
  assumes inv: "weak_inv s" and l: "l = L_dropped \<or> l = L_generation" and ord: "ord = Relaxed \<or> ord = Release"
    and pc: "in_progress (wk_ppc s) = []" "in_progress pc = []"
      "\<And>s' :: 'a weak. wk_cap s' = wk_cap s \<Longrightarrow> wk_pushed s' = wk_pushed s \<Longrightarrow> wk_pview s' L_head = wk_pview s L_head \<Longrightarrow> pc_producer s' pc"
  shows "weak_inv (p_rmw ord l v (s\<lparr>wk_ppc := pc\<rparr>))"
proof -
  note i = weak_invD [OF inv]
  define n where "n = length (wk_hist s l)"
  define V where "V = (wk_pview s)(l := n)"
  define M where "M = join_views (if ord = Release then V else no_view(l := n)) (snd (last (wk_hist s l)))"
  let ?s = "s\<lparr>wk_ppc := pc, wk_hist := (wk_hist s)(l := wk_hist s l @ [(v, M)]), wk_pview := V\<rparr>"
  have s': "p_rmw ord l v (s\<lparr>wk_ppc := pc\<rparr>) = ?s" using ord by (auto simp: p_rmw_def ra_rmw_def Let_def M_def V_def n_def)
  have items: "items ?s = items s" using pc by (simp add: items_def)
  have latest: "latest ?s l' = (if l' = l then n else latest s l')" for l' using l by (cases l') (auto simp: items n_def)
  have ne: "wk_hist s l \<noteq> []" using i(1) by (simp add: histories_ok_def)
  have up: "latest s l' \<le> latest ?s l'" for l' unfolding latest n_def using l by auto
  have old: "known s W \<Longrightarrow> known ?s W" for W by (rule known_mono [OF _ _ up]) simp_all
  have "known s (wk_pview s)" using i(4) by (simp add: all_known_def)
  then have kV: "known ?s V" unfolding known_def latest unfolding V_def using l by auto
  have kW: "known ?s (snd (last (wk_hist s l)))" using i(4) old last_message [of "wk_hist s" l] ne by (simp add: all_known_def)
  have "known ?s (no_view(l := n))" using l by (auto simp: known_no_view latest)
  then have "known ?s (if ord = Release then V else no_view(l := n))" using kV by simp
  then have "known ?s M" using known_join [OF _ kW] by (subst (2) M_def)
  then have "all_known ?s" using kV i(4) old by (simp add: all_known_def messages_append)
  moreover have "snd (last (wk_hist s l)) l < n" using i(1) ne by (simp add: histories_ok_def knows_itself_def last_conv_nth n_def)
  then have "M l = n" by (simp add: M_def V_def)
  then have "knows_itself ((wk_hist s)(l := wk_hist s l @ [(v, M)]))" using i(1) by (intro knows_itself_append) (simp_all add: histories_ok_def n_def)
  then have "histories_ok ?s" using i(1) l by (auto simp: histories_ok_def)
  moreover have "values_ok ?s" using i(2) by (simp add: values_ok_def items)
  moreover have "own_views ?s" using i(5) l unfolding own_views_def latest by (auto simp: V_def)
  moreover have "reads_done ?s" using i(6) l by (auto simp: reads_done_def announced_def)
  moreover have "flags_alternate ?s" using i(3) l by (auto simp: flags_alternate_def raised_def wk_slot_def)
  moreover have "pc_producer ?s pc" using l by (intro pc(3)) (auto simp: V_def)
  moreover have "pc_consumer ?s (wk_cpc s)" using i(8) l by (cases "wk_cpc s") (auto simp: wk_slot_def items)
  ultimately show ?thesis unfolding s' weak_inv_def using i(9,10) by simp
qed

lemma push_count_inv:
  assumes "weak_inv s" "wk_ppc s = P_count x t"
  shows "weak_inv (p_rmw Relaxed L_dropped v (s\<lparr>wk_ppc := P_spin x t\<rparr>))"
  using assms weak_invD(7) [OF assms(1)] by (intro counter_inv) auto

lemma push_gen_inv:
  assumes "weak_inv s" "wk_ppc s = P_gen"
  shows "weak_inv (p_rmw Release L_generation v (s\<lparr>wk_ppc := P_idle\<rparr>))"
  using assms by (intro counter_inv) auto

lemma store_tail_inv:
  assumes inv: "weak_inv s" and pc: "wk_ppc s = P_store x u" and small: "Suc (length (wk_pushed s)) < 2 ^ 64"
  shows "weak_inv (p_store Release L_tail (u + 1) (s\<lparr>wk_ppc := P_gen, wk_pushed := wk_pushed s @ [x]\<rparr>))"
proof -
  note i = weak_invD [OF inv]
  let ?P = "length (wk_pushed s)"
  define w where "w = (of_nat (Suc ?P) :: u64)"
  define V where "V = (wk_pview s)(L_tail := Suc ?P)"
  let ?s = "s\<lparr>wk_ppc := P_gen, wk_pushed := wk_pushed s @ [x], wk_hist := (wk_hist s)(L_tail := wk_hist s L_tail @ [(w, V)]), wk_pview := V\<rparr>"
  have n: "length (wk_hist s L_tail) = Suc ?P" using i(1) by (simp add: histories_ok_def)
  have u: "unat u = ?P" "?P < wk_cap s + wk_pview s L_head" using i(7) pc by simp_all
  have "u = of_nat (unat u)" by simp
  then have "u + 1 = w" unfolding u w_def by (simp add: add.commute)
  then have s': "p_store Release L_tail (u + 1) (s\<lparr>wk_ppc := P_gen, wk_pushed := wk_pushed s @ [x]\<rparr>) = ?s"
    by (simp add: p_store_def ra_store_def Let_def n V_def)
  have items: "items ?s = items s" "length (items s) = Suc ?P" using pc by (simp_all add: items_def)
  have latest: "latest ?s l = (if l = L_tail then Suc ?P else latest s l)" for l by (cases l) (auto simp: items n)
  have up: "latest s l \<le> latest ?s l" for l unfolding latest using n by simp
  have old: "known s W \<Longrightarrow> known ?s W" for W by (rule known_mono [OF _ _ up]) simp_all
  have "known s (wk_pview s)" using i(4) by (simp add: all_known_def)
  then have "known ?s V" using i(5) items(2) unfolding known_def latest unfolding V_def by (auto simp: own_views_def)
  then have "all_known ?s" using i(4) old by (simp add: all_known_def messages_append)
  moreover have "histories_ok ?s"
  proof -
    have "knows_itself ((wk_hist s)(L_tail := wk_hist s L_tail @ [(w, V)]))" using i(1) n by (intro knows_itself_append) (simp_all add: histories_ok_def V_def)
    then show ?thesis using i(1) small n by (auto simp: histories_ok_def nth_append le_Suc_eq w_def)
  qed
  moreover have "values_ok ?s" using i(2) by (simp add: values_ok_def items)
  moreover have "own_views ?s" using i(5) u(2) unfolding own_views_def latest by (simp add: V_def)
  moreover have "reads_done ?s" using i(6) by (simp add: reads_done_def announced_def)
  moreover have "flags_alternate ?s" using i(3) by (simp add: flags_alternate_def raised_def wk_slot_def)
  moreover have "pc_consumer ?s (wk_cpc s)" using i(8) by (cases "wk_cpc s") (auto simp: wk_slot_def items)
  moreover have "in_flight (wk_pushed s @ [x]) (wk_cpc s) = in_flight (wk_pushed s) (wk_cpc s)"
    using i(1,8) by (cases "wk_cpc s") (auto simp: histories_ok_def nth_append)
  ultimately show ?thesis unfolding s' weak_inv_def using i(1,9,10) by (simp add: picked_push histories_ok_def)
qed

subsection \<open>Writing and reading a value\<close>

text \<open>The consumer reads no slot that the producer is about to write.\<close>

lemma read_not_announced:
  assumes inv: "weak_inv s" and c: "wk_cpc s = C_read h" and p: "wk_ppc s = P_write x u"
  shows "wk_slot h s \<noteq> wk_slot u s"
proof
  assume eq: "wk_slot h s = wk_slot u s"
  note i = weak_invD [OF inv]
  have "known s (wk_pview s)" using i(4) by (simp add: all_known_def)
  then have "wk_pview s (L_flag (wk_slot h s)) \<le> latest s (L_flag (wk_slot h s))" unfolding known_def by blast
  moreover have "announced (wk_slot h s) (wk_pview s (L_flag (wk_slot h s))) s" unfolding eq using i(7) p by simp
  then have "wk_flags s ! unat h < wk_pview s (L_flag (wk_slot h s))" using i(8) c unfolding announced_def by (metis pc_consumer.simps(4) wk_slot_def)
  moreover have "wk_flags s ! unat h = latest s (L_flag (wk_slot h s))" using i(8) c by simp
  ultimately show False by simp
qed

lemma write_slot_inv:
  assumes inv: "weak_inv s" and pc: "wk_ppc s = P_write x u"
  shows "weak_inv (write_value (wk_slot u s) x (s\<lparr>wk_ppc := P_store x u\<rparr>))"
proof -
  note i = weak_invD [OF inv]
  let ?P = "length (wk_pushed s)" and ?i = "wk_slot u s"
  define V where "V = (wk_pview s)(L_value ?i := Suc (laps (wk_cap s) ?i ?P))"
  let ?s = "s\<lparr>wk_ppc := P_store x u, wk_values := (wk_values s)(?i := wk_values s ?i @ [x]), wk_pview := V\<rparr>"
  have u: "unat u = ?P" "?P < wk_cap s + wk_pview s L_head" "wk_reads s ?i \<le> wk_pview s (L_reads ?i)" using i(7) pc by simp_all
  then have slot: "?i = ?P mod wk_cap s" by (simp add: wk_slot_def)
  have items: "items s = wk_pushed s" "items ?s = wk_pushed s @ [x]" using pc by (simp_all add: items_def)
  have n: "length (wk_values s j) = Suc (laps (wk_cap s) j ?P)" for j using i(2) by (simp add: values_ok_def items)
  have kp: "known s (wk_pview s)" using i(4) by (simp add: all_known_def)
  then have "wk_pview s (L_reads ?i) \<le> latest s (L_reads ?i)" unfolding known_def by blast
  then have "wk_pview s (L_reads ?i) = wk_reads s ?i" using u(3) by simp
  moreover have "wk_pview s (L_value ?i) = laps (wk_cap s) ?i ?P" using i(5) by (simp add: own_views_def items)
  ultimately have s': "write_value ?i x (s\<lparr>wk_ppc := P_store x u\<rparr>) = ?s" using i(9) n by (simp add: write_value_def Let_def V_def)
  have latest: "latest ?s l = (if l = L_value ?i then Suc (laps (wk_cap s) ?i ?P) else latest s l)" for l
    by (cases l) (auto simp: items slot [symmetric])
  have up: "latest s l \<le> latest ?s l" for l unfolding latest by (simp add: items)
  have old: "known s W \<Longrightarrow> known ?s W" for W by (rule known_mono [OF _ _ up]) simp_all
  have "known ?s V" using kp i(5) unfolding known_def latest unfolding V_def by (auto simp: own_views_def)
  then have "all_known ?s" using i(4) old by (simp add: all_known_def)
  moreover have "histories_ok ?s" using i(1) by (simp add: histories_ok_def)
  moreover have "values_ok ?s"
  proof -
    have "((wk_values s)(?i := wk_values s ?i @ [x])) (j mod wk_cap s) ! Suc (laps (wk_cap s) (j mod wk_cap s) j) = (wk_pushed s @ [x]) ! j" if "j < Suc ?P" for j
      using that i(2) n laps_inj [of j ?P "wk_cap s"] by (auto simp: values_ok_def items slot [symmetric] nth_append less_Suc_eq)
    then show ?thesis using n by (auto simp: values_ok_def items slot [symmetric])
  qed
  moreover have "own_views ?s" using i(5) unfolding own_views_def latest by (simp add: V_def)
  moreover have "reads_done ?s" using i(6) by (simp add: reads_done_def announced_def)
  moreover have "flags_alternate ?s" using i(3) by (simp add: flags_alternate_def raised_def wk_slot_def)
  moreover have "pc_producer ?s (P_store x u)" using u by (simp add: V_def)
  moreover have "pc_consumer ?s (wk_cpc s)"
  proof (cases "wk_cpc s")
    case (C_read h)
    have "?P \<noteq> unat h + wk_cap s" using read_not_announced [OF inv C_read pc] u(1) by (auto simp: wk_slot_def)
    then show ?thesis using i(8) C_read items(1) by (simp add: wk_slot_def items_def)
  qed (use i(8) in \<open>simp_all add: wk_slot_def\<close>)
  ultimately show ?thesis unfolding s' weak_inv_def using i(9,10) by simp
qed

text \<open>The consumer knows of the newest value in the slot that it has claimed, which is the item of its index.\<close>

lemma claimed_value:
  assumes inv: "weak_inv s" and pc: "wk_cpc s = C_read h"
  shows "wk_cview s (L_value (wk_slot h s)) = length (wk_values s (wk_slot h s)) - 1" "last (wk_values s (wk_slot h s)) = wk_pushed s ! unat h"
proof -
  note i = weak_invD [OF inv]
  define k where "k = wk_slot h s"
  let ?laps = "laps (wk_cap s) k"
  have k: "k = unat h mod wk_cap s" by (simp add: k_def wk_slot_def)
  have c: "unat h < wk_cview s L_tail" "unat h < length (wk_claims s)" "length (items s) \<le> unat h + wk_cap s" using i(8) pc by simp_all
  have kc: "known s (wk_cview s)" using i(4) by (simp add: all_known_def)
  have le: "length (wk_claims s) \<le> length (wk_pushed s)" "length (wk_pushed s) \<le> length (items s)" using i(1) by (simp_all add: histories_ok_def items_def)
  have window: "?laps (length (items s)) = ?laps (Suc (unat h))" unfolding k using c le by (intro laps_window) simp_all
  have "?laps (wk_cview s L_tail) \<le> wk_cview s (L_value k)" "wk_cview s (L_value k) \<le> latest s (L_value k)" using kc unfolding known_def by blast+
  then have view: "wk_cview s (L_value k) = ?laps (length (items s))" using window laps_mono [of "Suc (unat h)" "wk_cview s L_tail" "wk_cap s" k] c(1) by simp
  have len: "length (wk_values s k) = Suc (?laps (length (items s)))" using i(2) by (simp add: values_ok_def)
  have "last (wk_values s k) = wk_pushed s ! unat h"
  proof -
    have "last (wk_values s k) = wk_values s k ! Suc (?laps (unat h))" using len window k by (subst last_conv_nth) auto
    also have "\<dots> = items s ! unat h" using i(2) c(2) le unfolding k by (simp add: values_ok_def)
    finally show ?thesis using c(2) le by (simp add: items_def nth_append)
  qed
  then show "wk_cview s (L_value (wk_slot h s)) = length (wk_values s (wk_slot h s)) - 1" "last (wk_values s (wk_slot h s)) = wk_pushed s ! unat h"
    using view len by (simp_all add: k_def [symmetric])
qed

lemma pop_read_inv:
  assumes inv: "weak_inv s" and pc: "wk_cpc s = C_read h"
  shows "weak_inv (read_value (wk_slot h s) (s\<lparr>wk_cpc := C_clear h\<rparr>))"
proof -
  note i = weak_invD [OF inv]
  define k where "k = wk_slot h s"
  define r where "r = Suc (wk_reads s k)"
  let ?V = "(wk_cview s)(L_reads k := r)"
  let ?s = "s\<lparr>wk_cpc := C_clear h, wk_delivered := wk_delivered s @ [wk_pushed s ! unat h], wk_reads := (wk_reads s)(k := r), wk_cview := ?V\<rparr>"
  have k: "k = unat h mod wk_cap s" by (simp add: k_def wk_slot_def)
  have c: "unat h < wk_cview s L_tail" "unat h < length (wk_claims s)" "wk_claims s ! unat h" "wk_flags s ! unat h = latest s (L_flag k)"
    using i(8) pc unfolding k_def by simp_all
  have kc: "known s (wk_cview s)" using i(4) by (simp add: all_known_def)
  have s': "read_value (wk_slot h s) (s\<lparr>wk_cpc := C_clear h\<rparr>) = ?s" using i(9) claimed_value [OF inv pc] by (simp add: read_value_def k_def [symmetric] r_def)
  have items: "items ?s = items s" by (simp add: items_def)
  have latest: "latest ?s l = (if l = L_reads k then r else latest s l)" for l by (cases l) (auto simp: items)
  have up: "latest s l \<le> latest ?s l" for l unfolding latest by (simp add: r_def)
  have old: "known s W \<Longrightarrow> known ?s W" for W by (rule known_mono [OF _ _ up]) simp_all
  have "known ?s ?V" using kc unfolding known_def latest by auto
  then have "all_known ?s" using i(4) old by (simp add: all_known_def)
  moreover have "histories_ok ?s" using i(1) by (simp add: histories_ok_def)
  moreover have "values_ok ?s" using i(2) by (simp add: values_ok_def items)
  moreover have "own_views ?s" using i(5) unfolding own_views_def latest by auto
  moreover have "reads_done ?s"
  proof -
    have "\<not> announced k e s" if "e < length (wk_hist s (L_flag k))" for e using that c(2,3,4) k by (auto simp: announced_def)
    then show ?thesis using i(6) by (auto simp: reads_done_def announced_def)
  qed
  moreover have "flags_alternate ?s" using i(3) pc by (simp add: flags_alternate_def raised_def wk_slot_def)
  moreover have "pc_producer ?s (wk_ppc s)"
    using i(7) read_not_announced [OF inv pc] by (cases "wk_ppc s") (auto simp: wk_slot_def announced_def k)
  ultimately show ?thesis unfolding s' weak_inv_def using i(9,10) pc by simp
qed

subsection \<open>Every execution\<close>

lemma push_step_inv:
  assumes inv: "weak_inv s" and step: "weak_push_step acquire_orders k s = Some s'" and small: "length (wk_pushed s') < 2 ^ 64"
  shows "weak_inv s'"
proof (cases "wk_ppc s")
  case (P_cas x t h)
  show ?thesis
  proof (cases "cas_succeeds k h s")
    case True
    then show ?thesis using step push_cas_succeeds_inv [OF inv P_cas True] by (simp add: weak_push_step_def P_cas)
  next
    case False
    then have "cas_fails k h s" "p_load Acquire L_head k (\<lambda>_. P_spin x t) s = Some s'"
      using step by (simp_all add: weak_push_step_def P_cas acquire_orders_def split: if_splits)
    then show ?thesis using push_cas_fails_inv [OF inv P_cas] by simp
  qed
next
  case (P_store x t)
  then have "s' = p_store Release L_tail (t + 1) (s\<lparr>wk_ppc := P_gen, wk_pushed := wk_pushed s @ [x]\<rparr>)" using step by (simp add: weak_push_step_def)
  moreover from this have "Suc (length (wk_pushed s)) < 2 ^ 64" using small by (simp add: p_store_def ra_store_def Let_def)
  ultimately show ?thesis using store_tail_inv [OF inv P_store] by simp
qed (use step push_load_tail_inv [OF inv] push_load_head_inv [OF inv] push_count_inv [OF inv] push_spin_inv [OF inv] write_slot_inv [OF inv] push_gen_inv [OF inv]
  in \<open>auto simp: weak_push_step_def\<close>)

lemma pop_step_inv:
  assumes inv: "weak_inv s" and step: "weak_try_pop_step acquire_orders k s = Some s'"
  shows "weak_inv s'"
proof (cases "wk_cpc s")
  case (C_cas h)
  then show ?thesis using step pop_cas_succeeds_inv [OF inv C_cas] pop_cas_fails_inv [OF inv C_cas] by (auto simp: weak_try_pop_step_def split: if_splits)
next
  case C_load_head
  then show ?thesis using step pop_load_head_inv [OF inv C_load_head] by (simp add: weak_try_pop_step_def acquire_orders_def)
next
  case (C_load_tail h)
  then show ?thesis using step pop_load_tail_inv [OF inv C_load_tail] by simp
qed (use step pop_flag_inv [OF inv] pop_lower_inv [OF inv] pop_read_inv [OF inv] in \<open>auto simp: weak_try_pop_step_def\<close>)

lemma call_inv:
  assumes "weak_inv s"
  shows "wk_ppc s = P_idle \<Longrightarrow> pc = P_load_tail x \<or> pc = P_gen \<Longrightarrow> weak_inv (s\<lparr>wk_ppc := pc\<rparr>)"
    "wk_cpc s = C_idle \<Longrightarrow> c = C_load_head \<or> c = W_first \<Longrightarrow> weak_inv (s\<lparr>wk_cpc := c\<rparr>)"
proof -
  have kn: "known s (wk_pview s)" "known s (wk_cview s)" using weak_invD(4) [OF assms] by (simp_all add: all_known_def)
  have "s\<lparr>wk_ppc := pc\<rparr> = s\<lparr>wk_pview := wk_pview s, wk_ppc := pc\<rparr>" "s\<lparr>wk_cpc := c\<rparr> = s\<lparr>wk_cview := wk_cview s, wk_cpc := c\<rparr>" by simp_all
  then show "wk_ppc s = P_idle \<Longrightarrow> pc = P_load_tail x \<or> pc = P_gen \<Longrightarrow> weak_inv (s\<lparr>wk_ppc := pc\<rparr>)"
    "wk_cpc s = C_idle \<Longrightarrow> c = C_load_head \<or> c = W_first \<Longrightarrow> weak_inv (s\<lparr>wk_cpc := c\<rparr>)"
    using producer_view_inv [OF assms kn(1), of pc] consumer_view_inv [OF assms kn(2), of c] by auto
qed

lemma weak_step_inv:
  assumes "weak_inv s" "weak_step acquire_orders e s = Some s'" "length (wk_pushed s') < 2 ^ 64"
  shows "weak_inv s'"
  using assms push_step_inv [OF assms(1)] pop_step_inv [OF assms(1)] wait_step_inv [OF assms(1)]
  by (cases e) (auto intro: call_inv split: if_splits option.splits)

text \<open>The capacity stays, and items are only added.\<close>

lemma weak_frame:
  "p_load ord l k f s = Some s' \<Longrightarrow> wk_cap s' = wk_cap s \<and> wk_pushed s' = wk_pushed s"
  "c_load ord l k g s = Some s' \<Longrightarrow> wk_cap s' = wk_cap s \<and> wk_pushed s' = wk_pushed s"
  "wk_cap (p_store ord l v s) = wk_cap s \<and> wk_pushed (p_store ord l v s) = wk_pushed s"
  "wk_cap (c_store ord l v s) = wk_cap s \<and> wk_pushed (c_store ord l v s) = wk_pushed s"
  "wk_cap (p_rmw ord l v s) = wk_cap s \<and> wk_pushed (p_rmw ord l v s) = wk_pushed s"
  "wk_cap (c_rmw ord l v s) = wk_cap s \<and> wk_pushed (c_rmw ord l v s) = wk_pushed s"
  "wk_cap (write_value j x s) = wk_cap s \<and> wk_pushed (write_value j x s) = wk_pushed s"
  "wk_cap (read_value j s) = wk_cap s \<and> wk_pushed (read_value j s) = wk_pushed s"
  by (auto simp: p_load_def c_load_def p_store_def c_store_def p_rmw_def c_rmw_def write_value_def read_value_def Let_def split: prod.splits)

lemma pushed_step:
  assumes "weak_step ords e s = Some s'"
  shows "wk_cap s' = wk_cap s \<and> length (wk_pushed s) \<le> length (wk_pushed s')"
proof -
  have "wk_cap s' = wk_cap s \<and> length (wk_pushed s) \<le> length (wk_pushed s')" if "weak_push_step ords k s = Some s'" for k
    using that by (auto simp: weak_push_step_def weak_frame(3-8) dest: weak_frame(1,2) split: ppc.splits if_splits)
  moreover have "wk_cap s' = wk_cap s \<and> wk_pushed s' = wk_pushed s" if "weak_try_pop_step ords k s = Some s'" for k
    using that by (auto simp: weak_try_pop_step_def weak_frame(3-8) dest: weak_frame(1,2) split: cpc.splits if_splits)
  moreover have "wk_cap s' = wk_cap s \<and> wk_pushed s' = wk_pushed s" if "weak_wait_step b k s = Some s'" for b k
    using that by (auto simp: weak_wait_step_def dest: weak_frame(1,2) split: cpc.splits if_splits)
  ultimately show ?thesis using assms by (cases e) (auto split: if_splits option.splits)
qed

lemma pushed_run: "weak_run ords es s = Some s' \<Longrightarrow> wk_cap s' = wk_cap s \<and> length (wk_pushed s) \<le> length (wk_pushed s')"
proof (induction es arbitrary: s)
  case (Cons e es)
  then obtain t where "weak_step ords e s = Some t" "weak_run ords es t = Some s'" by (auto split: option.splits)
  then show ?case using pushed_step [of ords e s t] Cons.IH [of t] by simp
qed simp

lemma weak_run_inv: "weak_run acquire_orders es s = Some s' \<Longrightarrow> weak_inv s \<Longrightarrow> length (wk_pushed s') < 2 ^ 64 \<Longrightarrow> weak_inv s'"
proof (induction es arbitrary: s)
  case (Cons e es)
  then obtain t where t: "weak_step acquire_orders e s = Some t" "weak_run acquire_orders es t = Some s'" by (auto split: option.splits)
  then have "length (wk_pushed t) < 2 ^ 64" using pushed_run [OF t(2)] Cons.prems(3) by simp
  then show ?case using Cons.IH [OF t(2)] weak_step_inv [OF Cons.prems(2) t(1)] Cons.prems(3) by blast
qed simp

subsection \<open>Properties\<close>

text \<open>
  The repair.  With the load of \<open>head_\<close> in \<open>try_pop\<close> and the failing compare-exchange in \<open>push\<close> as acquire operations, whatever the producer and the consumer do
  and whatever the loads return that the memory model allows: no access to a slot's value is a data race; the items delivered are those of the indices the consumer claimed, in the order
  in which they were pushed (the one being read apart); no index is claimed before its item is pushed; and at most the capacity of them is unclaimed.  Less than \<open>2 ^ 64\<close> items
  are pushed, so that the counters do not wrap.
\<close>

theorem acquire_orders_race_free:
  assumes "0 < cap" "cap < 2 ^ 64" "weak_run acquire_orders es (weak_init cap v) = Some s" "length (wk_pushed s) < 2 ^ 64"
  shows "\<not> wk_race s \<and> picked (wk_pushed s) (wk_claims s) = wk_delivered s @ in_flight (wk_pushed s) (wk_cpc s) \<and> subseq (wk_delivered s) (wk_pushed s) \<and>
     length (wk_claims s) \<le> length (wk_pushed s) \<and> length (wk_pushed s) \<le> cap + length (wk_claims s)"
proof -
  have inv: "weak_inv s" using weak_run_inv [OF assms(3) weak_init_inv [OF assms(1,2)] assms(4)] .
  note i = weak_invD [OF inv]
  have "length (wk_pushed s) \<le> wk_cap s + length (wk_claims s)" using i(5) views_bounded(1) [OF inv] by (simp add: own_views_def)
  moreover have "wk_cap s = cap" using pushed_run [OF assms(3)] by (simp add: weak_init_def)
  moreover have "subseq (wk_delivered s) (wk_pushed s)"
    using i(10) picked_subseq [of "wk_pushed s" "wk_claims s"] subseq_rev_drop_many [of "wk_delivered s" "wk_delivered s"] by (metis subseq_order.trans subseq_order.order_refl)
  ultimately show ?thesis using i(1,9,10) by (simp add: histories_ok_def)
qed

lemma handover_run: "\<exists>s. weak_run acquire_orders handover (weak_init 1 0) = Some s \<and> wk_pushed s = [7] \<and> wk_delivered s = [7] \<and> wk_claims s = [True]"
  by (simp add: handover_def first_push_def weak_eval numeral_eq_Suc acquire_orders_def)

theorem acquire_orders_race_free_witness:
  "\<exists>s. weak_run acquire_orders handover (weak_init 1 0) = Some s \<and> wk_pushed s = [7] \<and> wk_delivered s = [7] \<and> \<not> wk_race s \<and>
     picked (wk_pushed s) (wk_claims s) = wk_delivered s @ in_flight (wk_pushed s) (wk_cpc s) \<and> 1 \<le> 1 + length (wk_claims s)"
proof -
  obtain s where s: "weak_run acquire_orders handover (weak_init 1 0) = Some s" "wk_pushed s = [7]" "wk_delivered s = [7]" using handover_run by blast
  then show ?thesis using acquire_orders_race_free [of 1 handover 0 s] by auto
qed

end
