(* ===== verification/Ring_Weak_Source.thy ===== *)
theory Ring_Weak_Source
  imports Ring_Weak_Safety
begin

text \<open>
  What the ring buffer guarantees with the memory orders of the code, \<open>source_orders\<close>.  The races of \<open>source_orders_race\<close> both need an eviction.  As long as no push meets a
  full buffer the consumer is the only one to change \<open>head_\<close>; its relaxed load then returns its own last write, and the invariant of \<open>Ring_Weak_Safety\<close> holds.  With
  evictions the counters still account for every item, since each change of \<open>head_\<close> is a compare-exchange that succeeds once.
\<close>

subsection \<open>Accounting\<close>

text \<open>How many claimed items the consumer has not read yet, and how many evicted ones the producer has not counted yet.\<close>

fun being_read :: "cpc \<Rightarrow> nat" where
  "being_read (C_read h) = 1"
| "being_read _ = 0"

fun being_counted :: "'a ppc \<Rightarrow> nat" where
  "being_counted (P_count x t) = 1"
| "being_counted _ = 0"

text \<open>The value of \<open>tail_\<close> that a push works with.\<close>

fun push_index :: "'a ppc \<Rightarrow> u64 option" where
  "push_index (P_load_head x t) = Some t"
| "push_index (P_cas x t h) = Some t"
| "push_index (P_count x t) = Some t"
| "push_index (P_spin x t) = Some t"
| "push_index (P_write x t) = Some t"
| "push_index (P_store x t) = Some t"
| "push_index _ = None"

text \<open>The messages of a location are \<open>0, 1, \<dots>, n\<close>; no view knows of a value of \<open>tail_\<close> beyond \<open>n\<close>.\<close>

definition counts_up :: "(wloc, u64) history \<Rightarrow> wloc \<Rightarrow> nat \<Rightarrow> bool" where
  "counts_up h l n \<longleftrightarrow> length (h l) = Suc n \<and> (\<forall>j \<le> n. fst (h l ! j) = of_nat j)"

definition tails_known :: "nat \<Rightarrow> (wloc, u64) history \<Rightarrow> wloc view \<Rightarrow> bool" where
  "tails_known n h V \<longleftrightarrow> V L_tail \<le> n \<and> (\<forall>W \<in> messages h. W L_tail \<le> n) \<and> (\<forall>l. h l \<noteq> [])"

definition accounts :: "'a weak \<Rightarrow> bool" where
  "accounts s \<longleftrightarrow> tails_known (length (wk_pushed s)) (wk_hist s) (wk_pview s) \<and> tails_known (length (wk_pushed s)) (wk_hist s) (wk_cview s) \<and>
     wk_pview s L_tail = length (wk_pushed s) \<and> counts_up (wk_hist s) L_tail (length (wk_pushed s)) \<and> counts_up (wk_hist s) L_head (length (wk_claims s)) \<and>
     length (filter id (wk_claims s)) = length (wk_delivered s) + being_read (wk_cpc s) \<and>
     of_nat (length (filter Not (wk_claims s))) = newest_message L_dropped (wk_hist s) + of_nat (being_counted (wk_ppc s)) \<and>
     (\<forall>t. push_index (wk_ppc s) = Some t \<longrightarrow> t = of_nat (length (wk_pushed s)))"

lemma accounts_init: "accounts (weak_init cap v)"
  by (auto simp: accounts_def weak_init_def tails_known_def counts_up_def messages_def newest_message_def)

subsection \<open>What the accesses keep\<close>

lemma newest_append [simp]: "newest_message l (h(l' := h l' @ [(v, W)])) = (if l = l' then v else newest_message l h)"
  by (simp add: newest_message_def)

lemma counts_up_other [simp]: "l \<noteq> l' \<Longrightarrow> counts_up (h(l' := xs)) l n = counts_up h l n"
  by (simp add: counts_up_def)

lemma counts_up_append: "counts_up h l n \<Longrightarrow> counts_up (h(l := h l @ [(of_nat (Suc n), W)])) l (Suc n)"
  by (auto simp: counts_up_def nth_append le_Suc_eq)

lemma counts_up_last:
  assumes "counts_up h l n"
  shows "k + 1 = length (h l) \<longleftrightarrow> k = n" "fst (h l ! n) = of_nat n"
  using assms by (auto simp: counts_up_def)

lemma tails_write:
  assumes "tails_known n h V" "W L_tail \<le> n" "V' L_tail \<le> n"
  shows "tails_known n (h(l := h l @ [(v, W)])) V'"
  using assms by (simp add: tails_known_def messages_append)

lemma tails_view:
  assumes "tails_known n h V" "V' L_tail \<le> n"
  shows "tails_known n h V'"
  using assms by (simp add: tails_known_def)

lemma load_tails:
  assumes "ra_load ord l k h V = Some (v, V')" "tails_known n h V" "length (h L_tail) = Suc n"
  shows "V' L_tail \<le> n" "V L_tail \<le> V' L_tail" "v = fst (h l ! k)" "k < length (h l)" "l = L_tail \<Longrightarrow> V L_tail \<le> k"
proof -
  note ld = load_any [OF assms(1)]
  have "snd (h l ! k) L_tail \<le> n" using assms(2) message_in [of k h l] ld(2) by (simp add: tails_known_def)
  then show "V' L_tail \<le> n" using ld assms(2,3) by (auto simp: tails_known_def)
  show "V L_tail \<le> V' L_tail" using ld(1,4) by auto
  show "v = fst (h l ! k)" "k < length (h l)" using ld(2,3) by simp_all
  show "l = L_tail \<Longrightarrow> V L_tail \<le> k" using ld(1) by simp
qed

lemma store_tails:
  assumes "l \<noteq> L_tail" "tails_known n h V"
  obtains W V' where "ra_store ord l v h V = (h(l := h l @ [(v, W)]), V')" "W L_tail \<le> n" "V' L_tail = V L_tail"
  using assms that by (auto simp: ra_store_def Let_def tails_known_def)

lemma rmw_tails:
  assumes "l \<noteq> L_tail" "tails_known n h V"
  obtains W V' where "ra_rmw ord l v h V = (h(l := h l @ [(v, W)]), V')" "W L_tail \<le> n" "V L_tail \<le> V' L_tail" "V' L_tail \<le> n"
proof -
  have "snd (last (h l)) L_tail \<le> n" using assms(2) last_message [of h l] by (simp add: tails_known_def)
  then show thesis using assms that by (auto simp: ra_rmw_def Let_def tails_known_def)
qed

subsection \<open>Every step keeps the accounts\<close>

lemma accountsD:
  assumes "accounts s"
  shows "tails_known (length (wk_pushed s)) (wk_hist s) (wk_pview s)" "tails_known (length (wk_pushed s)) (wk_hist s) (wk_cview s)"
    "wk_pview s L_tail = length (wk_pushed s)" "wk_cview s L_tail \<le> length (wk_pushed s)" "counts_up (wk_hist s) L_tail (length (wk_pushed s))"
    "counts_up (wk_hist s) L_head (length (wk_claims s))" "length (wk_hist s L_tail) = Suc (length (wk_pushed s))"
  using assms by (simp_all add: accounts_def counts_up_def tails_known_def)

lemma accounts_p_load:
  assumes acc: "accounts s" and step: "p_load ord l k f s = Some s'"
    and pc: "being_counted (wk_ppc s) = 0" "\<And>v. being_counted (f v) = 0" "\<And>v. push_index (f v) = (if l = L_tail then Some v else push_index (wk_ppc s))"
  shows "accounts s'"
proof -
  note a = accountsD [OF acc]
  obtain v V where ld: "ra_load ord l k (wk_hist s) (wk_pview s) = Some (v, V)" "s' = s\<lparr>wk_pview := V, wk_ppc := f v\<rparr>"
    using step by (auto simp: p_load_def)
  note t = load_tails [OF ld(1) a(1,7)]
  have "tails_known (length (wk_pushed s)) (wk_hist s) V" by (rule tails_view [OF a(1)]) (rule t(1))
  moreover have "V L_tail = length (wk_pushed s)" using t(1,2) a(3) by simp
  moreover have "v = of_nat (length (wk_pushed s))" if "l = L_tail"
  proof -
    have "k = length (wk_pushed s)" using that t(4,5) a(3,7) by simp
    then show ?thesis using t(3) that counts_up_last(2) [OF a(5)] by simp
  qed
  ultimately show ?thesis using acc pc by (simp add: ld(2) accounts_def)
qed

lemma accounts_c_load:
  assumes acc: "accounts s" and step: "c_load ord l k f s = Some s'" and pc: "being_read (wk_cpc s) = 0" "\<And>v. being_read (f v) = 0"
  shows "accounts s'"
proof -
  note a = accountsD [OF acc]
  obtain v V where ld: "ra_load ord l k (wk_hist s) (wk_cview s) = Some (v, V)" "s' = s\<lparr>wk_cview := V, wk_cpc := f v\<rparr>"
    using step by (auto simp: c_load_def)
  have "tails_known (length (wk_pushed s)) (wk_hist s) V" by (rule tails_view [OF a(2)]) (rule load_tails(1) [OF ld(1) a(2,7)])
  then show ?thesis using acc pc by (simp add: ld(2) accounts_def)
qed

text \<open>A write to a location other than \<open>tail_\<close>.\<close>

lemma accounts_write:
  assumes "accounts s" "W L_tail \<le> length (wk_pushed s)" "V L_tail \<le> length (wk_pushed s)" "wk_pview s L_tail \<le> U L_tail" "U L_tail \<le> length (wk_pushed s)" "l \<noteq> L_tail"
    and "\<And>h. h = (wk_hist s)(l := wk_hist s l @ [(v, W)]) \<Longrightarrow> counts_up h L_head (length cs) \<and> length (filter id cs) = length ds + being_read c \<and>
       of_nat (length (filter Not cs)) = newest_message L_dropped h + of_nat (being_counted p)"
    and "push_index p = None \<or> push_index p = push_index (wk_ppc s)"
  shows "accounts (s\<lparr>wk_hist := (wk_hist s)(l := wk_hist s l @ [(v, W)]), wk_pview := U, wk_cview := V, wk_ppc := p, wk_cpc := c, wk_claims := cs, wk_flags := fl, wk_delivered := ds\<rparr>)"
proof -
  note a = accountsD [OF assms(1)]
  let ?h = "(wk_hist s)(l := wk_hist s l @ [(v, W)])"
  have "tails_known (length (wk_pushed s)) ?h U" "tails_known (length (wk_pushed s)) ?h V"
    by (rule tails_write [OF a(1)]; use assms in simp)+
  moreover have "U L_tail = length (wk_pushed s)" using assms(4,5) a(3) by simp
  moreover have "counts_up ?h L_tail (length (wk_pushed s))" using a(5) assms(6) by simp
  ultimately show ?thesis using assms(1,8) assms(7) [OF refl] by (auto simp: accounts_def)
qed

lemma accounts_c_store:
  assumes acc: "accounts s" and pc: "being_read (wk_cpc s) = 0" "being_read c = 0"
  shows "accounts (c_store ord (L_flag i) v (s\<lparr>wk_cpc := c\<rparr>))"
proof -
  note a = accountsD [OF acc]
  obtain W V where st: "ra_store ord (L_flag i) v (wk_hist s) (wk_cview s) = ((wk_hist s)(L_flag i := wk_hist s (L_flag i) @ [(v, W)]), V)"
    "W L_tail \<le> length (wk_pushed s)" "V L_tail = wk_cview s L_tail"
    using store_tails [OF _ a(2), of "L_flag i" ord v] by blast
  show ?thesis using accounts_write [of s W V "wk_pview s" "L_flag i" v "wk_claims s" "wk_delivered s" c "wk_ppc s" "wk_flags s"] acc pc a st
    by (simp add: c_store_def accounts_def)
qed

lemma claim_counts:
  assumes acc: "accounts s" and cas: "cas_succeeds k head s"
  shows "counts_up ((wk_hist s)(L_head := wk_hist s L_head @ [(head + 1, W)])) L_head (Suc (length (wk_claims s)))"
proof -
  note up = accountsD(6) [OF acc]
  have "head + 1 = of_nat (Suc (length (wk_claims s)))" using cas counts_up_last [OF up] by (auto simp: cas_succeeds_def)
  then show ?thesis using counts_up_append [OF up] by metis
qed

lemma accounts_c_claim:
  assumes acc: "accounts s" and pc: "wk_cpc s = C_cas head" and cas: "cas_succeeds k head s"
  shows "accounts (c_rmw Acq_rel L_head (head + 1) (s\<lparr>wk_cpc := C_read head, wk_claims := wk_claims s @ [True], wk_flags := fl\<rparr>))"
proof -
  note a = accountsD [OF acc]
  obtain W V where st: "ra_rmw Acq_rel L_head (head + 1) (wk_hist s) (wk_cview s) = ((wk_hist s)(L_head := wk_hist s L_head @ [(head + 1, W)]), V)"
    "W L_tail \<le> length (wk_pushed s)" "V L_tail \<le> length (wk_pushed s)"
    using rmw_tails [OF _ a(2), of L_head Acq_rel "head + 1"] by blast
  show ?thesis using accounts_write [of s W V "wk_pview s" L_head "head + 1" "wk_claims s @ [True]" "wk_delivered s" "C_read head" "wk_ppc s" fl]
      acc pc a st claim_counts [OF acc cas, of W]
    by (simp add: c_rmw_def accounts_def)
qed

lemma accounts_p_claim:
  assumes acc: "accounts s" and pc: "wk_ppc s = P_cas x t head" and cas: "cas_succeeds k head s"
  shows "accounts (p_rmw Acq_rel L_head (head + 1) (s\<lparr>wk_ppc := P_count x t, wk_claims := wk_claims s @ [False], wk_flags := fl\<rparr>))"
proof -
  note a = accountsD [OF acc]
  obtain W V where st: "ra_rmw Acq_rel L_head (head + 1) (wk_hist s) (wk_pview s) = ((wk_hist s)(L_head := wk_hist s L_head @ [(head + 1, W)]), V)"
    "W L_tail \<le> length (wk_pushed s)" "wk_pview s L_tail \<le> V L_tail" "V L_tail \<le> length (wk_pushed s)"
    using rmw_tails [OF _ a(1), of L_head Acq_rel "head + 1"] by blast
  show ?thesis using accounts_write [of s W "wk_cview s" V L_head "head + 1" "wk_claims s @ [False]" "wk_delivered s" "wk_cpc s" "P_count x t" fl]
      acc pc a(4) st claim_counts [OF acc cas, of W]
    by (simp add: p_rmw_def accounts_def)
qed

lemma accounts_p_counter:
  assumes acc: "accounts s" and l: "l = L_dropped \<or> l = L_generation"
    and pc: "being_counted p = 0" "push_index p = None \<or> push_index p = push_index (wk_ppc s)"
      "being_counted (wk_ppc s) = (if l = L_dropped then 1 else 0)" "v = newest_message l (wk_hist s) + 1"
  shows "accounts (p_rmw ord l v (s\<lparr>wk_ppc := p\<rparr>))"
proof -
  note a = accountsD [OF acc]
  obtain W V where st: "ra_rmw ord l v (wk_hist s) (wk_pview s) = ((wk_hist s)(l := wk_hist s l @ [(v, W)]), V)"
    "W L_tail \<le> length (wk_pushed s)" "wk_pview s L_tail \<le> V L_tail" "V L_tail \<le> length (wk_pushed s)"
    using rmw_tails [OF _ a(1), of l ord v] l by blast
  have h: "counts_up h L_head (length (wk_claims s)) \<and> length (filter id (wk_claims s)) = length (wk_delivered s) + being_read (wk_cpc s) \<and>
      of_nat (length (filter Not (wk_claims s))) = newest_message L_dropped h + of_nat (being_counted p)" if "h = (wk_hist s)(l := wk_hist s l @ [(v, W)])" for h
    using acc pc(1,3,4) l unfolding that by (elim disjE) (simp_all add: accounts_def)
  have "l \<noteq> L_tail" using l by auto
  then have "accounts (s\<lparr>wk_hist := (wk_hist s)(l := wk_hist s l @ [(v, W)]), wk_pview := V, wk_cview := wk_cview s, wk_ppc := p, wk_cpc := wk_cpc s,
      wk_claims := wk_claims s, wk_flags := wk_flags s, wk_delivered := wk_delivered s\<rparr>)"
    by (intro accounts_write acc st(2-4) a(4) h pc(2))
  then show ?thesis using st(1) by (simp add: p_rmw_def accounts_def)
qed

lemma accounts_p_publish:
  assumes acc: "accounts s" and pc: "wk_ppc s = P_store x t"
  shows "accounts (p_store Release L_tail (t + 1) (s\<lparr>wk_ppc := P_gen, wk_pushed := wk_pushed s @ [x]\<rparr>))"
proof -
  note a = accountsD [OF acc]
  let ?n = "length (wk_pushed s)" and ?V = "(wk_pview s)(L_tail := Suc (length (wk_pushed s)))"
  let ?h = "(wk_hist s)(L_tail := wk_hist s L_tail @ [(t + 1, ?V)])"
  have st: "ra_store Release L_tail (t + 1) (wk_hist s) (wk_pview s) = (?h, ?V)" using a(7) by (simp add: ra_store_def Let_def)
  have more: "tails_known (Suc ?n) (wk_hist s) (wk_pview s)" using a(1) by (auto simp: tails_known_def intro: le_SucI)
  have "tails_known (Suc ?n) ?h ?V" "tails_known (Suc ?n) ?h (wk_cview s)" by (rule tails_write [OF more]; use a(4) in simp)+
  moreover have "t + 1 = of_nat (Suc ?n)" using acc pc by (simp add: accounts_def)
  then have "counts_up ?h L_tail (Suc ?n)" using counts_up_append [OF a(5)] by metis
  ultimately show ?thesis using acc pc st by (simp add: accounts_def p_store_def)
qed

lemma accounts_push_step:
  assumes acc: "accounts s" and step: "weak_push_step ords k s = Some s'"
  shows "accounts s'"
proof (cases "wk_ppc s")
  case (P_load_tail x)
  then show ?thesis using step accounts_p_load [OF acc] by (simp add: weak_push_step_def)
next
  case (P_load_head x t)
  have "p_load Acquire L_head k (\<lambda>head. if of_nat (wk_cap s) \<le> t - head then P_cas x t head else P_spin x t) s = Some s'"
    using step P_load_head by (simp add: weak_push_step_def)
  then show ?thesis by (rule accounts_p_load [OF acc]) (simp_all add: P_load_head)
next
  case (P_cas x t h)
  show ?thesis
  proof (cases "cas_succeeds k h s")
    case True
    then show ?thesis using step accounts_p_claim [OF acc P_cas True] by (auto simp: weak_push_step_def P_cas)
  next
    case False
    then have "p_load (wo_cas_failure ords) L_head k (\<lambda>_. P_spin x t) s = Some s'" using step by (simp add: weak_push_step_def P_cas split: if_splits)
    then show ?thesis by (rule accounts_p_load [OF acc]) (simp_all add: P_cas)
  qed
next
  case (P_count x t)
  then show ?thesis using step accounts_p_counter [OF acc, of L_dropped "P_spin x t"] by (auto simp: weak_push_step_def)
next
  case (P_spin x t)
  have "p_load Acquire (L_flag (wk_slot t s)) k (\<lambda>active. if active \<noteq> 0 then P_spin x t else P_write x t) s = Some s'" using step P_spin by (simp add: weak_push_step_def)
  then show ?thesis by (rule accounts_p_load [OF acc]) (simp_all add: P_spin)
next
  case (P_write x t)
  then show ?thesis using step acc by (auto simp: weak_push_step_def write_value_def Let_def accounts_def tails_known_def)
next
  case (P_store x t)
  then show ?thesis using step accounts_p_publish [OF acc P_store] by (simp add: weak_push_step_def)
next
  case P_gen
  then show ?thesis using step accounts_p_counter [OF acc, of L_generation P_idle] by (auto simp: weak_push_step_def)
qed (use step in \<open>simp add: weak_push_step_def\<close>)

lemma accounts_pop_step:
  assumes acc: "accounts s" and step: "weak_try_pop_step ords k s = Some s'"
  shows "accounts s'"
proof (cases "wk_cpc s")
  case C_load_head
  then show ?thesis using step accounts_c_load [OF acc] by (simp add: weak_try_pop_step_def)
next
  case (C_load_tail h)
  have "c_load Acquire L_tail k (\<lambda>tail. if tail = h then C_idle else C_flag h) s = Some s'" using step C_load_tail by (simp add: weak_try_pop_step_def)
  then show ?thesis by (rule accounts_c_load [OF acc]) (simp_all add: C_load_tail)
next
  case (C_cas h)
  then show ?thesis using step accounts_c_claim [OF acc C_cas] accounts_c_load [OF acc, of Relaxed L_head k "\<lambda>_. C_retract h" s']
    by (auto simp: weak_try_pop_step_def split: if_splits)
next
  case (C_read h)
  then show ?thesis using step acc by (auto simp: weak_try_pop_step_def read_value_def accounts_def tails_known_def)
qed (use step accounts_c_store [OF acc] in \<open>auto simp: weak_try_pop_step_def\<close>)

lemma accounts_wait_step:
  assumes acc: "accounts s" and step: "weak_wait_step b k s = Some s'"
  shows "accounts s'"
  using step by (cases "wk_cpc s") (auto simp: weak_wait_step_def split: if_splits elim!: accounts_c_load [OF acc])

lemma accounts_run: "weak_run ords es s = Some s' \<Longrightarrow> accounts s \<Longrightarrow> accounts s'"
proof (induction es arbitrary: s)
  case (Cons e es)
  then obtain t where t: "weak_step ords e s = Some t" "weak_run ords es t = Some s'" by (auto split: option.splits)
  have "accounts t"
    using t(1) accounts_push_step [OF Cons.prems(2)] accounts_pop_step [OF Cons.prems(2)] accounts_wait_step [OF Cons.prems(2)] Cons.prems(2)
    by (cases e) (auto simp: accounts_def split: if_splits option.splits)
  then show ?case using Cons.IH [OF t(2)] by simp
qed simp

subsection \<open>Executions without eviction\<close>

text \<open>No push of the execution finds the buffer full: the producer never gets to its compare-exchange.\<close>

fun evicting :: "'a ppc \<Rightarrow> bool" where
  "evicting (P_cas x t h) = True"
| "evicting _ = False"

fun never_full :: "weak_orders \<Rightarrow> 'a weak_event list \<Rightarrow> 'a weak \<Rightarrow> bool" where
  "never_full ords [] s = (\<not> evicting (wk_ppc s))"
| "never_full ords (e # es) s = (\<not> evicting (wk_ppc s) \<and> (case weak_step ords e s of None \<Rightarrow> True | Some s' \<Rightarrow> never_full ords es s'))"

text \<open>The consumer is the only one to have claimed items, so that it knows of the newest value of \<open>head_\<close> and of all pushes up to there.\<close>

definition consumer_alone :: "'a weak \<Rightarrow> bool" where
  "consumer_alone s \<longleftrightarrow> False \<notin> set (wk_claims s) \<and> being_counted (wk_ppc s) = 0 \<and> wk_cview s L_head = length (wk_claims s) \<and>
     length (wk_claims s) \<le> wk_cview s L_tail"

lemma never_full_start: "never_full ords es s \<Longrightarrow> \<not> evicting (wk_ppc s)"
  by (cases es) simp_all

lemma picked_all: "False \<notin> set cs \<Longrightarrow> length cs \<le> length P \<Longrightarrow> picked P cs = take (length cs) P"
proof (induction cs arbitrary: P)
  case (Cons b cs)
  then show ?case by (cases P) (auto simp: picked_def)
qed (simp add: picked_def)

lemma push_step_alone:
  assumes "weak_push_step ords k s = Some s'" "\<not> evicting (wk_ppc s)"
  shows "wk_claims s' = wk_claims s \<and> wk_cview s' = wk_cview s \<and> being_counted (wk_ppc s') = 0"
  using assms by (auto simp: weak_push_step_def p_load_def p_rmw_def p_store_def write_value_def Let_def split: ppc.splits prod.splits)

lemma c_load_claims:
  assumes "c_load ord l k f s = Some s'"
  shows "wk_claims s' = wk_claims s" "wk_ppc s' = wk_ppc s" "wk_cview s l' \<le> wk_cview s' l'"
  using assms load_any [of ord l k "wk_hist s" "wk_cview s"] by (fastforce simp: c_load_def)+

lemma alone_load: "consumer_alone s \<Longrightarrow> c_load ord l k f s = Some s' \<Longrightarrow> weak_inv s' \<Longrightarrow> consumer_alone s'"
  using c_load_claims [of ord l k f s s'] views_bounded(2) [of s'] unfolding consumer_alone_def by (metis order_antisym order_trans)

text \<open>With the relaxed load the consumer gets its own last write.\<close>

lemma relaxed_head_inv:
  assumes inv: "weak_inv s" and alone: "consumer_alone s" and pc: "wk_cpc s = C_load_head" and step: "c_load Relaxed L_head k C_load_tail s = Some s'"
  shows "weak_inv s'"
proof -
  obtain V where V: "s' = s\<lparr>wk_cview := V, wk_cpc := C_load_tail (fst (wk_hist s L_head ! k))\<rparr>" "known s V" "\<And>l'. wk_cview s l' \<le> V l'"
    "V L_tail = wk_cview s L_tail" "k < length (wk_hist s L_head)"
    using step by (rule c_load_head_relaxed [OF _ inv]) blast
  have "unat (fst (wk_hist s L_head ! k)) \<le> V L_tail" using head_message(1,2) [OF inv V(5)] V(4) alone by (simp add: consumer_alone_def)
  then show ?thesis unfolding V(1) using V(2,3) pc by (intro consumer_view_inv [OF inv]) auto
qed

lemma source_push_step_inv:
  assumes inv: "weak_inv s" and step: "weak_push_step source_orders k s = Some s'" and small: "length (wk_pushed s') < 2 ^ 64" and room: "\<not> evicting (wk_ppc s)"
  shows "weak_inv s'"
proof -
  have "weak_push_step acquire_orders k s = Some s'" using step room by (cases "wk_ppc s") (simp_all add: weak_push_step_def)
  then show ?thesis using push_step_inv [OF inv _ small] by simp
qed

lemma source_pop_step_inv:
  assumes inv: "weak_inv s" and alone: "consumer_alone s" and step: "weak_try_pop_step source_orders k s = Some s'"
  shows "weak_inv s'"
proof (cases "wk_cpc s = C_load_head")
  case True
  then show ?thesis using relaxed_head_inv [OF inv alone True, of k s'] step by (simp add: weak_try_pop_step_def source_orders_def)
next
  case False
  then have "weak_try_pop_step acquire_orders k s = Some s'" using step by (cases "wk_cpc s") (simp_all add: weak_try_pop_step_def)
  then show ?thesis using pop_step_inv [OF inv] by simp
qed

lemma pop_step_alone:
  assumes inv: "weak_inv s" "weak_inv s'" and alone: "consumer_alone s" and step: "weak_try_pop_step ords k s = Some s'"
  shows "consumer_alone s'"
proof (cases "\<exists>h. wk_cpc s = C_cas h \<and> cas_succeeds k h s")
  case True
  then obtain h where h: "wk_cpc s = C_cas h" "cas_succeeds k h s" by blast
  have u: "unat h = length (wk_claims s)" "length (wk_hist s L_head) = Suc (length (wk_claims s))"
    using cas_succeeds_head(1) [OF inv(1) h(2)] weak_invD(1) [OF inv(1)] by (simp_all add: histories_ok_def)
  have "unat h < wk_cview s L_tail" using weak_invD(8) [OF inv(1)] h(1) by simp
  then have "Suc (length (wk_claims s)) \<le> wk_cview s L_tail" using u(1) by simp
  moreover have "wk_claims s' = wk_claims s @ [True]" "wk_ppc s' = wk_ppc s" "wk_cview s' L_head = Suc (length (wk_claims s))" "wk_cview s L_tail \<le> wk_cview s' L_tail"
    using step h u(2) by (auto simp: weak_try_pop_step_def c_rmw_def ra_rmw_def Let_def)
  ultimately show ?thesis using alone by (simp add: consumer_alone_def)
next
  case False
  then show ?thesis using step alone alone_load [OF alone _ inv(2)]
    by (cases "wk_cpc s") (auto simp: weak_try_pop_step_def c_store_def ra_store_def read_value_def Let_def consumer_alone_def split: if_splits)
qed

lemma wait_step_alone:
  assumes "weak_inv s'" "consumer_alone s" "weak_wait_step b k s = Some s'"
  shows "consumer_alone s'"
  using assms(3) by (cases "wk_cpc s") (auto simp: weak_wait_step_def split: if_splits intro: alone_load [OF assms(2) _ assms(1)])

lemma source_step_inv:
  assumes inv: "weak_inv s" and alone: "consumer_alone s" and step: "weak_step source_orders e s = Some s'" and small: "length (wk_pushed s') < 2 ^ 64"
    and room: "\<not> evicting (wk_ppc s)"
  shows "weak_inv s' \<and> consumer_alone s'"
proof (cases e)
  case (Wk_producer k)
  then show ?thesis using step source_push_step_inv [OF inv _ small room, of k] push_step_alone [OF _ room, of source_orders k s'] alone by (simp add: consumer_alone_def)
next
  case (Wk_consumer b k)
  then show ?thesis
    using step source_pop_step_inv [OF inv alone, of k s'] pop_step_alone [OF inv _ alone, of s' source_orders k] wait_step_inv [OF inv, of b k s'] wait_step_alone [OF _ alone, of s' b k]
    by (auto split: option.splits)
qed (use step alone in \<open>auto intro: call_inv [OF inv] simp: consumer_alone_def split: if_splits\<close>)

lemma source_run_inv:
  "weak_run source_orders es s = Some s' \<Longrightarrow> never_full source_orders es s \<Longrightarrow> weak_inv s \<Longrightarrow> consumer_alone s \<Longrightarrow> length (wk_pushed s') < 2 ^ 64 \<Longrightarrow>
     weak_inv s' \<and> consumer_alone s'"
proof (induction es arbitrary: s)
  case (Cons e es)
  then obtain t where t: "weak_step source_orders e s = Some t" "weak_run source_orders es t = Some s'" by (auto split: option.splits)
  have "length (wk_pushed t) < 2 ^ 64" using pushed_run [OF t(2)] Cons.prems(5) by simp
  moreover have "\<not> evicting (wk_ppc s)" "never_full source_orders es t" using Cons.prems(2) t(1) by simp_all
  ultimately show ?case using Cons.IH [OF t(2)] source_step_inv [OF Cons.prems(3,4) t(1)] Cons.prems(5) by blast
qed simp

subsection \<open>Properties\<close>

text \<open>
  C4.  With the memory orders of the code, as long as no push meets a full buffer, whatever the producer and the consumer do and whatever the loads return that the memory model
  allows: no access to a slot's value is a data race; the items delivered, and the one being read, are the first items pushed, in the order of the pushes and without a gap; nothing is
  counted as dropped; no index is claimed before its item is pushed, and at most the capacity of them is unclaimed.  Less than \<open>2 ^ 64\<close> items are pushed, so that the counters
  do not wrap.  (\<open>source_orders_race\<close> shows that an eviction can end in a race.)
\<close>

theorem source_orders_safe_without_eviction:
  assumes "0 < cap" "cap < 2 ^ 64" "weak_run source_orders es (weak_init cap v) = Some s" "never_full source_orders es (weak_init cap v)" "length (wk_pushed s) < 2 ^ 64"
  shows "\<not> wk_race s \<and> wk_delivered s @ in_flight (wk_pushed s) (wk_cpc s) = take (length (wk_claims s)) (wk_pushed s) \<and>
     newest_message L_dropped (wk_hist s) = 0 \<and> length (wk_claims s) \<le> length (wk_pushed s) \<and> length (wk_pushed s) \<le> cap + length (wk_claims s)"
proof -
  have "consumer_alone (weak_init cap v)" by (simp add: consumer_alone_def weak_init_def)
  then have inv: "weak_inv s" "consumer_alone s" using source_run_inv [OF assms(3,4) weak_init_inv [OF assms(1,2)] _ assms(5)] by simp_all
  note i = weak_invD [OF inv(1)]
  have all: "False \<notin> set (wk_claims s)" "being_counted (wk_ppc s) = 0" "length (wk_claims s) \<le> length (wk_pushed s)"
    using inv(2) i(1) by (simp_all add: consumer_alone_def histories_ok_def)
  have "accounts s" by (rule accounts_run [OF assms(3) accounts_init])
  moreover have "filter Not (wk_claims s) = []" using all(1) by (metis (full_types) filter_empty_conv)
  ultimately have "newest_message L_dropped (wk_hist s) = 0" using all(2) by (simp add: accounts_def)
  moreover have "length (wk_pushed s) \<le> wk_cap s + length (wk_claims s)" using i(5) views_bounded(1) [OF inv(1)] by (simp add: own_views_def)
  moreover have "wk_cap s = cap" using pushed_run [OF assms(3)] by (simp add: weak_init_def)
  ultimately show ?thesis using i(9,10) picked_all [OF all(1,3)] all(3) by simp
qed

text \<open>Three items through a buffer of two slots, the third one pushed when the first has been taken.\<close>

definition two_slots :: "nat weak_event list" where
  "two_slots = first_push @ [Wk_push 8, Wk_producer 1, Wk_producer 0, Wk_producer 0, Wk_producer 0, Wk_producer 0, Wk_producer 0] @
     [Wk_try_pop, Wk_consumer True 0, Wk_consumer True 1, Wk_consumer True 0, Wk_consumer True 0, Wk_consumer True 0, Wk_consumer True 0] @
     [Wk_push 9, Wk_producer 2, Wk_producer 1, Wk_producer 2, Wk_producer 0, Wk_producer 0, Wk_producer 0]"

lemma first_push_events: "first_push = [Wk_push 7, Wk_producer 0, Wk_producer 0, Wk_producer 0, Wk_producer 0, Wk_producer 0, Wk_producer 0]"
  by (simp add: first_push_def numeral_eq_Suc)

lemma two_slots_run: "\<exists>s. weak_run source_orders two_slots (weak_init 2 0) = Some s \<and> never_full source_orders two_slots (weak_init 2 0) \<and>
    wk_pushed s = [7, 8, 9] \<and> wk_delivered s = [7] \<and> wk_claims s = [True] \<and> wk_cpc s = C_idle"
  by (simp add: two_slots_def first_push_events weak_eval source_orders_def word_le_nat_alt)

theorem source_orders_safe_without_eviction_witness:
  "\<exists>s. weak_run source_orders two_slots (weak_init 2 0) = Some s \<and> wk_pushed s = [7, 8, 9] \<and> wk_delivered s = [7] \<and> \<not> wk_race s \<and>
     wk_delivered s @ in_flight (wk_pushed s) (wk_cpc s) = take (length (wk_claims s)) (wk_pushed s) \<and> newest_message L_dropped (wk_hist s) = 0"
proof -
  obtain s where s: "weak_run source_orders two_slots (weak_init 2 0) = Some s" "never_full source_orders two_slots (weak_init 2 0)" "wk_pushed s = [7, 8, 9]" "wk_delivered s = [7]"
    using two_slots_run by blast
  then show ?thesis using source_orders_safe_without_eviction [of 2 two_slots 0 s] by auto
qed

text \<open>
  C5.  With the memory orders of the code, evictions included, whatever the loads return: every change of \<open>head_\<close> and of \<open>tail_\<close> adds one, no value is written twice;
  \<open>tail_\<close> is the number of items pushed; \<open>head_\<close> has advanced once for every item delivered or being read and once for every item dropped; and \<open>dropped()\<close> is the
  number of the latter, modulo \<open>2 ^ 64\<close>, but for the one that the producer is just about to count.  So no index is claimed twice and no drop goes uncounted, in any
  execution.  (Which value a claimed index delivers is another matter: see \<open>source_orders_race\<close>.)
\<close>

theorem source_orders_accounting:
  assumes "weak_run source_orders es (weak_init cap v) = Some s"
  shows "(\<forall>j < length (wk_hist s L_tail). fst (wk_hist s L_tail ! j) = of_nat j) \<and> length (wk_hist s L_tail) = length (wk_pushed s) + 1 \<and>
     (\<forall>j < length (wk_hist s L_head). fst (wk_hist s L_head ! j) = of_nat j) \<and>
     (\<exists>drops. length (wk_hist s L_head) = length (wk_delivered s) + being_read (wk_cpc s) + drops + 1 \<and>
        of_nat drops = newest_message L_dropped (wk_hist s) + of_nat (being_counted (wk_ppc s)))"
proof -
  have acc: "accounts s" by (rule accounts_run [OF assms accounts_init])
  have "length (filter id (wk_claims s)) + length (filter Not (wk_claims s)) = length (wk_claims s)"
    using sum_length_filter_compl [of id "wk_claims s"] by (simp add: comp_def)
  then have "length (wk_hist s L_head) = length (wk_delivered s) + being_read (wk_cpc s) + length (filter Not (wk_claims s)) + 1"
    using acc by (simp add: accounts_def counts_up_def)
  then show ?thesis using acc unfolding accounts_def counts_up_def by (intro conjI exI [of _ "length (filter Not (wk_claims s))"]) auto
qed

theorem source_orders_accounting_witness:
  "\<exists>s. weak_run source_orders stale_tail (weak_init 1 0) = Some s \<and> length (wk_hist s L_tail) = length (wk_pushed s) + 1 \<and>
     (\<exists>drops. length (wk_hist s L_head) = length (wk_delivered s) + being_read (wk_cpc s) + drops + 1 \<and>
        of_nat drops = newest_message L_dropped (wk_hist s) + of_nat (being_counted (wk_ppc s)))"
proof -
  obtain s where "weak_run source_orders stale_tail (weak_init 1 0) = Some s" using stale_tail_races [of source_orders] by (auto simp: source_orders_def)
  then show ?thesis using source_orders_accounting [of stale_tail 1 0 s] by blast
qed

end
