(* ===== verification/Shard_Orphans.thy ===== *)
theory Shard_Orphans
  imports Feed_Properties
begin

text \<open>
  Orders that rest in a book without a route.  \<open>demux\<close> moves the route of a Replace from the old identifier to the new one before the book has seen the message.  When the
  book then rejects it, because the new identifier is resting too, the old order stays in the book, and nothing can reach it there any more: this is an invariant of the executions of
  the pipeline as long as no later packet introduces the identifier again.
\<close>

text \<open>The messages that refer to an order which has to exist, and the packets that give an order a route.\<close>

fun refers_to :: "OrderId \<Rightarrow> DecodedMessage \<Rightarrow> bool" where
  "refers_to i (AddMsg m) = False"
| "refers_to i (CancelMsg m) = (cxl_order_id m = i)"
| "refers_to i (ExecuteMsg m) = (exe_order_id m = i)"
| "refers_to i (ReplaceMsg m) = (rep_old_order_id m = i)"

fun introduces :: "OrderId \<Rightarrow> DecodedMessage \<Rightarrow> bool" where
  "introduces i (AddMsg m) = (add_order_id m = i)"
| "introduces i (ReplaceMsg m) = (rep_new_order_id m = i)"
| "introduces i _ = False"

fun brings_back :: "OrderId \<Rightarrow> system_event \<Rightarrow> bool" where
  "brings_back i (Demux raw t) = (case decode raw of Some (Inr m) \<Rightarrow> introduces i m | _ \<Rightarrow> False)"
| "brings_back i _ = False"

definition orphaned :: "OrderId \<Rightarrow> nat \<Rightarrow> Symbol \<Rightarrow> system \<Rightarrow> bool" where
  "orphaned old i ticker S \<longleftrightarrow> i < num_shards S \<and> map_of (sp_order_route (pipeline S)) old = None \<and>
     has_order old (book_at (shard_at S i) ticker) \<and> (\<forall>qm \<in> set (rb_contents (sh_queue (shard_at S i))). \<not> refers_to old (qm_message qm))"

subsection \<open>What keeps an order resting, and without a route\<close>

lemma spec_reduce_ids: "map ro_order_id (spec_reduce j q L) = map ro_order_id L"
  by (simp add: spec_reduce_def)

lemma spec_keeps:
  assumes "i \<in> ro_order_id ` set L" "\<not> refers_to i m"
  shows "i \<in> ro_order_id ` set (snd (spec_apply m L))"
proof -
  have "i \<in> ro_order_id ` set (spec_remove j L)" if "j \<noteq> i" for j using assms(1) that by (auto simp: spec_remove_def)
  moreover have "ro_order_id ` set (spec_reduce j q L) = ro_order_id ` set L" for j q using arg_cong [OF spec_reduce_ids [of j q L], of set] by simp
  ultimately show ?thesis using assms by (cases m) (auto simp: Let_def split: option.splits)
qed

lemma apply_keeps_order:
  assumes "book_ok b" "apply_msg m b = Some (r, b')" "has_order i b" "\<not> refers_to i m"
  shows "has_order i b'"
proof -
  obtain r1 b1 where b1: "apply_msg m b = Some (r1, b1)" "book_ok b1" "spec_apply m (book_orders b) = (outcome_deltas r1, book_orders b1)"
    using book_stepE [OF assms(1)] .
  moreover have "i \<in> ro_order_id ` set (book_orders b)" using assms(3) has_order_iff [OF assms(1)] by (simp add: spec_find_None)
  ultimately have "i \<in> ro_order_id ` set (book_orders b1)" using spec_keeps [OF _ assms(4), of "book_orders b"] by simp
  then show ?thesis using b1 assms(2) has_order_iff [OF b1(2)] by (simp add: spec_find_None)
qed

lemma route_stays_away:
  assumes "map_of routes i = None" "distinct (map fst routes)" "route_message n m routes = Inr (route, routes')" "\<not> introduces i m"
  shows "map_of routes' i = None" "\<not> refers_to i m"
  using assms by (cases m; auto simp: Let_def update_conv delete_conv split: option.splits)+

lemma no_route_refused:
  assumes "map_of routes i = None" "refers_to i m"
  shows "route_message n m routes = Inl UnroutableOrderId"
  using assms by (cases m) auto

lemma cleanup_stays_away: "map_of routes i = None \<Longrightarrow> map_of (cleanup_route m b routes) i = None"
  by (cases m) (simp_all add: delete_conv)

subsection \<open>Every event keeps the orphan\<close>

lemma orphaned_demux:
  assumes inv: "system_inv S" and orphan: "orphaned old i ticker S" and new: "\<not> brings_back old (Demux raw t)" and step: "system_step now (Demux raw t) S = Some S'"
  shows "orphaned old i ticker S'"
proof -
  have ok: "sp_ok (pipeline S)" using inv by (simp add: system_inv_def)
  have o: "i < num_shards S" "map_of (sp_order_route (pipeline S)) old = None" using orphan by (simp_all add: orphaned_def)
  show ?thesis
  proof (cases "\<exists>m route routes'. decode raw = Some (Inr m) \<and> route_message (num_shards S) m (sp_order_route (pipeline S)) = Inr (route, routes')")
    case True
    then obtain m route routes' where m: "decode raw = Some (Inr m)" and r: "route_message (num_shards S) m (sp_order_route (pipeline S)) = Inr (route, routes')" by blast
    let ?j = "rt_shard_index route"
    obtain sp' qm q' where run: "demux now raw t (pipeline S) = Some (Inr ?j, sp')" "sp_order_route sp' = routes'" "?j < num_shards S" "qm_message qm = m"
      and push: "push qm (sh_queue (shard_at S ?j)) = Some q'"
      and shards: "sp_shards sp' = (sp_shards (pipeline S))[?j := (shard_at S ?j)\<lparr>sh_queue := q'\<rparr>]"
      using demux_routed [OF ok m r, of now t] by metis
    have "distinct (map fst (sp_order_route (pipeline S)))" using ok by (simp add: sp_ok_def routes_ok_def)
    then have away: "map_of routes' old = None" "\<not> refers_to old m" using route_stays_away [OF o(2) _ r] new m by simp_all
    have "ring_ok (sh_queue (shard_at S ?j))" using ok run(3) by (simp add: sp_ok_def shard_ok_def)
    then have "rb_contents q' = newest (rb_capacity (sh_queue (shard_at S ?j))) (rb_contents (sh_queue (shard_at S ?j)) @ [qm])"
      using push_ok [of "sh_queue (shard_at S ?j)" qm] push by (metis option.inject)
    then have "set (rb_contents q') \<subseteq> insert qm (set (rb_contents (sh_queue (shard_at S ?j))))"
      using newest_subset [of _ "rb_contents (sh_queue (shard_at S ?j)) @ [qm]"] by simp
    moreover have "pipeline S' = sp'" using step run(1) by auto
    ultimately show ?thesis using orphan away run shards by (auto simp: orphaned_def nth_list_update)
  next
    case False
    obtain d where d: "decode raw = Some d" using decode_defined by blast
    obtain y where "demux now raw t (pipeline S) = Some (Inl y, (pipeline S)\<lparr>sp_ticks := Suc (sp_ticks (pipeline S))\<rparr>)"
    proof (cases d)
      case (Inr m)
      then obtain x where "route_message (num_shards S) m (sp_order_route (pipeline S)) = Inl x"
        using False d by (cases "route_message (num_shards S) m (sp_order_route (pipeline S))") auto
      then show thesis using that d Inr by (simp add: demux_def clock_now_def)
    qed (use that d in \<open>simp add: demux_def clock_now_def\<close>)
    then show ?thesis using step orphan by (auto simp: orphaned_def)
  qed
qed

lemma orphaned_process:
  assumes inv: "system_inv S" and orphan: "orphaned old i ticker S" and step: "system_step now (Process j) S = Some S'"
  shows "orphaned old i ticker S'"
proof (cases "j < num_shards S \<and> rb_contents (sh_queue (shard_at S j)) \<noteq> []")
  case True
  have ok: "sp_ok (pipeline S)" using inv by (simp add: system_inv_def)
  obtain qm qs where q: "rb_contents (sh_queue (shard_at S j)) = qm # qs" using True by (cases "rb_contents (sh_queue (shard_at S j))") auto
  obtain sp' s' r b' where run: "process_one now j (pipeline S) = Some (True, sp')" "sp_shards sp' = (sp_shards (pipeline S))[j := s']" "rb_contents (sh_queue s') = qs"
    and app: "apply_msg (qm_message qm) (book_at (shard_at S j) (qm_symbol qm)) = Some (r, b')" and books: "book_at s' = (book_at (shard_at S j))(qm_symbol qm := b')"
    and routes: "sp_order_route sp' = cleanup_route (qm_message qm) b' (sp_order_route (pipeline S))"
    using process_one_effect [OF ok _ q, of now] True by metis
  have "pipeline S' = sp'" using step run(1) True by (auto split: option.splits)
  moreover have "has_order old (book_at s' ticker)" if "j = i"
  proof -
    have "book_ok (book_at (shard_at S j) (qm_symbol qm))" using ok True by (simp add: sp_ok_def shard_ok_def)
    moreover have "\<not> refers_to old (qm_message qm)" using orphan q that by (simp add: orphaned_def)
    ultimately show ?thesis using apply_keeps_order [OF _ app, of old] books orphan that by (auto simp: orphaned_def)
  qed
  ultimately show ?thesis using orphan q run routes True by (auto simp: orphaned_def cleanup_stays_away nth_list_update)
next
  case False
  have ok: "sp_ok (pipeline S)" using inv by (simp add: system_inv_def)
  have "S' = S \<or> pipeline S' = pipeline S" if "j < num_shards S"
    using step False that process_one_idle [OF ok that, of now] by (auto split: option.splits)
  then show ?thesis using step orphan by (cases "j < num_shards S") (auto simp: orphaned_def)
qed

lemma orphaned_publish: "orphaned old i ticker S \<Longrightarrow> system_step now (Publish j) S = Some S' \<Longrightarrow> orphaned old i ticker S'"
  by (auto simp: orphaned_def nth_list_update split: if_splits prod.splits option.splits)

lemma orphaned_run:
  "system_inv S \<Longrightarrow> orphaned old i ticker S \<Longrightarrow> \<forall>e \<in> set es. \<not> brings_back old e \<Longrightarrow>
     \<exists>S'. system_run now es S = Some S' \<and> orphaned old i ticker S'"
proof (induction es arbitrary: S)
  case (Cons e es)
  obtain S1 where S1: "system_step now e S = Some S1" "system_inv S1"
    using demux_inv [OF Cons.prems(1)] process_inv [OF Cons.prems(1)] publish_inv [OF Cons.prems(1)] by (cases e) blast+
  have "orphaned old i ticker S1"
    using S1(1) orphaned_demux [OF Cons.prems(1,2)] orphaned_process [OF Cons.prems(1,2)] orphaned_publish [OF Cons.prems(2)] Cons.prems(3) by (cases e) auto
  then show ?case using Cons.IH [OF S1(2)] Cons.prems(3) S1(1) by simp
qed simp

subsection \<open>How an order is orphaned\<close>

lemma rejected_replace:
  assumes "has_order (rep_old_order_id m) b" "has_order (rep_new_order_id m) b"
  shows "apply_msg (ReplaceMsg m) b = Some (Inl DuplicateOrderId, b)"
  using assms by (auto simp: apply_replace_def has_order_def)

lemma replace_orphans:
  assumes inv: "system_inv S" and route: "map_of (sp_order_route (pipeline S)) old = Some \<lparr>rt_shard_index = i, rt_symbol = ticker\<rparr>"
    and empty: "rb_contents (sh_queue (shard_at S i)) = []"
    and rest: "has_order old (book_at (shard_at S i) ticker)" "has_order new (book_at (shard_at S i) ticker)" "old \<noteq> new"
    and m: "decode raw = Some (Inr (ReplaceMsg m))" "rep_old_order_id m = old" "rep_new_order_id m = new"
  obtains S2 where "system_run now [Demux raw t, Process i] S = Some S2" "system_inv S2" "orphaned old i ticker S2"
proof -
  let ?r = "\<lparr>rt_shard_index = i, rt_symbol = ticker\<rparr>"
  let ?routes = "AList.update new ?r (AList.delete old (sp_order_route (pipeline S)))"
  have ok: "sp_ok (pipeline S)" using inv by (simp add: system_inv_def)
  have rm: "route_message (num_shards S) (ReplaceMsg m) (sp_order_route (pipeline S)) = Inr (?r, ?routes)" using route m by simp
  obtain sp1 qm q' where run: "demux now raw t (pipeline S) = Some (Inr i, sp1)" "sp_order_route sp1 = ?routes" "i < num_shards S" "qm_message qm = ReplaceMsg m"
      "qm_symbol qm = ticker"
    and push: "push qm (sh_queue (shard_at S i)) = Some q'" and shards: "sp_shards sp1 = (sp_shards (pipeline S))[i := (shard_at S i)\<lparr>sh_queue := q'\<rparr>]"
    using demux_routed [OF ok m(1) rm, of now t] by (metis OrderRoute.select_convs)
  obtain S1 where S1: "system_step now (Demux raw t) S = Some S1" "system_inv S1" "num_shards S1 = num_shards S" using demux_inv [OF inv] by blast
  have p1: "pipeline S1 = sp1" using S1(1) run(1) by auto
  have rq: "ring_ok (sh_queue (shard_at S i))" using ok run(3) by (simp add: sp_ok_def shard_ok_def)
  have "rb_contents q' = [qm]" using push_ok [OF rq, of qm] push empty ring.capacity_pos [OF rq] by (auto simp: newest_def)
  then have c1: "rb_contents (sh_queue (shard_at S1 i)) = qm # []" and b1: "book_at (shard_at S1 i) = book_at (shard_at S i)"
    using p1 shards run(3) by simp_all
  have ok1: "sp_ok (pipeline S1)" using S1(2) by (simp add: system_inv_def)
  obtain sp2 s' r b' where p2: "process_one now i (pipeline S1) = Some (True, sp2)" "sp_shards sp2 = (sp_shards (pipeline S1))[i := s']" "rb_contents (sh_queue s') = []"
    and app: "apply_msg (ReplaceMsg m) (book_at (shard_at S1 i) ticker) = Some (r, b')" and books: "book_at s' = (book_at (shard_at S1 i))(ticker := b')"
    and routes: "sp_order_route sp2 = cleanup_route (ReplaceMsg m) b' (sp_order_route (pipeline S1))"
    using process_one_effect [OF ok1 _ c1, of now] S1(3) run(3,4,5) by metis
  have b': "b' = book_at (shard_at S i) ticker" using app rejected_replace [of m "book_at (shard_at S i) ticker"] rest m by (simp add: b1)
  obtain S2 where S2: "system_step now (Process i) S1 = Some S2" "system_inv S2" "num_shards S2 = num_shards S1" using process_inv [OF S1(2)] by blast
  have "pipeline S2 = sp2" using S2(1) p2(1) S1(3) run(3) by (auto split: option.splits)
  moreover have "map_of ?routes old = None" using rest(3) by (simp add: update_conv delete_conv)
  ultimately have "orphaned old i ticker S2" using p2 routes books b' rest(1) run(2,3) p1 S1(3) by (simp add: orphaned_def)
  then show thesis using that S1(1) S2(1,2) by simp
qed

subsection \<open>Property\<close>

text \<open>
  C29. A Replace that the book rejects orphans its order.  Take any reachable state in which two orders rest in the same book and nothing is queued for its shard, and a Replace of the one
  by the identifier of the other.  After it is routed and processed, whatever packets, iterations of the decoder threads and publications follow, as long as none of the packets is an Add of
  the old identifier or a Replace to it (which would give it a route again): the old order still rests in the book, and every packet that cancels, executes or replaces it is refused as unroutable and
  changes neither a shard nor the routing table.
\<close>

theorem rejected_replace_orphans_order:
  assumes "sharded_pipeline n = Inr sp" "system_run now es (system_init sp) = Some S"
    and "map_of (sp_order_route (pipeline S)) old = Some \<lparr>rt_shard_index = i, rt_symbol = ticker\<rparr>"
    and "rb_contents (sh_queue (shard_at S i)) = []"
    and "has_order old (book_at (shard_at S i) ticker)" "has_order new (book_at (shard_at S i) ticker)" "old \<noteq> new"
    and "decode raw = Some (Inr (ReplaceMsg m))" "rep_old_order_id m = old" "rep_new_order_id m = new"
    and "\<forall>e \<in> set later. \<not> brings_back old e"
  shows "\<exists>S'. system_run now (Demux raw t # Process i # later) S = Some S' \<and> has_order old (book_at (shard_at S' i) ticker) \<and>
     (\<forall>raw' m' t'. decode raw' = Some (Inr m') \<and> refers_to old m' \<longrightarrow>
        demux now raw' t' (pipeline S') = Some (Inl UnroutableOrderId, (pipeline S')\<lparr>sp_ticks := Suc (sp_ticks (pipeline S'))\<rparr>))"
proof -
  have inv: "system_inv S" using reachable_system [OF assms(1,2)] by simp
  obtain S2 where S2: "system_run now [Demux raw t, Process i] S = Some S2" "system_inv S2" "orphaned old i ticker S2"
    by (rule replace_orphans [OF inv assms(3-10)])
  obtain S' where S': "system_run now later S2 = Some S'" "orphaned old i ticker S'" using orphaned_run [OF S2(2,3) assms(11)] by blast
  have "system_run now (Demux raw t # Process i # later) S = Some S'" using S2(1) S'(1) by (auto split: bind_splits)
  moreover have "demux now raw' t' (pipeline S') = Some (Inl UnroutableOrderId, (pipeline S')\<lparr>sp_ticks := Suc (sp_ticks (pipeline S'))\<rparr>)"
    if "decode raw' = Some (Inr m')" "refers_to old m'" for raw' m' t'
    using that S'(2) no_route_refused [of "sp_order_route (pipeline S')" old m'] by (simp add: orphaned_def demux_def clock_now_def)
  ultimately show ?thesis using S'(2) by (auto simp: orphaned_def)
qed

text \<open>Two orders of one symbol, the replacement of the first by the second, and a later cancellation of the first.\<close>

definition orphan_adds :: "DecodedMessage list" where
  "orphan_adds = [overrun_add 1 1 Sell 101 11, overrun_add 2 2 Buy 102 12]"

definition orphan_replace :: ReplaceOrder where
  "orphan_replace = \<lparr>rep_seq_num = 3, rep_old_order_id = 1, rep_new_order_id = 2, rep_price = Int64 99, rep_quantity = 1, rep_timestamp = 3\<rparr>"

definition orphan_cancel :: DecodedMessage where
  "orphan_cancel = CancelMsg \<lparr>cxl_seq_num = 4, cxl_order_id = 1, cxl_timestamp = 4\<rparr>"

lemma orphan_decode:
  "decode (wire (ReplaceMsg orphan_replace)) = Some (Inr (ReplaceMsg orphan_replace))" "decode (wire orphan_cancel) = Some (Inr orphan_cancel)"
proof -
  have "msg_ok (ReplaceMsg orphan_replace)" "msg_ok orphan_cancel" by (simp_all add: orphan_replace_def orphan_cancel_def)
  then show "decode (wire (ReplaceMsg orphan_replace)) = Some (Inr (ReplaceMsg orphan_replace))" "decode (wire orphan_cancel) = Some (Inr orphan_cancel)"
    using decode_wire [of _ "[]"] by simp_all
qed

lemma orphan_view:
  "let v = fold lockstep orphan_adds ([], gap_detector_init, \<lambda>_. order_book_init); b = snd (snd v) (make_symbol ''AAPL'')
   in map_of (fst v) 1 = Some \<lparr>rt_shard_index = 0, rt_symbol = make_symbol ''AAPL''\<rparr> \<and> has_order 1 b \<and> has_order 2 b"
  by (simp add: orphan_adds_def overrun_add_def shard_for_symbol_def book_eval)

theorem rejected_replace_orphans_order_witness:
  "\<exists>S S'. system_run int (lockstep_events orphan_adds) (system_init demo_pipeline) = Some S \<and>
     system_run int [Demux (wire (ReplaceMsg orphan_replace)) 0, Process 0, Demux (wire orphan_cancel) 0, Publish 0] S = Some S' \<and>
     has_order 1 (book_at (shard_at S' 0) (make_symbol ''AAPL'')) \<and>
     demux int (wire orphan_cancel) 0 (pipeline S') = Some (Inl UnroutableOrderId, (pipeline S')\<lparr>sp_ticks := Suc (sp_ticks (pipeline S'))\<rparr>)"
proof -
  have "\<forall>m \<in> set orphan_adds. msg_ok m" by (simp add: orphan_adds_def overrun_add_def)
  then obtain S where run: "system_run int (lockstep_events orphan_adds) (system_init demo_pipeline) = Some S" and ok: "lockstep_ok S"
    and view: "shard_view S = fold lockstep orphan_adds (shard_view (system_init demo_pipeline))"
    using lockstep_run [OF demo_lockstep_ok] by blast
  have "shard_view (system_init demo_pipeline) = ([], gap_detector_init, \<lambda>_. order_book_init)"
    by (simp add: shard_view_def system_init_def demo_pipeline_def shard_init_def book_at_def fun_eq_iff)
  then have v: "fold lockstep orphan_adds ([], gap_detector_init, \<lambda>_. order_book_init) = shard_view S" using view by metis
  have S: "map_of (sp_order_route (pipeline S)) 1 = Some \<lparr>rt_shard_index = 0, rt_symbol = make_symbol ''AAPL''\<rparr>"
    "has_order 1 (book_at (shard_at S 0) (make_symbol ''AAPL''))" "has_order 2 (book_at (shard_at S 0) (make_symbol ''AAPL''))"
    using orphan_view unfolding Let_def v by (simp_all add: shard_view_def)
  have "\<forall>e \<in> set [Demux (wire orphan_cancel) 0, Publish 0]. \<not> brings_back 1 e" by (simp add: orphan_decode(2)) (simp add: orphan_cancel_def)
  from rejected_replace_orphans_order [OF demo_pipeline_init run S(1) _ S(2,3) _ orphan_decode(1) _ _ this, of 0] show ?thesis
    using run ok orphan_decode(2) by (fastforce simp: lockstep_ok_def orphan_replace_def orphan_cancel_def)
qed

end
