(* ===== verification/Spec2Isabelle.thy ===== *)
theory Spec2Isabelle
  imports Pool_Bytes Pipeline_Memory Allocation_Counts Benchmark_Output Ring_Weak_Source Shard_Orphans
begin

text \<open>
  A verification of the market data feed handler.

  \<^bold>\<open>The program.\<close>  A feed generator (\<open>io/feed_generator\<close>) plays the exchange: it emits encoded add, cancel, execute and replace
  messages and loses some of them.  The network thread (\<open>io/async_network_reader\<close>), a coroutine driven by a small reactor, hands every
  packet to \<open>ShardedPipeline::demux\<close> (\<open>io/shard_demux\<close>), which decodes it (\<open>protocol/\<close>), finds the shard of its symbol through the routing
  table of live orders and pushes it to the shard's ring buffer (\<open>concurrency/spsc_ring_buffer.hpp\<close>; when full it drops its oldest
  element).  A decoder thread per shard pops the messages, shows their sequence numbers to a gap detector
  (\<open>concurrency/gap_detector.hpp\<close>), applies them to the order book of the symbol (\<open>orderbook/order_book\<close>, whose containers take their nodes
  from the per-shard pools of \<open>orderbook/object_pool.hpp\<close>) and pushes the changed price levels to a second ring buffer.  A publisher thread
  per shard (\<open>publisher/\<close>) pops them and gives them to a sink.  \<open>PipelineRunner\<close> (\<open>io/pipeline_runner\<close>) owns the threads, may pin them
  (\<open>affinity/\<close>) and shuts them down stage by stage.

  \<^bold>\<open>Theories, in the order of their dependencies.\<close>

  \<^item> \<open>Prelude\<close>: types of machine words, signed 64-bit values \<open>int64\<close> with their order, windows of byte lists, shared list lemmas.
  \<^item> \<open>Byte_Order\<close> (\<open>protocol/byte_order.hpp\<close>): the little-endian accessors, \<open>None\<close> outside the buffer.  They are shown to write and read the
    little-endian digits and nothing else.
  \<^item> \<open>Message_Types\<close>, \<open>Codec\<close> (\<open>protocol/message_types.hpp\<close>, \<open>encoder\<close>, \<open>decoder\<close>): the messages as records, \<open>encode\<close> and \<open>decode\<close> with all
    their errors, against the wire format \<open>wire\<close>: \<open>decode\<close> accepts exactly the encodings (\<open>decode_iff_wire\<close>), is total, and
    returns each error under exactly its condition; \<open>encode\<close> writes exactly the encoding or nothing.
  \<^item> \<open>Gap_Detector\<close> (\<open>concurrency/gap_detector.hpp\<close>): the detector as a state machine on 64-bit words; it stays live iff the accepted
    numbers are consecutive, and every missing number is accounted for in the log.
  \<^item> \<open>Queue_Interface\<close>: the locale \<open>drop_oldest_queue\<close>, the contract of a bounded queue that evicts its oldest element, with the
    histories of pushed, popped and dropped elements; \<open>Ring_Buffer\<close> interprets it (\<open>ring\<close>) on the code's \<open>push\<close> and \<open>try_pop\<close>, run
    alone, and refines a list queue.
  \<^item> \<open>Ring_Concurrent\<close>: the same buffer with every shared access of \<open>push\<close>, \<open>try_pop\<close>, \<open>wait_for_data\<close> and \<open>notify_waiters\<close> as one atomic
    step and every interleaving of one producer, one consumer and outside notifications, as a step relation, on sequentially consistent memory.  No two
    conflicting accesses of a slot, no loss that is not counted, order of delivery, no lost wake-up by a push, a bounded spin.
  \<^item> \<open>Release_Acquire\<close>, \<open>Ring_Weak\<close>, \<open>Ring_Weak_Safety\<close>, \<open>Ring_Weak_Source\<close>: a memory with relaxed, acquire, release and read-modify-write accesses, where each thread has a view
    of the modification orders, and the buffer on it with the orders of the code.  Two of them are too weak: executions with a data race are shown for each.  What the
    code does guarantee: as long as no push meets a full buffer there is no data race and delivery is lossless and in order, and in every execution, evictions
    included, the counters account for every index of \<open>head_\<close> and \<open>tail_\<close>.  The invariant of \<open>Ring_Weak_Safety\<close> says what a thread knows that has seen a value of \<open>tail_\<close>, \<open>head_\<close>
    or a flag; with acquire in both places (a repair, not the code) it holds in every execution.
  \<^item> \<open>Stage_Shutdown\<close>: the loops of the decoder and publisher threads and the final flag and notification of the stage upstream,
    on top of \<open>Ring_Concurrent\<close>.  A thread leaves only when everything was delivered; a thread that sleeps is woken; the
    final notification can be lost between the check of the flag and the wait.
  \<^item> \<open>Ordered_Map\<close>, \<open>Order_Book\<close>, \<open>Order_Book_Refinement\<close>, \<open>Order_Book_Properties\<close> (\<open>orderbook/order_book\<close>): \<open>std::map\<close> as a sorted
    association list (locale \<open>ordered_map\<close> and its interpretation), the book with its two ladders, its order index and an explicit heap of list
    nodes, so that the iterators kept in the index are addresses.  Every operation refines a specification on the flat
    list of resting orders, deltas and errors included; published deltas rebuild the book; best prices, depth, price-time priority,
    exactness of the 32-bit totals.
  \<^item> \<open>Publisher\<close> (\<open>publisher/\<close>, \<open>concurrency/latency_trace.hpp\<close>): delta records, their text form (injective), the three sinks, draining
    a queue, and the latency samples.
  \<^item> \<open>Shard_Demux\<close>, \<open>Shard_Invariant\<close>, \<open>Shard_Properties\<close> (\<open>io/shard_demux\<close>): routing, \<open>demux\<close>, \<open>process_shard\<close>, \<open>process_pending\<close>; the
    invariant; and all interleavings of \<open>demux\<close>, processing and publishing with histories: the books are a function of
    the processed messages, published deltas rebuild the books, and the gap detector is live exactly when the processed messages are a contiguous
    block of the enqueued ones.
  \<^item> \<open>Object_Pool\<close>, \<open>Node_Budget\<close> (\<open>orderbook/object_pool.hpp\<close>, the constants of \<open>order_book.hpp\<close>): the locale \<open>block_allocator\<close> and its
    interpretation on the free list threaded through the blocks; no node is handed out twice, exhaustion is exact, the destructor
    returns all nodes; and how many nodes a shard needs.
  \<^item> \<open>Feed_Generator\<close>, \<open>Feed_Properties\<close> (\<open>io/feed_generator\<close>): the generator over an abstract random engine; its feed is coherent,
    and a lossless feed is routed completely, yet can leave a shard stale.
  \<^item> \<open>Shard_Orphans\<close>: the orders that a rejected replacement leaves in a book without a route, and that they stay unreachable.
  \<^item> \<open>Network_Reader\<close> (\<open>io/async_network_reader\<close>): reactor and coroutine; equivalent to a plain loop, and always ends.
  \<^item> \<open>Thread_Affinity\<close>, \<open>Pipeline_Runner\<close> (\<open>affinity/\<close>, \<open>io/pipeline_runner\<close>): the choice of processors, and the life cycle of the
    runner with exceptions, dangling sinks, termination and hanging joins as results.  Whether a thread body ends is a parameter there; the bodies
    themselves are in \<open>Stage_Shutdown\<close> and \<open>Pipeline_Threads\<close>.
  \<^item> \<open>Pipeline_Threads\<close>: all threads of a started runner together, one operation of a thread body per step, under every schedule; a run whose threads have
    all ended is complete, shard by shard, from the feed to the sinks.
  \<^item> \<open>Pool_Bytes\<close>: a pool down to the bytes of its storage, which refines the pool of \<open>Object_Pool\<close>; a client that writes only into the nodes it holds
    never damages the free list, another node or anything outside the storage.
  \<^item> \<open>Heap_Allocator\<close> (\<open>orderbook/test_alloc_counter.cpp\<close>, \<open>object_pool.hpp\<close>): the heap with the counting \<open>operator new\<close> and \<open>operator delete\<close>, and the
    locale \<open>node_allocator\<close>, the contract of a node allocator, with its interpretations on \<open>std::allocator\<close> (\<open>std_nodes\<close>) and on the pool
    allocator (\<open>pool_allocs\<close>).
  \<^item> \<open>Book_Template\<close>, \<open>Book_Memory\<close>, \<open>Book_Budget\<close>, \<open>Shard_Memory\<close> (\<open>OrderBookT<Alloc>\<close>): the book with the nodes and the bucket array that its
    containers hold, and with the exceptions of its allocations.  The lemmas of \<open>Book_Memory\<close> are proved once in \<open>node_allocator\<close> (no memory is touched that
    is not held, the book behaves as with unlimited memory); \<open>counting_allocator\<close> extends the locale by what a node costs in heap
    calls and when a request must succeed.  The books of a shard share its pools: they never share a node, exhaustion is exact, and the hot path
    makes no heap call.
  \<^item> \<open>Book_Destruction\<close>, \<open>Pipeline_Memory\<close>: the end of the books, which give back every node and array, and all shards of a pipeline on their pools under every
    interleaving.  The allocator of a shard is interpreted in \<open>node_allocator\<close> once more (\<open>pool_frames\<close>), with a memory state that fixes the nodes of the
    other shards, so that all lemmas on books carry over to a shard among others.
  \<^item> \<open>Allocation_Bench\<close>, \<open>Allocation_Counts\<close> (\<open>bench/allocation_bench.cpp\<close>): the workload of the benchmark keeps its working set; the counts and lines that it prints, for
    both allocators.
  \<^item> \<open>Double_Rounding\<close>, \<open>Latency_Bench\<close> (\<open>bench/latency_bench.cpp\<close>): rounding to 53 binary digits; the percentiles of the report are the exact
    nearest-rank ones, and every published delta is sampled once.
  \<^item> \<open>Console_Output\<close>, \<open>Pinning_Bench\<close>, \<open>Benchmark_Output\<close> (\<open>bench/pinning_bench.cpp\<close> and the output of both): what \<open>printf\<close> makes of strings, integers
    and doubles; the runs and the statistics of the pinning benchmark, with the accuracy of mean and standard deviation; the printed reports, whose
    tables can be read back.

  \<^bold>\<open>Conventions.\<close>  Machine integers are words of their width and wrap around; prices are \<open>int64\<close>.  \<open>None\<close> is undefined behaviour,
  an aborted assertion or a loop that does not end, and the theorems state that it does not occur; errors that the code returns are the
  left part of a sum.  Unordered maps are association lists; nothing depends on their order.  Logs and notifications that the code
  writes elsewhere are fields of the state.

  \<^bold>\<open>Parameters and bounds.\<close>  The clock is a function from the number of the reading to the time; the random engine, the stop flag as
  seen by the network thread and the results of the system calls are arguments, with their documented behaviour as named hypotheses
  (\<open>rng_ok\<close>, \<open>config_ok\<close>).  What the C++ implementation decides about memory is the record \<open>env\<close>: which calls of \<open>malloc\<close> succeed, the sizes of
  nodes and pools, and the number of buckets that a hash table takes; \<open>env_ok\<close> says that a table for \<open>n\<close> elements has at least \<open>n\<close> buckets (the
  maximal load factor is 1), \<open>unlimited\<close> that \<open>malloc\<close> never fails.  A ring buffer has a capacity that divides \<open>2 ^ 64\<close> (in the program 4096), so that its wrapping
  counters stay consistent for ever; where a theorem counts elements by a 64-bit counter it says that fewer than \<open>2 ^ 64\<close> were
  pushed.  No definition takes fuel: all loops are shown to end, the partial functions \<open>run_until\<close> and \<open>symbols_loop\<close> by
  \<open>network_thread_equals_plain_loop\<close> and \<open>latency_bench_samples\<close> (the latter if the engine ever draws 64 different words).
  Interleavings are sequentially consistent, except in \<open>Ring_Weak\<close>, \<open>Ring_Weak_Safety\<close> and \<open>Ring_Weak_Source\<close>, which have the ring buffer by itself.

  \<^bold>\<open>Not modelled.\<close>  The effects of weaker memory orders outside the operations of a ring buffer (the flags of the shutdown, the counters that other threads read, and
  wake-ups); relaxed stores that would enter a modification order before its end, which cannot happen with one writer per location; the memory of containers other than those of the books (the map of the books, the routing table, vectors
  of samples), which comes from the heap; the destruction of a book after an exception; the state of a book after an exception is defined, but the
  threads that meet one end the program (\<open>std::terminate\<close>), which \<open>Pipeline_Threads\<close> leaves out: it has books with unlimited memory.  Overflow, subnormal and
  signed zero doubles; what a benchmark has printed when an exception ends it; the tests, the build and the container files.
\<close>

end
